(* ===== verification/Pickle_Prelude.thy ===== *)
theory Pickle_Prelude
  imports Main "HOL-Library.Multiset" "HOL-Library.List_Lexorder" "HOL-Library.Char_ord"
begin

text \<open>
  Shared vocabulary of the development: the types the engine and the service pass around,
  Go's slice operations and comparator sorts, the decimal rendering of integers, and the
  generic list facts the component theories use.
\<close>

section \<open>Types\<close>

text \<open>
  Player ids are Go strings, read as byte lists; Go compares strings bytewise, which is the
  lexicographic order of \<open>List_Lexorder\<close> over \<open>Char_ord\<close>.
  A \<open>[]string\<close> that may be nil (a bracket side that is still to be decided) is an option.
\<close>

type_synonym pid = string
type_synonym side = "pid list option"

named_theorems perm_simps \<open>permutation facts, as multiset equations\<close>
named_theorems len_simps \<open>length equations of the model's list functions\<close>

section \<open>Comparator sorts (Go's sort.Slice and sort.SliceStable)\<close>

text \<open>
  A Go sort takes a less function. \<open>sort_by\<close> is the stable insertion sort for it; where
  the less function is total on the elements, every sorted permutation is this one
  (\<open>sorted_perm_unique\<close> below), so the unstable sort.Slice returns it too.
\<close>

fun insert_by :: "('a \<Rightarrow> 'a \<Rightarrow> bool) \<Rightarrow> 'a \<Rightarrow> 'a list \<Rightarrow> 'a list" where
  "insert_by lt x [] = [x]"
| "insert_by lt x (y # ys) = (if lt y x then y # insert_by lt x ys else x # y # ys)"

fun sort_by :: "('a \<Rightarrow> 'a \<Rightarrow> bool) \<Rightarrow> 'a list \<Rightarrow> 'a list" where
  "sort_by lt [] = []"
| "sort_by lt (x # xs) = insert_by lt x (sort_by lt xs)"

lemma mset_insert_by [perm_simps, simp]: "mset (insert_by lt x xs) = add_mset x (mset xs)"
  by (induction xs) auto

lemma mset_sort_by [perm_simps, simp]: "mset (sort_by lt xs) = mset xs"
  by (induction xs) auto

lemma set_insert_by [simp]: "set (insert_by lt x xs) = insert x (set xs)"
  by (induction xs) auto

lemma set_sort_by [simp]: "set (sort_by lt xs) = set xs"
  by (induction xs) auto

lemma length_insert_by [len_simps, simp]: "length (insert_by lt x xs) = Suc (length xs)"
  by (induction xs) auto

lemma length_sort_by [len_simps, simp]: "length (sort_by lt xs) = length xs"
  by (induction xs) auto

lemma distinct_sort_by [simp]: "distinct (sort_by lt xs) = distinct xs"
  by (metis mset_sort_by mset_eq_imp_distinct_iff)

lemma insert_by_cong:
  "(\<And>y. y \<in> set xs \<Longrightarrow> lt y x = lt' y x) \<Longrightarrow> insert_by lt x xs = insert_by lt' x xs"
  by (induction xs) auto

lemma sort_by_cong:
  "(\<And>x y. x \<in> set xs \<Longrightarrow> y \<in> set xs \<Longrightarrow> lt x y = lt' x y) \<Longrightarrow> sort_by lt xs = sort_by lt' xs"
proof (induction xs)
  case (Cons x xs)
  then have "sort_by lt xs = sort_by lt' xs" by simp
  moreover have "insert_by lt x (sort_by lt' xs) = insert_by lt' x (sort_by lt' xs)"
    using Cons.prems by (intro insert_by_cong) simp
  ultimately show ?case by simp
qed simp

lemma sort_by_id: "sorted_wrt (\<lambda>a b. \<not> lt b a) xs \<Longrightarrow> sort_by lt xs = xs"
proof (induction xs)
  case (Cons x xs)
  then show ?case by (cases xs) auto
qed simp

lemma insert_by_map: "(\<And>x y. lt (f x) (f y) = lt x y) \<Longrightarrow> insert_by lt (f x) (map f xs) = map f (insert_by lt x xs)"
  by (induction xs) simp_all

lemma sort_by_map: "(\<And>x y. lt (f x) (f y) = lt x y) \<Longrightarrow> sort_by lt (map f xs) = map f (sort_by lt xs)"
  by (induction xs) (simp_all add: insert_by_map)

text \<open>
  The contract a Go less function owes its sort: a strict weak order. The laws are what the
  sort relies on; what it promises in return is proved once, here.
\<close>

locale strict_weak_less =
  fixes lt :: "'a \<Rightarrow> 'a \<Rightarrow> bool"
  assumes lt_asym: "lt x y \<Longrightarrow> \<not> lt y x"
    and lt_negtrans: "\<not> lt x y \<Longrightarrow> \<not> lt y z \<Longrightarrow> \<not> lt x z"
begin

lemma lt_irrefl: "\<not> lt x x"
  using lt_asym by blast

lemma sorted_insert_by:
  "sorted_wrt (\<lambda>a b. \<not> lt b a) xs \<Longrightarrow> sorted_wrt (\<lambda>a b. \<not> lt b a) (insert_by lt x xs)"
proof (induction xs)
  case Nil
  then show ?case by simp
next
  case (Cons y ys)
  show ?case
  proof (cases "lt y x")
    case True
    with Cons show ?thesis using lt_asym by auto
  next
    case False
    have "\<not> lt z x" if "z \<in> set ys" for z
    proof -
      from Cons.prems that have "\<not> lt z y" by simp
      then show ?thesis using False lt_negtrans by blast
    qed
    with False Cons.prems show ?thesis by auto
  qed
qed

lemma sorted_sort_by: "sorted_wrt (\<lambda>a b. \<not> lt b a) (sort_by lt xs)"
  by (induction xs) (auto intro: sorted_insert_by)

lemma filter_insert_by:
  "sorted_wrt (\<lambda>a b. \<not> lt b a) xs
    \<Longrightarrow> filter P (insert_by lt x xs) = (if P x then insert_by lt x (filter P xs) else filter P xs)"
proof (induction xs)
  case (Cons y ys)
  note sorted = Cons.prems
  have "insert_by lt x (filter P ys) = x # filter P ys" if "\<not> lt y x"
  proof (cases "filter P ys")
    case (Cons z zs)
    then have "z \<in> set (filter P ys)" by simp
    then have "\<not> lt z y" using sorted by simp
    then have "\<not> lt z x" using that lt_negtrans by blast
    then show ?thesis using Cons by simp
  qed simp
  then show ?case using Cons by auto
qed simp

lemma filter_sort_by: "filter P (sort_by lt xs) = sort_by lt (filter P xs)"
  by (induction xs) (simp_all add: filter_insert_by sorted_sort_by)

lemma sort_by_nth:
  assumes "i < j" and "j < length xs"
  shows "\<not> lt (sort_by lt xs ! j) (sort_by lt xs ! i)"
  using sorted_sort_by [of xs] assms by (simp add: sorted_wrt_iff_nth_less)

end

text \<open>A comparator that looks at one key first is an order if what it does on ties is.\<close>

lemma lex_desc:
  fixes key :: "'a \<Rightarrow> 'k::linorder"
  assumes "strict_weak_less lt"
  shows "strict_weak_less (\<lambda>a b. if key a \<noteq> key b then key b < key a else lt a b)"
proof
  note lt = strict_weak_less.lt_asym [OF assms] strict_weak_less.lt_negtrans [OF assms]
  show "\<not> (if key b \<noteq> key a then key a < key b else lt b a)" if "if key a \<noteq> key b then key b < key a else lt a b" for a b
    using that lt(1) [of a b] by (cases "key a" "key b" rule: linorder_cases) (auto split: if_splits)
  show "\<not> (if key a \<noteq> key c then key c < key a else lt a c)"
    if "\<not> (if key a \<noteq> key b then key b < key a else lt a b)" "\<not> (if key b \<noteq> key c then key c < key b else lt b c)" for a b c
    using that lt(2) [of a b c]
    by (cases "key a" "key b" rule: linorder_cases; cases "key b" "key c" rule: linorder_cases) (auto split: if_splits)
qed

lemma lex_asc:
  fixes key :: "'a \<Rightarrow> 'k::linorder"
  assumes "strict_weak_less lt"
  shows "strict_weak_less (\<lambda>a b. if key a \<noteq> key b then key a < key b else lt a b)"
proof
  note lt = strict_weak_less.lt_asym [OF assms] strict_weak_less.lt_negtrans [OF assms]
  show "\<not> (if key b \<noteq> key a then key b < key a else lt b a)" if "if key a \<noteq> key b then key a < key b else lt a b" for a b
    using that lt(1) [of a b] by (cases "key a" "key b" rule: linorder_cases) (auto split: if_splits)
  show "\<not> (if key a \<noteq> key c then key a < key c else lt a c)"
    if "\<not> (if key a \<noteq> key b then key a < key b else lt a b)" "\<not> (if key b \<noteq> key c then key b < key c else lt b c)" for a b c
    using that lt(2) [of a b c]
    by (cases "key a" "key b" rule: linorder_cases; cases "key b" "key c" rule: linorder_cases) (auto split: if_splits)
qed

text \<open>A total less function leaves the sort no choice.\<close>

locale strict_total_less = strict_weak_less lt for lt :: "'a \<Rightarrow> 'a \<Rightarrow> bool" +
  assumes lt_total: "x \<noteq> y \<Longrightarrow> lt x y \<or> lt y x"
begin

lemma sorted_perm_unique:
  assumes "sorted_wrt (\<lambda>a b. \<not> lt b a) ys" and "mset ys = mset xs"
  shows "ys = sort_by lt xs"
proof -
  have "sorted_wrt (\<lambda>a b. \<not> lt b a) zs \<Longrightarrow> sorted_wrt (\<lambda>a b. \<not> lt b a) ws
      \<Longrightarrow> mset zs = mset ws \<Longrightarrow> zs = ws" for zs ws
  proof (induction zs arbitrary: ws)
    case Nil
    then show ?case by simp
  next
    case (Cons z zs)
    then obtain w ws' where ws: "ws = w # ws'" by (cases ws) auto
    have "z = w"
    proof (rule ccontr)
      assume ne: "z \<noteq> w"
      have "z \<in> set ws'" and "w \<in> set zs"
        using Cons.prems(3) ws ne mset_eq_setD [OF Cons.prems(3)] by auto
      then have "\<not> lt z w" "\<not> lt w z"
        using Cons.prems ws by auto
      with ne lt_total show False by blast
    qed
    with Cons ws show ?case by auto
  qed
  with assms sorted_sort_by show ?thesis by simp
qed

end

text \<open>Two lists sorted by the same asymmetric relation are equal if they have the same elements.\<close>

lemma sorted_wrt_concat:
  "sorted_wrt (\<lambda>g g'. \<forall>a\<in>set g. \<forall>b\<in>set g'. P a b) gs \<Longrightarrow> (\<And>g. g \<in> set gs \<Longrightarrow> sorted_wrt P g) \<Longrightarrow>
    sorted_wrt P (concat gs)"
  by (induction gs) (auto simp: sorted_wrt_append)

lemma sorted_perm_eq:
  assumes "\<And>a b. P a b \<Longrightarrow> \<not> P b a"
  shows "sorted_wrt P xs \<Longrightarrow> sorted_wrt P ys \<Longrightarrow> mset xs = mset ys \<Longrightarrow> xs = ys"
proof (induction xs arbitrary: ys)
  case Nil
  then show ?case by simp
next
  case (Cons x xs)
  then obtain y zs where ys: "ys = y # zs" by (cases ys) auto
  have "x = y"
  proof (rule ccontr)
    assume ne: "x \<noteq> y"
    have "x \<in> set (y # zs)" "y \<in> set (x # xs)"
      using mset_eq_setD [OF Cons.prems(3)] ys by auto
    then have "P x y" "P y x" using ne Cons.prems(1,2) ys by auto
    then show False using assms by blast
  qed
  then show ?case using Cons ys by simp
qed

section \<open>Decimal rendering (strconv.Itoa, strconv.Atoi, fmt's verb d)\<close>

definition digit :: "nat \<Rightarrow> char" where
  "digit d = char_of (48 + d)"

definition digit_val :: "char \<Rightarrow> nat" where
  "digit_val c = of_char c - 48"

fun itoa :: "nat \<Rightarrow> string" where
  "itoa n = (if n < 10 then [digit n] else itoa (n div 10) @ [digit (n mod 10)])"

declare itoa.simps [simp del]

definition atoi :: "string \<Rightarrow> nat" where
  "atoi s = foldl (\<lambda>acc c. 10 * acc + digit_val c) 0 s"

lemma digit_val_digit [simp]: "d < 10 \<Longrightarrow> digit_val (digit d) = d"
  by (simp add: digit_val_def digit_def of_char_of)

lemma atoi_itoa [simp]: "atoi (itoa n) = n"
proof (induction n rule: itoa.induct)
  case (1 n)
  show ?case
  proof (cases "n < 10")
    case True
    then show ?thesis by (simp add: itoa.simps [of n] atoi_def)
  next
    case False
    with 1 have "atoi (itoa (n div 10)) = n div 10" by simp
    with False show ?thesis by (simp add: itoa.simps [of n] atoi_def)
  qed
qed

lemma itoa_inj [simp]: "itoa m = itoa n \<longleftrightarrow> m = n"
  by (metis atoi_itoa)

lemma itoa_nonempty [simp]: "itoa n \<noteq> []"
  by (subst itoa.simps) simp

section \<open>List facts\<close>

lemma distinct_concat_map:
  assumes "distinct xs" and "\<And>x. x \<in> set xs \<Longrightarrow> distinct (f x)"
    and "\<And>x y. x \<in> set xs \<Longrightarrow> y \<in> set xs \<Longrightarrow> x \<noteq> y \<Longrightarrow> set (f x) \<inter> set (f y) = {}"
  shows "distinct (concat (map f xs))"
  using assms by (induction xs) auto

lemma concat_disjoint_nth:
  assumes "distinct (concat xss)" "i < length xss" "j < length xss" "i \<noteq> j"
  shows "set (xss ! i) \<inter> set (xss ! j) = {}"
proof -
  have *: "set (xss ! i) \<inter> set (xss ! j) = {}" if "distinct (concat xss)" "i < j" "j < length xss"
    for i j and xss :: "'a list list"
    using that
  proof (induction xss arbitrary: i j)
    case Nil
    then show ?case by simp
  next
    case (Cons xs xss)
    show ?case
    proof (cases i)
      case 0
      with Cons.prems obtain k where "j = Suc k" "k < length xss" by (cases j) auto
      with 0 Cons.prems(1) show ?thesis using nth_mem [of k xss] by fastforce
    next
      case (Suc i')
      with Cons.prems obtain k where "j = Suc k" "i' < k" "k < length xss" by (cases j) auto
      with Suc Cons.IH [of i' k] Cons.prems(1) show ?thesis by simp
    qed
  qed
  show ?thesis
    using * [OF assms(1), of i j] * [OF assms(1), of j i] assms(2-4) by (cases "i < j") auto
qed

lemma distinct_concat_map_nth:
  assumes "distinct (concat xss)" "distinct is" "set is \<subseteq> {0..<length xss}"
  shows "distinct (concat (map (\<lambda>i. xss ! i) is))"
proof (rule distinct_concat_map [OF assms(2)])
  have D: "distinct (xss ! i)" if "i < length xss" for i
    using assms(1) that by (simp add: distinct_concat_iff)
  then show "distinct (xss ! i)" if "i \<in> set is" for i
    using that assms(3) by auto
  show "set (xss ! i) \<inter> set (xss ! j) = {}" if "i \<in> set is" "j \<in> set is" "i \<noteq> j" for i j
  proof -
    have "i < length xss" "j < length xss" using that assms(3) by auto
    then show ?thesis by (rule concat_disjoint_nth [OF assms(1) _ _ that(3)])
  qed
qed

end
