(* ===== verification/Round_Robin.thy ===== *)
theory Round_Robin
  imports Pickle_Prelude
begin

text \<open>
  Round-robin generation by the circle method: \<open>singlesRoundRobin\<close>, \<open>doublesFixed\<close>,
  \<open>autoPair\<close> and the round-count window (\<open>boundedTarget\<close>, \<open>fitRounds\<close>) of
  \<open>internal/engine/schedule.go\<close>. The central result is that the generated rounds hold
  every pair of entrants exactly once and never use an entrant twice in a round.
\<close>

section \<open>Data\<close>

record raw_match =
  rt1 :: "pid list"
  rt2 :: "pid list"

definition bye :: pid where
  "bye = []"

section \<open>The round-count window\<close>

definition boundedTarget :: "int \<Rightarrow> int \<Rightarrow> int \<Rightarrow> int" where
  "boundedTarget natural minRounds maxRounds =
    (let t = natural;
         t = (if maxRounds > 0 \<and> t > maxRounds then maxRounds else t);
         t = (if minRounds > 0 \<and> t < minRounds then minRounds else t)
     in if t < 1 then 1 else t)"

definition fitRounds :: "raw_match list list \<Rightarrow> int \<Rightarrow> raw_match list list" where
  "fitRounds rr target =
    (if target \<le> 0 \<or> length rr = 0 \<or> int (length rr) = target then rr
     else if int (length rr) > target then take (nat target) rr
     else map (\<lambda>i. rr ! (i mod length rr)) [0..<nat target])"

section \<open>The circle method\<close>

definition rr_round :: "pid list \<Rightarrow> raw_match list" where
  "rr_round arr =
    (let n = length arr in
     [\<lparr>rt1 = [arr ! i], rt2 = [arr ! (n - 1 - i)]\<rparr>.
        i \<leftarrow> [0..<n div 2], arr ! i \<noteq> bye \<and> arr ! (n - 1 - i) \<noteq> bye])"

definition rr_rotate :: "pid list \<Rightarrow> pid list" where
  "rr_rotate arr =
    (let n = length arr in [arr ! 0, arr ! (n - 1)] @ take (n - 2) (drop 1 arr))"

fun rr_loop :: "nat \<Rightarrow> pid list \<Rightarrow> raw_match list list" where
  "rr_loop 0 arr = []"
| "rr_loop (Suc k) arr = rr_round arr # rr_loop k (rr_rotate arr)"

definition singlesRoundRobin :: "pid list \<Rightarrow> raw_match list list" where
  "singlesRoundRobin players =
    (let p = (if length players mod 2 = 1 then players @ [bye] else players);
         n = length p
     in if n < 2 then [] else rr_loop (n - 1) p)"

text \<open>
  Fixed partners: the pair indices, rendered as decimal strings, play a singles round robin,
  and each index is read back to its pair.
\<close>

definition doublesFixed :: "pid list list \<Rightarrow> raw_match list list" where
  "doublesFixed pairs =
    (let unitIDs = map itoa [0..<length pairs]
     in map (map (\<lambda>m. \<lparr>rt1 = pairs ! atoi (rt1 m ! 0), rt2 = pairs ! atoi (rt2 m ! 0)\<rparr>))
          (singlesRoundRobin unitIDs))"

fun autoPair :: "pid list \<Rightarrow> pid list list" where
  "autoPair (a # b # ps) = [a, b] # autoPair ps"
| "autoPair _ = []"

section \<open>Where the circle puts whom\<close>

text \<open>
  After \<open>r\<close> rotations of an array of \<open>m + 1\<close> entries, position 0 still holds entry 0 and
  position \<open>i > 0\<close> holds entry \<open>circ m r i\<close>: the other \<open>m\<close> entries turn by one place.
\<close>

definition circ :: "nat \<Rightarrow> nat \<Rightarrow> nat \<Rightarrow> nat" where
  "circ m r i = (if i = 0 then 0 else Suc ((i - 1 + r * (m - 1)) mod m))"

lemma circ_0 [simp]: "circ m 0 i = i" if "i \<le> m"
  using that by (cases i) (auto simp: circ_def)

lemma circ_le: "0 < m \<Longrightarrow> circ m r i \<le> m"
  by (auto simp: circ_def Suc_le_eq)

lemma circ_pos: "0 < i \<Longrightarrow> 0 < circ m r i"
  by (simp add: circ_def)

lemma circ_rotate:
  assumes "0 < m" "0 < i" "i \<le> m"
  shows "circ m (Suc r) i = circ m r (if i = 1 then m else i - 1)"
proof -
  have "(i - 1 + Suc r * (m - 1)) mod m = ((if i = 1 then m else i - 1) - 1 + r * (m - 1)) mod m"
  proof (cases "i = 1")
    case True
    then show ?thesis by simp
  next
    case False
    with assms obtain i' where i': "i = Suc (Suc i')"
      by (metis One_nat_def Suc_pred neq0_conv zero_less_diff le_neq_implies_less Suc_leI)
    from assms obtain m' where m': "m = Suc m'" by (cases m) auto
    have "i - 1 + Suc r * (m - 1) = (i - 1 - 1 + r * (m - 1)) + m"
      by (simp add: i' m')
    then have "(i - 1 + Suc r * (m - 1)) mod m = (i - 1 - 1 + r * (m - 1)) mod m"
      by (simp only: mod_add_self2)
    then show ?thesis by (simp only: False if_False)
  qed
  with assms show ?thesis by (auto simp: circ_def)
qed

lemma length_rr_rotate [len_simps]: "2 \<le> length arr \<Longrightarrow> length (rr_rotate arr) = length arr"
  by (simp add: rr_rotate_def Let_def)

lemma nth_rr_rotate:
  assumes "2 \<le> length arr" and "i < length arr"
  shows "rr_rotate arr ! i = arr ! (if i = 0 then 0 else if i = 1 then length arr - 1 else i - 1)"
  using assms
  by (auto simp: rr_rotate_def Let_def nth_append nth_Cons' numeral_2_eq_2 Suc_diff_Suc
    split: if_splits)

lemma rr_rotate_circ:
  assumes "0 < m" and "length p = Suc m"
  shows "rr_rotate (map (\<lambda>i. p ! circ m r i) [0..<Suc m]) = map (\<lambda>i. p ! circ m (Suc r) i) [0..<Suc m]"
    (is "rr_rotate ?a = ?b")
proof (rule nth_equalityI)
  show "length (rr_rotate ?a) = length ?b"
    using assms by (subst length_rr_rotate) auto
next
  fix i assume "i < length (rr_rotate ?a)"
  with assms have i: "i < Suc m" by (subst (asm) length_rr_rotate) auto
  have *: "rr_rotate ?a ! i = ?a ! (if i = 0 then 0 else if i = 1 then m else i - 1)"
    using assms i by (subst nth_rr_rotate) auto
  show "rr_rotate ?a ! i = ?b ! i"
  proof (cases "i = 0")
    case True
    with * assms show ?thesis by (simp add: circ_def del: upt_Suc)
  next
    case False
    let ?j = "if i = 1 then m else i - 1"
    have "rr_rotate ?a ! i = ?a ! ?j" using * False by simp
    also have "\<dots> = p ! circ m r ?j"
      using i assms by (subst nth_map) (auto simp del: upt_Suc)
    also have "circ m r ?j = circ m (Suc r) i"
      using circ_rotate [of m i r] assms i False by simp
    finally show ?thesis using i by (simp del: upt_Suc)
  qed
qed

lemma rr_loop_circ:
  assumes "0 < m" and "length p = Suc m"
  shows "rr_loop k (map (\<lambda>i. p ! circ m r i) [0..<Suc m])
       = map (\<lambda>s. rr_round (map (\<lambda>i. p ! circ m s i) [0..<Suc m])) [r..<r + k]"
proof (induction k arbitrary: r)
  case 0
  then show ?case by simp
next
  case (Suc k)
  have "[r..<r + Suc k] = r # [Suc r..<Suc r + k]" by (simp add: upt_rec)
  with Suc [of "Suc r"] show ?case
    using rr_rotate_circ [OF assms, of r] by (simp del: upt_Suc)
qed

lemma rr_loop_start:
  assumes "0 < m" and "length p = Suc m"
  shows "rr_loop m p = map (\<lambda>s. rr_round (map (\<lambda>i. p ! circ m s i) [0..<Suc m])) [0..<m]"
proof -
  have "p = map (\<lambda>i. p ! circ m 0 i) [0..<Suc m]"
    using assms by (intro nth_equalityI) (auto simp del: upt_Suc)
  with rr_loop_circ [OF assms, of m 0] show ?thesis by simp
qed

section \<open>Every pair meets exactly once\<close>

lemma circ_mod:
  assumes "0 < m" "0 < i"
  shows "(circ m s i + s) mod m = i mod m"
proof -
  have "(circ m s i + s) mod m = (Suc s + (i - 1 + s * (m - 1)) mod m) mod m"
    using assms by (simp add: circ_def add.commute)
  also have "\<dots> = (Suc s + (i - 1 + s * (m - 1))) mod m"
    by (rule mod_add_right_eq)
  also have "Suc s + (i - 1 + s * (m - 1)) = i + s * m"
    using assms by (cases m; cases i) auto
  finally show ?thesis by simp
qed

lemma circ_inj:
  assumes "0 < m" "i \<le> m" "j \<le> m" "circ m s i = circ m s j"
  shows "i = j"
proof -
  have "i mod m = j mod m" if "0 < i" "0 < j"
    using circ_mod [of m i s] circ_mod [of m j s] assms that by simp
  moreover have "0 < i \<longleftrightarrow> 0 < j"
    using assms(4) by (auto simp: circ_def split: if_splits)
  ultimately show ?thesis
    using assms by (metis le_neq_implies_less mod_less mod_self neq0_conv)
qed

lemma circ_sum:
  assumes "0 < m" "0 < i" "i < m"
  shows "(circ m s i + circ m s (m - i) + 2 * s) mod m = 0"
proof -
  have "(circ m s i + circ m s (m - i) + 2 * s) mod m
      = ((circ m s i + s) mod m + (circ m s (m - i) + s) mod m) mod m"
    unfolding mod_add_eq by (rule arg_cong [where f = "\<lambda>x. x mod m"]) simp
  also have "\<dots> = (i mod m + (m - i) mod m) mod m"
    using assms by (simp add: circ_mod)
  also have "\<dots> = 0"
    using assms by (simp add: mod_add_eq)
  finally show ?thesis .
qed

lemma circ_last:
  assumes "0 < m"
  shows "(2 * circ m s m + 2 * s) mod m = 0"
proof -
  have "(2 * circ m s m + 2 * s) mod m = (2 * ((circ m s m + s) mod m)) mod m"
    by (simp add: mod_mult_right_eq algebra_simps)
  then show ?thesis using assms by (simp add: circ_mod)
qed

lemma odd_double_inj:
  fixes m :: nat
  assumes "odd m" "s < m" "t < m" "(x + 2 * s) mod m = 0" "(x + 2 * t) mod m = 0"
  shows "s = t"
proof -
  have aux: "s = t" if "s \<le> t" "t < m" "m dvd x + 2 * s" "m dvd x + 2 * t" for s t
  proof -
    have "m dvd 2 * (t - s)"
      using dvd_diff_nat [OF that(4,3)] by (simp add: algebra_simps)
    moreover have "coprime m 2" using assms(1) by simp
    ultimately have "m dvd t - s"
      by (simp add: coprime_dvd_mult_right_iff)
    with that show ?thesis by (auto dest: dvd_imp_le)
  qed
  show ?thesis
    using aux [of s t] aux [of t s] assms by (metis mod_0_imp_dvd nle_le)
qed

text \<open>Which entries meet in match \<open>i\<close> of round \<open>s\<close>.\<close>

definition circ_pair :: "nat \<Rightarrow> nat \<Rightarrow> nat \<Rightarrow> nat set" where
  "circ_pair m s i = {circ m s i, circ m s (m - i)}"

lemma circ_pair_zero: "0 < m \<Longrightarrow> i < m \<Longrightarrow> 0 \<in> circ_pair m s i \<longleftrightarrow> i = 0"
  by (auto simp: circ_pair_def circ_def)

lemma circ_pair_ne:
  assumes "odd m" "i < Suc m div 2"
  shows "circ m s i \<noteq> circ m s (m - i)"
proof
  assume "circ m s i = circ m s (m - i)"
  moreover from assms have "0 < m" "i < m" by presburger+
  ultimately have "i = m - i" by (intro circ_inj [of m i "m - i" s]) auto
  with \<open>i < m\<close> \<open>odd m\<close> show False by presburger
qed

lemma circ_pair_inj:
  assumes "odd m" "s < m" "t < m" "i < Suc m div 2" "j < Suc m div 2"
    and eq: "circ_pair m s i = circ_pair m t j"
  shows "s = t \<and> i = j"
proof -
  from assms have m: "0 < m" and ij: "i < m" "j < m" by presburger+
  have zero: "i = 0 \<longleftrightarrow> j = 0"
    using circ_pair_zero [OF m ij(1), of s] circ_pair_zero [OF m ij(2), of t] eq by simp
  have st: "s = t"
  proof (cases "i = 0")
    case True
    with zero eq have "{0, circ m s m} = {0, circ m t m}"
      by (simp add: circ_pair_def circ_def)
    with circ_pos [of m m] m have "circ m s m = circ m t m"
      by (metis doubleton_eq_iff)
    with circ_last [OF m, of s] circ_last [OF m, of t] assms show ?thesis
      by (intro odd_double_inj [of m s t "2 * circ m s m"]) simp_all
  next
    case False
    with zero have pos: "0 < i" "0 < j" by auto
    from eq have "circ m s i + circ m s (m - i) = circ m t j + circ m t (m - j)"
      by (auto simp: circ_pair_def doubleton_eq_iff)
    with circ_sum [OF m pos(1) ij(1), of s] circ_sum [OF m pos(2) ij(2), of t] assms
    show ?thesis
      by (intro odd_double_inj [of m s t "circ m s i + circ m s (m - i)"]) simp_all
  qed
  from eq st have "circ m s i = circ m s j \<or> circ m s i = circ m s (m - j)"
    by (auto simp: circ_pair_def)
  then have "i = j \<or> i = m - j"
    using circ_inj [OF m, of i j s] circ_inj [OF m, of i "m - j" s] ij by auto
  with assms(1,4,5) ij st show ?thesis by presburger
qed

lemma circ_pair_all:
  assumes "odd m"
  shows "(\<lambda>(s, i). circ_pair m s i) ` ({0..<m} \<times> {0..<Suc m div 2}) = {B. B \<subseteq> {0..m} \<and> card B = 2}"
    (is "?f ` ?D = ?R")
proof (rule card_subset_eq)
  have m: "0 < m" using assms by presburger
  show "finite ?R" by (rule finite_subset [of _ "Pow {0..m}"]) auto
  show "?f ` ?D \<subseteq> ?R"
  proof clarify
    fix s i assume "s \<in> {0..<m}" "i \<in> {0..<Suc m div 2}"
    then have "circ m s i \<noteq> circ m s (m - i)"
      using circ_pair_ne [OF assms] by simp
    then show "circ_pair m s i \<subseteq> {0..m} \<and> card (circ_pair m s i) = 2"
      by (simp add: circ_pair_def circ_le [OF m])
  qed
  have "inj_on ?f ?D"
  proof (rule inj_onI, clarify)
    fix s i t j
    assume "s \<in> {0..<m}" "i \<in> {0..<Suc m div 2}" "t \<in> {0..<m}" "j \<in> {0..<Suc m div 2}"
      and "circ_pair m s i = circ_pair m t j"
    then show "s = t \<and> i = j" by (intro circ_pair_inj [OF assms]) simp_all
  qed
  then have "card (?f ` ?D) = m * (Suc m div 2)"
    by (simp add: card_image card_cartesian_product)
  also have "\<dots> = Suc m choose 2"
  proof -
    from assms obtain k where "m = 2 * k + 1" by (rule oddE)
    then show ?thesis by (simp add: choose_two)
  qed
  also have "\<dots> = card ?R"
    by (simp add: n_subsets)
  finally show "card (?f ` ?D) = card ?R" .
qed

definition match_players :: "raw_match \<Rightarrow> pid list" where
  "match_players m = rt1 m @ rt2 m"

text \<open>The padded field: an even number of entries, at most the last one the bye.\<close>

definition rr_padded :: "pid list \<Rightarrow> pid list" where
  "rr_padded players = (if length players mod 2 = 1 then players @ [bye] else players)"

definition rr_live :: "pid list \<Rightarrow> nat \<Rightarrow> nat \<Rightarrow> nat \<Rightarrow> bool" where
  "rr_live p m s i \<longleftrightarrow> p ! circ m s i \<noteq> bye \<and> p ! circ m s (m - i) \<noteq> bye"

definition rr_match :: "pid list \<Rightarrow> nat \<Rightarrow> nat \<Rightarrow> nat \<Rightarrow> raw_match" where
  "rr_match p m s i = \<lparr>rt1 = [p ! circ m s i], rt2 = [p ! circ m s (m - i)]\<rparr>"

lemma concat_map_if: "concat (map (\<lambda>x. if P x then [f x] else []) xs) = map f (filter P xs)"
  by (induction xs) auto

lemma rr_round_circ:
  assumes "odd m"
  shows "rr_round (map (\<lambda>i. p ! circ m s i) [0..<Suc m])
       = map (rr_match p m s) (filter (rr_live p m s) [0..<Suc m div 2])"
proof -
  have "map (\<lambda>i. p ! circ m s i) [0..<Suc m] ! i = p ! circ m s i" if "i \<le> m" for i
    using that by (simp del: upt_Suc)
  moreover have "i \<le> m" if "i < Suc m div 2" for i using that by presburger
  ultimately show ?thesis
    unfolding rr_round_def rr_live_def rr_match_def Let_def concat_map_if
    by (auto simp del: upt_Suc intro!: map_cong filter_cong)
qed

lemma singlesRoundRobin_rounds:
  assumes "2 \<le> length players"
  defines "m \<equiv> length (rr_padded players) - 1"
  shows "odd m"
    and "singlesRoundRobin players = map (\<lambda>s. map (rr_match (rr_padded players) m s)
      (filter (rr_live (rr_padded players) m s) [0..<Suc m div 2])) [0..<m]"
proof -
  have len: "length (rr_padded players) = Suc m" and ev: "even (Suc m)"
    using assms by (auto simp: rr_padded_def)
  show "odd m" using ev by simp
  have m: "0 < m" using assms by (auto simp: rr_padded_def)
  have "singlesRoundRobin players = (let n = length (rr_padded players)
      in if n < 2 then [] else rr_loop (n - 1) (rr_padded players))"
    by (simp add: singlesRoundRobin_def rr_padded_def Let_def)
  then have "singlesRoundRobin players = rr_loop m (rr_padded players)"
    using len m by (simp add: Let_def)
  also have "\<dots> = map (\<lambda>s. rr_round (map (\<lambda>i. rr_padded players ! circ m s i) [0..<Suc m])) [0..<m]"
    by (rule rr_loop_start [OF m len])
  also have "\<dots> = map (\<lambda>s. map (rr_match (rr_padded players) m s)
      (filter (rr_live (rr_padded players) m s) [0..<Suc m div 2])) [0..<m]"
    by (simp only: rr_round_circ [OF \<open>odd m\<close>])
  finally show "singlesRoundRobin players = map (\<lambda>s. map (rr_match (rr_padded players) m s)
      (filter (rr_live (rr_padded players) m s) [0..<Suc m div 2])) [0..<m]" .
qed

lemma rr_padded_distinct:
  assumes "distinct players" "bye \<notin> set players"
  shows "distinct (rr_padded players)"
  using assms by (simp add: rr_padded_def)

lemma rr_padded_mem: "x \<in> set (rr_padded players) \<Longrightarrow> x \<in> set players \<or> x = bye"
  by (auto simp: rr_padded_def split: if_splits)

lemma meeting_rr_match:
  "set (match_players (rr_match p m s i)) = (\<lambda>k. p ! k) ` circ_pair m s i"
  by (auto simp: match_players_def rr_match_def circ_pair_def)

lemma nth_image_inj:
  assumes "distinct p" "A \<subseteq> {0..<length p}" "B \<subseteq> {0..<length p}"
    and "(\<lambda>k. p ! k) ` A = (\<lambda>k. p ! k) ` B"
  shows "A = B"
proof -
  have "inj_on (\<lambda>k. p ! k) {0..<length p}"
    using assms(1) by (intro inj_on_nth) auto
  with assms(2-4) show ?thesis by (metis inj_on_image_eq_iff)
qed

lemma set_concat_map_filter_upt:
  "set (concat (map (\<lambda>s. map (F s) (filter (P s) [0..<k])) [0..<m]))
     = {F s i | s i. s < m \<and> i < k \<and> P s i}"
  by (force simp: set_concat)

lemma rr_meetings_distinct:
  assumes "distinct players" "bye \<notin> set players"
  shows "distinct (map (\<lambda>m. set (match_players m)) (concat (singlesRoundRobin players)))"
proof (cases "2 \<le> length players")
  case False
  then have "length players = 0 \<or> length players = 1" by arith
  then show ?thesis
    by (auto simp: singlesRoundRobin_def length_Suc_conv rr_round_def Let_def)
next
  case True
  define p where "p = rr_padded players"
  define m where "m = length p - 1"
  note rounds = singlesRoundRobin_rounds [OF True, folded p_def, folded m_def]
  have m: "0 < m" and len: "length p = Suc m"
    using True by (auto simp: m_def p_def rr_padded_def)
  let ?f = "\<lambda>s. filter (rr_live p m s) [0..<Suc m div 2]"
  let ?g = "\<lambda>s. map (\<lambda>i. (s, i)) (?f s)"
  have "map (\<lambda>m. set (match_players m)) (concat (singlesRoundRobin players))
      = map (\<lambda>(s, i). (\<lambda>k. p ! k) ` circ_pair m s i) (concat (map ?g [0..<m]))"
    by (simp add: rounds(2) map_concat comp_def meeting_rr_match)
  moreover have "distinct (concat (map ?g [0..<m]))"
    by (intro distinct_concat_map) (auto simp: distinct_map inj_on_def)
  moreover have "inj_on (\<lambda>(s, i). (\<lambda>k. p ! k) ` circ_pair m s i) (set (concat (map ?g [0..<m])))"
  proof (rule inj_onI, clarify)
    fix s i t j
    assume a: "(s, i) \<in> set (concat (map ?g [0..<m]))" "(t, j) \<in> set (concat (map ?g [0..<m]))"
      and e: "(\<lambda>k. p ! k) ` circ_pair m s i = (\<lambda>k. p ! k) ` circ_pair m t j"
    have sub: "circ_pair m x y \<subseteq> {0..<length p}" for x y
      using circ_le [OF m] by (auto simp: circ_pair_def len less_Suc_eq_le)
    have "distinct p" using rr_padded_distinct [OF assms] by (simp add: p_def)
    from nth_image_inj [OF this sub sub e] have "circ_pair m s i = circ_pair m t j" .
    with a show "s = t \<and> i = j"
      by (intro circ_pair_inj [OF rounds(1)]) auto
  qed
  ultimately show ?thesis by (simp add: distinct_map)
qed

lemma rr_meetings_set:
  assumes "distinct players" "bye \<notin> set players"
  shows "set (map (\<lambda>m. set (match_players m)) (concat (singlesRoundRobin players)))
       = {{x, y} | x y. x \<in> set players \<and> y \<in> set players \<and> x \<noteq> y}" (is "?L = ?R")
proof (cases "2 \<le> length players")
  case False
  then have "length players = 0 \<or> length players = 1" by arith
  then show ?thesis
    by (auto simp: singlesRoundRobin_def length_Suc_conv rr_round_def Let_def)
next
  case True
  define p where "p = rr_padded players"
  define m where "m = length p - 1"
  note rounds = singlesRoundRobin_rounds [OF True, folded p_def, folded m_def]
  have m: "0 < m" and len: "length p = Suc m" and dp: "distinct p"
    using True rr_padded_distinct [OF assms] by (auto simp: m_def p_def rr_padded_def)
  have mem: "p ! k \<in> set players \<longleftrightarrow> p ! k \<noteq> bye" if "k \<le> m" for k
  proof -
    have "p ! k \<in> set p" using that len by simp
    then have "p ! k \<in> set players \<or> p ! k = bye" unfolding p_def by (rule rr_padded_mem)
    with assms(2) show ?thesis by metis
  qed
  have L: "?L = {(\<lambda>k. p ! k) ` circ_pair m s i | s i. s < m \<and> i < Suc m div 2 \<and> rr_live p m s i}"
  proof -
    have "map (\<lambda>m. set (match_players m)) (concat (singlesRoundRobin players))
        = concat (map (\<lambda>s. map (\<lambda>i. (\<lambda>k. p ! k) ` circ_pair m s i)
            (filter (rr_live p m s) [0..<Suc m div 2])) [0..<m])"
      by (simp add: rounds(2) map_concat comp_def meeting_rr_match)
    then show ?thesis by (simp only: set_concat_map_filter_upt)
  qed
  show ?thesis
  proof
    show "?L \<subseteq> ?R"
    proof
      fix M assume "M \<in> ?L"
      then obtain s i where si: "s < m" "i < Suc m div 2" "rr_live p m s i"
        and M: "M = {p ! circ m s i, p ! circ m s (m - i)}"
        unfolding L circ_pair_def by auto
      have "circ m s i \<noteq> circ m s (m - i)" using circ_pair_ne [OF rounds(1) si(2)] .
      then have "p ! circ m s i \<noteq> p ! circ m s (m - i)"
        using dp circ_le [OF m] len by (simp add: nth_eq_iff_index_eq less_Suc_eq_le)
      moreover have "p ! circ m s i \<in> set players" "p ! circ m s (m - i) \<in> set players"
        using si(3) mem circ_le [OF m] by (auto simp: rr_live_def)
      ultimately show "M \<in> ?R" using M by blast
    qed
    show "?R \<subseteq> ?L"
    proof
      fix M assume "M \<in> ?R"
      then obtain x y where xy: "x \<in> set players" "y \<in> set players" "x \<noteq> y" "M = {x, y}" by auto
      have "set players \<subseteq> set p" by (auto simp: p_def rr_padded_def)
      with xy obtain a b where ab: "a \<le> m" "b \<le> m" "p ! a = x" "p ! b = y"
        by (metis in_set_conv_nth len less_Suc_eq_le subsetD)
      from xy(3) ab have "a \<noteq> b" by auto
      with ab have "{a, b} \<in> {B. B \<subseteq> {0..m} \<and> card B = 2}" by simp
      then obtain s i where si: "s < m" "i < Suc m div 2" "circ_pair m s i = {a, b}"
        unfolding circ_pair_all [OF rounds(1), symmetric] by auto
      have "rr_live p m s i"
        using si(3) ab xy mem unfolding rr_live_def circ_pair_def
        by (metis assms(2) insert_iff singletonD)
      moreover have "M = (\<lambda>k. p ! k) ` circ_pair m s i"
        using si(3) ab xy(4) by auto
      ultimately show "M \<in> ?L" unfolding L using si by blast
    qed
  qed
qed

section \<open>Within a round\<close>

lemma rr_round_players_distinct:
  assumes "distinct players" "bye \<notin> set players" "rnd \<in> set (singlesRoundRobin players)"
  shows "distinct (concat (map match_players rnd))"
proof (cases "2 \<le> length players")
  case False
  then have "length players = 0 \<or> length players = 1" by arith
  with assms(3) show ?thesis
    by (auto simp: singlesRoundRobin_def length_Suc_conv rr_round_def Let_def)
next
  case True
  define p where "p = rr_padded players"
  define m where "m = length p - 1"
  note rounds = singlesRoundRobin_rounds [OF True, folded p_def, folded m_def]
  have m: "0 < m" and len: "length p = Suc m" and dp: "distinct p"
    using True rr_padded_distinct [OF assms(1,2)] by (auto simp: m_def p_def rr_padded_def)
  obtain s where "rnd = map (rr_match p m s) (filter (rr_live p m s) [0..<Suc m div 2])"
    using assms(3) unfolding rounds(2) by auto
  then have "concat (map match_players rnd)
      = concat (map (\<lambda>i. match_players (rr_match p m s i)) (filter (rr_live p m s) [0..<Suc m div 2]))"
    by (simp add: comp_def)
  also have "distinct \<dots>"
  proof (rule distinct_concat_map)
    have ne: "p ! circ m s i \<noteq> p ! circ m s j" if "i \<le> m" "j \<le> m" "i \<noteq> j" for i j
      using that circ_inj [OF m that(1,2)] dp circ_le [OF m] len
      by (auto simp: nth_eq_iff_index_eq less_Suc_eq_le)
    have bd: "i \<le> m \<and> m - i \<le> m \<and> i \<noteq> m - i \<and> 2 * i < m" if "i < Suc m div 2" for i
      using that rounds(1) by presburger
    show "distinct (match_players (rr_match p m s i))"
      if "i \<in> set (filter (rr_live p m s) [0..<Suc m div 2])" for i
      using bd [of i] ne [of i "m - i"] that by (simp add: match_players_def rr_match_def)
    show "set (match_players (rr_match p m s i)) \<inter> set (match_players (rr_match p m s j)) = {}"
      if "i \<in> set (filter (rr_live p m s) [0..<Suc m div 2])"
        "j \<in> set (filter (rr_live p m s) [0..<Suc m div 2])" "i \<noteq> j" for i j
    proof -
      have "i < Suc m div 2" "j < Suc m div 2" using that by auto
      with that(3) have far: "i \<noteq> m - j" "m - i \<noteq> j" "m - i \<noteq> m - j"
        and le: "i \<le> m" "j \<le> m" "m - i \<le> m" "m - j \<le> m"
        using bd [of i] bd [of j] by linarith+
      have "p ! circ m s i \<noteq> p ! circ m s j" "p ! circ m s i \<noteq> p ! circ m s (m - j)"
        "p ! circ m s (m - i) \<noteq> p ! circ m s j" "p ! circ m s (m - i) \<noteq> p ! circ m s (m - j)"
        using ne [OF le(1,2) that(3)] ne [OF le(1,4) far(1)] ne [OF le(3,2) far(2)]
          ne [OF le(3,4) far(3)] .
      then show ?thesis by (simp add: match_players_def rr_match_def)
    qed
  qed simp
  finally show ?thesis .
qed

lemma length_singlesRoundRobin [len_simps]:
  "length (singlesRoundRobin players)
     = (if length players < 2 then length players
        else if even (length players) then length players - 1 else length players)"
proof -
  have "length (rr_loop k arr) = k" for k arr by (induction k arr rule: rr_loop.induct) auto
  then show ?thesis by (auto simp: singlesRoundRobin_def Let_def)
qed

lemma length_boundedTarget_pos: "1 \<le> boundedTarget n lo hi"
  by (simp add: boundedTarget_def Let_def)

section \<open>Fixed pairs\<close>

lemma rr_match_shape:
  assumes "m \<in> set (concat (singlesRoundRobin players))"
  shows "rt1 m = [rt1 m ! 0] \<and> rt2 m = [rt2 m ! 0]"
proof (cases "2 \<le> length players")
  case False
  then have "length players = 0 \<or> length players = 1" by arith
  with assms show ?thesis
    by (auto simp: singlesRoundRobin_def length_Suc_conv rr_round_def Let_def)
next
  case True
  from assms show ?thesis
    unfolding singlesRoundRobin_rounds(2) [OF True] by (auto simp: rr_match_def)
qed

definition unit_pair :: "raw_match \<Rightarrow> nat \<times> nat" where
  "unit_pair m = (atoi (rt1 m ! 0), atoi (rt2 m ! 0))"

lemma doublesFixed_unit_pairs:
  "doublesFixed pairs = map (map (\<lambda>(a, b). \<lparr>rt1 = pairs ! a, rt2 = pairs ! b\<rparr>))
     (map (map unit_pair) (singlesRoundRobin (map itoa [0..<length pairs])))"
  by (simp add: doublesFixed_def unit_pair_def comp_def)

lemma unit_pairs_once:
  fixes k :: nat
  defines "R \<equiv> singlesRoundRobin (map itoa [0..<k])"
  shows "distinct (map (\<lambda>(a, b). {a, b}) (concat (map (map unit_pair) R)))"
    and "set (map (\<lambda>(a, b). {a, b}) (concat (map (map unit_pair) R))) = {{a, b} | a b. a < k \<and> b < k \<and> a \<noteq> b}"
proof -
  have d: "distinct (map itoa [0..<k])" and nb: "bye \<notin> set (map itoa [0..<k])"
    by (auto simp: distinct_map inj_on_def bye_def dest: sym)
  have eq: "map (\<lambda>(a, b). {a, b}) (concat (map (map unit_pair) R))
      = map (\<lambda>M. atoi ` M) (map (\<lambda>m. set (match_players m)) (concat R))"
  proof -
    have "(\<lambda>(a, b). {a, b}) (unit_pair m) = atoi ` set (match_players m)" if mR: "m \<in> set (concat R)" for m
    proof -
      obtain x y where "rt1 m = [x]" "rt2 m = [y]"
        using rr_match_shape [OF mR [unfolded R_def]] by metis
      then show ?thesis by (simp add: unit_pair_def match_players_def)
    qed
    then have "map (\<lambda>m. (\<lambda>(a, b). {a, b}) (unit_pair m)) (concat R)
        = map (\<lambda>m. atoi ` set (match_players m)) (concat R)"
      by (intro map_cong refl)
    then show ?thesis by (simp add: map_concat comp_def)
  qed
  have S: "set (map (\<lambda>m. set (match_players m)) (concat R))
      = {{x, y} | x y. x \<in> itoa ` {0..<k} \<and> y \<in> itoa ` {0..<k} \<and> x \<noteq> y}"
    unfolding R_def rr_meetings_set [OF d nb] by simp
  have inj: "inj_on atoi (itoa ` {0..<k})" by (auto simp: inj_on_def)
  then have "inj_on ((`) atoi) (Pow (itoa ` {0..<k}))" by (rule inj_on_image_Pow)
  then have "inj_on ((`) atoi) (set (map (\<lambda>m. set (match_players m)) (concat R)))"
    by (rule inj_on_subset) (unfold S, auto)
  then show "distinct (map (\<lambda>(a, b). {a, b}) (concat (map (map unit_pair) R)))"
    unfolding eq using rr_meetings_distinct [OF d nb, folded R_def] by (subst distinct_map) blast
  show "set (map (\<lambda>(a, b). {a, b}) (concat (map (map unit_pair) R))) = {{a, b} | a b. a < k \<and> b < k \<and> a \<noteq> b}"
  proof -
    have "set (map (\<lambda>(a, b). {a, b}) (concat (map (map unit_pair) R)))
        = (`) atoi ` {{x, y} | x y. x \<in> itoa ` {0..<k} \<and> y \<in> itoa ` {0..<k} \<and> x \<noteq> y}"
      unfolding eq set_map [of "(`) atoi"] S ..
    also have "{{x, y} | x y. x \<in> itoa ` {0..<k} \<and> y \<in> itoa ` {0..<k} \<and> x \<noteq> y}
        = {{itoa a, itoa b} | a b. a < k \<and> b < k \<and> a \<noteq> b}" (is "?A = ?B")
    proof
      show "?A \<subseteq> ?B" by force
      have "{itoa a, itoa b} \<in> ?A" if "a < k" "b < k" "a \<noteq> b" for a b
        using that by (intro CollectI exI [of _ "itoa a"] exI [of _ "itoa b"]) simp
      then show "?B \<subseteq> ?A" by blast
    qed
    also have "(`) atoi ` \<dots> = {atoi ` {itoa a, itoa b} | a b. a < k \<and> b < k \<and> a \<noteq> b}"
      by blast
    finally show ?thesis by simp
  qed
qed

lemma doublesFixed_round_distinct:
  assumes "distinct (concat pairs)" "rnd \<in> set (doublesFixed pairs)"
  shows "distinct (concat (map match_players rnd))"
proof -
  let ?R = "singlesRoundRobin (map itoa [0..<length pairs])"
  from assms(2) obtain r where r: "r \<in> set ?R"
    "rnd = map (\<lambda>(a, b). \<lparr>rt1 = pairs ! a, rt2 = pairs ! b\<rparr>) (map unit_pair r)"
    unfolding doublesFixed_unit_pairs by auto
  have players: "set (match_players m) \<subseteq> itoa ` {0..<length pairs}" if "m \<in> set r" for m
  proof -
    have "set (match_players m) \<in> set (map (\<lambda>m. set (match_players m)) (concat ?R))"
      using that r(1) by auto
    then show ?thesis
      by (subst (asm) rr_meetings_set) (auto simp: distinct_map inj_on_def bye_def dest: sym)
  qed
  have d: "distinct (concat (map match_players r))"
    by (rule rr_round_players_distinct [OF _ _ r(1)])
      (auto simp: distinct_map inj_on_def bye_def dest: sym)
  have units: "map atoi (match_players m) = [fst (unit_pair m), snd (unit_pair m)]" if "m \<in> set r" for m
    using rr_match_shape [of m "map itoa [0..<length pairs]"] that r(1)
    by (auto simp: unit_pair_def match_players_def) (metis list.map(1,2) append.simps map_append)
  let ?U = "concat (map (\<lambda>m. [fst (unit_pair m), snd (unit_pair m)]) r)"
  have "?U = map atoi (concat (map match_players r))"
    using units by (simp add: map_concat comp_def cong: map_cong)
  moreover have "inj_on atoi (set (concat (map match_players r)))"
    by (rule inj_on_subset [of _ "itoa ` {0..<length pairs}"]) (use players in \<open>auto simp: inj_on_def\<close>)
  ultimately have dU: "distinct ?U" using d by (simp add: distinct_map)
  have U: "set ?U \<subseteq> {0..<length pairs}"
    using players \<open>?U = _\<close> by fastforce
  have "concat (map match_players rnd) = concat (map (\<lambda>a. pairs ! a) ?U)"
    unfolding r(2) by (induction r) (auto simp: match_players_def case_prod_unfold)
  also have "distinct \<dots>"
    by (rule distinct_concat_map_nth [OF assms(1) dU U])
  finally show ?thesis .
qed

lemma concat_autoPair: "concat (autoPair ps) = take (2 * (length ps div 2)) ps"
  by (induction ps rule: autoPair.induct) auto

lemma distinct_autoPair: "distinct ps \<Longrightarrow> distinct (concat (autoPair ps))"
  by (simp add: concat_autoPair)

end
