(* ===== verification/Mixer.thy ===== *)
theory Mixer
  imports Round_Robin
begin

text \<open>
  The social mixer of \<open>internal/engine/schedule.go\<close>: \<open>doublesRotating\<close> draws doubles
  rounds with changing partners, greedily avoiding repeated partners and opponents, and rests
  the players who have played most. The counters it threads through the rounds are the record
  \<open>mixer\<close>; a Go panic (an index out of range) is \<open>None\<close>.
\<close>

section \<open>State\<close>

record mixer =
  partnerCount :: "string \<Rightarrow> nat"
  oppCount :: "string \<Rightarrow> nat"
  games :: "pid \<Rightarrow> nat"

definition mixer_init :: mixer where
  "mixer_init = \<lparr>partnerCount = (\<lambda>_. 0), oppCount = (\<lambda>_. 0), games = (\<lambda>_. 0)\<rparr>"

definition pair_key :: "pid \<Rightarrow> pid \<Rightarrow> string" where
  "pair_key a b = (if a \<le> b then a @ ''|'' @ b else b @ ''|'' @ a)"

definition pc :: "mixer \<Rightarrow> pid \<Rightarrow> pid \<Rightarrow> nat" where
  "pc st a b = partnerCount st (pair_key a b)"

definition oc :: "mixer \<Rightarrow> pid \<Rightarrow> pid \<Rightarrow> nat" where
  "oc st a b = oppCount st (pair_key a b)"

definition bump :: "(string \<Rightarrow> nat) \<Rightarrow> string \<Rightarrow> (string \<Rightarrow> nat)" where
  "bump c k = c(k := c k + 1)"

definition lessTriple :: "nat \<Rightarrow> nat \<Rightarrow> pid \<Rightarrow> nat \<Rightarrow> nat \<Rightarrow> pid \<Rightarrow> bool" where
  "lessTriple pcA ocA candA pcB ocB candB =
    (if pcA \<noteq> pcB then pcA < pcB else if ocA \<noteq> ocB then ocA < ocB else candA < candB)"

section \<open>One round\<close>

text \<open>Fewest games first, ties by id.\<close>

definition pool_less :: "mixer \<Rightarrow> pid \<Rightarrow> pid \<Rightarrow> bool" where
  "pool_less st a b = (if games st a \<noteq> games st b then games st a < games st b else a < b)"

definition removeAt :: "nat \<Rightarrow> 'a list \<Rightarrow> 'a list" where
  "removeAt i xs = take i xs @ drop (Suc i) xs"

definition pick_partner :: "mixer \<Rightarrow> pid \<Rightarrow> pid list \<Rightarrow> nat" where
  "pick_partner st a remaining =
    foldl (\<lambda>best i.
        if lessTriple (pc st a (remaining ! i)) (oc st a (remaining ! i)) (remaining ! i)
             (pc st a (remaining ! best)) (oc st a (remaining ! best)) (remaining ! best)
        then i else best)
      0 [0..<length remaining]"

lemma length_removeAt [len_simps, simp]: "i < length xs \<Longrightarrow> length (removeAt i xs) = length xs - 1"
  by (simp add: removeAt_def)

lemma mset_removeAt [perm_simps]:
  assumes "i < length xs"
  shows "add_mset (xs ! i) (mset (removeAt i xs)) = mset xs"
  using arg_cong [OF id_take_nth_drop [OF assms], of mset] by (simp add: removeAt_def)

lemma mset_concat_removeAt [perm_simps]:
  assumes "i < length xs"
  shows "mset (concat xs) = mset (xs ! i) + mset (concat (removeAt i xs))"
  using arg_cong [OF id_take_nth_drop [OF assms], of "\<lambda>x. mset (concat x)"]
  by (simp add: removeAt_def)

function formTeams :: "mixer \<Rightarrow> pid list \<Rightarrow> pid list list option" where
  "formTeams st [] = Some []"
| "formTeams st (a # remaining) =
    (let best = pick_partner st a remaining in
     if best < length remaining
     then map_option ((#) [a, remaining ! best]) (formTeams st (removeAt best remaining))
     else None)"
  by pat_completeness auto
termination
  by (relation "measure (\<lambda>(st, xs). length xs)") auto

definition oppCost :: "mixer \<Rightarrow> pid list \<Rightarrow> pid list \<Rightarrow> nat" where
  "oppCost st t1 t2 = sum_list [oc st x y. x \<leftarrow> t1, y \<leftarrow> t2]"

definition pick_opponent :: "mixer \<Rightarrow> pid list \<Rightarrow> pid list list \<Rightarrow> nat" where
  "pick_opponent st t1 trem =
    fst (foldl (\<lambda>(best, bestCost) i.
        let c = oppCost st t1 (trem ! i) in
        if c < bestCost \<or> (c = bestCost \<and> concat (trem ! i) < concat (trem ! best))
        then (i, c) else (best, bestCost))
      (0, oppCost st t1 (trem ! 0)) [0..<length trem])"

definition count_match :: "mixer \<Rightarrow> pid list \<Rightarrow> pid list \<Rightarrow> mixer" where
  "count_match st t1 t2 =
    st\<lparr>partnerCount := bump (bump (partnerCount st) (pair_key (t1 ! 0) (t1 ! 1)))
                         (pair_key (t2 ! 0) (t2 ! 1)),
       oppCount := foldl bump (oppCount st) [pair_key x y. x \<leftarrow> t1, y \<leftarrow> t2],
       games := foldl bump (games st) (t1 @ t2)\<rparr>"

function pairTeams :: "mixer \<Rightarrow> pid list list \<Rightarrow> (raw_match list \<times> mixer) option" where
  "pairTeams st [] = Some ([], st)"
| "pairTeams st (t1 # trem) =
    (let best = pick_opponent st t1 trem in
     if best < length trem
     then (let t2 = trem ! best in
           map_option (\<lambda>(ms, st'). (\<lparr>rt1 = t1, rt2 = t2\<rparr> # ms, st'))
             (pairTeams (count_match st t1 t2) (removeAt best trem)))
     else None)"
  by pat_completeness auto
termination
  by (relation "measure (\<lambda>(st, xs). length xs)") auto

definition mixer_active :: "mixer \<Rightarrow> pid list \<Rightarrow> pid list" where
  "mixer_active st players =
    (let pool = sort_by (pool_less st) players;
         sit = length pool mod 4
     in take (length pool - sit) pool)"

definition mixer_round :: "mixer \<Rightarrow> pid list \<Rightarrow> (raw_match list \<times> mixer) option" where
  "mixer_round st players =
    (let active = mixer_active st players in
     if length active < 4 then Some ([], st)
     else (case formTeams st active of None \<Rightarrow> None | Some teams \<Rightarrow> pairTeams st teams))"

fun mixer_loop :: "nat \<Rightarrow> mixer \<Rightarrow> pid list \<Rightarrow> (raw_match list list \<times> mixer) option" where
  "mixer_loop 0 st players = Some ([], st)"
| "mixer_loop (Suc r) st players =
    (case mixer_round st players of
       None \<Rightarrow> None
     | Some (ms, st') \<Rightarrow> map_option (\<lambda>(out, st''). (ms # out, st'')) (mixer_loop r st' players))"

definition doublesRotating :: "pid list \<Rightarrow> int \<Rightarrow> raw_match list list option" where
  "doublesRotating players numRounds = map_option fst (mixer_loop (nat numRounds) mixer_init players)"

section \<open>The greedy choices are in range\<close>

lemma foldl_pick_in:
  "foldl (\<lambda>best i. if P best i then i else best) b xs \<in> insert b (set xs)"
  by (induction xs arbitrary: b) fastforce+

lemma pick_partner_less: "remaining \<noteq> [] \<Longrightarrow> pick_partner st a remaining < length remaining"
  unfolding pick_partner_def
  using foldl_pick_in [of "\<lambda>best i. lessTriple (pc st a (remaining ! i)) (oc st a (remaining ! i))
      (remaining ! i) (pc st a (remaining ! best)) (oc st a (remaining ! best)) (remaining ! best)"
      0 "[0..<length remaining]"]
  by auto

lemma foldl_pick2_in:
  "fst (foldl (\<lambda>(best, bc) i. let c = f i in if P c bc i best then (i, c) else (best, bc)) (b, v) xs)
     \<in> insert b (set xs)"
  by (induction xs arbitrary: b v) (fastforce simp: Let_def)+

lemma pick_opponent_less: "trem \<noteq> [] \<Longrightarrow> pick_opponent st t1 trem < length trem"
  using foldl_pick2_in [of "oppCost st t1 \<circ> (!) trem"
      "\<lambda>c bc i best. c < bc \<or> (c = bc \<and> concat (trem ! i) < concat (trem ! best))"
      0 "oppCost st t1 (trem ! 0)" "[0..<length trem]"]
  by (auto simp: pick_opponent_def)

section \<open>A round uses every active player exactly once\<close>

lemma formTeams_total:
  "even (length xs) \<Longrightarrow> \<exists>ts. formTeams st xs = Some ts \<and> mset (concat ts) = mset xs
     \<and> (\<forall>t \<in> set ts. length t = 2) \<and> 2 * length ts = length xs"
proof (induction st xs rule: formTeams.induct)
  case (1 st)
  then show ?case by simp
next
  case (2 st a remaining)
  then have ne: "remaining \<noteq> []" by auto
  let ?b = "pick_partner st a remaining"
  have lt: "?b < length remaining" by (rule pick_partner_less [OF ne])
  have "even (length (removeAt ?b remaining))"
    using 2(2) lt by (auto simp: len_simps)
  with 2(1) [OF refl lt] obtain ts where ts: "formTeams st (removeAt ?b remaining) = Some ts"
    "mset (concat ts) = mset (removeAt ?b remaining)" "\<forall>t \<in> set ts. length t = 2"
    "2 * length ts = length (removeAt ?b remaining)" by auto
  have "mset (concat ([a, remaining ! ?b] # ts)) = mset (a # remaining)"
    using ts(2) mset_removeAt [OF lt] by simp
  moreover have "2 * length ([a, remaining ! ?b] # ts) = length (a # remaining)"
    using ts(4) lt 2(2) by (auto simp: len_simps)
  moreover have "formTeams st (a # remaining) = Some ([a, remaining ! ?b] # ts)"
    using lt ts(1) by (simp add: Let_def)
  ultimately show ?case using ts(3) by auto
qed

lemma foldl_bump: "foldl bump c xs p = c p + count_list xs p"
  by (induction xs arbitrary: c) (auto simp: bump_def)

lemma games_count_match [simp]:
  "games (count_match st t1 t2) p = games st p + count_list (t1 @ t2) p"
  by (simp add: count_match_def foldl_bump)

lemma pairTeams_total:
  "even (length ts) \<Longrightarrow> \<exists>ms st'. pairTeams st ts = Some (ms, st')
     \<and> mset (concat (map match_players ms)) = mset (concat ts)
     \<and> (\<forall>m \<in> set ms. rt1 m \<in> set ts \<and> rt2 m \<in> set ts)
     \<and> 2 * length ms = length ts
     \<and> (\<forall>p. games st' p = games st p + count_list (concat (map match_players ms)) p)"
proof (induction st ts rule: pairTeams.induct)
  case (1 st)
  then show ?case by simp
next
  case (2 st t1 trem)
  then have ne: "trem \<noteq> []" by auto
  let ?b = "pick_opponent st t1 trem"
  have lt: "?b < length trem" by (rule pick_opponent_less [OF ne])
  let ?t2 = "trem ! ?b" and ?rest = "removeAt ?b trem"
  have "even (length ?rest)"
    using 2(2) lt by (auto simp: len_simps)
  with 2(1) [OF refl lt refl] obtain ms st' where
    r: "pairTeams (count_match st t1 ?t2) ?rest = Some (ms, st')"
    "mset (concat (map match_players ms)) = mset (concat ?rest)"
    "\<forall>m \<in> set ms. rt1 m \<in> set ?rest \<and> rt2 m \<in> set ?rest" "2 * length ms = length ?rest"
    "\<forall>p. games st' p = games (count_match st t1 ?t2) p + count_list (concat (map match_players ms)) p"
    by auto
  let ?m = "\<lparr>rt1 = t1, rt2 = ?t2\<rparr>"
  have "mset (concat trem) = mset (concat (?t2 # ?rest))"
    using mset_concat_removeAt [OF lt] by simp
  then have "mset (concat (map match_players (?m # ms))) = mset (concat (t1 # trem))"
    using r(2) by (simp add: match_players_def)
  moreover have "pairTeams st (t1 # trem) = Some (?m # ms, st')"
    using lt r(1) by (simp add: Let_def)
  moreover have "set ?rest \<subseteq> set trem"
    by (auto simp: removeAt_def dest: in_set_takeD in_set_dropD)
  moreover have "2 * length (?m # ms) = length (t1 # trem)"
    using r(4) lt 2(2) by (auto simp: len_simps)
  moreover have "games st' p = games st p + count_list (concat (map match_players (?m # ms))) p" for p
    using r(5) by (simp add: match_players_def)
  ultimately show ?case using r(3) lt by auto
qed

lemma mixer_round_total:
  "\<exists>ms st'. mixer_round st players = Some (ms, st')
     \<and> mset (concat (map match_players ms))
         = (if length (mixer_active st players) < 4 then {#} else mset (mixer_active st players))
     \<and> (\<forall>m \<in> set ms. length (rt1 m) = 2 \<and> length (rt2 m) = 2)
     \<and> (\<forall>p. games st' p = games st p + count_list (concat (map match_players ms)) p)"
proof (cases "length (mixer_active st players) < 4")
  case True
  then show ?thesis by (simp add: mixer_round_def Let_def)
next
  case False
  have "4 dvd length (mixer_active st players)"
    by (simp add: mixer_active_def Let_def dvd_minus_mod)
  then have ev: "even (length (mixer_active st players))" by presburger
  obtain ts where ts: "formTeams st (mixer_active st players) = Some ts"
    "mset (concat ts) = mset (mixer_active st players)" "\<forall>t \<in> set ts. length t = 2"
    "2 * length ts = length (mixer_active st players)"
    using formTeams_total [OF ev] by blast
  have "even (length ts)"
    using \<open>4 dvd _\<close> ts(4) by presburger
  from pairTeams_total [OF this, of st] ts False show ?thesis
    by (auto simp: mixer_round_def Let_def)
qed

section \<open>Fair rests\<close>

interpretation pool_order: strict_total_less "pool_less st" for st
  by unfold_locales (auto simp: pool_less_def split: if_splits)

text \<open>All players are within one game of each other.\<close>

definition mixer_fair :: "mixer \<Rightarrow> pid list \<Rightarrow> bool" where
  "mixer_fair st players \<longleftrightarrow> (\<exists>g. \<forall>p \<in> set players. games st p = g \<or> games st p = g + 1)"

lemma active_rested_games:
  assumes "x \<in> set (mixer_active st players)"
    and "y \<in> set players" "y \<notin> set (mixer_active st players)"
  shows "games st x \<le> games st y"
proof -
  let ?pool = "sort_by (pool_less st) players"
  let ?a = "length ?pool - length ?pool mod 4"
  have act: "mixer_active st players = take ?a ?pool" by (simp add: mixer_active_def Let_def)
  from assms(1) obtain i where i: "i < ?a" "i < length ?pool" "x = ?pool ! i"
    unfolding act by (auto simp: in_set_conv_nth)
  from assms(2) obtain j where j: "j < length ?pool" "y = ?pool ! j"
    by (metis in_set_conv_nth set_sort_by)
  have "\<not> j < ?a"
    using assms(3) j unfolding act by (metis in_set_conv_nth length_take min_less_iff_conj nth_take)
  with i j have "\<not> pool_less st y x"
    using pool_order.sort_by_nth [of i j players st] by simp
  then show ?thesis by (auto simp: pool_less_def split: if_splits)
qed

lemma count_list_distinct: "distinct xs \<Longrightarrow> count_list xs p = (if p \<in> set xs then 1 else 0)"
  by (induction xs) auto

lemma mset_mixer_active: "mset (mixer_active st players) \<subseteq># mset players"
proof -
  have "mset (take k xs) \<subseteq># mset xs" for k and xs :: "pid list"
    by (metis append_take_drop_id mset_append mset_subset_eq_add_left)
  then show ?thesis by (simp add: mixer_active_def Let_def) (metis mset_sort_by)
qed

lemma mixer_round_games:
  assumes "distinct players" and "mixer_round st players = Some (ms, st')"
  shows "games st' p = games st p
    + (if 4 \<le> length (mixer_active st players) \<and> p \<in> set (mixer_active st players) then 1 else 0)"
proof -
  let ?act = "mixer_active st players"
  have d: "distinct ?act"
    using assms(1) by (simp add: mixer_active_def Let_def)
  obtain ms' st'' where r: "mixer_round st players = Some (ms', st'')"
    "mset (concat (map match_players ms')) = (if length ?act < 4 then {#} else mset ?act)"
    "\<forall>p. games st'' p = games st p + count_list (concat (map match_players ms')) p"
    using mixer_round_total [of st players] by blast
  have "games st' p = games st p + count_list (concat (map match_players ms')) p"
    using r(1,3) assms(2) by simp
  also have "count_list (concat (map match_players ms')) p
      = (if length ?act < 4 then 0 else count_list ?act p)"
    using arg_cong [OF r(2), of "\<lambda>M. count M p"]
    by (cases "length ?act < 4") (simp_all only: count_mset if_True if_False count_empty)
  finally show ?thesis by (simp add: count_list_distinct [OF d])
qed

lemma mixer_round_fair:
  assumes "distinct players" "mixer_fair st players" "mixer_round st players = Some (ms, st')"
  shows "mixer_fair st' players"
proof (cases "4 \<le> length (mixer_active st players)")
  case False
  then have "games st' p = games st p" for p using mixer_round_games [OF assms(1,3), of p] by simp
  with assms(2) show ?thesis by (simp add: mixer_fair_def)
next
  case True
  let ?A = "set (mixer_active st players)"
  have gm: "games st' p = games st p + (if p \<in> ?A then 1 else 0)" for p
    using mixer_round_games [OF assms(1,3), of p] True by simp
  from assms(2) obtain g where g: "\<forall>p \<in> set players. games st p = g \<or> games st p = g + 1"
    by (auto simp: mixer_fair_def)
  have sub: "?A \<subseteq> set players"
    using set_mset_mono [OF mset_mixer_active [of st players]] by simp
  show ?thesis
  proof (cases "\<exists>y \<in> set players. y \<notin> ?A \<and> games st y = g")
    case True
    then have "\<forall>x \<in> ?A. games st x = g"
      using active_rested_games [of _ st players] g sub by force
    with g have "\<forall>p \<in> set players. games st' p = g \<or> games st' p = g + 1"
      by (auto simp: gm)
    then show ?thesis by (auto simp: mixer_fair_def)
  next
    case False
    with g have "\<forall>p \<in> set players. games st' p = g + 1 \<or> games st' p = (g + 1) + 1"
      by (auto simp: gm)
    then show ?thesis unfolding mixer_fair_def by blast
  qed
qed

lemma mixer_loop_inv:
  assumes "distinct players" "mixer_fair st players"
  shows "\<exists>out st'. mixer_loop k st players = Some (out, st') \<and> length out = k
    \<and> mixer_fair st' players
    \<and> (\<forall>p. games st' p = games st p + count_list (concat (map match_players (concat out))) p)
    \<and> (\<forall>rnd \<in> set out. (\<forall>m \<in> set rnd. length (rt1 m) = 2 \<and> length (rt2 m) = 2)
          \<and> distinct (concat (map match_players rnd))
          \<and> set (concat (map match_players rnd)) \<subseteq> set players
          \<and> 4 * length rnd = length players - length players mod 4)"
  using assms(2)
proof (induction k arbitrary: st)
  case 0
  then show ?case by simp
next
  case (Suc k)
  let ?act = "mixer_active st players"
  obtain ms st1 where r: "mixer_round st players = Some (ms, st1)"
    "mset (concat (map match_players ms)) = (if length ?act < 4 then {#} else mset ?act)"
    "\<forall>m \<in> set ms. length (rt1 m) = 2 \<and> length (rt2 m) = 2"
    "\<forall>p. games st1 p = games st p + count_list (concat (map match_players ms)) p"
    using mixer_round_total [of st players] by blast
  have "mixer_fair st1 players" using mixer_round_fair [OF assms(1) Suc.prems r(1)] .
  from Suc.IH [OF this] obtain out st2 where o: "mixer_loop k st1 players = Some (out, st2)"
    "length out = k" "mixer_fair st2 players"
    "\<forall>p. games st2 p = games st1 p + count_list (concat (map match_players (concat out))) p"
    "\<forall>rnd \<in> set out. (\<forall>m \<in> set rnd. length (rt1 m) = 2 \<and> length (rt2 m) = 2)
          \<and> distinct (concat (map match_players rnd))
          \<and> set (concat (map match_players rnd)) \<subseteq> set players
          \<and> 4 * length rnd = length players - length players mod 4" by auto
  have la: "length ?act = length players - length players mod 4"
    by (simp add: mixer_active_def Let_def)
  let ?L = "if length ?act < 4 then [] else ?act"
  have mL: "mset (concat (map match_players ms)) = mset ?L"
    using r(2) by (simp split: if_splits)
  have "distinct ?L" using assms(1) by (simp add: mixer_active_def Let_def)
  then have d: "distinct (concat (map match_players ms))"
    using mset_eq_imp_distinct_iff [OF mL] by blast
  have "set ?L \<subseteq> set players"
    using set_mset_mono [OF mset_mixer_active [of st players]] by simp
  then have s: "set (concat (map match_players ms)) \<subseteq> set players"
    using mset_eq_setD [OF mL] by blast
  have l4: "length (concat (map match_players ms)) = 4 * length ms"
    using r(3) by (induction ms) (auto simp: match_players_def)
  have l: "4 * length ms = length players - length players mod 4"
    using arg_cong [OF r(2), of size] la unfolding l4 [symmetric]
    by (simp add: size_mset split: if_splits) presburger
  have "mixer_loop (Suc k) st players = Some (ms # out, st2)"
    using r(1) o(1) by simp
  moreover have "games st2 p = games st p + count_list (concat (map match_players (concat (ms # out)))) p" for p
    using r(4) o(4) by simp
  ultimately show ?case
    using o(2,3,5) r(3) d s l by (intro exI [of _ "ms # out"] exI [of _ st2] conjI) simp_all
qed

lemma mixer_init_fair: "mixer_fair mixer_init players"
  by (auto simp: mixer_fair_def mixer_init_def)

text \<open>The mixer never gets stuck, whatever the players.\<close>

lemma mixer_loop_total:
  "\<exists>out st'. mixer_loop k st players = Some (out, st') \<and> length out = k"
proof (induction k arbitrary: st)
  case 0
  then show ?case by simp
next
  case (Suc k)
  obtain ms st1 where "mixer_round st players = Some (ms, st1)"
    using mixer_round_total [of st players] by blast
  with Suc [of st1] show ?case by auto
qed

end
