(* ===== verification/Schedule.thy ===== *)
theory Schedule
  imports Mixer
begin

text \<open>
  Court placement and the pool-play entry point of \<open>internal/engine/schedule.go\<close>:
  \<open>placeCourts\<close> turns raw rounds into placed matches, and \<open>GenerateSchedule\<close> selects
  the generator for the play format.
\<close>

section \<open>Data\<close>

datatype play_format = Singles | Doubles

datatype partner_mode = Fixed | Rotating

record match_spec =
  Team1 :: "pid list"
  Team2 :: "pid list"
  CourtNumber :: nat
  Slot :: nat

record round_spec =
  RoundNumber :: nat
  Matches :: "match_spec list"

section \<open>Operations\<close>

definition place_match :: "nat \<Rightarrow> nat \<Rightarrow> raw_match \<Rightarrow> match_spec" where
  "place_match numCourts i m =
    \<lparr>Team1 = rt1 m, Team2 = rt2 m, CourtNumber = i mod numCourts + 1, Slot = i div numCourts\<rparr>"

definition placeCourts :: "raw_match list list \<Rightarrow> nat \<Rightarrow> round_spec list" where
  "placeCourts rawRounds numCourts =
    map (\<lambda>(roundNo, raw).
        \<lparr>RoundNumber = roundNo,
         Matches = map (\<lambda>(i, m). place_match numCourts i m) (enumerate 0 raw)\<rparr>)
      (enumerate 1 rawRounds)"

definition GenerateSchedule ::
  "pid list \<Rightarrow> play_format \<Rightarrow> partner_mode \<Rightarrow> int \<Rightarrow> pid list list option
     \<Rightarrow> int \<Rightarrow> int \<Rightarrow> int \<Rightarrow> round_spec list option" where
  "GenerateSchedule playerIDs format partner numCourts fixedPairs rounds minRounds maxRounds =
    (let nc = nat (if numCourts < 1 then 1 else numCourts) in
     if format = Singles then
       (let rr = singlesRoundRobin playerIDs in
        Some (placeCourts (fitRounds rr (boundedTarget (int (length rr)) minRounds maxRounds)) nc))
     else if partner = Fixed then
       (let pairs = (case fixedPairs of None \<Rightarrow> autoPair playerIDs | Some ps \<Rightarrow> ps);
            rr = doublesFixed pairs in
        Some (placeCourts (fitRounds rr (boundedTarget (int (length rr)) minRounds maxRounds)) nc))
     else map_option (\<lambda>rr. placeCourts rr nc)
            (doublesRotating playerIDs (boundedTarget rounds minRounds maxRounds)))"

section \<open>Placement keeps the games and never books a court twice\<close>

definition spec_players :: "match_spec \<Rightarrow> pid list" where
  "spec_players m = Team1 m @ Team2 m"

definition raw_of :: "match_spec \<Rightarrow> raw_match" where
  "raw_of m = \<lparr>rt1 = Team1 m, rt2 = Team2 m\<rparr>"

lemma raw_of_place_match [simp]: "raw_of (place_match nc i m) = m"
  by (simp add: raw_of_def place_match_def)

lemma spec_players_place [simp]: "spec_players (place_match nc i m) = match_players m"
  by (simp add: spec_players_def place_match_def match_players_def)

lemma map_enumerate_snd: "map (\<lambda>(i, x). f x) (enumerate k xs) = map f xs"
  by (induction xs arbitrary: k) auto

lemma placeCourts_raw: "map (\<lambda>r. map raw_of (Matches r)) (placeCourts raw nc) = raw"
  by (simp add: placeCourts_def comp_def case_prod_unfold flip: case_prod_unfold)
    (simp add: case_prod_unfold comp_def)

lemma placeCourts_players:
  "map (\<lambda>r. map spec_players (Matches r)) (placeCourts raw nc) = map (map match_players) raw"
proof -
  have "map spec_players (Matches r) = map match_players (map raw_of (Matches r))" for r
    by (simp add: spec_players_def match_players_def raw_of_def)
  then show ?thesis
    using placeCourts_raw [of raw nc] by (metis (no_types, lifting) map_eq_conv list.map_comp o_def)
qed

lemma length_placeCourts [len_simps]: "length (placeCourts raw nc) = length raw"
  by (simp add: placeCourts_def)

lemma placeCourts_round:
  assumes "r \<in> set (placeCourts raw nc)"
  shows "\<exists>ms \<in> set raw. Matches r = map (\<lambda>(i, m). place_match nc i m) (enumerate 0 ms)"
  using assms by (auto simp: placeCourts_def set_zip enumerate_eq_zip)

lemma placed_slots_distinct:
  assumes "0 < nc"
  shows "distinct (map (\<lambda>m. (Slot m, CourtNumber m))
           (map (\<lambda>(i, m). place_match nc i m) (enumerate 0 ms)))"
proof -
  have "map (\<lambda>m. (Slot m, CourtNumber m)) (map (\<lambda>(i, m). place_match nc i m) (enumerate 0 ms))
      = map (\<lambda>i. (i div nc, i mod nc + 1)) [0..<length ms]"
    by (intro nth_equalityI) (auto simp: nth_enumerate_eq place_match_def)
  moreover have "inj_on (\<lambda>i. (i div nc, i mod nc + 1)) A" for A
    by (rule inj_onI) (metis add_right_cancel div_mult_mod_eq prod.inject)
  ultimately show ?thesis by (simp add: distinct_map)
qed

section \<open>Resizing\<close>

lemma length_fitRounds [len_simps]:
  "length (fitRounds rr t) = (if t \<le> 0 \<or> rr = [] then length rr else nat t)"
  by (auto simp: fitRounds_def)

lemma set_fitRounds: "set (fitRounds rr t) \<subseteq> set rr"
  by (auto simp: fitRounds_def dest: in_set_takeD)

lemma fitRounds_same: "fitRounds rr (int (length rr)) = rr"
  by (simp add: fitRounds_def)

lemma boundedTarget_unset: "1 \<le> n \<Longrightarrow> boundedTarget n 0 0 = n"
  by (simp add: boundedTarget_def)

section \<open>Properties of the generated schedule\<close>

lemma schedule_matches_place:
  "map (\<lambda>m. f (spec_players m)) (concat (map Matches (placeCourts raw nc)))
     = map (\<lambda>m. f (match_players m)) (concat raw)"
proof -
  have "map spec_players (concat (map Matches (placeCourts raw nc)))
      = concat (map (\<lambda>r. map spec_players (Matches r)) (placeCourts raw nc))"
    by (simp add: map_concat comp_def)
  also have "\<dots> = map match_players (concat raw)"
    by (simp add: placeCourts_players map_concat)
  finally have "map f (map spec_players (concat (map Matches (placeCourts raw nc))))
      = map f (map match_players (concat raw))" by (rule arg_cong)
  then show ?thesis by (simp only: list.map_comp comp_def)
qed

text \<open>
  C17: An unbounded singles schedule is a complete round robin: it is generated, and over
  all its rounds every pair of distinct registered players meets in exactly one match.
\<close>

theorem singles_schedule_complete:
  assumes "distinct playerIDs" "bye \<notin> set playerIDs"
  shows "\<exists>rs. GenerateSchedule playerIDs Singles partner numCourts fixedPairs rounds 0 0 = Some rs
    \<and> distinct (map (\<lambda>m. set (spec_players m)) (concat (map Matches rs)))
    \<and> set (map (\<lambda>m. set (spec_players m)) (concat (map Matches rs)))
        = {{x, y} | x y. x \<in> set playerIDs \<and> y \<in> set playerIDs \<and> x \<noteq> y}"
proof -
  let ?rr = "singlesRoundRobin playerIDs"
  have "fitRounds ?rr (boundedTarget (int (length ?rr)) 0 0) = ?rr"
    by (cases "?rr = []") (simp_all add: fitRounds_def boundedTarget_unset Suc_leI)
  then have "GenerateSchedule playerIDs Singles partner numCourts fixedPairs rounds 0 0
      = Some (placeCourts ?rr (nat (if numCourts < 1 then 1 else numCourts)))"
    by (simp add: GenerateSchedule_def Let_def)
  then show ?thesis
    using rr_meetings_distinct [OF assms] rr_meetings_set [OF assms]
    by (simp add: schedule_matches_place del: set_map)
qed

theorem singles_schedule_complete_witness:
  "\<exists>rs. GenerateSchedule [''ana'', ''bo'', ''cy''] Singles Fixed 2 None 0 0 0 = Some rs
    \<and> distinct (map (\<lambda>m. set (spec_players m)) (concat (map Matches rs)))
    \<and> set (map (\<lambda>m. set (spec_players m)) (concat (map Matches rs)))
        = {{x, y} | x y. x \<in> set [''ana'', ''bo'', ''cy''] \<and> y \<in> set [''ana'', ''bo'', ''cy''] \<and> x \<noteq> y}"
  by (rule singles_schedule_complete) (simp_all add: bye_def)

text \<open>Whatever the format, a generated round never books one court twice in the same wave,
  and it only uses courts numbered 1 to the (at least one) court of the venue.
\<close>

theorem schedule_no_double_booking:
  assumes "GenerateSchedule playerIDs format partner numCourts fixedPairs rounds minRounds maxRounds = Some rs"
    and "r \<in> set rs"
  shows "distinct (map (\<lambda>m. (Slot m, CourtNumber m)) (Matches r))
    \<and> (\<forall>m \<in> set (Matches r). 1 \<le> CourtNumber m \<and> int (CourtNumber m) \<le> max 1 numCourts)"
proof -
  let ?nc = "nat (if numCourts < 1 then 1 else numCourts)"
  have nc: "0 < ?nc" "int ?nc = max 1 numCourts" by auto
  obtain raw where "rs = placeCourts raw ?nc"
    using assms(1) by (auto simp: GenerateSchedule_def Let_def split: if_splits)
  with assms(2) obtain ms where ms: "Matches r = map (\<lambda>(i, m). place_match ?nc i m) (enumerate 0 ms)"
    using placeCourts_round by blast
  have "1 \<le> CourtNumber m \<and> int (CourtNumber m) \<le> max 1 numCourts" if "m \<in> set (Matches r)" for m
  proof -
    from that ms obtain i x where "m = place_match ?nc i x" by auto
    then have "1 \<le> CourtNumber m" "CourtNumber m \<le> ?nc"
      using nc(1) by (auto simp: place_match_def Suc_le_eq)
    then show ?thesis using nc(2) by linarith
  qed
  with placed_slots_distinct [OF nc(1), of ms] ms show ?thesis by simp
qed

theorem schedule_no_double_booking_witness:
  "\<exists>r :: round_spec. distinct (map (\<lambda>m. (Slot m, CourtNumber m)) (Matches r))
    \<and> length (Matches r) = 1 \<and> 1 \<le> CourtNumber (hd (Matches r)) \<and> int (CourtNumber (hd (Matches r))) \<le> max 1 1"
proof -
  let ?r = "\<lparr>RoundNumber = 1, Matches = [\<lparr>Team1 = [''ana''], Team2 = [''bo''], CourtNumber = 1, Slot = 0\<rparr>]\<rparr>"
  have "GenerateSchedule [''ana'', ''bo''] Singles Fixed 1 None 0 0 0 = Some [?r]"
    by (simp add: GenerateSchedule_def singlesRoundRobin_def rr_round_def boundedTarget_def
        fitRounds_def placeCourts_def place_match_def bye_def Let_def)
  note q = schedule_no_double_booking [OF this, of ?r]
  show ?thesis by (rule exI [of _ ?r]) (use q in simp)
qed

text \<open>
  Every generator returns a schedule (the mixer never indexes out of range), and where the
  natural schedule is not empty its length is the natural one forced into the organizer's
  window \<open>[minRounds, maxRounds]\<close>; a positive minimum wins over the maximum.
\<close>

theorem schedule_rounds_in_window:
  "\<exists>rs. GenerateSchedule playerIDs format partner numCourts fixedPairs rounds minRounds maxRounds = Some rs
    \<and> (rs \<noteq> [] \<longrightarrow>
        (minRounds > 0 \<longrightarrow> minRounds \<le> int (length rs))
      \<and> (maxRounds > 0 \<longrightarrow> int (length rs) \<le> max (max 1 minRounds) maxRounds))"
proof -
  have win: "(minRounds > 0 \<longrightarrow> minRounds \<le> boundedTarget n minRounds maxRounds)
      \<and> (maxRounds > 0 \<longrightarrow> boundedTarget n minRounds maxRounds \<le> max (max 1 minRounds) maxRounds)" for n
    by (auto simp: boundedTarget_def Let_def)
  have pos: "1 \<le> boundedTarget n minRounds maxRounds" for n by (rule length_boundedTarget_pos)
  have fit: "rr = [] \<and> fitRounds rr t = [] \<or> int (length (fitRounds rr t)) = t" if "1 \<le> t" for rr t
    using that by (auto simp: length_fitRounds fitRounds_def)
  let ?nc = "nat (if numCourts < 1 then 1 else numCourts)"
  consider (fixed_size) rr where "GenerateSchedule playerIDs format partner numCourts fixedPairs rounds
        minRounds maxRounds = Some (placeCourts (fitRounds rr
          (boundedTarget (int (length rr)) minRounds maxRounds)) ?nc)"
    | (rotating) "GenerateSchedule playerIDs format partner numCourts fixedPairs rounds minRounds maxRounds
        = map_option (\<lambda>rr. placeCourts rr ?nc)
            (doublesRotating playerIDs (boundedTarget rounds minRounds maxRounds))"
    by (cases format; cases partner) (auto simp: GenerateSchedule_def Let_def)
  then show ?thesis
  proof cases
    case fixed_size
    with win [of "int (length rr)"] fit [OF pos [of "int (length rr)"], of rr]
    show ?thesis by (auto simp: length_placeCourts placeCourts_def)
  next
    case rotating
    obtain out where "doublesRotating playerIDs (boundedTarget rounds minRounds maxRounds) = Some out"
      "length out = nat (boundedTarget rounds minRounds maxRounds)"
      using mixer_loop_total [of "nat (boundedTarget rounds minRounds maxRounds)" mixer_init playerIDs]
      by (auto simp: doublesRotating_def)
    with rotating win [of rounds] pos [of rounds] show ?thesis
      by (auto simp: length_placeCourts)
  qed
qed

theorem schedule_rounds_in_window_witness:
  "\<exists>rs. GenerateSchedule [''ana'', ''bo''] Singles Fixed 1 None 0 3 0 = Some rs \<and> 3 \<le> int (length rs)"
proof -
  have "GenerateSchedule [''ana'', ''bo''] Singles Fixed 1 None 0 3 0 \<noteq> Some []" by code_simp
  then show ?thesis
    using schedule_rounds_in_window [of "[''ana'', ''bo'']" Singles Fixed 1 None 0 3 0] by auto
qed


text \<open>
  C39: In every round of every generated schedule a registered player is on court at most once,
  for singles, for the rotating mixer, and for fixed pairs that share no player.
\<close>

theorem schedule_player_once_per_round:
  assumes "distinct playerIDs" "bye \<notin> set playerIDs"
    and "\<And>ps. fixedPairs = Some ps \<Longrightarrow> distinct (concat ps)"
    and "GenerateSchedule playerIDs format partner numCourts fixedPairs rounds minRounds maxRounds = Some rs"
    and "r \<in> set rs"
  shows "distinct (concat (map spec_players (Matches r)))"
proof -
  let ?nc = "nat (if numCourts < 1 then 1 else numCourts)"
  let ?pairs = "case fixedPairs of None \<Rightarrow> autoPair playerIDs | Some ps \<Rightarrow> ps"
  have P: "distinct (concat ?pairs)"
    using assms(1,3) distinct_autoPair [of playerIDs] by (cases fixedPairs) auto
  obtain raw where raw: "rs = placeCourts raw ?nc"
    and src: "set raw \<subseteq> set (singlesRoundRobin playerIDs) \<or> set raw \<subseteq> set (doublesFixed ?pairs)
       \<or> doublesRotating playerIDs (boundedTarget rounds minRounds maxRounds) = Some raw"
    using assms(4) set_fitRounds by (auto simp: GenerateSchedule_def Let_def split: if_splits)
  have "map spec_players (Matches r) \<in> set (map (map match_players) raw)"
    unfolding placeCourts_players [of raw ?nc, symmetric] using assms(5) raw by auto
  then obtain ms where ms: "ms \<in> set raw" "map spec_players (Matches r) = map match_players ms"
    by auto
  from src have "distinct (concat (map match_players ms))"
  proof (elim disjE)
    assume "set raw \<subseteq> set (singlesRoundRobin playerIDs)"
    with ms show ?thesis using rr_round_players_distinct [OF assms(1,2)] by blast
  next
    assume "set raw \<subseteq> set (doublesFixed ?pairs)"
    with ms show ?thesis using doublesFixed_round_distinct [OF P] by blast
  next
    assume "doublesRotating playerIDs (boundedTarget rounds minRounds maxRounds) = Some raw"
    with ms show ?thesis
      using mixer_loop_inv [OF assms(1) mixer_init_fair, of "nat (boundedTarget rounds minRounds maxRounds)"]
      by (auto simp: doublesRotating_def)
  qed
  with ms(2) show ?thesis by simp
qed

theorem schedule_player_once_per_round_witness:
  "\<exists>rs r. GenerateSchedule [''ana'', ''bo''] Singles Fixed 1 None 0 0 0 = Some rs \<and> r \<in> set rs
    \<and> distinct (concat (map spec_players (Matches r)))"
proof -
  let ?r = "\<lparr>RoundNumber = 1, Matches = [\<lparr>Team1 = [''ana''], Team2 = [''bo''], CourtNumber = 1, Slot = 0\<rparr>]\<rparr>"
  have g: "GenerateSchedule [''ana'', ''bo''] Singles Fixed 1 None 0 0 0 = Some [?r]"
    by (simp add: GenerateSchedule_def singlesRoundRobin_def rr_round_def boundedTarget_def
        fitRounds_def placeCourts_def place_match_def bye_def Let_def)
  have "distinct (concat (map spec_players (Matches ?r)))"
    by (rule schedule_player_once_per_round [OF _ _ _ g]) (simp_all add: bye_def)
  with g show ?thesis by (intro exI [of _ "[?r]"] exI [of _ ?r] conjI) simp_all
qed

text \<open>
  C40: The rotating mixer rests players fairly: after any number of rounds the numbers of games
  two registered players have played differ by at most one, and every round seats all but
  \<open>n mod 4\<close> of them, two against two.
\<close>

theorem mixer_rest_fair:
  assumes "distinct playerIDs" and "doublesRotating playerIDs k = Some out"
    and "p \<in> set playerIDs" "q \<in> set playerIDs"
  shows "count_list (concat (map match_players (concat out))) p
       \<le> count_list (concat (map match_players (concat out))) q + 1
    \<and> (\<forall>rnd \<in> set out. 4 * length rnd = length playerIDs - length playerIDs mod 4
         \<and> (\<forall>m \<in> set rnd. length (rt1 m) = 2 \<and> length (rt2 m) = 2))"
proof -
  obtain st' where "mixer_loop (nat k) mixer_init playerIDs = Some (out, st')"
    using assms(2) by (auto simp: doublesRotating_def)
  with mixer_loop_inv [OF assms(1) mixer_init_fair, of "nat k"]
  have st: "mixer_fair st' playerIDs"
    "\<forall>p. games st' p = games mixer_init p + count_list (concat (map match_players (concat out))) p"
    and rounds: "\<forall>rnd \<in> set out. 4 * length rnd = length playerIDs - length playerIDs mod 4
         \<and> (\<forall>m \<in> set rnd. length (rt1 m) = 2 \<and> length (rt2 m) = 2)"
    by auto
  from st(1) obtain g where "\<forall>p \<in> set playerIDs. games st' p = g \<or> games st' p = g + 1"
    by (auto simp: mixer_fair_def)
  with assms(3,4) have "games st' p \<le> g + 1" "g \<le> games st' q" by force+
  then have "games st' p \<le> games st' q + 1" by linarith
  with st(2) rounds show ?thesis by (simp add: mixer_init_def)
qed

theorem mixer_rest_fair_witness:
  "\<exists>out. doublesRotating [''a'', ''b'', ''c'', ''d'', ''e''] 2 = Some out
    \<and> count_list (concat (map match_players (concat out))) ''a''
       \<le> count_list (concat (map match_players (concat out))) ''e'' + 1"
proof -
  have d: "distinct [''a'', ''b'', ''c'', ''d'', ''e'']" by simp
  obtain out where out: "doublesRotating [''a'', ''b'', ''c'', ''d'', ''e''] 2 = Some out"
    using mixer_loop_inv [OF d mixer_init_fair, of "nat 2"] by (auto simp: doublesRotating_def)
  from mixer_rest_fair [OF d out, of "''a''" "''e''"] out show ?thesis by auto
qed

text \<open>
  Fixed partners play a complete round robin of the pairs: the generated games are those
  of a list of index pairs in which every two pairs meet exactly once (the decimal ids the code
  gives the pairs are read back without loss).
\<close>

theorem fixed_pairs_round_robin:
  "\<exists>ixs. doublesFixed pairs = map (map (\<lambda>(a, b). \<lparr>rt1 = pairs ! a, rt2 = pairs ! b\<rparr>)) ixs
    \<and> distinct (map (\<lambda>(a, b). {a, b}) (concat ixs))
    \<and> set (map (\<lambda>(a, b). {a, b}) (concat ixs))
        = {{a, b} | a b. a < length pairs \<and> b < length pairs \<and> a \<noteq> b}"
  using doublesFixed_unit_pairs [of pairs] unit_pairs_once [of "length pairs"] by blast

end
