(* ===== verification/Single_Elim.thy ===== *)
theory Single_Elim
  imports Pickle_Prelude "HOL-Library.While_Combinator"
begin

text \<open>
  Single-elimination brackets, \<open>internal/engine/bracket.go\<close>: the seeding order, the round
  structure with its feed pointers, and the resolution of round-1 byes by \<open>advance\<close>.

  The matches are pointers in the code, so the rounds are a store indexed by round and slot
  (\<open>bget\<close>, \<open>bset\<close>); a nil or out-of-range access is a panic and is \<open>None\<close>.
  \<open>advance\<close> recurses along the feed pointers, which nothing in its own text bounds, so it is a
  \<open>partial_function\<close>; that \<open>GenerateBracket\<close> always returns is proved below.
\<close>

section \<open>Data\<close>

definition Bye :: pid where
  "Bye = ''__BYE__''"

definition IsBye :: "side \<Rightarrow> bool" where
  "IsBye s = (s = Some [Bye])"

record bmatch =
  bm_round :: nat
  bm_slot :: nat
  side1 :: side
  side2 :: side
  feedsRound :: nat
  feedsSlot :: nat
  feedsTeam :: nat
  resolvedWinner :: side

record bracket_plan =
  bp_size :: nat
  bp_rounds :: nat
  bp_matches :: "bmatch list"

type_synonym brounds = "bmatch list list"

section \<open>Operations\<close>

definition nextPow2 :: "nat \<Rightarrow> nat" where
  "nextPow2 n = while (\<lambda>p. p < n) (\<lambda>p. p * 2) 1"

fun ilog2 :: "nat \<Rightarrow> nat" where
  "ilog2 v = (if v > 1 then Suc (ilog2 (v div 2)) else 0)"

declare ilog2.simps [simp del]

definition seed_expand :: "nat list \<Rightarrow> nat list" where
  "seed_expand order =
    (let len = length order * 2 in concat (map (\<lambda>r. [r, len + 1 - r]) order))"

definition seedOrder :: "nat \<Rightarrow> nat list" where
  "seedOrder n = while (\<lambda>order. length order < n) seed_expand [1]"

definition sideForSeed :: "side list \<Rightarrow> nat \<Rightarrow> side" where
  "sideForSeed seededSides s =
    (if s - 1 < length seededSides then seededSides ! (s - 1) else Some [Bye])"

definition empty_bmatch :: "nat \<Rightarrow> nat \<Rightarrow> bmatch" where
  "empty_bmatch r i = \<lparr>bm_round = r, bm_slot = i, side1 = None, side2 = None,
     feedsRound = 0, feedsSlot = 0, feedsTeam = 0, resolvedWinner = None\<rparr>"

definition bget :: "brounds \<Rightarrow> nat \<Rightarrow> nat \<Rightarrow> bmatch option" where
  "bget rounds r s =
    (if 1 \<le> r \<and> r \<le> length rounds \<and> s < length (rounds ! (r - 1))
     then Some (rounds ! (r - 1) ! s) else None)"

definition bset :: "brounds \<Rightarrow> nat \<Rightarrow> nat \<Rightarrow> bmatch \<Rightarrow> brounds" where
  "bset rounds r s m = rounds[r - 1 := (rounds ! (r - 1))[s := m]]"

text \<open>The opening rounds: round 1 from the seeding order, later rounds to be decided.\<close>

definition initial_rounds :: "side list \<Rightarrow> nat \<Rightarrow> brounds" where
  "initial_rounds seededSides n =
    (let totalRounds = ilog2 n; order = seedOrder n in
     map (\<lambda>r. map (\<lambda>i.
            if r = 1
            then (empty_bmatch r i)\<lparr>side1 := sideForSeed seededSides (order ! (2 * i)),
                                    side2 := sideForSeed seededSides (order ! (2 * i + 1))\<rparr>
            else empty_bmatch r i)
          [0..<n div 2 ^ r])
       [1..<Suc totalRounds])"

definition feed_pointers :: "brounds \<Rightarrow> brounds" where
  "feed_pointers rounds =
    map (\<lambda>(r, ms). if r < length rounds
        then map (\<lambda>m. m\<lparr>feedsRound := r + 1, feedsSlot := bm_slot m div 2,
                        feedsTeam := bm_slot m mod 2 + 1\<rparr>) ms
        else ms)
      (enumerate 1 rounds)"

text \<open>\<open>lone_side m\<close> is the side that meets a bye in \<open>m\<close>, if there is one.\<close>

definition lone_side :: "bmatch \<Rightarrow> side" where
  "lone_side m =
    (if IsBye (side1 m) \<and> side2 m \<noteq> None \<and> \<not> IsBye (side2 m) then side2 m
     else if IsBye (side2 m) \<and> side1 m \<noteq> None \<and> \<not> IsBye (side1 m) then side1 m
     else None)"

partial_function (option) advance :: "brounds \<Rightarrow> nat \<Rightarrow> nat \<Rightarrow> side \<Rightarrow> brounds option" where
  "advance rounds r s winner =
    Option.bind (bget rounds r s) (\<lambda>m.
      let rounds1 = bset rounds r s (m\<lparr>resolvedWinner := winner\<rparr>) in
      if feedsRound m = 0 then Some rounds1
      else Option.bind (bget rounds1 (feedsRound m) (feedsSlot m)) (\<lambda>t.
        let target = (if feedsTeam m = 1 then t\<lparr>side1 := winner\<rparr> else t\<lparr>side2 := winner\<rparr>);
            rounds2 = bset rounds1 (feedsRound m) (feedsSlot m) target
        in if lone_side target \<noteq> None
           then advance rounds2 (feedsRound m) (feedsSlot m) (lone_side target)
           else Some rounds2))"

declare advance.simps [code]

fun resolve_byes :: "brounds \<Rightarrow> nat list \<Rightarrow> brounds option" where
  "resolve_byes rounds [] = Some rounds"
| "resolve_byes rounds (i # is) =
    (case bget rounds 1 i of
       None \<Rightarrow> None
     | Some m \<Rightarrow>
         (if lone_side m \<noteq> None
          then (case advance rounds 1 i (lone_side m) of
                  None \<Rightarrow> None
                | Some rounds' \<Rightarrow> resolve_byes rounds' is)
          else resolve_byes rounds is))"

definition GenerateBracket :: "side list \<Rightarrow> bracket_plan option" where
  "GenerateBracket seededSides =
    (let realCount = length seededSides;
         n = nextPow2 (max 2 realCount);
         rounds = feed_pointers (initial_rounds seededSides n)
     in map_option (\<lambda>rs. \<lparr>bp_size = n, bp_rounds = ilog2 n, bp_matches = concat rs\<rparr>)
          (resolve_byes rounds [0..<n div 2]))"

section \<open>Powers of two\<close>

lemma nextPow2_pow: "\<exists>k. nextPow2 n = 2 ^ k \<and> n \<le> 2 ^ k \<and> (k = 0 \<or> 2 ^ (k - 1) < n)"
  unfolding nextPow2_def
proof (rule while_rule [where P = "\<lambda>p. \<exists>k. p = 2 ^ k \<and> (k = 0 \<or> 2 ^ (k - 1) < n)"
      and r = "measure (\<lambda>p. n - p)"])
  show "\<exists>k. (1::nat) = 2 ^ k \<and> (k = 0 \<or> 2 ^ (k - 1) < n)" by (rule exI [of _ 0]) simp
next
  fix p assume "\<exists>k. p = 2 ^ k \<and> (k = 0 \<or> 2 ^ (k - 1) < n)" "p < n"
  then obtain k where "p = 2 ^ k" by blast
  with \<open>p < n\<close> show "\<exists>k. p * 2 = 2 ^ k \<and> (k = 0 \<or> 2 ^ (k - 1) < n)"
    by (intro exI [of _ "Suc k"]) simp
next
  fix p assume "\<exists>k. p = 2 ^ k \<and> (k = 0 \<or> 2 ^ (k - 1) < n)" "p < n"
  then have "0 < p" "p < n" by auto
  then show "(p * 2, p) \<in> measure (\<lambda>p. n - p)" by simp
qed auto

lemma ilog2_pow [simp]: "ilog2 (2 ^ k) = k"
proof (induction k)
  case 0
  then show ?case by (subst ilog2.simps) simp
next
  case (Suc k)
  have "1 < (2::nat) ^ Suc k" by (rule one_less_power) simp_all
  with Suc show ?case by (subst ilog2.simps) simp
qed

lemma pow2_halves: "r \<le> k \<Longrightarrow> (2::nat) ^ k div 2 ^ r = 2 ^ (k - r)"
  by (simp add: power_diff)

section \<open>The seeding order\<close>

primrec seeds :: "nat \<Rightarrow> nat list" where
  "seeds 0 = [1]"
| "seeds (Suc k) = seed_expand (seeds k)"

lemma length_seed_expand [len_simps, simp]: "length (seed_expand xs) = 2 * length xs"
proof -
  have "length (concat (map (\<lambda>r. [r, c - r]) xs)) = 2 * length xs" for c :: nat
    by (induction xs) auto
  then show ?thesis by (simp add: seed_expand_def Let_def)
qed

lemma length_seeds [len_simps, simp]: "length (seeds k) = 2 ^ k"
  by (induction k) auto

lemma seedOrder_pow: "seedOrder (2 ^ k) = seeds k"
proof -
  have "while (\<lambda>order. length order < 2 ^ k) seed_expand (seeds j) = seeds k" if "j \<le> k" for j
    using that
  proof (induction j rule: inc_induct)
    case base
    then show ?case by (subst while_unfold) simp
  next
    case (step j)
    then show ?case by (subst while_unfold) simp
  qed
  from this [of 0] show ?thesis by (simp add: seedOrder_def)
qed

lemma nth_concat_pairs:
  "i < length xs \<Longrightarrow> concat (map (\<lambda>r. [f r, g r]) xs) ! (2 * i) = f (xs ! i)
     \<and> concat (map (\<lambda>r. [f r, g r]) xs) ! (2 * i + 1) = g (xs ! i)"
proof (induction xs arbitrary: i)
  case Nil
  then show ?case by simp
next
  case (Cons x xs)
  then show ?case by (cases i) auto
qed

lemma nth_seed_expand:
  assumes "i < length xs"
  shows "seed_expand xs ! (2 * i) = xs ! i"
    and "seed_expand xs ! (2 * i + 1) = 2 * length xs + 1 - xs ! i"
  using nth_concat_pairs [OF assms, of "\<lambda>r. r" "\<lambda>r. length xs * 2 + 1 - r"]
  by (simp_all add: seed_expand_def Let_def mult.commute)

lemma mset_seed_expand:
  "mset (seed_expand xs) = mset xs + mset (map (\<lambda>r. 2 * length xs + 1 - r) xs)"
proof -
  have "mset (concat (map (\<lambda>r. [r, c - r]) xs)) = mset xs + mset (map (\<lambda>r. c - r) xs)" for c :: nat
    by (induction xs) auto
  then show ?thesis by (simp add: seed_expand_def Let_def mult.commute)
qed

lemma mset_map_reflect: "mset (map (\<lambda>r. 2 * m + 1 - r) [1..<Suc m]) = mset [Suc m..<Suc (2 * m)]"
proof -
  have "map (\<lambda>r. 2 * m + 1 - r) [1..<Suc m] = rev [Suc m..<Suc (2 * m)]"
    by (rule nth_equalityI) (auto simp: rev_nth simp del: upt_Suc)
  then show ?thesis by simp
qed

lemma mset_seeds: "mset (seeds k) = mset [1..<Suc (2 ^ k)]"
proof (induction k)
  case 0
  then show ?case by simp
next
  case (Suc k)
  have "mset (map (\<lambda>r. 2 * 2 ^ k + 1 - r) (seeds k))
      = mset (map (\<lambda>r. 2 * 2 ^ k + 1 - r) [1..<Suc (2 ^ k)])"
    using Suc by (metis mset_map)
  also have "\<dots> = mset [Suc (2 ^ k)..<Suc (2 * 2 ^ k)]" by (rule mset_map_reflect)
  finally have "mset (seeds (Suc k)) = mset ([1..<Suc (2 ^ k)] @ [Suc (2 ^ k)..<Suc (2 * 2 ^ k)])"
    using Suc mset_seed_expand [of "seeds k"] by (simp del: upt_Suc)
  also have "[1..<Suc (2 ^ k)] @ [Suc (2 ^ k)..<Suc (2 * 2 ^ k)] = [1..<Suc (2 ^ Suc k)]"
    using upt_add_eq_append [of 1 "Suc (2 ^ k)" "2 ^ k"] by (simp del: upt_Suc add: mult_2)
  finally show ?case .
qed

lemma set_seeds: "set (seeds k) = {1..2 ^ k}"
  using mset_eq_setD [OF mset_seeds [of k]]
  by (simp only: set_upt atLeastLessThanSuc_atLeastAtMost)

lemma distinct_seeds: "distinct (seeds k)"
  using mset_eq_imp_distinct_iff [OF mset_seeds [of k]] by simp

lemma seeds_bounds: "i < 2 ^ k \<Longrightarrow> 1 \<le> seeds k ! i \<and> seeds k ! i \<le> 2 ^ k"
  using nth_mem [of i "seeds k"] by (simp add: set_seeds)

lemma seeds_pair:
  assumes "i < 2 ^ k"
  shows "seeds (Suc k) ! (2 * i) = seeds k ! i"
    and "seeds (Suc k) ! (2 * i + 1) = 2 ^ Suc k + 1 - seeds k ! i"
  using nth_seed_expand [of i "seeds k"] assms by simp_all

text \<open>
  Block \<open>b\<close> of the order of \<open>2^(j+d)\<close> seeds (the positions with \<open>p div 2^d = b\<close>) holds
  exactly one of the top \<open>2^j\<close> seeds, the one that is at position \<open>b\<close> of the order of
  \<open>2^j\<close>.
\<close>

lemma seeds_block:
  assumes "p < 2 ^ (j + d)" and "seeds (j + d) ! p \<le> 2 ^ j"
  shows "seeds (j + d) ! p = seeds j ! (p div 2 ^ d)"
  using assms
proof (induction d arbitrary: p)
  case 0
  then show ?case by simp
next
  case (Suc d)
  let ?i = "p div 2"
  have i: "?i < 2 ^ (j + d)" using Suc.prems(1) by simp
  have "even p"
  proof (rule ccontr)
    assume "odd p"
    then have "p = 2 * ?i + 1" by simp
    then have "seeds (j + Suc d) ! p = 2 ^ Suc (j + d) + 1 - seeds (j + d) ! ?i"
      using seeds_pair(2) [OF i] by simp
    moreover have "seeds (j + d) ! ?i \<le> 2 ^ (j + d)" using seeds_bounds [OF i] by simp
    moreover have "(2::nat) ^ j \<le> 2 ^ (j + d)" by simp
    moreover have "(2::nat) ^ Suc (j + d) = 2 * 2 ^ (j + d)" by simp
    ultimately show False using Suc.prems(2) by linarith
  qed
  then have p: "p = 2 * ?i" by simp
  then have "seeds (j + Suc d) ! p = seeds (j + d) ! ?i"
    using seeds_pair(1) [OF i] by simp
  moreover have "seeds (j + d) ! ?i = seeds j ! (?i div 2 ^ d)"
    using Suc.IH [OF i] Suc.prems(2) calculation by simp
  moreover have "?i div 2 ^ d = p div 2 ^ Suc d"
    by (simp add: div_mult2_eq)
  ultimately show ?case by simp
qed

section \<open>The rounds in closed form\<close>

text \<open>A bracket of \<open>2^k\<close> entries as a grid: round \<open>r\<close> has \<open>2^(k-r)\<close> matches.\<close>

definition grid :: "nat \<Rightarrow> (nat \<Rightarrow> nat \<Rightarrow> bmatch) \<Rightarrow> brounds" where
  "grid k f = map (\<lambda>r. map (f r) [0..<2 ^ (k - r)]) [1..<Suc k]"

lemma length_grid [len_simps, simp]: "length (grid k f) = k"
  by (simp add: grid_def del: upt_Suc)

lemma grid_row: "i < k \<Longrightarrow> grid k f ! i = map (f (Suc i)) [0..<2 ^ (k - Suc i)]"
  by (simp add: grid_def del: upt_Suc)

lemma bget_grid: "1 \<le> r \<Longrightarrow> r \<le> k \<Longrightarrow> s < 2 ^ (k - r) \<Longrightarrow> bget (grid k f) r s = Some (f r s)"
  by (cases r) (simp_all add: bget_def grid_row)

lemma grid_cong:
  "(\<And>r s. 1 \<le> r \<Longrightarrow> r \<le> k \<Longrightarrow> s < 2 ^ (k - r) \<Longrightarrow> f r s = g r s) \<Longrightarrow> grid k f = grid k g"
  by (auto simp: grid_def simp del: upt_Suc)

lemma bset_grid:
  assumes "1 \<le> r" "r \<le> k" "s < 2 ^ (k - r)"
  shows "bset (grid k f) r s m = grid k (\<lambda>r' s'. if r' = r \<and> s' = s then m else f r' s')"
proof (rule nth_equalityI)
  show "length (bset (grid k f) r s m) = length (grid k (\<lambda>r' s'. if r' = r \<and> s' = s then m else f r' s'))"
    by (simp add: bset_def)
next
  fix i assume "i < length (bset (grid k f) r s m)"
  then have i: "i < k" by (simp add: bset_def)
  note row = grid_row [OF i]
  obtain r' where r: "r = Suc r'" using assms(1) by (cases r) auto
  show "bset (grid k f) r s m ! i = grid k (\<lambda>r' s'. if r' = r \<and> s' = s then m else f r' s') ! i"
  proof (cases "i = r'")
    case True
    with assms i r show ?thesis
      unfolding row by (intro nth_equalityI) (auto simp: bset_def grid_row nth_list_update)
  next
    case False
    with r show ?thesis
      unfolding row by (auto simp: bset_def grid_row [OF i])
  qed
qed

text \<open>What the finished match at round \<open>r\<close>, slot \<open>s\<close> holds, in terms of the first round.\<close>

definition first_side :: "side list \<Rightarrow> nat \<Rightarrow> nat \<Rightarrow> side" where
  "first_side sides k p = sideForSeed sides (seeds k ! p)"

definition first_lone :: "side list \<Rightarrow> nat \<Rightarrow> nat \<Rightarrow> side" where
  "first_lone sides k i =
    (let a = first_side sides k (2 * i); b = first_side sides k (2 * i + 1) in
     if IsBye a \<and> b \<noteq> None \<and> \<not> IsBye b then b
     else if IsBye b \<and> a \<noteq> None \<and> \<not> IsBye a then a else None)"

text \<open>The state after the byes of the first \<open>c\<close> opening matches are resolved.\<close>

definition bstage :: "side list \<Rightarrow> nat \<Rightarrow> nat \<Rightarrow> nat \<Rightarrow> nat \<Rightarrow> bmatch" where
  "bstage sides k c r s =
    (let won = (\<lambda>i. if i < c then first_lone sides k i else None) in
     \<lparr>bm_round = r, bm_slot = s,
      side1 = (if r = 1 then first_side sides k (2 * s) else if r = 2 then won (2 * s) else None),
      side2 = (if r = 1 then first_side sides k (2 * s + 1) else if r = 2 then won (2 * s + 1) else None),
      feedsRound = (if r < k then r + 1 else 0),
      feedsSlot = (if r < k then s div 2 else 0),
      feedsTeam = (if r < k then s mod 2 + 1 else 0),
      resolvedWinner = (if r = 1 then won s else None)\<rparr>)"

lemma lone_side_bstage_first: "lone_side (bstage sides k c 1 i) = first_lone sides k i"
  by (simp add: lone_side_def bstage_def first_lone_def Let_def)

lemma first_lone_not_bye: "\<not> IsBye (first_lone sides k i)"
  by (simp add: first_lone_def Let_def) (auto simp: IsBye_def)

lemma initial_rounds_grid:
  assumes "1 \<le> k"
  shows "feed_pointers (initial_rounds sides (2 ^ k)) = grid k (bstage sides k 0)"
proof -
  have "initial_rounds sides (2 ^ k) = grid k (\<lambda>r i. if r = 1
      then (empty_bmatch r i)\<lparr>side1 := first_side sides k (2 * i), side2 := first_side sides k (2 * i + 1)\<rparr>
      else empty_bmatch r i)" (is "_ = grid k ?f")
    unfolding initial_rounds_def grid_def Let_def ilog2_pow seedOrder_pow first_side_def
    by (intro map_cong refl) (auto simp: pow2_halves simp del: upt_Suc)
  moreover have "feed_pointers (grid k ?f) = grid k (bstage sides k 0)"
  proof (rule nth_equalityI)
    show "length (feed_pointers (grid k ?f)) = length (grid k (bstage sides k 0))"
      by (simp add: feed_pointers_def)
  next
    fix i assume "i < length (feed_pointers (grid k ?f))"
    then have i: "i < k" by (simp add: feed_pointers_def)
    note row = grid_row [OF i]
    have "feed_pointers (grid k ?f) ! i = (if Suc i < k
        then map (\<lambda>m. m\<lparr>feedsRound := Suc i + 1, feedsSlot := bm_slot m div 2,
                        feedsTeam := bm_slot m mod 2 + 1\<rparr>) (grid k ?f ! i)
        else grid k ?f ! i)"
      using i by (simp add: feed_pointers_def nth_enumerate_eq)
    then show "feed_pointers (grid k ?f) ! i = grid k (bstage sides k 0) ! i"
      unfolding row by (auto simp: bstage_def empty_bmatch_def)
  qed
  ultimately show ?thesis by simp
qed

lemma advance_bstage:
  assumes "1 \<le> k" "i < 2 ^ (k - 1)" "first_lone sides k i \<noteq> None"
  shows "advance (grid k (bstage sides k i)) 1 i (first_lone sides k i)
       = Some (grid k (bstage sides k (Suc i)))"
proof -
  let ?w = "first_lone sides k i"
  let ?m = "bstage sides k i 1 i"
  have get: "bget (grid k (bstage sides k i)) 1 i = Some ?m"
    using assms by (intro bget_grid) auto
  define f1 where "f1 = (\<lambda>r' s'. if r' = 1 \<and> s' = i then ?m\<lparr>resolvedWinner := ?w\<rparr> else bstage sides k i r' s')"
  have set1: "bset (grid k (bstage sides k i)) 1 i (?m\<lparr>resolvedWinner := ?w\<rparr>) = grid k f1"
    using assms unfolding f1_def by (intro bset_grid) auto
  show ?thesis
  proof (cases "k = 1")
    case True
    with assms have "i = 0" by simp
    have "feedsRound ?m = 0" using True by (simp add: bstage_def)
    moreover have "grid k f1 = grid k (bstage sides k (Suc i))"
      using True \<open>i = 0\<close> by (intro grid_cong) (auto simp: f1_def bstage_def)
    ultimately show ?thesis
      using get set1 by (subst advance.simps) simp
  next
    case False
    with assms(1) have k: "2 \<le> k" by simp
    have j: "i div 2 < 2 ^ (k - 2)"
    proof -
      have "2 * 2 ^ (k - 2) = (2::nat) ^ (k - 1)"
        using k by (simp flip: power_Suc)
      with assms(2) show ?thesis by linarith
    qed
    let ?t = "bstage sides k i 2 (i div 2)"
    have fm: "feedsRound ?m = 2" "feedsSlot ?m = i div 2" "feedsTeam ?m = i mod 2 + 1"
      using k by (simp_all add: bstage_def)
    have get2: "bget (grid k f1) 2 (i div 2) = Some ?t"
      using k j by (subst bget_grid) (auto simp: f1_def)
    define t' where "t' = (if i mod 2 + 1 = 1 then ?t\<lparr>side1 := ?w\<rparr> else ?t\<lparr>side2 := ?w\<rparr>)"
    have noby: "lone_side t' = None"
      using first_lone_not_bye [of sides k] k
      by (auto simp: lone_side_def t'_def bstage_def IsBye_def)
    have "bset (grid k f1) 2 (i div 2) t'
        = grid k (\<lambda>r' s'. if r' = 2 \<and> s' = i div 2 then t' else f1 r' s')"
      using k j by (intro bset_grid) auto
    also have "\<dots> = grid k (bstage sides k (Suc i))"
    proof (rule grid_cong)
      fix r s :: nat assume "1 \<le> r" "r \<le> k" "s < 2 ^ (k - r)"
      consider "r = 1" | "r = 2" "s = i div 2" | "r = 2" "s \<noteq> i div 2" | "r \<noteq> 1" "r \<noteq> 2" by blast
      then show "(if r = 2 \<and> s = i div 2 then t' else f1 r s) = bstage sides k (Suc i) r s"
      proof cases
        case 2
        show ?thesis
        proof (cases "even i")
          case True
          with 2 have "2 * s = i" "\<not> 2 * s + 1 < Suc i" by auto
          with 2 True show ?thesis by (simp add: t'_def bstage_def)
        next
          case False
          with 2 have "2 * s + 1 = i" by simp
          then have "2 * s < i" "2 * s < Suc i" "\<not> i < i" by auto
          with 2 False \<open>2 * s + 1 = i\<close> show ?thesis
            by (simp add: t'_def bstage_def odd_iff_mod_2_eq_one)
        qed
      next
        case 3
        then have "2 * s < i \<longleftrightarrow> 2 * s < Suc i" "2 * s + 1 < i \<longleftrightarrow> 2 * s + 1 < Suc i" by auto
        with 3 show ?thesis by (simp add: f1_def bstage_def)
      qed (auto simp: f1_def bstage_def)
    qed
    finally have set2: "bset (grid k f1) 2 (i div 2) t' = grid k (bstage sides k (Suc i))" .
    show ?thesis
      using get set1 fm get2 noby set2
      by (subst advance.simps) (simp add: Let_def t'_def split: if_splits)
  qed
qed

lemma bstage_none: "first_lone sides k i = None \<Longrightarrow> bstage sides k (Suc i) = bstage sides k i"
  by (intro ext) (auto simp: bstage_def Let_def less_Suc_eq)

lemma resolve_byes_grid:
  assumes "1 \<le> k"
  shows "c \<le> 2 ^ (k - 1) \<Longrightarrow>
    resolve_byes (grid k (bstage sides k c)) [c..<2 ^ (k - 1)] = Some (grid k (bstage sides k (2 ^ (k - 1))))"
proof (induction c rule: inc_induct)
  case base
  then show ?case by simp
next
  case (step c)
  have get: "bget (grid k (bstage sides k c)) 1 c = Some (bstage sides k c 1 c)"
    using assms step by (intro bget_grid) auto
  have "[c..<2 ^ (k - 1)] = c # [Suc c..<2 ^ (k - 1)]"
    using step by (simp add: upt_rec)
  with step get advance_bstage [OF assms step(2), of sides] bstage_none [of sides k c]
  show ?case by (cases "first_lone sides k c = None") (simp_all add: lone_side_bstage_first [simplified])
qed

text \<open>The bracket's size exponent: the number of rounds.\<close>

definition bracket_rounds :: "nat \<Rightarrow> nat" where
  "bracket_rounds realCount = ilog2 (nextPow2 (max 2 realCount))"

lemma bracket_rounds_size:
  fixes N :: nat
  defines "k \<equiv> bracket_rounds N"
  shows "nextPow2 (max 2 N) = 2 ^ k" "1 \<le> k" "N \<le> 2 ^ k" "2 \<le> N \<Longrightarrow> 2 ^ (k - 1) < N"
proof -
  obtain j where j: "nextPow2 (max 2 N) = 2 ^ j" "max 2 N \<le> 2 ^ j" "j = 0 \<or> 2 ^ (j - 1) < max 2 N"
    using nextPow2_pow by blast
  then have "k = j" by (simp add: k_def bracket_rounds_def)
  then show "nextPow2 (max 2 N) = 2 ^ k" "N \<le> 2 ^ k" using j by auto
  have "j \<noteq> 0"
  proof
    assume "j = 0"
    with j(2) show False by simp
  qed
  with j \<open>k = j\<close> show "1 \<le> k" "2 \<le> N \<Longrightarrow> 2 ^ (k - 1) < N" by auto
qed

definition final_match :: "side list \<Rightarrow> nat \<Rightarrow> nat \<Rightarrow> bmatch" where
  "final_match sides = (let k = bracket_rounds (length sides) in bstage sides k (2 ^ (k - 1)))"

lemma GenerateBracket_eq:
  fixes sides :: "side list"
  defines "k \<equiv> bracket_rounds (length sides)"
  shows "GenerateBracket sides = Some \<lparr>bp_size = 2 ^ k, bp_rounds = k,
    bp_matches = concat (grid k (final_match sides))\<rparr>"
proof -
  note size = bracket_rounds_size [of "length sides", folded k_def]
  have "2 ^ k div 2 = (2::nat) ^ (k - 1)" using pow2_halves [of 1 k] size(2) by simp
  then show ?thesis
    using size(1) initial_rounds_grid [OF size(2), of sides] resolve_byes_grid [OF size(2), of 0 sides]
    by (simp add: GenerateBracket_def Let_def final_match_def flip: k_def)
qed

section \<open>The matches of a plan\<close>

lemma set_concat_grid: "set (concat (grid k f)) = {f r s | r s. 1 \<le> r \<and> r \<le> k \<and> s < 2 ^ (k - r)}"
  by (force simp: grid_def less_Suc_eq_le simp del: upt_Suc)

lemma length_concat_grid [len_simps]: "length (concat (grid k f)) = 2 ^ k - 1"
proof (induction k arbitrary: f)
  case 0
  then show ?case by (simp add: grid_def)
next
  case (Suc k)
  have "grid (Suc k) f = map (f 1) [0..<2 ^ k] # grid k (\<lambda>r. f (Suc r))"
  proof -
    have "[1..<Suc (Suc k)] = 1 # map Suc [1..<Suc k]"
      by (simp add: map_Suc_upt upt_conv_Cons del: upt_Suc)
    then show ?thesis by (simp add: grid_def comp_def del: upt_Suc)
  qed
  then show ?case using Suc [of "\<lambda>r. f (Suc r)"] by simp
qed

lemma plan_matches:
  assumes "GenerateBracket sides = Some plan"
  shows "bp_rounds plan = bracket_rounds (length sides)" "bp_size plan = 2 ^ bp_rounds plan"
    and "bp_matches plan = concat (grid (bp_rounds plan) (final_match sides))"
    and "m \<in> set (bp_matches plan) \<longleftrightarrow>
      (\<exists>r s. 1 \<le> r \<and> r \<le> bp_rounds plan \<and> s < 2 ^ (bp_rounds plan - r) \<and> m = final_match sides r s)"
proof -
  have plan: "plan = \<lparr>bp_size = 2 ^ bracket_rounds (length sides), bp_rounds = bracket_rounds (length sides),
      bp_matches = concat (grid (bracket_rounds (length sides)) (final_match sides))\<rparr>"
    using assms unfolding GenerateBracket_eq by simp
  then show "bp_rounds plan = bracket_rounds (length sides)" "bp_size plan = 2 ^ bp_rounds plan"
    "bp_matches plan = concat (grid (bp_rounds plan) (final_match sides))" by simp_all
  then show "m \<in> set (bp_matches plan) \<longleftrightarrow>
      (\<exists>r s. 1 \<le> r \<and> r \<le> bp_rounds plan \<and> s < 2 ^ (bp_rounds plan - r) \<and> m = final_match sides r s)"
    by (simp only: set_concat_grid) blast
qed

lemma final_match_sel:
  defines "k \<equiv> \<lambda>sides. bracket_rounds (length sides)"
  shows "bm_round (final_match sides r s) = r" "bm_slot (final_match sides r s) = s"
    and "feedsRound (final_match sides r s) = (if r < k sides then r + 1 else 0)"
    and "feedsSlot (final_match sides r s) = (if r < k sides then s div 2 else 0)"
    and "feedsTeam (final_match sides r s) = (if r < k sides then s mod 2 + 1 else 0)"
  by (simp_all add: final_match_def bstage_def Let_def k_def)

lemma final_match_first:
  defines "k \<equiv> \<lambda>sides. bracket_rounds (length sides)"
  shows "side1 (final_match sides 1 s) = first_side sides (k sides) (2 * s)"
    and "side2 (final_match sides 1 s) = first_side sides (k sides) (2 * s + 1)"
    and "resolvedWinner (final_match sides 1 s)
      = (if s < 2 ^ (k sides - 1) then first_lone sides (k sides) s else None)"
  by (simp_all add: final_match_def bstage_def Let_def k_def)

lemma final_match_later: "r \<noteq> 1 \<Longrightarrow> resolvedWinner (final_match sides r s) = None"
  by (simp add: final_match_def bstage_def Let_def)

text \<open>With real sides, the better seed of an opening match is never a bye.\<close>

definition real_sides :: "side list \<Rightarrow> bool" where
  "real_sides sides \<longleftrightarrow> (\<forall>x \<in> set sides. x \<noteq> None \<and> \<not> IsBye x)"

lemma first_side_top:
  assumes "real_sides sides" "2 \<le> length sides" "s < 2 ^ (k - 1)"
    and k: "k = bracket_rounds (length sides)"
  shows "first_side sides k (2 * s) = sides ! (seeds (k - 1) ! s - 1)"
    and "seeds (k - 1) ! s - 1 < length sides"
    and "first_side sides k (2 * s) \<noteq> None" "\<not> IsBye (first_side sides k (2 * s))"
proof -
  note sz = bracket_rounds_size [of "length sides", folded k]
  obtain k' where k': "k = Suc k'" using sz(2) by (cases k) auto
  have s: "s < 2 ^ k'" using assms(3) k' by simp
  have "seeds k' ! s \<le> 2 ^ k'" "1 \<le> seeds k' ! s" using seeds_bounds [OF s] by auto
  moreover have "2 ^ k' < length sides" using sz(4) assms(2) k' by simp
  ultimately show lt: "seeds (k - 1) ! s - 1 < length sides" using k' by simp
  then show e: "first_side sides k (2 * s) = sides ! (seeds (k - 1) ! s - 1)"
    using seeds_pair(1) [OF s] k' by (simp add: first_side_def sideForSeed_def)
  have "sides ! (seeds (k - 1) ! s - 1) \<in> set sides" using lt by (rule nth_mem)
  with e assms(1) show "first_side sides k (2 * s) \<noteq> None" "\<not> IsBye (first_side sides k (2 * s))"
    by (auto simp: real_sides_def)
qed

lemma first_side_bottom:
  assumes "real_sides sides" "2 \<le> length sides" "s < 2 ^ (k - 1)"
    and k: "k = bracket_rounds (length sides)"
  shows "IsBye (first_side sides k (2 * s + 1)) \<longleftrightarrow> seeds (k - 1) ! s \<le> 2 ^ k - length sides"
    and "first_side sides k (2 * s + 1) \<noteq> None"
proof -
  note sz = bracket_rounds_size [of "length sides", folded k]
  obtain k' where k': "k = Suc k'" using sz(2) by (cases k) auto
  have s: "s < 2 ^ k'" using assms(3) k' by simp
  have b: "seeds k' ! s \<le> 2 ^ k'" "1 \<le> seeds k' ! s" using seeds_bounds [OF s] by auto
  have e: "seeds k ! (2 * s + 1) = 2 ^ k + 1 - seeds k' ! s"
    using seeds_pair(2) [OF s] k' by simp
  have two: "(2::nat) ^ k = 2 * 2 ^ k'" using k' by simp
  have lt: "2 ^ k + 1 - seeds k' ! s - 1 < length sides \<longleftrightarrow> \<not> seeds k' ! s \<le> 2 ^ k - length sides"
    using b two sz(3) by linarith
  have mem: "sides ! i \<noteq> None \<and> \<not> IsBye (sides ! i)" if "i < length sides" for i
    using that assms(1) nth_mem [of i sides] by (auto simp: real_sides_def)
  let ?q = "2 ^ k + 1 - seeds k' ! s - 1"
  have fs: "first_side sides k (2 * s + 1) = (if ?q < length sides then sides ! ?q else Some [Bye])"
    by (simp only: first_side_def sideForSeed_def e)
  have k1: "seeds (k - 1) = seeds k'" using k' by simp
  show "IsBye (first_side sides k (2 * s + 1)) \<longleftrightarrow> seeds (k - 1) ! s \<le> 2 ^ k - length sides"
  proof (cases "?q < length sides")
    case True
    with lt mem show ?thesis unfolding fs k1 by simp
  next
    case False
    with lt show ?thesis unfolding fs k1 by (simp add: IsBye_def)
  qed
  show "first_side sides k (2 * s + 1) \<noteq> None"
    using mem unfolding fs by (cases "?q < length sides") simp_all
qed

lemma first_lone_real:
  assumes "real_sides sides" "2 \<le> length sides" "s < 2 ^ (k - 1)"
    and k: "k = bracket_rounds (length sides)"
  shows "first_lone sides k s =
    (if seeds (k - 1) ! s \<le> 2 ^ k - length sides then sides ! (seeds (k - 1) ! s - 1) else None)"
  using first_side_top [OF assms] first_side_bottom [OF assms]
  by (simp add: first_lone_def Let_def)

lemma card_seeds_le:
  assumes "c \<le> 2 ^ k"
  shows "length (filter (\<lambda>s. seeds k ! s \<le> c) [0..<2 ^ k]) = c"
proof -
  have "map (\<lambda>s. seeds k ! s) [0..<2 ^ k] = seeds k"
    using map_nth [of "seeds k"] by simp
  from arg_cong [OF this, of "\<lambda>xs. length (filter (\<lambda>x. x \<le> c) xs)"]
  have "length (filter (\<lambda>s. seeds k ! s \<le> c) [0..<2 ^ k]) = length (filter (\<lambda>x. x \<le> c) (seeds k))"
    by (simp add: filter_map comp_def)
  also have "\<dots> = card {x. x \<le> c \<and> x \<in> set (seeds k)}"
    using distinct_length_filter [OF distinct_seeds, of "\<lambda>x. x \<le> c" k] by (simp add: Int_def)
  also have "\<dots> = card {x. x \<le> c \<and> x \<in> {1..2 ^ k}}" by (simp only: set_seeds)
  also have "{x. x \<le> c \<and> x \<in> {1..2 ^ k}} = {1..c}" using assms by auto
  finally show ?thesis by simp
qed

lemma concat_pairs_upt:
  "concat (map (\<lambda>s. [f (2 * s), f (2 * s + 1)]) [0..<n]) = map f [0..<2 * n]"
  by (induction n) auto

section \<open>Properties of generated brackets\<close>

text \<open>
  C14: \<open>GenerateBracket\<close> always returns (no panic, no endless bye cascade); the bracket size is
  \<open>2^rounds\<close>, the smallest power of two that holds the field, and the plan lists
  \<open>size - 1\<close> matches.
\<close>

theorem bracket_generated:
  "\<exists>plan. GenerateBracket sides = Some plan \<and> bp_size plan = 2 ^ bp_rounds plan
     \<and> length sides \<le> bp_size plan \<and> (2 \<le> length sides \<longrightarrow> bp_size plan < 2 * length sides)
     \<and> length (bp_matches plan) = bp_size plan - 1"
proof -
  let ?k = "bracket_rounds (length sides)"
  note sz = bracket_rounds_size [of "length sides"]
  have "(2::nat) ^ ?k = 2 * 2 ^ (?k - 1)" using sz(2) by (metis Suc_diff_1 less_eq_Suc_le One_nat_def power_Suc)
  then have "2 ^ ?k < 2 * length sides" if "2 \<le> length sides" using sz(4) that by linarith
  then show ?thesis
    unfolding GenerateBracket_eq using sz(3) by (simp add: length_concat_grid)
qed

theorem bracket_generated_witness:
  "\<exists>plan. GenerateBracket [Some [''a''], Some [''b''], Some [''c'']] = Some plan \<and> bp_size plan = 2 ^ bp_rounds plan
     \<and> bp_size plan < 6 \<and> length (bp_matches plan) = bp_size plan - 1"
  using bracket_generated [of "[Some [''a''], Some [''b''], Some [''c'']]"] by auto




text \<open>
  C15: The draw seats everybody exactly once: the sides of the opening round are the seeded
  sides, each as often as it was given, and byes for the rest.
\<close>

theorem bracket_seats_everyone:
  assumes "GenerateBracket sides = Some plan"
  shows "mset (concat (map (\<lambda>m. [side1 m, side2 m]) (filter (\<lambda>m. bm_round m = 1) (bp_matches plan))))
    = mset sides + replicate_mset (bp_size plan - length sides) (Some [Bye])"
proof -
  note pm = plan_matches [OF assms]
  let ?k = "bp_rounds plan"
  note sz = bracket_rounds_size [of "length sides", folded pm(1)]
  obtain k' where k': "?k = Suc k'" using sz(2) by (cases ?k) auto
  have r1: "filter (\<lambda>m. bm_round m = 1) (bp_matches plan) = map (final_match sides 1) [0..<2 ^ k']"
  proof -
    have "grid ?k (final_match sides) = map (final_match sides 1) [0..<2 ^ k']
        # map (\<lambda>r. map (final_match sides (Suc r)) [0..<2 ^ (?k - Suc r)]) [1..<Suc k']"
      unfolding grid_def k' by (simp add: upt_conv_Cons map_Suc_upt [symmetric] comp_def del: upt_Suc)
    moreover have "filter (\<lambda>m. bm_round m = 1) (map (final_match sides r) xs) = (if r = 1 then map (final_match sides r) xs else [])" for r xs
      by (induction xs) (auto simp: final_match_sel)
    ultimately show ?thesis unfolding pm(3) by (simp add: filter_concat comp_def del: upt_Suc)
  qed
  have "concat (map (\<lambda>m. [side1 m, side2 m]) (map (final_match sides 1) [0..<2 ^ k']))
      = concat (map (\<lambda>s. [first_side sides ?k (2 * s), first_side sides ?k (2 * s + 1)]) [0..<2 ^ k'])"
    using final_match_first(1,2) [of sides] by (simp add: comp_def flip: pm(1))
  also have "\<dots> = map (first_side sides ?k) [0..<2 * 2 ^ k']"
    by (rule concat_pairs_upt)
  also have "\<dots> = map (sideForSeed sides) (seeds ?k)"
    using map_nth [of "seeds ?k"] unfolding first_side_def k'
    by (metis (mono_tags, lifting) comp_apply length_seeds list.map_comp map_eq_conv power_Suc)
  finally have "mset (concat (map (\<lambda>m. [side1 m, side2 m]) (filter (\<lambda>m. bm_round m = 1) (bp_matches plan))))
      = image_mset (sideForSeed sides) (mset (seeds ?k))"
    unfolding r1 by simp
  also have "\<dots> = mset (map (sideForSeed sides) [1..<Suc (2 ^ ?k)])"
    unfolding mset_seeds by simp
  also have "map (sideForSeed sides) [1..<Suc (2 ^ ?k)] = sides @ replicate (2 ^ ?k - length sides) (Some [Bye])"
    using sz(3) by (intro nth_equalityI) (auto simp: sideForSeed_def nth_append simp del: upt_Suc)
  finally show ?thesis by (simp add: pm(2))
qed

theorem bracket_seats_everyone_witness:
  "\<exists>plan. GenerateBracket [Some [''a''], Some [''b''], Some [''c'']] = Some plan
    \<and> mset (concat (map (\<lambda>m. [side1 m, side2 m]) (filter (\<lambda>m. bm_round m = 1) (bp_matches plan))))
      = mset [Some [''a''], Some [''b''], Some [''c'']]
        + replicate_mset (bp_size plan - length [Some [''a''], Some [''b''], Some [''c'']]) (Some [Bye])"
  using bracket_seats_everyone [of "[Some [''a''], Some [''b''], Some [''c'']]"]
    GenerateBracket_eq [of "[Some [''a''], Some [''b''], Some [''c'']]"] by blast

lemma opening_byes:
  assumes "GenerateBracket sides = Some plan" "real_sides sides" "2 \<le> length sides"
    and "m \<in> set (bp_matches plan)" "bm_round m = 1"
  shows "side1 m \<in> set sides"
    and "IsBye (side2 m) \<longleftrightarrow> side1 m \<in> set (take (bp_size plan - length sides) sides) \<and> resolvedWinner m \<noteq> None"
    and "IsBye (side2 m) \<longrightarrow> resolvedWinner m = side1 m
      \<and> (feedsRound m \<noteq> 0 \<longrightarrow> (\<exists>t \<in> set (bp_matches plan). bm_round t = 2 \<and> bm_slot t = feedsSlot m
            \<and> (if feedsTeam m = 1 then side1 t else side2 t) = side1 m))"
proof -
  note pm = plan_matches [OF assms(1)]
  let ?k = "bp_rounds plan"
  note sz = bracket_rounds_size [of "length sides", folded pm(1)]
  from assms(4,5) obtain s where s: "s < 2 ^ (?k - 1)" and m: "m = final_match sides 1 s"
    unfolding pm(4) by (auto simp: final_match_sel)
  note sel = final_match_first [of sides s, folded pm(1)]
  note top = first_side_top [OF assms(2,3) s pm(1)]
  note bot = first_side_bottom [OF assms(2,3) s pm(1)]
  note lone = first_lone_real [OF assms(2,3) s pm(1)]
  let ?i = "seeds (?k - 1) ! s - 1"
  have b: "1 \<le> seeds (?k - 1) ! s" using seeds_bounds [OF s] by simp
  have w: "resolvedWinner m = (if IsBye (side2 m) then sides ! ?i else None)"
    using s lone bot unfolding m sel by simp
  have s1: "side1 m = sides ! ?i" using top(1) unfolding m sel .
  have real: "sides ! ?i \<noteq> None" using top(1,3) by simp
  show "side1 m \<in> set sides" using s1 top(2) by simp
  have by_iff: "IsBye (side2 m) \<longleftrightarrow> seeds (?k - 1) ! s \<le> 2 ^ ?k - length sides"
    using bot(1) unfolding m sel .
  have "sides ! ?i \<in> set (take (bp_size plan - length sides) sides)" if "IsBye (side2 m)"
  proof -
    have "?i < bp_size plan - length sides" using that by_iff b pm(2) by linarith
    with top(2) show ?thesis by (auto simp: in_set_conv_nth intro: exI [of _ ?i])
  qed
  then show "IsBye (side2 m) \<longleftrightarrow> side1 m \<in> set (take (bp_size plan - length sides) sides) \<and> resolvedWinner m \<noteq> None"
    using w s1 real by auto
  show "IsBye (side2 m) \<longrightarrow> resolvedWinner m = side1 m
      \<and> (feedsRound m \<noteq> 0 \<longrightarrow> (\<exists>t \<in> set (bp_matches plan). bm_round t = 2 \<and> bm_slot t = feedsSlot m
            \<and> (if feedsTeam m = 1 then side1 t else side2 t) = side1 m))"
  proof (intro impI conjI)
    assume bye: "IsBye (side2 m)"
    show "resolvedWinner m = side1 m" using w bye s1 by simp
    assume "feedsRound m \<noteq> 0"
    then have k: "1 < ?k" by (simp add: m final_match_sel flip: pm(1) split: if_splits)
    let ?t = "final_match sides 2 (s div 2)"
    have "2 * 2 ^ (?k - 2) = (2::nat) ^ (?k - 1)" using k by (simp flip: power_Suc)
    then have "s div 2 < 2 ^ (?k - 2)" using s by linarith
    then have "?t \<in> set (bp_matches plan)"
      unfolding pm(4) using k by (intro exI [of _ 2] exI [of _ "s div 2"]) auto
    moreover have "(if s mod 2 + 1 = 1 then side1 ?t else side2 ?t) = first_lone sides ?k s"
    proof (cases "even s")
      case True
      then have "2 * (s div 2) = s" by simp
      with True s show ?thesis by (simp add: final_match_def bstage_def Let_def flip: pm(1))
    next
      case False
      then have "Suc (2 * (s div 2)) = s" "s mod 2 = 1" by presburger+
      with s show ?thesis by (simp add: final_match_def bstage_def Let_def flip: pm(1))
    qed
    ultimately show "\<exists>t \<in> set (bp_matches plan). bm_round t = 2 \<and> bm_slot t = feedsSlot m
            \<and> (if feedsTeam m = 1 then side1 t else side2 t) = side1 m"
      using k s1 lone bye by_iff
      by (intro bexI [of _ ?t]) (auto simp: m final_match_sel simp flip: pm(1))
  qed
qed

text \<open>
  Byes are fair and are played out at generation: in a draw of two or more real sides
  no opening match is empty, its first side is real, a match holds a bye exactly when its first
  side is one of the \<open>size - n\<close> top seeds, and then that seed is recorded as the winner and already
  stands in its second-round match.
\<close>
theorem bracket_byes_go_to_top_seeds:
  assumes "GenerateBracket sides = Some plan" "real_sides sides" "2 \<le> length sides"
    and "m \<in> set (bp_matches plan)" "bm_round m = 1"
  shows "side1 m \<in> set sides
    \<and> (IsBye (side2 m) \<longleftrightarrow> side1 m \<in> set (take (bp_size plan - length sides) sides) \<and> resolvedWinner m \<noteq> None)
    \<and> (IsBye (side2 m) \<longrightarrow> resolvedWinner m = side1 m
      \<and> (feedsRound m \<noteq> 0 \<longrightarrow> (\<exists>t \<in> set (bp_matches plan). bm_round t = 2 \<and> bm_slot t = feedsSlot m
            \<and> (if feedsTeam m = 1 then side1 t else side2 t) = side1 m)))"
  using opening_byes [OF assms] by blast


theorem bracket_byes_go_to_top_seeds_witness:
  "\<exists>plan m. GenerateBracket [Some [''a''], Some [''b''], Some [''c'']] = Some plan
     \<and> m \<in> set (bp_matches plan) \<and> bm_round m = 1 \<and> side1 m \<in> set [Some [''a''], Some [''b''], Some [''c'']]
     \<and> (IsBye (side2 m) \<longleftrightarrow> side1 m \<in> set (take (bp_size plan - 3) [Some [''a''], Some [''b''], Some [''c'']])
          \<and> resolvedWinner m \<noteq> None)"
proof -
  let ?s = "[Some [''a''], Some [''b''], Some [''c'']]"
  obtain plan where g: "GenerateBracket ?s = Some plan" using GenerateBracket_eq [of ?s] by blast
  have m: "final_match ?s 1 0 \<in> set (bp_matches plan)"
    unfolding plan_matches(4) [OF g] plan_matches(1) [OF g] using bracket_rounds_size(2) [of "length ?s"]
    by (intro exI [of _ 1] exI [of _ 0]) simp
  have r: "real_sides ?s" by (simp add: real_sides_def IsBye_def Bye_def)
  have l: "2 \<le> length ?s" by simp
  have one: "bm_round (final_match ?s 1 0) = 1" by (simp only: final_match_sel)
  note b = bracket_byes_go_to_top_seeds [OF g r l m one]
  have "length ?s = 3" by simp
  with g m one b show ?thesis by metis
qed


text \<open>The feed pointers form the knockout tree: a match of any round but the last feeds the next
  round at half its slot, every later match gets each of its two sides from exactly one match,
  and only the final feeds nothing.
\<close>

theorem bracket_feeds_form_tree:
  assumes "GenerateBracket sides = Some plan"
  shows "(\<forall>m \<in> set (bp_matches plan). bm_round m < bp_rounds plan \<longrightarrow>
            feedsRound m = bm_round m + 1 \<and> feedsSlot m = bm_slot m div 2 \<and> feedsTeam m = bm_slot m mod 2 + 1
            \<and> (\<exists>t \<in> set (bp_matches plan). bm_round t = feedsRound m \<and> bm_slot t = feedsSlot m))
    \<and> (\<forall>t \<in> set (bp_matches plan). 1 < bm_round t \<longrightarrow> (\<forall>team \<in> {1, 2}.
            \<exists>!m. m \<in> set (bp_matches plan) \<and> feedsRound m = bm_round t \<and> feedsSlot m = bm_slot t \<and> feedsTeam m = team))
    \<and> (\<forall>m \<in> set (bp_matches plan). feedsRound m = 0 \<longleftrightarrow> bm_round m = bp_rounds plan)"
    (is "?feeds \<and> ?fed \<and> ?final")
proof (intro conjI)
  note pm = plan_matches [OF assms]
  let ?k = "bp_rounds plan"
  note sel = final_match_sel [of sides, folded pm(1)]
  have halve: "2 * 2 ^ (?k - Suc r) = (2::nat) ^ (?k - r)" if "r < ?k" for r
    using that by (simp add: Suc_diff_Suc flip: power_Suc)
  show ?feeds
  proof (intro ballI impI)
    fix m assume "m \<in> set (bp_matches plan)" "bm_round m < ?k"
    then obtain r s where rs: "1 \<le> r" "r < ?k" "s < 2 ^ (?k - r)" "m = final_match sides r s"
      unfolding pm(4) by (auto simp: sel)
    have "s div 2 < 2 ^ (?k - Suc r)" using halve [OF rs(2)] rs(3) by linarith
    then have "final_match sides (Suc r) (s div 2) \<in> set (bp_matches plan)"
      unfolding pm(4) using rs by (intro exI [of _ "Suc r"] exI [of _ "s div 2"]) auto
    with rs show "feedsRound m = bm_round m + 1 \<and> feedsSlot m = bm_slot m div 2 \<and> feedsTeam m = bm_slot m mod 2 + 1
            \<and> (\<exists>t \<in> set (bp_matches plan). bm_round t = feedsRound m \<and> bm_slot t = feedsSlot m)"
      by (auto simp: sel intro!: bexI [of _ "final_match sides (Suc r) (s div 2)"])
  qed
  show ?fed
  proof (intro ballI impI)
    fix t team assume "t \<in> set (bp_matches plan)" "1 < bm_round t" and team: "team \<in> {1, 2 :: nat}"
    then obtain r s where rs: "1 \<le> r" "Suc r \<le> ?k" "s < 2 ^ (?k - Suc r)" "t = final_match sides (Suc r) s"
    proof -
      from \<open>t \<in> set (bp_matches plan)\<close> obtain r0 s0 where "1 \<le> r0" "r0 \<le> ?k" "s0 < 2 ^ (?k - r0)"
        "t = final_match sides r0 s0" unfolding pm(4) by blast
      moreover from this \<open>1 < bm_round t\<close> obtain r1 where "r0 = Suc r1" "1 \<le> r1"
        by (cases r0) (simp_all add: sel)
      ultimately show ?thesis using that by blast
    qed
    let ?s = "2 * s + team - 1"
    let ?m = "final_match sides r ?s"
    have lt: "?s < 2 ^ (?k - r)" using halve [of r] rs team by auto
    have sd: "?s div 2 = s" "?s mod 2 + 1 = team" using team by auto
    show "\<exists>!m. m \<in> set (bp_matches plan) \<and> feedsRound m = bm_round t \<and> feedsSlot m = bm_slot t \<and> feedsTeam m = team"
    proof (rule ex1I [of _ ?m])
      have "?m \<in> set (bp_matches plan)"
        unfolding pm(4) using rs lt by (intro exI [of _ r] exI [of _ ?s]) auto
      then show "?m \<in> set (bp_matches plan) \<and> feedsRound ?m = bm_round t \<and> feedsSlot ?m = bm_slot t \<and> feedsTeam ?m = team"
        using rs sd by (simp add: sel)
    next
      fix m assume m: "m \<in> set (bp_matches plan) \<and> feedsRound m = bm_round t \<and> feedsSlot m = bm_slot t \<and> feedsTeam m = team"
      then obtain r' s' where "m = final_match sides r' s'" unfolding pm(4) by auto
      with m rs have "r' = r" "s' div 2 = s" "s' mod 2 + 1 = team"
        by (auto simp: sel split: if_splits)
      moreover from this have "s' = ?s" by presburger
      ultimately show "m = ?m" using \<open>m = final_match sides r' s'\<close> by simp
    qed
  qed
  show ?final
    unfolding Ball_def pm(4) by (auto simp: sel split: if_splits)
qed

theorem bracket_feeds_form_tree_witness:
  "\<exists>plan m. GenerateBracket [Some [''a''], Some [''b''], Some [''c'']] = Some plan
     \<and> m \<in> set (bp_matches plan) \<and> (feedsRound m = 0 \<longleftrightarrow> bm_round m = bp_rounds plan)"
proof -
  let ?s = "[Some [''a''], Some [''b''], Some [''c'']]"
  obtain plan where g: "GenerateBracket ?s = Some plan" using GenerateBracket_eq [of ?s] by blast
  have m: "final_match ?s 1 0 \<in> set (bp_matches plan)"
    unfolding plan_matches(4) [OF g] plan_matches(1) [OF g] using bracket_rounds_size(2) [of "length ?s"]
    by (intro exI [of _ 1] exI [of _ 0]) simp
  from g m bracket_feeds_form_tree [of ?s] show ?thesis by blast
qed


text \<open>
  C16: A field of \<open>n \<ge> 2\<close> real sides plays exactly \<open>n - 1\<close> games: the matches that are not
  already settled by a bye.
\<close>

theorem bracket_plays_n_minus_1_games:
  assumes "GenerateBracket sides = Some plan" "real_sides sides" "2 \<le> length sides"
  shows "length (filter (\<lambda>m. resolvedWinner m = None) (bp_matches plan)) = length sides - 1"
proof -
  note pm = plan_matches [OF assms(1)]
  let ?k = "bp_rounds plan"
  note sz = bracket_rounds_size [of "length sides", folded pm(1)]
  obtain k' where k': "?k = Suc k'" using sz(2) by (cases ?k) auto
  let ?c = "2 ^ ?k - length sides"
  have two: "(2::nat) ^ ?k = 2 * 2 ^ k'" using k' by simp
  have c: "?c \<le> 2 ^ k'" using sz(4) assms(3) k' two by simp
  have split: "bp_matches plan = map (final_match sides 1) [0..<2 ^ k']
      @ concat (map (\<lambda>r. map (final_match sides (Suc r)) [0..<2 ^ (k' - r)]) [1..<Suc k'])"
    unfolding pm(3) grid_def k' by (simp add: upt_conv_Cons map_Suc_upt [symmetric] comp_def del: upt_Suc)
  have "filter (\<lambda>m. resolvedWinner m \<noteq> None) (bp_matches plan)
      = filter (\<lambda>m. resolvedWinner m \<noteq> None) (map (final_match sides 1) [0..<2 ^ k'])"
  proof -
    have "\<not> resolvedWinner m \<noteq> None"
      if "m \<in> set (concat (map (\<lambda>r. map (final_match sides (Suc r)) [0..<2 ^ (k' - r)]) [1..<Suc k']))" for m
    proof -
      from that obtain r s where "1 \<le> r" "m = final_match sides (Suc r) s" by auto
      then show ?thesis by (simp add: final_match_later)
    qed
    then have "\<forall>m \<in> set (concat (map (\<lambda>r. map (final_match sides (Suc r)) [0..<2 ^ (k' - r)]) [1..<Suc k'])).
        \<not> resolvedWinner m \<noteq> None" by blast
    then show ?thesis unfolding split filter_append by (simp only: filter_False append_Nil2)
  qed
  also have "length \<dots> = length (filter (\<lambda>s. resolvedWinner (final_match sides 1 s) \<noteq> None) [0..<2 ^ k'])"
    by (simp add: filter_map comp_def)
  also have "filter (\<lambda>s. resolvedWinner (final_match sides 1 s) \<noteq> None) [0..<2 ^ k']
      = filter (\<lambda>s. seeds k' ! s \<le> ?c) [0..<2 ^ k']"
  proof (rule filter_cong [OF refl])
    fix s assume "s \<in> set [0..<2 ^ k']"
    then have s: "s < 2 ^ (?k - 1)" using k' by simp
    show "(resolvedWinner (final_match sides 1 s) \<noteq> None) = (seeds k' ! s \<le> ?c)"
      using first_side_top [OF assms(2,3) s pm(1)] first_lone_real [OF assms(2,3) s pm(1)]
        final_match_first(3) [of sides s, folded pm(1)] s k' by (simp del: power_Suc)
  qed
  also have "length \<dots> = ?c" by (rule card_seeds_le [OF c])
  finally have "length (filter (\<lambda>m. resolvedWinner m \<noteq> None) (bp_matches plan)) = ?c" .
  moreover have "length (bp_matches plan) = 2 ^ ?k - 1" unfolding pm(3) by (rule length_concat_grid)
  ultimately show ?thesis
    using sum_length_filter_compl [of "\<lambda>m. resolvedWinner m = None" "bp_matches plan"] sz(3) assms(3)
    by simp
qed

theorem bracket_plays_n_minus_1_games_witness:
  "\<exists>plan. GenerateBracket [Some [''a''], Some [''b''], Some [''c'']] = Some plan
     \<and> length (filter (\<lambda>m. resolvedWinner m = None) (bp_matches plan)) = 2"
proof -
  let ?s = "[Some [''a''], Some [''b''], Some [''c'']]"
  obtain plan where g: "GenerateBracket ?s = Some plan" using GenerateBracket_eq [of ?s] by blast
  have r: "real_sides ?s" by (simp add: real_sides_def IsBye_def Bye_def)
  have l: "2 \<le> length ?s" by simp
  from bracket_plays_n_minus_1_games [OF g r l] g show ?thesis by simp
qed

end
