(* ===== verification/Token_Flow.thy ===== *)
theory Token_Flow
  imports Single_Elim
begin

text \<open>
  The bye-aware token flow that builds a consolation tree. Losers of a round (and the winners
  of consolation matches already emitted) flow up a binary tree; a lone entrant skips a bye, and
  a match is emitted only where two real entrants meet. \<open>buildConsolationTree\<close> in
  \<open>internal/engine/compass.go\<close> and \<open>GenerateConsolation\<close> in
  \<open>internal/engine/consolation.go\<close> run the same loop; it is modelled once, here.

  The code keys its matches by the string \<open>round:slot\<close>; the model uses the pair.
\<close>

section \<open>Data\<close>

datatype token = Empty | Loser nat | Winner nat nat

record cons_node =
  cn_round :: nat
  cn_slot :: nat
  cn_sround :: nat
  cn_sslot :: nat
  cn_feedsRound :: nat
  cn_feedsSlot :: nat
  cn_feedsTeam :: nat

record cons_drop =
  cd_source :: nat
  cd_round :: nat
  cd_slot :: nat
  cd_team :: nat

record flow =
  fl_nodes :: "cons_node list"
  fl_drops :: "cons_drop list"

section \<open>The loop\<close>

fun flow_record :: "nat \<Rightarrow> nat \<Rightarrow> nat \<Rightarrow> token \<Rightarrow> flow \<Rightarrow> flow" where
  "flow_record r j team Empty fl = fl"
| "flow_record r j team (Loser i) fl =
     fl\<lparr>fl_drops := fl_drops fl @ [\<lparr>cd_source = i, cd_round = r, cd_slot = j, cd_team = team\<rparr>]\<rparr>"
| "flow_record r j team (Winner r' j') fl =
     fl\<lparr>fl_nodes := map (\<lambda>n. if cn_sround n = r' \<and> cn_sslot n = j'
          then n\<lparr>cn_feedsRound := r, cn_feedsSlot := j, cn_feedsTeam := team\<rparr> else n) (fl_nodes fl)\<rparr>"

definition new_node :: "nat \<Rightarrow> nat \<Rightarrow> cons_node" where
  "new_node r j = \<lparr>cn_round = r, cn_slot = j, cn_sround = r, cn_sslot = j,
     cn_feedsRound = 0, cn_feedsSlot = 0, cn_feedsTeam = 0\<rparr>"

definition flow_pair :: "nat \<Rightarrow> nat \<Rightarrow> token \<Rightarrow> token \<Rightarrow> flow \<Rightarrow> token \<times> flow" where
  "flow_pair r j a b fl =
    (if a = Empty \<and> b = Empty then (Empty, fl)
     else if a = Empty then (b, fl)
     else if b = Empty then (a, fl)
     else (Winner r j,
           flow_record r j 2 b (flow_record r j 1 a (fl\<lparr>fl_nodes := fl_nodes fl @ [new_node r j]\<rparr>))))"

fun flow_round :: "nat \<Rightarrow> nat \<Rightarrow> token list \<Rightarrow> flow \<Rightarrow> token list \<times> flow" where
  "flow_round r j (a # b # cur) fl =
     (let (t, fl1) = flow_pair r j a b fl;
          (ts, fl2) = flow_round r (Suc j) cur fl1
      in (t # ts, fl2))"
| "flow_round r j _ fl = ([], fl)"

fun flow_rounds :: "nat \<Rightarrow> nat \<Rightarrow> token list \<Rightarrow> flow \<Rightarrow> token list \<times> flow" where
  "flow_rounds r 0 cur fl = (cur, fl)"
| "flow_rounds r (Suc k) cur fl =
     (let (cur', fl') = flow_round r 0 cur fl in flow_rounds (Suc r) k cur' fl')"

section \<open>Relabelling the emitted rounds\<close>

definition round_order :: "nat list \<Rightarrow> nat list" where
  "round_order rounds = sorted_list_of_set (set rounds)"

definition remap :: "nat list \<Rightarrow> nat \<Rightarrow> nat" where
  "remap ordered r =
    (case map_of (zip ordered [1..<Suc (length ordered)]) r of None \<Rightarrow> 0 | Some i \<Rightarrow> i)"

definition relabel :: "flow \<Rightarrow> nat \<times> flow" where
  "relabel fl =
    (if fl_nodes fl = [] then (0, fl)
     else
       (let ordered = round_order (map cn_round (fl_nodes fl)) in
        (length ordered,
         \<lparr>fl_nodes = map (\<lambda>n. n\<lparr>cn_round := remap ordered (cn_round n),
             cn_feedsRound := (if cn_feedsRound n \<noteq> 0 then remap ordered (cn_feedsRound n) else 0)\<rparr>)
             (fl_nodes fl),
          fl_drops = map (\<lambda>d. d\<lparr>cd_round := remap ordered (cd_round d)\<rparr>) (fl_drops fl)\<rparr>)))"

section \<open>What flows and what is emitted\<close>

fun loser_of :: "token \<Rightarrow> nat multiset" where
  "loser_of (Loser i) = {#i#}"
| "loser_of _ = {#}"

fun winner_of :: "token \<Rightarrow> (nat \<times> nat) multiset" where
  "winner_of (Winner r j) = {#(r, j)#}"
| "winner_of _ = {#}"

definition real_of :: "token \<Rightarrow> nat" where
  "real_of t = (if t = Empty then 0 else 1)"

abbreviation losers :: "token multiset \<Rightarrow> nat multiset" where
  "losers M \<equiv> \<Sum>\<^sub># (image_mset loser_of M)"

abbreviation winners :: "token multiset \<Rightarrow> (nat \<times> nat) multiset" where
  "winners M \<equiv> \<Sum>\<^sub># (image_mset winner_of M)"

abbreviation reals :: "token multiset \<Rightarrow> nat" where
  "reals M \<equiv> \<Sum>\<^sub># (image_mset real_of M)"

definition node_key :: "cons_node \<Rightarrow> nat \<times> nat" where
  "node_key n = (cn_sround n, cn_sslot n)"

text \<open>The places of a match's two entrants, and the places drops and winners are sent to.\<close>

definition node_entries :: "cons_node \<Rightarrow> (nat \<times> nat \<times> nat) multiset" where
  "node_entries n = {#(cn_round n, cn_slot n, 1), (cn_round n, cn_slot n, 2)#}"

definition node_feed :: "cons_node \<Rightarrow> (nat \<times> nat \<times> nat) multiset" where
  "node_feed n = (if cn_feedsRound n = 0 then {#} else {#(cn_feedsRound n, cn_feedsSlot n, cn_feedsTeam n)#})"

definition drop_entry :: "cons_drop \<Rightarrow> nat \<times> nat \<times> nat" where
  "drop_entry d = (cd_round d, cd_slot d, cd_team d)"

definition entries :: "flow \<Rightarrow> (nat \<times> nat \<times> nat) multiset" where
  "entries fl = \<Sum>\<^sub># (image_mset node_entries (mset (fl_nodes fl)))"

definition arrivals :: "flow \<Rightarrow> (nat \<times> nat \<times> nat) multiset" where
  "arrivals fl = \<Sum>\<^sub># (image_mset node_feed (mset (fl_nodes fl))) + image_mset drop_entry (mset (fl_drops fl))"

definition finals :: "flow \<Rightarrow> (nat \<times> nat) multiset" where
  "finals fl = image_mset node_key (filter_mset (\<lambda>n. cn_feedsRound n = 0) (mset (fl_nodes fl)))"

definition node_ok :: "cons_node \<Rightarrow> bool" where
  "node_ok n \<longleftrightarrow> cn_round n = cn_sround n \<and> cn_slot n = cn_sslot n
     \<and> 1 \<le> cn_round n \<and> (cn_feedsRound n \<noteq> 0 \<longrightarrow> cn_round n < cn_feedsRound n)"

text \<open>
  The flow invariant, for the losers \<open>L\<close> that entered and the multiset \<open>M\<close> of tokens still
  flowing: nobody is lost, the winners in flight are the matches that feed nothing yet, and
  every entrant place of every match is filled exactly once.
\<close>

definition flow_inv :: "nat multiset \<Rightarrow> token multiset \<Rightarrow> flow \<Rightarrow> bool" where
  "flow_inv L M fl \<longleftrightarrow>
     reals M + length (fl_nodes fl) = size L
   \<and> image_mset cd_source (mset (fl_drops fl)) + losers M = L
   \<and> finals fl = winners M
   \<and> distinct (map node_key (fl_nodes fl))
   \<and> arrivals fl = entries fl
   \<and> (\<forall>n \<in> set (fl_nodes fl). node_ok n)"

text \<open>All keys emitted so far lie before place \<open>(r, j)\<close>, all winners in flight before round \<open>r\<close>.\<close>

definition keys_before :: "nat \<Rightarrow> nat \<Rightarrow> flow \<Rightarrow> bool" where
  "keys_before r j fl \<longleftrightarrow> (\<forall>n \<in> set (fl_nodes fl). cn_sround n < r \<or> cn_sround n = r \<and> cn_sslot n < j)"

section \<open>Recording an entrant\<close>

lemma flow_record_keys [simp]: "map node_key (fl_nodes (flow_record r j team t fl)) = map node_key (fl_nodes fl)"
  by (cases t) (auto simp: node_key_def)

lemma flow_record_length [simp]: "length (fl_nodes (flow_record r j team t fl)) = length (fl_nodes fl)"
  by (cases t) auto

lemma flow_record_coords:
  "n \<in> set (fl_nodes (flow_record r j team t fl)) \<Longrightarrow>
     \<exists>n' \<in> set (fl_nodes fl). cn_round n = cn_round n' \<and> cn_slot n = cn_slot n' \<and> cn_sround n = cn_sround n'
       \<and> cn_sslot n = cn_sslot n' \<and> (n = n' \<or> t = Winner (cn_sround n) (cn_sslot n) \<and> cn_feedsRound n = r)"
  by (cases t) auto

lemma entries_record [simp]: "entries (flow_record r j team t fl) = entries fl"
  by (cases t) (auto simp: entries_def node_entries_def image_mset.compositionality comp_def
      intro!: arg_cong [where f = sum_mset] image_mset_cong)

text \<open>A winner's match is found by its key and stops being a final; the arrival is recorded.\<close>

lemma set_feed_split:
  fixes r j team :: nat
  assumes "distinct (map node_key ns)" "n \<in> set ns" "node_key n = (r', j')" "cn_feedsRound n = 0"
  defines "upd \<equiv> \<lambda>n. if cn_sround n = r' \<and> cn_sslot n = j'
      then n\<lparr>cn_feedsRound := r, cn_feedsSlot := j, cn_feedsTeam := team\<rparr> else n"
  assumes "r \<noteq> 0"
  shows "\<Sum>\<^sub># (image_mset node_feed (mset (map upd ns))) = add_mset (r, j, team) (\<Sum>\<^sub># (image_mset node_feed (mset ns)))"
    and "add_mset (r', j') (image_mset node_key (filter_mset (\<lambda>n. cn_feedsRound n = 0) (mset (map upd ns))))
       = image_mset node_key (filter_mset (\<lambda>n. cn_feedsRound n = 0) (mset ns))"
proof -
  from assms(2) obtain xs ys where ns: "ns = xs @ n # ys" by (auto simp: in_set_conv_decomp)
  have other: "upd m = m" if "m \<in> set xs \<union> set ys" for m
  proof -
    have "node_key m \<noteq> node_key n" using that assms(1) unfolding ns by (auto simp: image_iff)
    then have "\<not> (cn_sround m = r' \<and> cn_sslot m = j')" using assms(3) by (simp add: node_key_def)
    then show ?thesis unfolding upd_def by (rule if_not_P)
  qed
  then have eq: "map upd ns = xs @ upd n # ys"
    unfolding ns by (simp add: map_idI)
  have u: "upd n = n\<lparr>cn_feedsRound := r, cn_feedsSlot := j, cn_feedsTeam := team\<rparr>"
    using assms(3) by (simp add: upd_def node_key_def)
  show "\<Sum>\<^sub># (image_mset node_feed (mset (map upd ns))) = add_mset (r, j, team) (\<Sum>\<^sub># (image_mset node_feed (mset ns)))"
    unfolding eq u unfolding ns using assms(4,6) by (simp add: node_feed_def)
  show "add_mset (r', j') (image_mset node_key (filter_mset (\<lambda>n. cn_feedsRound n = 0) (mset (map upd ns))))
       = image_mset node_key (filter_mset (\<lambda>n. cn_feedsRound n = 0) (mset ns))"
    unfolding eq u unfolding ns using assms(3,4,6) by (simp add: node_key_def)
qed

lemma flow_record_account:
  assumes "distinct (map node_key (fl_nodes fl))" "winner_of t \<subseteq># finals fl" "t \<noteq> Empty" "r \<noteq> 0"
  shows "arrivals (flow_record r j team t fl) = add_mset (r, j, team) (arrivals fl)"
    and "finals (flow_record r j team t fl) + winner_of t = finals fl"
    and "image_mset cd_source (mset (fl_drops (flow_record r j team t fl)))
       = image_mset cd_source (mset (fl_drops fl)) + loser_of t"
proof -
  have "arrivals (flow_record r j team t fl) = add_mset (r, j, team) (arrivals fl)
    \<and> finals (flow_record r j team t fl) + winner_of t = finals fl
    \<and> image_mset cd_source (mset (fl_drops (flow_record r j team t fl)))
       = image_mset cd_source (mset (fl_drops fl)) + loser_of t"
  proof (cases t)
    case Empty
    with assms(3) show ?thesis by simp
  next
    case (Loser i)
    then show ?thesis by (simp add: arrivals_def finals_def drop_entry_def)
  next
    case (Winner r' j')
    with assms(2) have "(r', j') \<in># finals fl" by simp
    then obtain n where n: "n \<in> set (fl_nodes fl)" "node_key n = (r', j')" "cn_feedsRound n = 0"
      by (auto simp: finals_def)
    note split = set_feed_split [OF assms(1) n assms(4), where j = j and team = team]
    show ?thesis
      using split unfolding Winner by (simp add: arrivals_def finals_def)
  qed
  then show "arrivals (flow_record r j team t fl) = add_mset (r, j, team) (arrivals fl)"
    "finals (flow_record r j team t fl) + winner_of t = finals fl"
    "image_mset cd_source (mset (fl_drops (flow_record r j team t fl)))
       = image_mset cd_source (mset (fl_drops fl)) + loser_of t" by auto
qed

section \<open>The invariant is kept\<close>

lemma flow_record_node_ok:
  assumes "\<forall>n \<in> set (fl_nodes fl). node_ok n" "\<forall>(r', j') \<in># winner_of t. r' < r"
  shows "\<forall>n \<in> set (fl_nodes (flow_record r j team t fl)). node_ok n"
proof
  fix n assume "n \<in> set (fl_nodes (flow_record r j team t fl))"
  from flow_record_coords [OF this] obtain n' where n': "n' \<in> set (fl_nodes fl)"
    "cn_round n = cn_round n'" "cn_slot n = cn_slot n'" "cn_sround n = cn_sround n'" "cn_sslot n = cn_sslot n'"
    "n = n' \<or> t = Winner (cn_sround n) (cn_sslot n) \<and> cn_feedsRound n = r" by blast
  with assms(1) have "node_ok n'" by blast
  with n'(2-6) assms(2) show "node_ok n" by (auto simp: node_ok_def)
qed

lemma keys_before_record [simp]: "keys_before r j (flow_record r' j' team t fl) = keys_before r j fl"
proof -
  have "keys_before r j f \<longleftrightarrow> (\<forall>k \<in> set (map node_key (fl_nodes f)). fst k < r \<or> fst k = r \<and> snd k < j)" for f
    by (auto simp: keys_before_def node_key_def)
  then show ?thesis by (simp only: flow_record_keys)
qed

lemma flow_emit_inv:
  assumes inv: "flow_inv L (add_mset a (add_mset b M)) fl" and kb: "keys_before r j fl" and r: "1 \<le> r"
    and before: "\<forall>(r', j') \<in># winner_of a + winner_of b. r' < r"
    and real: "a \<noteq> Empty" "b \<noteq> Empty"
  defines "fl0 \<equiv> fl\<lparr>fl_nodes := fl_nodes fl @ [new_node r j]\<rparr>"
  shows "flow_inv L (add_mset (Winner r j) M) (flow_record r j 2 b (flow_record r j 1 a fl0))"
proof -
  let ?f1 = "flow_record r j 1 a fl0" and ?f2 = "flow_record r j 2 b (flow_record r j 1 a fl0)"
  note inv' = inv [unfolded flow_inv_def]
  have nk: "node_key (new_node r j) = (r, j)" by (simp add: node_key_def new_node_def)
  have "(r, j) \<notin> set (map node_key (fl_nodes fl))"
    using kb by (auto simp: keys_before_def node_key_def)
  then have d0: "distinct (map node_key (fl_nodes fl0))"
    using inv' nk by (simp add: fl0_def)
  have f0: "finals fl0 = add_mset (r, j) (winner_of a + (winner_of b + winners M))"
    using inv' nk by (simp add: fl0_def finals_def new_node_def)
  have a0: "arrivals fl0 = entries fl"
    using inv' by (simp add: fl0_def arrivals_def node_feed_def new_node_def)
  have e0: "entries fl0 = add_mset (r, j, 1) (add_mset (r, j, 2) (entries fl))"
    by (simp add: fl0_def entries_def node_entries_def new_node_def)
  have r0: "r \<noteq> 0" using r by simp
  note A = flow_record_account [OF d0 _ real(1) r0, where j = j and team = 1]
  have sa: "winner_of a \<subseteq># finals fl0" unfolding f0 by simp
  have f1: "finals ?f1 = add_mset (r, j) (winner_of b + winners M)"
    using A(2) [OF sa] unfolding f0 by simp
  have d1: "distinct (map node_key (fl_nodes ?f1))" using d0 by simp
  have sb: "winner_of b \<subseteq># finals ?f1" unfolding f1 by simp
  note B = flow_record_account [OF d1 sb real(2) r0, where j = j and team = 2]
  have "finals ?f2 = add_mset (r, j) (winners M)"
    using B(2) unfolding f1 by simp
  moreover have "arrivals ?f2 = entries ?f2"
    using B(1) A(1) [OF sa] by (simp add: a0 e0)
  moreover have "image_mset cd_source (mset (fl_drops ?f2)) + losers M = L"
    using B(3) A(3) [OF sa] inv' by (simp add: fl0_def ac_simps)
  moreover have "distinct (map node_key (fl_nodes ?f2))" using d0 by simp
  moreover have "\<forall>n \<in> set (fl_nodes ?f2). node_ok n"
  proof (intro flow_record_node_ok)
    show "\<forall>n \<in> set (fl_nodes fl0). node_ok n"
      using inv' r by (auto simp: fl0_def new_node_def node_ok_def)
  qed (use before in auto)
  moreover have "reals (add_mset (Winner r j) M) + length (fl_nodes ?f2) = size L"
    using inv' real by (simp add: fl0_def real_of_def)
  ultimately show ?thesis unfolding flow_inv_def by simp
qed

lemma flow_pair_inv:
  assumes "flow_inv L (add_mset a (add_mset b M)) fl" "keys_before r j fl" "1 \<le> r"
    and "\<forall>(r', j') \<in># winner_of a + winner_of b. r' < r"
    and "flow_pair r j a b fl = (t, fl')"
  shows "flow_inv L (add_mset t M) fl'" and "keys_before r (Suc j) fl'"
    and "t \<in> {a, b, Winner r j}"
proof -
  have kb: "keys_before r (Suc j) fl" using assms(2) by (auto simp: keys_before_def)
  have e: "loser_of Empty = {#}" "winner_of Empty = {#}" "real_of Empty = 0" by (simp_all add: real_of_def)
  consider "a = Empty \<or> b = Empty" | "a \<noteq> Empty" "b \<noteq> Empty" by blast
  then have "flow_inv L (add_mset t M) fl' \<and> keys_before r (Suc j) fl' \<and> t \<in> {a, b, Winner r j}"
  proof cases
    case 1
    with assms(1,5) kb show ?thesis
      by (auto simp: flow_pair_def flow_inv_def e split: if_splits)
  next
    case 2
    with assms(5) have "t = Winner r j"
      "fl' = flow_record r j 2 b (flow_record r j 1 a (fl\<lparr>fl_nodes := fl_nodes fl @ [new_node r j]\<rparr>))"
      by (auto simp: flow_pair_def)
    moreover have "keys_before r (Suc j) (fl\<lparr>fl_nodes := fl_nodes fl @ [new_node r j]\<rparr>)"
      using kb by (auto simp: keys_before_def new_node_def)
    ultimately show ?thesis using flow_emit_inv [OF assms(1-4) 2] by simp
  qed
  then show "flow_inv L (add_mset t M) fl'" "keys_before r (Suc j) fl'" "t \<in> {a, b, Winner r j}" by auto
qed

lemma flow_round_inv:
  assumes "flow_inv L (mset cur + M) fl" "keys_before r j fl" "1 \<le> r" "even (length cur)"
    and "\<forall>r' j'. Winner r' j' \<in> set cur \<longrightarrow> r' < r"
    and "flow_round r j cur fl = (ts, fl')"
  shows "flow_inv L (mset ts + M) fl' \<and> keys_before (Suc r) 0 fl' \<and> 2 * length ts = length cur
    \<and> (\<forall>r' j'. Winner r' j' \<in> set ts \<longrightarrow> r' \<le> r)"
  using assms
proof (induction r j cur fl arbitrary: ts fl' M rule: flow_round.induct)
  case (1 r j a b cur fl)
  obtain t fl1 where p: "flow_pair r j a b fl = (t, fl1)" by fastforce
  obtain ts2 where q: "flow_round r (Suc j) cur fl1 = (ts2, fl')" "ts = t # ts2"
    using 1(7) p by (auto split: prod.splits)
  have inv: "flow_inv L (add_mset a (add_mset b (mset cur + M))) fl"
    using 1(2) by simp
  have w: "\<forall>(r', j') \<in># winner_of a + winner_of b. r' < r"
    using 1(6) by (cases a; cases b) auto
  note P = flow_pair_inv [OF inv 1(3,4) w p]
  have "flow_inv L (mset cur + add_mset t M) fl1" using P(1) by simp
  from 1(1) [OF p [symmetric] refl this P(2) 1(4) _ _ q(1)] 1(5,6)
  have Q: "flow_inv L (mset ts2 + add_mset t M) fl' \<and> keys_before (Suc r) 0 fl' \<and> 2 * length ts2 = length cur
      \<and> (\<forall>r' j'. Winner r' j' \<in> set ts2 \<longrightarrow> r' \<le> r)" by auto
  moreover have "r' \<le> r" if "t = Winner r' j'" for r' j'
    using P(3) that 1(6) by (auto intro: less_imp_le)
  ultimately show ?case unfolding q(2) by auto
qed (auto simp: keys_before_def)

lemma flow_rounds_inv:
  assumes "flow_inv L (mset cur) fl" "keys_before r 0 fl" "1 \<le> r" "length cur = 2 ^ k"
    and "\<forall>r' j'. Winner r' j' \<in> set cur \<longrightarrow> r' < r"
    and "flow_rounds r k cur fl = (ts, fl')"
  shows "flow_inv L (mset ts) fl' \<and> length ts = 1"
  using assms
proof (induction r k cur fl arbitrary: ts fl' rule: flow_rounds.induct)
  case (1 r cur fl)
  then show ?case by auto
next
  case (2 r k cur fl)
  obtain cur' fl1 where p: "flow_round r 0 cur fl = (cur', fl1)" by fastforce
  have q: "flow_rounds (Suc r) k cur' fl1 = (ts, fl')" using 2(7) p by simp
  have e: "even (length cur)" using 2(5) by simp
  have P: "flow_inv L (mset cur') fl1" "keys_before (Suc r) 0 fl1" "2 * length cur' = length cur"
    "\<forall>r' j'. Winner r' j' \<in> set cur' \<longrightarrow> r' \<le> r"
    using flow_round_inv [of L cur "{#}" fl r 0 cur' fl1] 2(2-4,6) e p by auto
  from 2(1) [OF p [symmetric] refl P(1,2) _ _ _ q] P(3,4) 2(5) show ?case
    by (auto simp: less_Suc_eq_le)
qed

section \<open>Relabelling keeps the tree\<close>

lemma map_of_zip_upt:
  "distinct xs \<Longrightarrow> i < length xs \<Longrightarrow> map_of (zip xs [1..<Suc (length xs)]) (xs ! i) = Some (Suc i)"
  by (subst map_of_zip_nth) (simp_all del: upt_Suc)

lemma remap_nth: "distinct ord \<Longrightarrow> i < length ord \<Longrightarrow> remap ord (ord ! i) = Suc i"
  by (simp only: remap_def map_of_zip_upt option.case)

lemma remap_order:
  fixes rounds :: "nat list"
  defines "ord \<equiv> round_order rounds"
  shows "r \<in> set rounds \<Longrightarrow> 1 \<le> remap ord r \<and> remap ord r \<le> length ord"
    and "r \<in> set rounds \<Longrightarrow> r' \<in> set rounds \<Longrightarrow> r < r' \<Longrightarrow> remap ord r < remap ord r'"
    and "remap ord ` set rounds = {1..length ord}"
proof -
  have ord: "sorted ord" "distinct ord" "set ord = set rounds"
    by (simp_all add: ord_def round_order_def)
  have ex: "\<exists>i < length ord. r = ord ! i" if "r \<in> set rounds" for r
    using that ord(3) by (metis in_set_conv_nth)
  note nth = remap_nth [OF ord(2)]
  show "1 \<le> remap ord r \<and> remap ord r \<le> length ord" if "r \<in> set rounds" for r
  proof -
    from ex [OF that] obtain i where "i < length ord" "r = ord ! i" by blast
    then have "remap ord r = Suc i" by (simp only: nth)
    with \<open>i < length ord\<close> show ?thesis by simp
  qed
  show "remap ord r < remap ord r'" if "r \<in> set rounds" "r' \<in> set rounds" "r < r'" for r r'
  proof -
    from ex [OF that(1)] ex [OF that(2)]
    obtain i i' where i: "i < length ord" "r = ord ! i" "i' < length ord" "r' = ord ! i'"
      by blast
    have "i < i'"
    proof (rule ccontr)
      assume "\<not> i < i'"
      then have "ord ! i' \<le> ord ! i" using sorted_nth_mono [OF ord(1), of i' i] i by simp
      with that(3) i show False by simp
    qed
    with i nth show ?thesis by simp
  qed
  show "remap ord ` set rounds = {1..length ord}"
  proof
    show "remap ord ` set rounds \<subseteq> {1..length ord}"
    proof
      fix x assume "x \<in> remap ord ` set rounds"
      then obtain i where "i < length ord" "x = remap ord (ord ! i)" using ex by blast
      then show "x \<in> {1..length ord}" by (simp add: nth)
    qed
    show "{1..length ord} \<subseteq> remap ord ` set rounds"
    proof
      fix x assume "x \<in> {1..length ord}"
      then have "x - 1 < length ord" "x = Suc (x - 1)" by auto
      then have "x = remap ord (ord ! (x - 1))" "ord ! (x - 1) \<in> set rounds"
        using nth [of "x - 1"] ord(3) nth_mem [of "x - 1" ord] by auto
      then show "x \<in> remap ord ` set rounds" by blast
    qed
  qed
qed

text \<open>A finished tree: what the callers rely on.\<close>

definition node_place :: "cons_node \<Rightarrow> nat \<times> nat" where
  "node_place n = (cn_round n, cn_slot n)"

definition tree_wf :: "nat \<Rightarrow> flow \<Rightarrow> bool" where
  "tree_wf R fl \<longleftrightarrow> distinct (map node_place (fl_nodes fl))
     \<and> arrivals fl = entries fl
     \<and> (\<forall>n \<in> set (fl_nodes fl). cn_feedsRound n \<noteq> 0 \<longrightarrow> cn_round n < cn_feedsRound n)
     \<and> cn_round ` set (fl_nodes fl) = {1..R}
     \<and> length (filter (\<lambda>n. cn_feedsRound n = 0) (fl_nodes fl)) = 1"

lemma arrival_round:
  assumes "arrivals fl = entries fl" "n \<in> set (fl_nodes fl)" "cn_feedsRound n \<noteq> 0"
  shows "cn_feedsRound n \<in> cn_round ` set (fl_nodes fl)"
proof -
  have "(cn_feedsRound n, cn_feedsSlot n, cn_feedsTeam n) \<in># arrivals fl"
    using assms(2,3) by (force simp: arrivals_def node_feed_def)
  then have "(cn_feedsRound n, cn_feedsSlot n, cn_feedsTeam n) \<in># entries fl" using assms(1) by simp
  then show ?thesis by (auto simp: entries_def node_entries_def)
qed

lemma image_mset_sum_mset: "image_mset g (\<Sum>\<^sub># M) = \<Sum>\<^sub># (image_mset (image_mset g) M)"
  by (induction M) auto

lemma relabel_tree:
  assumes inv: "flow_inv L M fl" and ne: "fl_nodes fl \<noteq> []" and fin: "size (finals fl) = 1"
    and rel: "relabel fl = (R, fl')"
  shows "tree_wf R fl'" and "length (fl_nodes fl') = length (fl_nodes fl)"
    and "map cd_source (fl_drops fl') = map cd_source (fl_drops fl)"
    and "map node_key (fl_nodes fl') = map node_key (fl_nodes fl)"
proof -
  let ?ord = "round_order (map cn_round (fl_nodes fl))"
  define f where "f = remap ?ord"
  define un :: "cons_node \<Rightarrow> cons_node" where "un = (\<lambda>n. n\<lparr>cn_round := f (cn_round n),
      cn_feedsRound := (if cn_feedsRound n \<noteq> 0 then f (cn_feedsRound n) else 0)\<rparr>)"
  define g where "g = (\<lambda>(r, s :: nat, t :: nat). (f r, s, t))"
  have fl': "R = length ?ord" "fl_nodes fl' = map un (fl_nodes fl)"
    "fl_drops fl' = map (\<lambda>d. d\<lparr>cd_round := f (cd_round d)\<rparr>) (fl_drops fl)"
    using rel ne by (auto simp: relabel_def Let_def un_def f_def)
  note ordf = remap_order [where rounds = "map cn_round (fl_nodes fl)", folded f_def, simplified]
  note inv' = inv [unfolded flow_inv_def node_ok_def]
  have arr: "arrivals fl = entries fl" using inv' by blast
  have fr: "cn_feedsRound n \<in> cn_round ` set (fl_nodes fl)"
    if "n \<in> set (fl_nodes fl)" "cn_feedsRound n \<noteq> 0" for n
    by (rule arrival_round [OF arr that])
  have zero: "cn_feedsRound (un n) = 0 \<longleftrightarrow> cn_feedsRound n = 0" if "n \<in> set (fl_nodes fl)" for n
  proof (cases "cn_feedsRound n = 0")
    case False
    then show ?thesis using ordf(1) [OF fr [OF that]] by (simp add: un_def)
  qed (simp add: un_def)
  have e: "entries fl' = image_mset g (entries fl)"
    unfolding entries_def fl' mset_map image_mset.compositionality image_mset_sum_mset
    by (intro arg_cong [where f = sum_mset] image_mset_cong) (simp add: node_entries_def un_def g_def)
  have feed: "node_feed (un n) = image_mset g (node_feed n)" if "n \<in> set (fl_nodes fl)" for n
    using zero [OF that] by (auto simp: node_feed_def un_def g_def split: if_splits)
  have a: "arrivals fl' = image_mset g (arrivals fl)"
  proof -
    have "\<Sum>\<^sub># (image_mset node_feed (mset (fl_nodes fl'))) = image_mset g (\<Sum>\<^sub># (image_mset node_feed (mset (fl_nodes fl))))"
      unfolding fl' mset_map image_mset.compositionality image_mset_sum_mset
      by (intro arg_cong [where f = sum_mset] image_mset_cong) (simp add: feed)
    moreover have "image_mset drop_entry (mset (fl_drops fl')) = image_mset g (image_mset drop_entry (mset (fl_drops fl)))"
      unfolding fl' mset_map image_mset.compositionality
      by (intro image_mset_cong) (simp add: drop_entry_def g_def)
    ultimately show ?thesis by (simp add: arrivals_def)
  qed
  have inj: "inj_on f (cn_round ` set (fl_nodes fl))"
    using ordf(2) by (intro inj_onI) (metis linorder_neqE_nat less_irrefl)
  have "distinct (map node_place (fl_nodes fl'))"
  proof -
    have "map node_key (fl_nodes fl) = map node_place (fl_nodes fl)"
      using inv' by (auto simp: node_key_def node_place_def)
    then have "distinct (map node_place (fl_nodes fl))" using inv' by metis
    moreover have "map node_place (fl_nodes fl') = map (\<lambda>(r, s). (f r, s)) (map node_place (fl_nodes fl))"
      by (simp add: fl' un_def node_place_def)
    moreover have "inj_on (\<lambda>(r, s). (f r, s)) (set (map node_place (fl_nodes fl)))"
      using inj by (auto simp: inj_on_def node_place_def)
    ultimately show ?thesis by (simp only: distinct_map [of _ "map node_place _"])
  qed
  moreover have "arrivals fl' = entries fl'" using a e arr by simp
  moreover have "\<forall>n \<in> set (fl_nodes fl'). cn_feedsRound n \<noteq> 0 \<longrightarrow> cn_round n < cn_feedsRound n"
  proof (intro ballI impI)
    fix n' assume "n' \<in> set (fl_nodes fl')" "cn_feedsRound n' \<noteq> 0"
    then obtain n where "n \<in> set (fl_nodes fl)" "n' = un n" unfolding fl' by auto
    with \<open>cn_feedsRound n' \<noteq> 0\<close> zero have n: "n \<in> set (fl_nodes fl)" "n' = un n" "cn_feedsRound n \<noteq> 0"
      by simp_all
    have "cn_round n < cn_feedsRound n" using inv' n by blast
    then show "cn_round n' < cn_feedsRound n'"
      using ordf(2) [of "cn_round n" "cn_feedsRound n"] fr [OF n(1,3)] n by (simp add: un_def)
  qed
  moreover have "cn_round ` set (fl_nodes fl') = {1..R}"
    using ordf(3) by (simp add: fl' un_def image_image)
  moreover have "length (filter (\<lambda>n. cn_feedsRound n = 0) (fl_nodes fl')) = 1"
  proof -
    have "filter (\<lambda>n. cn_feedsRound (un n) = 0) (fl_nodes fl) = filter (\<lambda>n. cn_feedsRound n = 0) (fl_nodes fl)"
      by (rule filter_cong [OF refl]) (rule zero)
    moreover have "length (filter (\<lambda>n. cn_feedsRound n = 0) (fl_nodes fl)) = 1"
      using fin by (simp add: finals_def flip: mset_filter)
    ultimately show ?thesis by (simp add: fl' filter_map comp_def)
  qed
  ultimately show "tree_wf R fl'" by (simp add: tree_wf_def)
  show "length (fl_nodes fl') = length (fl_nodes fl)" "map cd_source (fl_drops fl') = map cd_source (fl_drops fl)"
    "map node_key (fl_nodes fl') = map node_key (fl_nodes fl)"
    by (simp_all add: fl' comp_def un_def node_key_def)
qed

section \<open>A full run\<close>

text \<open>Every match but a final feeds a later one, so a flow with matches has a final.\<close>

lemma no_finals_no_nodes:
  assumes "finals fl = {#}" "arrivals fl = entries fl" "\<forall>n \<in> set (fl_nodes fl). node_ok n"
  shows "fl_nodes fl = []"
proof (rule ccontr)
  assume ne: "fl_nodes fl \<noteq> []"
  let ?R = "cn_round ` set (fl_nodes fl)"
  have "finite ?R" "?R \<noteq> {}" using ne by auto
  then have "Max ?R \<in> ?R" by (rule Max_in)
  then obtain n where n: "n \<in> set (fl_nodes fl)" "cn_round n = Max ?R" by auto
  have "cn_feedsRound n \<noteq> 0"
    using assms(1) n(1) by (auto simp: finals_def filter_mset_eq_conv)
  with assms(3) n(1) have "cn_round n < cn_feedsRound n" "cn_feedsRound n \<in> ?R"
    using arrival_round [OF assms(2) n(1)] by (auto simp: node_ok_def)
  moreover from this have "cn_feedsRound n \<le> Max ?R" using \<open>finite ?R\<close> by (intro Max_ge)
  ultimately show False using n(2) by linarith
qed

definition empty_flow :: flow where
  "empty_flow = \<lparr>fl_nodes = [], fl_drops = []\<rparr>"

text \<open>
  The run from \<open>2^k\<close> opening tokens: with \<open>n\<close> losers among them it emits \<open>n - 1\<close> matches, and
  with at least two of them every loser is dropped into exactly one entrant place.
\<close>

lemma flow_run:
  assumes "length cur = 2 ^ k" "\<forall>t \<in> set cur. \<forall>r j. t \<noteq> Winner r j"
    and "flow_rounds 1 k cur empty_flow = (ts, fl)"
  shows "length (fl_nodes fl) = size (losers (mset cur)) - 1"
    and "2 \<le> size (losers (mset cur)) \<Longrightarrow> mset (map cd_source (fl_drops fl)) = losers (mset cur) \<and> size (finals fl) = 1"
    and "flow_inv (losers (mset cur)) (mset ts) fl"
proof -
  have L: "reals (mset cur) = size (losers (mset cur)) \<and> winners (mset cur) = {#}"
    using assms(2) by (induction cur) (auto simp: real_of_def, (case_tac a; force simp: real_of_def)+)
  have "flow_inv (losers (mset cur)) (mset cur) empty_flow"
    using L by (simp add: flow_inv_def empty_flow_def finals_def arrivals_def entries_def)
  moreover have "keys_before 1 0 empty_flow" by (simp add: keys_before_def empty_flow_def)
  ultimately have R: "flow_inv (losers (mset cur)) (mset ts) fl \<and> length ts = 1"
    using assms by (intro flow_rounds_inv [of _ cur empty_flow 1 k ts fl]) auto
  then show inv: "flow_inv (losers (mset cur)) (mset ts) fl" ..
  from R obtain t where t: "ts = [t]" by (auto simp: length_Suc_conv)
  note inv' = inv [unfolded t flow_inv_def]
  show len: "length (fl_nodes fl) = size (losers (mset cur)) - 1"
  proof (cases t)
    case Empty
    then have "size (losers (mset cur)) = length (fl_nodes fl)" "finals fl = {#}"
      using inv' by (auto simp: real_of_def)
    moreover have "arrivals fl = entries fl" "\<forall>n \<in> set (fl_nodes fl). node_ok n" using inv' by blast+
    ultimately have "length (fl_nodes fl) = 0" using no_finals_no_nodes [of fl] by simp
    with \<open>size (losers (mset cur)) = length (fl_nodes fl)\<close> show ?thesis by linarith
  qed (use inv' in \<open>auto simp: real_of_def\<close>)
  assume two: "2 \<le> size (losers (mset cur))"
  show "mset (map cd_source (fl_drops fl)) = losers (mset cur) \<and> size (finals fl) = 1"
  proof (cases t)
    case Empty
    then have "size (losers (mset cur)) = length (fl_nodes fl)" using inv' by (auto simp: real_of_def)
    with len two show ?thesis by simp
  next
    case (Loser i)
    then have "finals fl = {#}" using inv' by auto
    moreover have "arrivals fl = entries fl" "\<forall>n \<in> set (fl_nodes fl). node_ok n" using inv' by blast+
    ultimately have "length (fl_nodes fl) = 0" using no_finals_no_nodes [of fl] by simp
    with len two have False by linarith
    then show ?thesis ..
  next
    case (Winner r j)
    with inv' show ?thesis by auto
  qed
qed

end
