(* ===== verification/Consolation.thy ===== *)
theory Consolation
  imports Token_Flow
begin

text \<open>
  The back-draw consolation of \<open>internal/engine/consolation.go\<close>: the losers of the main
  draw's opening round play down to a consolation champion. \<open>GenerateConsolation\<close> runs the
  token flow over the opening matches and relabels the rounds it emits.
\<close>

section \<open>Data\<close>

record consolation_match =
  co_round :: nat
  co_slot :: nat
  co_feedsRound :: nat
  co_feedsSlot :: nat
  co_feedsTeam :: nat

record loser_drop =
  ld_mainSlot :: nat
  ld_round :: nat
  ld_slot :: nat
  ld_team :: nat

record consolation_plan =
  cp_rounds :: nat
  cp_matches :: "consolation_match list"
  cp_drops :: "loser_drop list"

section \<open>Operation\<close>

definition cons_match_of :: "cons_node \<Rightarrow> consolation_match" where
  "cons_match_of n = \<lparr>co_round = cn_round n, co_slot = cn_slot n, co_feedsRound = cn_feedsRound n,
     co_feedsSlot = cn_feedsSlot n, co_feedsTeam = cn_feedsTeam n\<rparr>"

definition loser_drop_of :: "cons_drop \<Rightarrow> loser_drop" where
  "loser_drop_of d = \<lparr>ld_mainSlot = cd_source d, ld_round = cd_round d, ld_slot = cd_slot d, ld_team = cd_team d\<rparr>"

definition GenerateConsolation :: "nat \<Rightarrow> (nat \<Rightarrow> bool) \<Rightarrow> consolation_plan" where
  "GenerateConsolation sz isBye =
    (let entrants = sz div 2 in
     if entrants < 2 then \<lparr>cp_rounds = 0, cp_matches = [], cp_drops = []\<rparr>
     else
       (let structuralRounds = ilog2 entrants;
            cur = map (\<lambda>i. if isBye i then Empty else Loser i) [0..<entrants];
            (_, fl) = flow_rounds 1 structuralRounds cur empty_flow;
            (effRounds, fl') = relabel fl
        in \<lparr>cp_rounds = effRounds, cp_matches = map cons_match_of (fl_nodes fl'),
             cp_drops = map loser_drop_of (fl_drops fl')\<rparr>))"

section \<open>Properties\<close>

lemma losers_of_lane:
  "losers (mset (map (\<lambda>i. if isBye i then Empty else Loser i) xs)) = mset (filter (\<lambda>i. \<not> isBye i) xs)"
  by (induction xs) auto

lemma consolation_run:
  assumes "2 \<le> k" "2 \<le> length (filter (\<lambda>i. \<not> isBye i) [0..<2 ^ (k - 1)])"
  shows "\<exists>R fl. tree_wf R fl
    \<and> GenerateConsolation (2 ^ k) isBye
        = \<lparr>cp_rounds = R, cp_matches = map cons_match_of (fl_nodes fl), cp_drops = map loser_drop_of (fl_drops fl)\<rparr>
    \<and> length (fl_nodes fl) = length (filter (\<lambda>i. \<not> isBye i) [0..<2 ^ (k - 1)]) - 1
    \<and> mset (map cd_source (fl_drops fl)) = mset (filter (\<lambda>i. \<not> isBye i) [0..<2 ^ (k - 1)])"
proof -
  let ?n = "2 ^ (k - 1) :: nat"
  let ?cur = "map (\<lambda>i. if isBye i then Empty else Loser i) [0..<?n]"
  have half: "2 ^ k div 2 = ?n" using assms(1) pow2_halves [of 1 k] by simp
  have big: "\<not> ?n < 2" using assms(1) one_less_power [of "2::nat" "k - 1"] by simp
  obtain ts fl0 where run: "flow_rounds 1 (k - 1) ?cur empty_flow = (ts, fl0)" by fastforce
  obtain R fl where rel: "relabel fl0 = (R, fl)" by fastforce
  have len: "length ?cur = 2 ^ (k - 1)" by simp
  have nw: "\<forall>t \<in> set ?cur. \<forall>r j. t \<noteq> Winner r j" by auto
  note F = flow_run [OF len nw run, unfolded losers_of_lane]
  have two: "2 \<le> size (mset (filter (\<lambda>i. \<not> isBye i) [0..<?n]))"
    using assms(2) by (simp only: size_mset)
  have ne: "fl_nodes fl0 \<noteq> []" using F(1) two by auto
  note T = relabel_tree [OF F(3) ne conjunct2 [OF F(2) [OF two]] rel]
  have "GenerateConsolation (2 ^ k) isBye
      = \<lparr>cp_rounds = R, cp_matches = map cons_match_of (fl_nodes fl), cp_drops = map loser_drop_of (fl_drops fl)\<rparr>"
    using run rel big by (simp add: GenerateConsolation_def half Let_def)
  moreover have "length (fl_nodes fl) = length (filter (\<lambda>i. \<not> isBye i) [0..<?n]) - 1"
    using T(2) F(1) by (simp only: size_mset)
  moreover have "mset (map cd_source (fl_drops fl)) = mset (filter (\<lambda>i. \<not> isBye i) [0..<?n])"
    using T(3) F(2) [OF two] by (simp only:)
  ultimately show ?thesis using T(1) by blast
qed

text \<open>The entrant places of a plan's matches, and the places its drops and winner feeds fill.\<close>

definition plan_places :: "consolation_plan \<Rightarrow> (nat \<times> nat \<times> nat) list" where
  "plan_places p = concat (map (\<lambda>m. [(co_round m, co_slot m, 1), (co_round m, co_slot m, 2)]) (cp_matches p))"

definition plan_arrivals :: "consolation_plan \<Rightarrow> (nat \<times> nat \<times> nat) list" where
  "plan_arrivals p = map (\<lambda>d. (ld_round d, ld_slot d, ld_team d)) (cp_drops p)
     @ map (\<lambda>m. (co_feedsRound m, co_feedsSlot m, co_feedsTeam m))
         (filter (\<lambda>m. co_feedsRound m \<noteq> 0) (cp_matches p))"

lemma plan_places_flow:
  "mset (plan_places \<lparr>cp_rounds = R, cp_matches = map cons_match_of ns, cp_drops = ds\<rparr>)
     = \<Sum>\<^sub># (image_mset node_entries (mset ns))"
  by (induction ns) (simp_all add: plan_places_def cons_match_of_def node_entries_def)

lemma plan_arrivals_flow:
  "mset (plan_arrivals \<lparr>cp_rounds = R, cp_matches = map cons_match_of ns, cp_drops = map loser_drop_of ds\<rparr>)
     = \<Sum>\<^sub># (image_mset node_feed (mset ns)) + image_mset drop_entry (mset ds)"
proof -
  have "mset (map (\<lambda>m. (co_feedsRound m, co_feedsSlot m, co_feedsTeam m))
      (filter (\<lambda>m. co_feedsRound m \<noteq> 0) (map cons_match_of ns))) = \<Sum>\<^sub># (image_mset node_feed (mset ns))"
    by (induction ns) (simp_all add: cons_match_of_def node_feed_def)
  moreover have "mset (map (\<lambda>d. (ld_round d, ld_slot d, ld_team d)) (map loser_drop_of ds))
      = image_mset drop_entry (mset ds)"
    by (induction ds) (simp_all add: loser_drop_of_def drop_entry_def)
  ultimately show ?thesis by (simp add: plan_arrivals_def)
qed

lemma consolation_losers:
  assumes "2 \<le> k" "2 \<le> length (filter (\<lambda>i. \<not> isBye i) [0..<2 ^ (k - 1)])"
  shows "mset (map ld_mainSlot (cp_drops (GenerateConsolation (2 ^ k) isBye)))
      = mset (filter (\<lambda>i. \<not> isBye i) [0..<2 ^ (k - 1)])"
    and "length (cp_matches (GenerateConsolation (2 ^ k) isBye))
      = length (filter (\<lambda>i. \<not> isBye i) [0..<2 ^ (k - 1)]) - 1"
    and "mset (plan_arrivals (GenerateConsolation (2 ^ k) isBye)) = mset (plan_places (GenerateConsolation (2 ^ k) isBye))"
proof -
  obtain R fl where r: "tree_wf R fl" "GenerateConsolation (2 ^ k) isBye
        = \<lparr>cp_rounds = R, cp_matches = map cons_match_of (fl_nodes fl), cp_drops = map loser_drop_of (fl_drops fl)\<rparr>"
    "length (fl_nodes fl) = length (filter (\<lambda>i. \<not> isBye i) [0..<2 ^ (k - 1)]) - 1"
    "mset (map cd_source (fl_drops fl)) = mset (filter (\<lambda>i. \<not> isBye i) [0..<2 ^ (k - 1)])"
    using consolation_run [OF assms] by blast
  have "map ld_mainSlot (map loser_drop_of (fl_drops fl)) = map cd_source (fl_drops fl)"
    by (simp add: loser_drop_of_def)
  then show "mset (map ld_mainSlot (cp_drops (GenerateConsolation (2 ^ k) isBye)))
      = mset (filter (\<lambda>i. \<not> isBye i) [0..<2 ^ (k - 1)])"
    using r(2,4) by (simp only: consolation_plan.simps)
  show "length (cp_matches (GenerateConsolation (2 ^ k) isBye))
      = length (filter (\<lambda>i. \<not> isBye i) [0..<2 ^ (k - 1)]) - 1"
    using r(2,3) by simp
  show "mset (plan_arrivals (GenerateConsolation (2 ^ k) isBye)) = mset (plan_places (GenerateConsolation (2 ^ k) isBye))"
    using r(1) unfolding r(2) plan_places_flow plan_arrivals_flow
    by (simp add: tree_wf_def arrivals_def entries_def)
qed

text \<open>
  The back draw of a main draw of \<open>2^k\<close> sides with at least two opening-round losers takes
  every one of those losers in exactly once, plays one game fewer than it has losers, and fills each of
  the two places of each of its matches exactly once, by one loser or by one earlier winner.
\<close>
theorem consolation_takes_every_loser_once:
  assumes "2 \<le> k" "2 \<le> length (filter (\<lambda>i. \<not> isBye i) [0..<2 ^ (k - 1)])"
  shows "mset (map ld_mainSlot (cp_drops (GenerateConsolation (2 ^ k) isBye)))
      = mset (filter (\<lambda>i. \<not> isBye i) [0..<2 ^ (k - 1)])
    \<and> length (cp_matches (GenerateConsolation (2 ^ k) isBye))
      = length (filter (\<lambda>i. \<not> isBye i) [0..<2 ^ (k - 1)]) - 1
    \<and> mset (plan_arrivals (GenerateConsolation (2 ^ k) isBye)) = mset (plan_places (GenerateConsolation (2 ^ k) isBye))"
  using consolation_losers [OF assms] by blast


theorem consolation_takes_every_loser_once_witness:
  "mset (map ld_mainSlot (cp_drops (GenerateConsolation (2 ^ 3) (\<lambda>i. i = 0))))
     = mset (filter (\<lambda>i. \<not> i = 0) [0..<2 ^ (3 - 1)])
   \<and> length (cp_matches (GenerateConsolation (2 ^ 3) (\<lambda>i. i = 0))) = 2"
proof -
  have l: "filter (\<lambda>i. \<not> i = 0) [0..<2 ^ (3 - 1)] = [1, 2, 3 :: nat]"
    by (simp add: upt_rec numeral_eq_Suc)
  have h: "2 \<le> (3::nat)" "2 \<le> length (filter (\<lambda>i. \<not> i = 0) [0..<2 ^ (3 - 1) :: nat])"
    unfolding l by simp_all
  from consolation_takes_every_loser_once [OF h] show ?thesis unfolding l by simp
qed

text \<open>
  The back draw is a tree the bracket view can draw: its rounds are numbered \<open>1 .. n\<close>
  without gaps, no two matches share a place, winners only feed later rounds, and exactly one match is
  the consolation final.
\<close>

theorem consolation_is_gapless_tree:
  assumes "2 \<le> k" "2 \<le> length (filter (\<lambda>i. \<not> isBye i) [0..<2 ^ (k - 1)])"
  defines "p \<equiv> GenerateConsolation (2 ^ k) isBye"
  shows "co_round ` set (cp_matches p) = {1..cp_rounds p}
    \<and> distinct (map (\<lambda>m. (co_round m, co_slot m)) (cp_matches p))
    \<and> (\<forall>m \<in> set (cp_matches p). co_feedsRound m \<noteq> 0 \<longrightarrow> co_round m < co_feedsRound m)
    \<and> length (filter (\<lambda>m. co_feedsRound m = 0) (cp_matches p)) = 1"
proof -
  obtain R fl where r: "tree_wf R fl" "p = \<lparr>cp_rounds = R, cp_matches = map cons_match_of (fl_nodes fl),
      cp_drops = map loser_drop_of (fl_drops fl)\<rparr>"
    unfolding p_def using consolation_run [OF assms(1,2)] by blast
  have "map node_place (fl_nodes fl) = map (\<lambda>n. (cn_round n, cn_slot n)) (fl_nodes fl)"
    by (simp add: node_place_def)
  with r show ?thesis
    by (auto simp: tree_wf_def cons_match_of_def comp_def filter_map image_image)
qed

theorem consolation_is_gapless_tree_witness:
  "co_round ` set (cp_matches (GenerateConsolation (2 ^ 2) (\<lambda>i. False)))
     = {1..cp_rounds (GenerateConsolation (2 ^ 2) (\<lambda>i. False))}"
proof -
  have h: "2 \<le> (2::nat)" "2 \<le> length (filter (\<lambda>i. \<not> False) [0..<2 ^ (2 - 1) :: nat])"
    by (simp_all add: upt_rec numeral_eq_Suc)
  from consolation_is_gapless_tree [OF h] show ?thesis by (rule conjunct1)
qed

end
