(* ===== verification/Compass.thy ===== *)
theory Compass
  imports Token_Flow
begin

text \<open>
  The compass draw, \<open>internal/engine/compass.go\<close>: an East main bracket whose losers are fed
  sideways into directional consolation trees.

  Matches are pointers in the code; the model keeps them in one append-only list and a pointer
  is an index into it. \<open>feedFrom\<close> appends the matches of a new direction and writes the loser
  drop of each of its parents.
\<close>

section \<open>Data\<close>

record cons_tree =
  ct_rounds :: nat
  ct_structRounds :: nat
  ct_matches :: "cons_node list"
  ct_drops :: "cons_drop list"

record compass_match =
  cm_group :: string
  cm_round :: nat
  cm_slot :: nat
  cm_side1 :: side
  cm_side2 :: side
  cm_resolvedWinner :: side
  cm_feedsRound :: nat
  cm_feedsSlot :: nat
  cm_feedsTeam :: nat
  cm_loserGroup :: string
  cm_loserRound :: nat
  cm_loserSlot :: nat
  cm_loserTeam :: nat

record compass_bracket =
  cb_group :: string
  cb_label :: string
  cb_rounds :: nat

record compass_plan =
  cpl_size :: nat
  cpl_brackets :: "compass_bracket list"
  cpl_matches :: "compass_match list"

text \<open>The matches and brackets built so far, and a built direction.\<close>

record compass_state =
  cs_brackets :: "compass_bracket list"
  cs_matches :: "compass_match list"

record emitted =
  byStruct :: "nat \<times> nat \<Rightarrow> nat option"
  structRounds :: nat

section \<open>Operations\<close>

definition compassGroup :: "nat \<Rightarrow> string \<times> string" where
  "compassGroup eastRound =
    (if eastRound = 1 then (''west'', ''West'')
     else if eastRound = 2 then (''north'', ''North'')
     else if eastRound = 3 then (''northeast'', ''Northeast'')
     else (''east_r'' @ itoa eastRound, ''East-R'' @ itoa eastRound))"

definition EastGroup :: string where
  "EastGroup = ''east''"

definition buildConsolationTree :: "nat \<Rightarrow> (nat \<Rightarrow> bool) \<Rightarrow> cons_tree option" where
  "buildConsolationTree cnt isBye =
    (if cnt < 2 then None
     else
       (let lane = nextPow2 cnt;
            structuralRounds = ilog2 lane;
            cur = map (\<lambda>i. if i < cnt \<and> \<not> isBye i then Loser i else Empty) [0..<lane];
            real = length (filter (\<lambda>t. t \<noteq> Empty) cur)
        in if real < 2 then None
           else
             (let (_, fl) = flow_rounds 1 structuralRounds cur empty_flow;
                  (effRounds, fl') = relabel fl
              in Some \<lparr>ct_rounds = effRounds, ct_structRounds = structuralRounds,
                       ct_matches = fl_nodes fl', ct_drops = fl_drops fl'\<rparr>)))"

definition east_match :: "bmatch \<Rightarrow> compass_match" where
  "east_match m =
    \<lparr>cm_group = EastGroup, cm_round = bm_round m, cm_slot = bm_slot m,
     cm_side1 = side1 m, cm_side2 = side2 m, cm_resolvedWinner = resolvedWinner m,
     cm_feedsRound = (if feedsRound m \<noteq> 0 then feedsRound m else 0),
     cm_feedsSlot = (if feedsRound m \<noteq> 0 then feedsSlot m else 0),
     cm_feedsTeam = (if feedsRound m \<noteq> 0 then feedsTeam m else 0),
     cm_loserGroup = [], cm_loserRound = 0, cm_loserSlot = 0, cm_loserTeam = 0\<rparr>"

definition direction_match :: "string \<Rightarrow> cons_node \<Rightarrow> compass_match" where
  "direction_match grp c =
    \<lparr>cm_group = grp, cm_round = cn_round c, cm_slot = cn_slot c,
     cm_side1 = None, cm_side2 = None, cm_resolvedWinner = None,
     cm_feedsRound = (if cn_feedsRound c \<noteq> 0 then cn_feedsRound c else 0),
     cm_feedsSlot = (if cn_feedsRound c \<noteq> 0 then cn_feedsSlot c else 0),
     cm_feedsTeam = (if cn_feedsRound c \<noteq> 0 then cn_feedsTeam c else 0),
     cm_loserGroup = [], cm_loserRound = 0, cm_loserSlot = 0, cm_loserTeam = 0\<rparr>"

definition wire_drop :: "string \<Rightarrow> (nat \<Rightarrow> nat option) \<Rightarrow> cons_drop \<Rightarrow> compass_match list \<Rightarrow> compass_match list" where
  "wire_drop grp parentAt d ms =
    (case parentAt (cd_source d) of
       None \<Rightarrow> ms
     | Some p \<Rightarrow> ms[p := (ms ! p)\<lparr>cm_loserGroup := grp, cm_loserRound := cd_round d,
                                 cm_loserSlot := cd_slot d, cm_loserTeam := cd_team d\<rparr>])"

definition feedFrom ::
  "string \<Rightarrow> string \<Rightarrow> nat \<Rightarrow> (nat \<Rightarrow> nat option) \<Rightarrow> compass_state \<Rightarrow> emitted option \<times> compass_state" where
  "feedFrom grp label cnt parentAt st =
    (case buildConsolationTree cnt (\<lambda>j. parentAt j = None) of
       None \<Rightarrow> (None, st)
     | Some cons \<Rightarrow>
         (let base = length (cs_matches st);
              appended = cs_matches st @ map (direction_match grp) (ct_matches cons);
              e = \<lparr>byStruct = map_of (zip (map (\<lambda>c. (cn_sround c, cn_sslot c)) (ct_matches cons))
                                        [base..<base + length (ct_matches cons)]),
                   structRounds = ct_structRounds cons\<rparr>
          in (Some e,
              \<lparr>cs_brackets = cs_brackets st @ [\<lparr>cb_group = grp, cb_label = label, cb_rounds = ct_rounds cons\<rparr>],
               cs_matches = fold (wire_drop grp parentAt) (ct_drops cons) appended\<rparr>)))"

definition eastAt :: "compass_state \<Rightarrow> (nat \<times> nat \<Rightarrow> nat option) \<Rightarrow> nat \<Rightarrow> nat \<Rightarrow> nat option" where
  "eastAt st eastByKey r j =
    (case eastByKey (r, j) of
       None \<Rightarrow> None
     | Some p \<Rightarrow> (if cm_resolvedWinner (cs_matches st ! p) \<noteq> None then None else Some p))"

definition secAt :: "emitted \<Rightarrow> nat \<Rightarrow> (nat \<Rightarrow> nat option) \<times> nat" where
  "secAt e r = ((\<lambda>j. byStruct e (r, j)), 2 ^ structRounds e div 2 ^ r)"

text \<open>The loop over East's losing rounds; West and North are kept for the sideways feeds.\<close>

fun east_feeds ::
  "nat \<Rightarrow> (nat \<times> nat \<Rightarrow> nat option) \<Rightarrow> nat list
     \<Rightarrow> emitted option \<times> emitted option \<times> compass_state \<Rightarrow> emitted option \<times> emitted option \<times> compass_state" where
  "east_feeds sz eastByKey [] wns = wns"
| "east_feeds sz eastByKey (r # rs) (west, north, st) =
     (let (grp, label) = compassGroup r;
          (e, st') = feedFrom grp label (sz div 2 ^ r) (eastAt st eastByKey r) st
      in east_feeds sz eastByKey rs
           (if r = 1 then e else west, if r = 2 then e else north, st'))"

definition side_feed :: "string \<Rightarrow> string \<Rightarrow> nat \<Rightarrow> emitted option \<Rightarrow> compass_state \<Rightarrow> emitted option \<times> compass_state" where
  "side_feed grp label r parent st =
    (case parent of
       None \<Rightarrow> (None, st)
     | Some e \<Rightarrow>
         (if structRounds e > r
          then (let (pf, cnt) = secAt e r in feedFrom grp label cnt pf st)
          else (None, st)))"

definition GenerateCompass :: "side list \<Rightarrow> compass_plan option" where
  "GenerateCompass seededSides =
    (case GenerateBracket seededSides of
       None \<Rightarrow> None
     | Some east \<Rightarrow>
         (let st0 = \<lparr>cs_brackets = [\<lparr>cb_group = EastGroup, cb_label = ''East'', cb_rounds = bp_rounds east\<rparr>],
                     cs_matches = map east_match (bp_matches east)\<rparr>;
              eastByKey = map_of (zip (map (\<lambda>m. (bm_round m, bm_slot m)) (bp_matches east))
                                   [0..<length (bp_matches east)]);
              (west, north, st1) = east_feeds (bp_size east) eastByKey [1..<bp_rounds east] (None, None, st0);
              (south, st2) = side_feed ''south'' ''South'' 1 west st1;
              (_, st3) = side_feed ''southwest'' ''Southwest'' 2 west st2;
              (_, st4) = side_feed ''northwest'' ''Northwest'' 1 north st3;
              (_, st5) = side_feed ''southeast'' ''Southeast'' 1 south st4
          in Some \<lparr>cpl_size = bp_size east, cpl_brackets = cs_brackets st5, cpl_matches = cs_matches st5\<rparr>))"

section \<open>Properties of a direction\<close>

lemma direction_tree:
  fixes cnt :: nat and isBye :: "nat \<Rightarrow> bool"
  defines "droppers \<equiv> filter (\<lambda>j. \<not> isBye j) [0..<cnt]"
  shows "buildConsolationTree cnt isBye = None \<longleftrightarrow> length droppers < 2"
    and "buildConsolationTree cnt isBye = Some t \<Longrightarrow>
      mset (map cd_source (ct_drops t)) = mset droppers
      \<and> length (ct_matches t) = length droppers - 1
      \<and> tree_wf (ct_rounds t) \<lparr>fl_nodes = ct_matches t, fl_drops = ct_drops t\<rparr>"
proof -
  obtain k where k: "nextPow2 cnt = 2 ^ k" "cnt \<le> 2 ^ k" using nextPow2_pow by blast
  let ?cur = "map (\<lambda>i. if i < cnt \<and> \<not> isBye i then Loser i else Empty) [0..<2 ^ k]"
  have lanes: "filter (\<lambda>i. i < cnt \<and> \<not> isBye i) [0..<2 ^ k] = droppers"
  proof -
    have "[0..<2 ^ k] = [0..<cnt] @ [cnt..<2 ^ k]" using k(2) by (metis le_add_diff_inverse upt_add_eq_append zero_le)
    moreover have "filter (\<lambda>i. i < cnt \<and> \<not> isBye i) [0..<cnt] = droppers"
      unfolding droppers_def by (rule filter_cong) auto
    moreover have "filter (\<lambda>i. i < cnt \<and> \<not> isBye i) [cnt..<2 ^ k] = []"
      by (simp add: filter_empty_conv)
    ultimately show ?thesis by simp
  qed
  have real: "length (filter (\<lambda>t. t \<noteq> Empty) ?cur) = length droppers"
  proof -
    have "filter ((\<lambda>t. t \<noteq> Empty) \<circ> (\<lambda>i. if i < cnt \<and> \<not> isBye i then Loser i else Empty)) [0..<2 ^ k]
        = filter (\<lambda>i. i < cnt \<and> \<not> isBye i) [0..<2 ^ k]" by (rule filter_cong) auto
    then show ?thesis by (simp only: filter_map length_map lanes)
  qed
  have small: "length droppers < 2" if "cnt < 2"
    using that length_filter_le [of "\<lambda>j. \<not> isBye j" "[0..<cnt]"] by (simp add: droppers_def)
  have los: "losers (mset ?cur) = mset droppers"
  proof -
    have "losers (mset (map (\<lambda>i. if P i then Loser i else Empty) xs)) = mset (filter P xs)" for P xs
      by (induction xs) auto
    from this [of "\<lambda>i. i < cnt \<and> \<not> isBye i" "[0..<2 ^ k]"] show ?thesis unfolding lanes .
  qed
  obtain ts fl0 where run: "flow_rounds 1 k ?cur empty_flow = (ts, fl0)" by fastforce
  obtain R fl where rel: "relabel fl0 = (R, fl)" by fastforce
  have res: "buildConsolationTree cnt isBye =
      (if length droppers < 2 then None
       else Some \<lparr>ct_rounds = R, ct_structRounds = k, ct_matches = fl_nodes fl, ct_drops = fl_drops fl\<rparr>)"
    unfolding buildConsolationTree_def Let_def k(1) ilog2_pow real using small run rel by auto
  then show "buildConsolationTree cnt isBye = None \<longleftrightarrow> length droppers < 2" by simp
  assume some: "buildConsolationTree cnt isBye = Some t"
  with res have two: "2 \<le> size (mset droppers)"
    and t: "t = \<lparr>ct_rounds = R, ct_structRounds = k, ct_matches = fl_nodes fl, ct_drops = fl_drops fl\<rparr>"
    by (simp_all split: if_splits)
  have len: "length ?cur = 2 ^ k" by simp
  have nw: "\<forall>t \<in> set ?cur. \<forall>r j. t \<noteq> Winner r j" by auto
  note F = flow_run [OF len nw run, unfolded los]
  have ne: "fl_nodes fl0 \<noteq> []" using F(1) two by auto
  note T = relabel_tree [OF F(3) ne conjunct2 [OF F(2) [OF two]] rel]
  have "mset (map cd_source (ct_drops t)) = mset droppers" using t T(3) F(2) [OF two] by simp
  moreover have "length (ct_matches t) = length droppers - 1" using t T(2) F(1) by simp
  ultimately show "mset (map cd_source (ct_drops t)) = mset droppers
      \<and> length (ct_matches t) = length droppers - 1
      \<and> tree_wf (ct_rounds t) \<lparr>fl_nodes = ct_matches t, fl_drops = ct_drops t\<rparr>"
    using T(1) t by (cases fl) simp
qed

text \<open>
  A direction is formed exactly when the parent round drops at least two real losers; its tree
  then takes every dropper in exactly once, plays one match fewer than it has droppers, fills every
  entrant place of its matches exactly once, numbers its rounds without gaps, feeds only forwards,
  and has a single final.
\<close>
theorem direction_tree_complete:
  fixes cnt :: nat and isBye :: "nat \<Rightarrow> bool"
  shows "(let droppers = filter (\<lambda>j. \<not> isBye j) [0..<cnt] in
    (buildConsolationTree cnt isBye = None \<longleftrightarrow> length droppers < 2)
    \<and> (\<forall>t. buildConsolationTree cnt isBye = Some t \<longrightarrow>
      mset (map cd_source (ct_drops t)) = mset droppers
      \<and> length (ct_matches t) = length droppers - 1
      \<and> tree_wf (ct_rounds t) \<lparr>fl_nodes = ct_matches t, fl_drops = ct_drops t\<rparr>))"
  using direction_tree [where cnt = cnt and isBye = isBye] by (simp add: Let_def)


theorem direction_tree_complete_witness:
  "\<exists>t. buildConsolationTree 3 (\<lambda>j. False) = Some t \<and> mset (map cd_source (ct_drops t)) = mset [0, 1, 2]
     \<and> length (ct_matches t) = 2"
proof -
  have u: "[0..<3] = [0, 1, 2 :: nat]" by (simp add: upt_rec)
  note D = direction_tree_complete [where cnt = 3 and isBye = "\<lambda>j. False", unfolded Let_def]
  have "buildConsolationTree 3 (\<lambda>j. False) \<noteq> None" using D by simp
  then obtain t where "buildConsolationTree 3 (\<lambda>j. False) = Some t" by blast
  with D show ?thesis by (simp add: u)
qed

section \<open>Everyone keeps playing\<close>

text \<open>
  The least number of matches an entrant of match \<open>m\<close> still plays, counting \<open>m\<close>: follow the
  winner feed within the group and the loser drop into another, whichever is shorter. The fuel bounds
  the path; a path longer than the fuel is not counted further.
\<close>

definition compass_lookup :: "compass_match list \<Rightarrow> string \<Rightarrow> nat \<Rightarrow> nat \<Rightarrow> compass_match option" where
  "compass_lookup ms g r s = List.find (\<lambda>m. cm_group m = g \<and> cm_round m = r \<and> cm_slot m = s) ms"

fun guaranteed :: "nat \<Rightarrow> compass_match list \<Rightarrow> compass_match \<Rightarrow> nat" where
  "guaranteed 0 ms m = 0"
| "guaranteed (Suc fuel) ms m =
     (let win = (if cm_feedsRound m = 0 then 0
                 else case compass_lookup ms (cm_group m) (cm_feedsRound m) (cm_feedsSlot m) of
                        None \<Rightarrow> 0 | Some t \<Rightarrow> guaranteed fuel ms t);
          lose = (if cm_loserGroup m = [] then 0
                  else case compass_lookup ms (cm_loserGroup m) (cm_loserRound m) (cm_loserSlot m) of
                         None \<Rightarrow> 0 | Some t \<Rightarrow> guaranteed fuel ms t)
      in Suc (min win lose))"

text \<open>A full field of \<open>n\<close> singles entrants named by their numbers.\<close>

definition numbered_field :: "nat \<Rightarrow> side list" where
  "numbered_field n = map (\<lambda>i. Some [itoa i]) [0..<n]"

text \<open>The classic compass on a full draw of 16: eight directions are formed, 32 matches are
  planned, and every entrant of every opening match plays at least four matches whatever the results;
  on a full draw of 8 the canonical East, West, North and South are formed and everyone plays three.
\<close>

theorem compass_full_draws_guarantee:
  "map_option (\<lambda>p. (map cb_group (cpl_brackets p), length (cpl_matches p),
        map (guaranteed 5 (cpl_matches p)) (filter (\<lambda>m. cm_group m = EastGroup \<and> cm_round m = 1) (cpl_matches p))))
     (GenerateCompass (numbered_field 16))
   = Some ([''east'', ''west'', ''north'', ''northeast'', ''south'', ''southwest'', ''northwest'', ''southeast''],
           32, [4, 4, 4, 4, 4, 4, 4, 4])
   \<and> map_option (\<lambda>p. (map cb_group (cpl_brackets p), length (cpl_matches p),
        map (guaranteed 5 (cpl_matches p)) (filter (\<lambda>m. cm_group m = EastGroup \<and> cm_round m = 1) (cpl_matches p))))
     (GenerateCompass (numbered_field 8))
   = Some ([''east'', ''west'', ''north'', ''south''], 12, [3, 3, 3, 3])"
  by code_simp

end
