(* ===== verification/Double_Elim.thy ===== *)
theory Double_Elim
  imports Token_Flow
begin

text \<open>
  Double elimination, \<open>internal/engine/double_elim.go\<close>: the winners bracket of
  \<open>GenerateBracket\<close>, a losers bracket built by a bye-aware token flow over the table of
  incoming entrants (\<open>incoming\<close>), and the grand final.

  The code keeps pointers to the matches by tier, round and slot; the model updates the match list
  at those coordinates, which are unique until \<open>renumberLBRounds\<close> runs at the end.
\<close>

section \<open>Data\<close>

datatype de_tier = NoTier | WinnersTier | LosersTier | GrandFinalTier

record de_match =
  de_tier :: de_tier
  de_round :: nat
  de_slot :: nat
  de_side1 :: side
  de_side2 :: side
  de_resolvedWinner :: side
  winTier :: de_tier
  winRound :: nat
  winSlot :: nat
  winTeam :: nat
  loseTier :: de_tier
  loseRound :: nat
  loseSlot :: nat
  loseTeam :: nat

record double_elim_plan =
  dp_size :: nat
  dp_wbRounds :: nat
  dp_lbRounds :: nat
  dp_matches :: "de_match list"

text \<open>A slot's occupant: a bye, nothing yet, a winners-bracket loser, a losers-bracket winner.\<close>

datatype tok = TBye | TUnset | TWLoser nat nat | TLBWinner nat nat

fun tok_real :: "tok \<Rightarrow> bool" where
  "tok_real TBye = False"
| "tok_real TUnset = False"
| "tok_real _ = True"

type_synonym de_place = "de_tier \<times> nat \<times> nat \<times> nat"

type_synonym incoming = "nat \<times> nat \<Rightarrow> tok \<times> tok"

section \<open>Operations\<close>

definition lbMatchCount :: "nat \<Rightarrow> nat \<Rightarrow> nat" where
  "lbMatchCount n lr = (let i = (lr + 1) div 2 in n div 2 ^ (i + 1))"

definition wb_match :: "bmatch \<Rightarrow> de_match" where
  "wb_match m =
    \<lparr>de_tier = WinnersTier, de_round = bm_round m, de_slot = bm_slot m,
     de_side1 = side1 m, de_side2 = side2 m, de_resolvedWinner = resolvedWinner m,
     winTier = (if feedsRound m \<noteq> 0 then WinnersTier else GrandFinalTier),
     winRound = (if feedsRound m \<noteq> 0 then feedsRound m else 1),
     winSlot = (if feedsRound m \<noteq> 0 then feedsSlot m else 0),
     winTeam = (if feedsRound m \<noteq> 0 then feedsTeam m else 1),
     loseTier = NoTier, loseRound = 0, loseSlot = 0, loseTeam = 0\<rparr>"

definition blank_match :: "de_tier \<Rightarrow> nat \<Rightarrow> nat \<Rightarrow> de_match" where
  "blank_match tr r s =
    \<lparr>de_tier = tr, de_round = r, de_slot = s, de_side1 = None, de_side2 = None, de_resolvedWinner = None,
     winTier = NoTier, winRound = 0, winSlot = 0, winTeam = 0,
     loseTier = NoTier, loseRound = 0, loseSlot = 0, loseTeam = 0\<rparr>"

definition set_lose :: "nat \<Rightarrow> nat \<Rightarrow> de_place \<Rightarrow> de_match list \<Rightarrow> de_match list" where
  "set_lose r s p ms = (case p of (tr, pr, ps, pt) \<Rightarrow>
     map (\<lambda>m. if de_tier m = WinnersTier \<and> de_round m = r \<and> de_slot m = s
       then m\<lparr>loseTier := tr, loseRound := pr, loseSlot := ps, loseTeam := pt\<rparr> else m) ms)"

definition set_win :: "nat \<Rightarrow> nat \<Rightarrow> de_place \<Rightarrow> de_match list \<Rightarrow> de_match list" where
  "set_win r s p ms = (case p of (tr, pr, ps, pt) \<Rightarrow>
     map (\<lambda>m. if de_tier m = LosersTier \<and> de_round m = r \<and> de_slot m = s
       then m\<lparr>winTier := tr, winRound := pr, winSlot := ps, winTeam := pt\<rparr> else m) ms)"

fun wire :: "tok \<Rightarrow> de_place \<Rightarrow> de_match list \<Rightarrow> de_match list" where
  "wire (TWLoser r s) p ms = set_lose r s p ms"
| "wire (TLBWinner r s) p ms = set_win r s p ms"
| "wire _ p ms = ms"

definition w1bye :: "de_match list \<Rightarrow> nat \<Rightarrow> bool" where
  "w1bye wb slot =
    (case List.find (\<lambda>m. de_tier m = WinnersTier \<and> de_round m = 1 \<and> de_slot m = slot) wb of
       None \<Rightarrow> False
     | Some m \<Rightarrow> de_resolvedWinner m \<noteq> None)"

definition wloserTok :: "de_match list \<Rightarrow> nat \<Rightarrow> nat \<Rightarrow> tok" where
  "wloserTok wb r slot = (if r = 1 \<and> w1bye wb slot then TBye else TWLoser r slot)"

definition setIn :: "nat \<Rightarrow> nat \<Rightarrow> nat \<Rightarrow> tok \<Rightarrow> incoming \<Rightarrow> incoming" where
  "setIn lr slot team t inc =
    (let v = inc (lr, slot) in
     inc((lr, slot) := (if team = 1 then (t, snd v) else (fst v, t))))"

text \<open>Come-around: the winners-bracket slot whose loser drops into losers match \<open>j\<close>.\<close>

definition drop_source :: "nat \<Rightarrow> nat \<Rightarrow> nat \<Rightarrow> nat" where
  "drop_source r cnt j = (if r mod 2 = 1 \<and> cnt > 1 then (j + cnt div 2) mod cnt else cnt - 1 - j)"

definition seed_round :: "de_match list \<Rightarrow> nat \<Rightarrow> nat \<Rightarrow> incoming \<Rightarrow> incoming" where
  "seed_round wb n lr inc =
    (let cnt = lbMatchCount n lr in
     if lr = 1 then
       fold (\<lambda>j inc. setIn 1 j 2 (wloserTok wb 1 (2 * j + 1)) (setIn 1 j 1 (wloserTok wb 1 (2 * j)) inc))
         [0..<cnt] inc
     else if lr mod 2 = 0 then
       (let r = lr div 2 + 1 in
        fold (\<lambda>j inc. setIn lr j 2 (wloserTok wb r (drop_source r cnt j)) inc) [0..<cnt] inc)
     else inc)"

definition seed_incoming :: "de_match list \<Rightarrow> nat \<Rightarrow> nat \<Rightarrow> incoming" where
  "seed_incoming wb n lbRounds = fold (seed_round wb n) [1..<Suc lbRounds] (\<lambda>_. (TUnset, TUnset))"

definition lb_step :: "nat \<Rightarrow> nat \<times> nat \<Rightarrow> incoming \<times> de_match list \<Rightarrow> incoming \<times> de_match list" where
  "lb_step lbRounds pos st =
    (let (lr, j) = pos; (inc, ms) = st; (t1, t2) = inc (lr, j);
         (out, ms1) =
           (if tok_real t1 \<and> tok_real t2
            then (TLBWinner lr j,
                  wire t2 (LosersTier, lr, j, 2)
                    (wire t1 (LosersTier, lr, j, 1) (ms @ [blank_match LosersTier lr j])))
            else if tok_real t1 then (t1, ms)
            else if tok_real t2 then (t2, ms)
            else (TBye, ms))
     in if lr = lbRounds
        then (inc, if tok_real out then wire out (GrandFinalTier, 1, 0, 2) ms1 else ms1)
        else if lr mod 2 = 1 then (setIn (lr + 1) j 1 out inc, ms1)
        else (setIn (lr + 1) (j div 2) (j mod 2 + 1) out inc, ms1))"

definition lb_positions :: "nat \<Rightarrow> nat \<Rightarrow> (nat \<times> nat) list" where
  "lb_positions n lbRounds = [(lr, j). lr \<leftarrow> [1..<Suc lbRounds], j \<leftarrow> [0..<lbMatchCount n lr]]"

definition renumberLBRounds :: "de_match list \<Rightarrow> de_match list" where
  "renumberLBRounds ms =
    (let present = map de_round (filter (\<lambda>m. de_tier m = LosersTier) ms) in
     if present = [] then ms
     else
       (let f = remap (round_order present) in
        map (\<lambda>m. m\<lparr>de_round := (if de_tier m = LosersTier then f (de_round m) else de_round m),
                    winRound := (if winTier m = LosersTier then f (winRound m) else winRound m),
                    loseRound := (if loseTier m = LosersTier then f (loseRound m) else loseRound m)\<rparr>) ms))"

definition lbRoundCount :: "de_match list \<Rightarrow> nat" where
  "lbRoundCount ms = foldl (\<lambda>mx m. if de_tier m = LosersTier \<and> de_round m > mx then de_round m else mx) 0 ms"

definition GenerateDoubleElim :: "side list \<Rightarrow> double_elim_plan option" where
  "GenerateDoubleElim seededSides =
    (case GenerateBracket seededSides of
       None \<Rightarrow> None
     | Some wb \<Rightarrow>
         (let n = bp_size wb; k = bp_rounds wb;
              lbRounds = (if k \<ge> 2 then 2 * (k - 1) else 0);
              matches = map wb_match (bp_matches wb)
          in if k = 1
             then (let matches1 = (if \<not> w1bye matches 0 then set_lose 1 0 (GrandFinalTier, 1, 0, 2) matches else matches)
                   in Some \<lparr>dp_size = n, dp_wbRounds = k, dp_lbRounds = 0,
                            dp_matches = matches1 @ [blank_match GrandFinalTier 1 0]\<rparr>)
             else (let inc = seed_incoming matches n lbRounds;
                       (_, matches1) = fold (lb_step lbRounds) (lb_positions n lbRounds) (inc, matches);
                       matches2 = renumberLBRounds (matches1 @ [blank_match GrandFinalTier 1 0])
                   in Some \<lparr>dp_size = n, dp_wbRounds = k, dp_lbRounds = lbRoundCount matches2,
                            dp_matches = matches2\<rparr>)))"

end
