(* ===== verification/Rotation.thy ===== *)
theory Rotation
  imports Pickle_Prelude
begin

text \<open>
  Up and down the river, \<open>internal/engine/rotation.go\<close>: seeding the courts, one round's movement
  with its bench, and the equal-court-time pass on top of it.
\<close>

section \<open>Data\<close>

text \<open>A Go \<open>[2]string\<close> is a pair; the blank id is the empty string.\<close>

record RotCourt =
  Court :: nat
  TeamA :: "pid \<times> pid"
  TeamB :: "pid \<times> pid"

datatype LoserMode = LosersDown | LosersStay

record RotResult =
  rr_Court :: nat
  rr_Winner :: string

record Seat =
  seat_ID :: pid
  seat_Court :: int

type_synonym layout = "RotCourt list \<times> pid list"

section \<open>Seeding\<close>

text \<open>Four players as 0,2 against 1,3.\<close>

definition court_of_four :: "nat \<Rightarrow> pid list \<Rightarrow> RotCourt" where
  "court_of_four k q = \<lparr>Court = k, TeamA = (q ! 0, q ! 2), TeamB = (q ! 1, q ! 3)\<rparr>"

definition court_cap :: "nat \<Rightarrow> int \<Rightarrow> nat" where
  "court_cap n maxCourts =
    (let full = n div 4 in if 0 < maxCourts \<and> maxCourts < int full then nat maxCourts else full)"

definition SeedCourts :: "pid list \<Rightarrow> int \<Rightarrow> layout" where
  "SeedCourts players maxCourts =
    (let c = court_cap (length players) maxCourts in
      (map (\<lambda>k. court_of_four (k + 1) (drop (4 * k) players)) [0..<c], drop (c * 4) players))"

fun place_seats :: "nat \<Rightarrow> Seat list \<Rightarrow> pid list list \<Rightarrow> pid list \<Rightarrow> pid list
    \<Rightarrow> pid list list \<times> pid list \<times> pid list" where
  "place_seats c [] seats pool overflow = (seats, pool, overflow)"
| "place_seats c (p # ps) seats pool overflow =
    (if 1 \<le> seat_Court p \<and> seat_Court p \<le> int c \<and> length (seats ! nat (seat_Court p)) < 4
     then place_seats c ps
       (seats[nat (seat_Court p) := seats ! nat (seat_Court p) @ [seat_ID p]]) pool overflow
     else if 1 \<le> seat_Court p then place_seats c ps seats pool (overflow @ [seat_ID p])
     else place_seats c ps seats (pool @ [seat_ID p]) overflow)"

fun fill_seat :: "pid list \<Rightarrow> pid list \<Rightarrow> pid list \<times> pid list" where
  "fill_seat q [] = (q, [])"
| "fill_seat q (p # ps) = (if length q < 4 then fill_seat (q @ [p]) ps else (q, p # ps))"

fun fill_seats :: "pid list list \<Rightarrow> pid list \<Rightarrow> pid list list \<times> pid list" where
  "fill_seats [] pool = ([], pool)"
| "fill_seats (q # qs) pool =
    (let (q', pool') = fill_seat q pool; (qs', pool'') = fill_seats qs pool' in (q' # qs', pool''))"

definition SeedPlacedCourts :: "Seat list \<Rightarrow> int \<Rightarrow> layout" where
  "SeedPlacedCourts players maxCourts =
    (let c = court_cap (length players) maxCourts in
     if c = 0 then ([], map seat_ID players)
     else
       let (seats, pool, overflow) = place_seats c players (replicate (c + 1) []) [] [];
           (filled, bench) = fill_seats (tl seats) (pool @ overflow)
       in (map (\<lambda>k. court_of_four (k + 1) (filled ! k)) [0..<c], bench))"

section \<open>Validating a layout\<close>

definition court_ids :: "RotCourt \<Rightarrow> pid list" where
  "court_ids c = [fst (TeamA c), snd (TeamA c), fst (TeamB c), snd (TeamB c)]"

text \<open>The check loops: None is the code's \<open>return false\<close>, Some the ids seen so far.\<close>

fun see_ids :: "pid list \<Rightarrow> pid set \<Rightarrow> pid set option" where
  "see_ids [] seen = Some seen"
| "see_ids (i # is) seen = (if i = [] \<or> i \<in> seen then None else see_ids is (insert i seen))"

fun see_courts :: "nat \<Rightarrow> RotCourt list \<Rightarrow> pid set \<Rightarrow> pid set option" where
  "see_courts i [] seen = Some seen"
| "see_courts i (c # cs) seen =
    (if Court c \<noteq> i + 1 then None
     else case see_ids (court_ids c) seen of
       None \<Rightarrow> None
     | Some seen' \<Rightarrow> see_courts (i + 1) cs seen')"

definition layoutAndBenchOK :: "RotCourt list \<Rightarrow> pid list \<Rightarrow> bool" where
  "layoutAndBenchOK courts bench =
    (case see_courts 0 courts {} of
       None \<Rightarrow> False
     | Some seen \<Rightarrow> see_ids bench seen \<noteq> None)"

definition LayoutOK :: "RotCourt list \<Rightarrow> bool" where
  "LayoutOK courts = layoutAndBenchOK courts []"

section \<open>One round's movement\<close>

text \<open>Go's zero value for a missing key of a map of pairs.\<close>

definition pair_at :: "(nat \<rightharpoonup> pid \<times> pid) \<Rightarrow> nat \<Rightarrow> pid \<times> pid" where
  "pair_at m k = (case m k of None \<Rightarrow> ([], []) | Some p \<Rightarrow> p)"

definition win_map :: "RotResult list \<Rightarrow> (nat \<rightharpoonup> string)" where
  "win_map results = foldl (\<lambda>m r. m(rr_Court r \<mapsto> rr_Winner r)) Map.empty results"

definition winners_map :: "(nat \<rightharpoonup> string) \<Rightarrow> RotCourt list \<Rightarrow> (nat \<rightharpoonup> pid \<times> pid)" where
  "winners_map win courts = foldl (\<lambda>m c. m(Court c \<mapsto>
    (if win (Court c) = Some ''b'' then TeamB c else TeamA c))) Map.empty courts"

definition losers_map :: "(nat \<rightharpoonup> string) \<Rightarrow> RotCourt list \<Rightarrow> (nat \<rightharpoonup> pid \<times> pid)" where
  "losers_map win courts = foldl (\<lambda>m c. m(Court c \<mapsto>
    (if win (Court c) = Some ''b'' then TeamA c else TeamB c))) Map.empty courts"

definition min2 :: "nat \<Rightarrow> nat" where
  "min2 n = (if n < 2 then n else 2)"

text \<open>The bye swap: the pair that stays on the bottom court and the next bench.\<close>

definition bye_swap :: "pid \<times> pid \<Rightarrow> pid list \<Rightarrow> (pid \<times> pid) \<times> pid list" where
  "bye_swap out bench =
    (let k = min2 (length bench) in
     if 0 < k then
       ((bench ! 0, if k = 2 then bench ! 1 else snd out),
        drop k bench @ take k [fst out, snd out])
     else (out, bench))"

definition from_above :: "LoserMode \<Rightarrow> nat \<Rightarrow> (nat \<Rightarrow> pid \<times> pid) \<Rightarrow> (nat \<Rightarrow> pid \<times> pid) \<Rightarrow> nat \<Rightarrow> pid \<times> pid"
  where
  "from_above mode n W L k =
    (if mode = LosersStay \<and> 1 < n then
       if k = 1 then W 1 else if k = n then L 1 else L k
     else if k = 1 then W 1 else L (k - 1))"

definition from_below :: "nat \<Rightarrow> (nat \<Rightarrow> pid \<times> pid) \<Rightarrow> pid \<times> pid \<Rightarrow> nat \<Rightarrow> pid \<times> pid" where
  "from_below n W stay k = (if k = n then stay else W (k + 1))"

definition re_pair :: "nat \<Rightarrow> pid \<times> pid \<Rightarrow> pid \<times> pid \<Rightarrow> RotCourt" where
  "re_pair k lo up =
    \<lparr>Court = k, TeamA = (fst lo, fst up), TeamB = (snd lo, snd up)\<rparr>"

definition NextRound :: "RotCourt list \<Rightarrow> RotResult list \<Rightarrow> pid list \<Rightarrow> LoserMode \<Rightarrow> layout" where
  "NextRound courts results bench mode =
    (let n = length courts in
     if \<not> layoutAndBenchOK courts bench then (courts, bench)
     else if n = 0 then ([], bench)
     else
       let win = win_map results;
           W = pair_at (winners_map win courts);
           L = pair_at (losers_map win courts);
           (stay, nextBench) = bye_swap (L n) bench
       in (map (\<lambda>i. re_pair (i + 1) (from_below n W stay (i + 1)) (from_above mode n W L (i + 1)))
             [0..<n],
           nextBench))"

section \<open>The equal-court-time pass\<close>

record seatRef =
  sr_court :: nat
  sr_idx :: nat
  sr_id :: pid

definition plays_of :: "(pid \<rightharpoonup> int) \<Rightarrow> pid \<Rightarrow> int" where
  "plays_of played i = (case played i of None \<Rightarrow> 0 | Some g \<Rightarrow> g)"

definition all_seats :: "RotCourt list \<Rightarrow> seatRef list" where
  "all_seats next = concat (map (\<lambda>ci. map (\<lambda>i.
     \<lparr>sr_court = ci, sr_idx = i, sr_id = court_ids (next ! ci) ! i\<rparr>) [0..<4]) [0..<length next])"

definition seat_before :: "(pid \<Rightarrow> int) \<Rightarrow> seatRef \<Rightarrow> seatRef \<Rightarrow> bool" where
  "seat_before plays a b =
    (let pa = plays (sr_id a); pb = plays (sr_id b) in
     if pa \<noteq> pb then pa > pb else sr_court a > sr_court b)"

definition setSeat :: "RotCourt list \<Rightarrow> seatRef \<Rightarrow> pid \<Rightarrow> RotCourt list" where
  "setSeat next s i =
    (let c = next ! sr_court s in
     next[sr_court s :=
       (if sr_idx s = 0 then c\<lparr>TeamA := (i, snd (TeamA c))\<rparr>
        else if sr_idx s = 1 then c\<lparr>TeamA := (fst (TeamA c), i)\<rparr>
        else if sr_idx s = 2 then c\<lparr>TeamB := (i, snd (TeamB c))\<rparr>
        else if sr_idx s = 3 then c\<lparr>TeamB := (fst (TeamB c), i)\<rparr>
        else c)])"

fun swap_loop :: "(pid \<Rightarrow> int) \<Rightarrow> (seatRef \<times> pid) list \<Rightarrow> RotCourt list
    \<Rightarrow> RotCourt list \<times> pid list \<times> pid list" where
  "swap_loop plays [] next = (next, [], [])"
| "swap_loop plays ((seat, waiting) # rest) next =
    (if plays waiting \<ge> plays (sr_id seat) then (next, [], [])
     else
       let (next', tookOff, cameOn) = swap_loop plays rest (setSeat next seat waiting)
       in (next', sr_id seat # tookOff, waiting # cameOn))"

definition bench_clear :: "RotCourt list \<Rightarrow> pid list \<Rightarrow> bool" where
  "bench_clear next nextBench =
    (see_ids nextBench (set (concat (map court_ids next))) \<noteq> None)"

definition NextRoundFair :: "RotCourt list \<Rightarrow> RotResult list \<Rightarrow> pid list \<Rightarrow> LoserMode
    \<Rightarrow> (pid \<rightharpoonup> int) \<Rightarrow> layout" where
  "NextRoundFair courts results bench mode played =
    (let (next, nextBench) = NextRound courts results bench mode in
     if nextBench = [] \<or> next = [] then (next, nextBench)
     else if \<not> LayoutOK courts \<or> \<not> LayoutOK next then (next, nextBench)
     else if \<not> bench_clear next nextBench then (next, nextBench)
     else
       let plays = plays_of played;
           seats = sort_by (seat_before plays) (all_seats next);
           benchOrder = sort_by (\<lambda>a b. plays (nextBench ! a) < plays (nextBench ! b))
             [0..<length nextBench];
           pairs = take (min2 (length nextBench)) (zip seats (map ((!) nextBench) benchOrder));
           (next', tookOff, cameOn) = swap_loop plays pairs next
       in if tookOff = [] then (next, nextBench)
          else (next', filter (\<lambda>i. i \<notin> set cameOn) nextBench @ tookOff))"

section \<open>Validation: what the check loops decide\<close>

definition seated :: "RotCourt list \<Rightarrow> pid list" where
  "seated courts = concat (map court_ids courts)"

definition pair_mset :: "pid \<times> pid \<Rightarrow> pid multiset" where
  "pair_mset p = {#fst p, snd p#}"

definition people :: "layout \<Rightarrow> pid multiset" where
  "people s = mset (seated (fst s)) + mset (snd s)"

lemma see_ids_eq:
  "see_ids is seen = (if [] \<notin> set is \<and> distinct is \<and> set is \<inter> seen = {}
    then Some (seen \<union> set is) else None)"
  by (induction "is" seen rule: see_ids.induct) auto

definition contiguous :: "nat \<Rightarrow> RotCourt list \<Rightarrow> bool" where
  "contiguous i cs = (\<forall>j<length cs. Court (cs ! j) = i + j + 1)"

lemma contiguous_Nil [simp]: "contiguous i []"
  by (simp add: contiguous_def)

lemma contiguous_Cons [simp]: "contiguous i (c # cs) \<longleftrightarrow> Court c = i + 1 \<and> contiguous (i + 1) cs"
  unfolding contiguous_def length_Cons All_less_Suc2 by simp

lemma see_courts_eq:
  "see_courts i cs seen = (if contiguous i cs \<and> [] \<notin> set (seated cs)
      \<and> distinct (seated cs) \<and> set (seated cs) \<inter> seen = {}
    then Some (seen \<union> set (seated cs)) else None)"
proof (induction i cs seen rule: see_courts.induct)
  case (1 i seen)
  then show ?case by (simp add: seated_def)
next
  case (2 i c cs seen)
  have sc: "seated (c # cs) = court_ids c @ seated cs" by (simp add: seated_def)
  show ?case
  proof (cases "Court c = i + 1 \<and> [] \<notin> set (court_ids c) \<and> distinct (court_ids c)
      \<and> set (court_ids c) \<inter> seen = {}")
    case True
    then have s: "see_ids (court_ids c) seen = Some (seen \<union> set (court_ids c))"
      by (simp add: see_ids_eq)
    have IH: "see_courts (i + 1) cs (seen \<union> set (court_ids c)) =
      (if contiguous (i + 1) cs \<and> [] \<notin> set (seated cs)
        \<and> distinct (seated cs) \<and> set (seated cs) \<inter> (seen \<union> set (court_ids c)) = {}
       then Some (seen \<union> set (court_ids c) \<union> set (seated cs)) else None)"
      using "2.IH" True s by simp
    show ?thesis
      unfolding sc see_courts.simps s option.case IH contiguous_Cons using True
      by (auto simp: Un_assoc)
  next
    case False
    then show ?thesis
      unfolding sc contiguous_Cons by (auto simp: see_ids_eq split: option.splits)
  qed
qed

lemma layoutAndBenchOK_iff:
  "layoutAndBenchOK courts bench \<longleftrightarrow> contiguous 0 courts
    \<and> [] \<notin> set (seated courts) \<union> set bench \<and> distinct (seated courts @ bench)"
  unfolding layoutAndBenchOK_def see_courts_eq [of 0] see_ids_eq by auto

lemma people_mset: "people s = mset (seated (fst s) @ snd s)"
  by (simp add: people_def)

lemma layout_ok_transfer:
  assumes "layoutAndBenchOK courts bench" and "contiguous 0 (fst s)"
    and "people s = people (courts, bench)"
  shows "layoutAndBenchOK (fst s) (snd s)"
proof -
  have "mset (seated (fst s) @ snd s) = mset (seated courts @ bench)"
    using assms(3) by (simp add: people_mset)
  then have "set (seated (fst s) @ snd s) = set (seated courts @ bench)"
    and "distinct (seated (fst s) @ snd s) = distinct (seated courts @ bench)"
    by (metis mset_eq_setD) (metis mset_eq_imp_distinct_iff
        \<open>mset (seated (fst s) @ snd s) = mset (seated courts @ bench)\<close>)
  with assms(1,2) show ?thesis by (simp add: layoutAndBenchOK_iff)
qed

lemma seated_court_of_four:
  "length q = 4 \<Longrightarrow> mset (court_ids (court_of_four k q)) = mset q"
  by (auto simp: court_ids_def court_of_four_def numeral_eq_Suc length_Suc_conv)

lemma mset_seated: "mset (seated courts) = (\<Sum>i<length courts. mset (court_ids (courts ! i)))"
  by (simp add: seated_def mset_concat sum_list_sum_nth lessThan_atLeast0)

section \<open>Movement: the counting argument\<close>

lemma foldl_upd_lookup:
  assumes "distinct (map k cs)"
  shows "foldl (\<lambda>m c. m(k c \<mapsto> v c)) m0 cs =
    (\<lambda>x. case map_of (map (\<lambda>c. (k c, v c)) cs) x of None \<Rightarrow> m0 x | Some y \<Rightarrow> Some y)"
  using assms
proof (induction cs arbitrary: m0)
  case Nil
  then show ?case by simp
next
  case (Cons c cs)
  then show ?case by (auto simp: fun_eq_iff image_iff map_of_eq_None_iff split: option.splits dest: map_of_SomeD)
qed

lemma foldl_upd_nth:
  assumes k: "\<And>j. j < length cs \<Longrightarrow> k (cs ! j) = Suc j" and i: "i < length cs"
  shows "foldl (\<lambda>m c. m(k c \<mapsto> v c)) Map.empty cs (Suc i) = Some (v (cs ! i))"
proof -
  have d: "distinct (map k cs)" by (simp add: distinct_conv_nth k)
  have "(k (cs ! i), v (cs ! i)) \<in> set (map (\<lambda>c. (k c, v c)) cs)" using i by simp
  then have "map_of (map (\<lambda>c. (k c, v c)) cs) (k (cs ! i)) = Some (v (cs ! i))"
    using d by (intro map_of_is_SomeI) (simp_all add: comp_def)
  then show ?thesis by (simp add: foldl_upd_lookup [OF d] k [OF i])
qed

lemma bye_swap_people:
  "bye_swap out bench = (stay, nb) \<Longrightarrow> pair_mset stay + mset nb = pair_mset out + mset bench"
proof (cases bench)
  case Nil
  then show "bye_swap out bench = (stay, nb) \<Longrightarrow> ?thesis" by (auto simp: bye_swap_def min2_def)
next
  case (Cons b bs)
  then show "bye_swap out bench = (stay, nb) \<Longrightarrow> ?thesis"
    by (cases bs) (auto simp: bye_swap_def min2_def pair_mset_def numeral_2_eq_2)
qed

lemma sum_below:
  "(\<Sum>i<Suc m. pair_mset (from_below (Suc m) W stay (i + 1))) =
    (\<Sum>i<m. pair_mset (W (i + 2))) + pair_mset stay"
  by (simp add: from_below_def)

lemma sum_above:
  "(\<Sum>i<Suc m. pair_mset (from_above mode (Suc m) W L (i + 1))) =
    pair_mset (W 1) + (\<Sum>i<m. pair_mset (L (i + 1)))"
proof (cases "mode = LosersStay \<and> 0 < m")
  case True
  then obtain p where m: "m = Suc p" by (cases m) auto
  have *: "(\<Sum>i<p. pair_mset (from_above mode (Suc m) W L (i + 2))) =
      (\<Sum>i<p. pair_mset (L (i + 2)))"
    using True m by (intro sum.cong) (auto simp: from_above_def)
  have e0: "pair_mset (from_above mode (Suc m) W L (0 + 1)) = pair_mset (W 1)"
    using True by (simp add: from_above_def)
  have en: "pair_mset (from_above mode (Suc m) W L (m + 1)) = pair_mset (L 1)"
    using True m by (simp add: from_above_def)
  have "(\<Sum>i<Suc m. pair_mset (from_above mode (Suc m) W L (i + 1))) =
      pair_mset (from_above mode (Suc m) W L (0 + 1)) +
      ((\<Sum>i<p. pair_mset (from_above mode (Suc m) W L (i + 2))) +
       pair_mset (from_above mode (Suc m) W L (m + 1)))"
    unfolding m sum.lessThan_Suc_shift [where n = "Suc p"] by (simp add: m)
  also have "\<dots> = pair_mset (W 1) + ((\<Sum>i<p. pair_mset (L (i + 2))) + pair_mset (L 1))"
    by (simp only: * e0 en)
  also have "(\<Sum>i<p. pair_mset (L (i + 2))) + pair_mset (L 1) = (\<Sum>i<m. pair_mset (L (i + 1)))"
    unfolding m sum.lessThan_Suc_shift by (simp add: add.commute)
  finally show ?thesis .
next
  case False
  then have "\<forall>i. from_above mode (Suc m) W L (i + 1) = (if i = 0 then W 1 else L i)"
    by (auto simp: from_above_def)
  then show ?thesis unfolding sum.lessThan_Suc_shift by simp
qed

definition round_winner :: "RotResult list \<Rightarrow> RotCourt \<Rightarrow> pid \<times> pid" where
  "round_winner results c =
    (if win_map results (Court c) = Some ''b'' then TeamB c else TeamA c)"

definition round_loser :: "RotResult list \<Rightarrow> RotCourt \<Rightarrow> pid \<times> pid" where
  "round_loser results c =
    (if win_map results (Court c) = Some ''b'' then TeamA c else TeamB c)"

text \<open>What NextRound computes on a layout it accepts.\<close>

lemma NextRound_unfold:
  assumes "layoutAndBenchOK courts bench" and "courts \<noteq> []"
  obtains W stay L nb where
    "NextRound courts results bench mode =
      (map (\<lambda>i. re_pair (i + 1) (from_below (length courts) W stay (i + 1))
         (from_above mode (length courts) W L (i + 1))) [0..<length courts], nb)"
    and "bye_swap (L (length courts)) bench = (stay, nb)"
    and "\<forall>i<length courts. W (Suc i) = round_winner results (courts ! i)"
    and "\<forall>i<length courts. L (Suc i) = round_loser results (courts ! i)"
proof -
  define W where "W = pair_at (winners_map (win_map results) courts)"
  define L where "L = pair_at (losers_map (win_map results) courts)"
  obtain stay nb where bs: "bye_swap (L (length courts)) bench = (stay, nb)" by fastforce
  have num: "Court (courts ! j) = Suc j" if "j < length courts" for j
    using assms(1) that by (simp add: layoutAndBenchOK_iff contiguous_def)
  show ?thesis
  proof (rule that)
    show "NextRound courts results bench mode =
      (map (\<lambda>i. re_pair (i + 1) (from_below (length courts) W stay (i + 1))
         (from_above mode (length courts) W L (i + 1))) [0..<length courts], nb)"
      using assms bs by (simp add: NextRound_def Let_def W_def L_def)
    show "bye_swap (L (length courts)) bench = (stay, nb)" by (rule bs)
    have "winners_map (win_map results) courts (Suc i) = Some (round_winner results (courts ! i))"
      if i: "i < length courts" for i
      unfolding winners_map_def round_winner_def by (rule foldl_upd_nth) (simp_all add: num i)
    then show "\<forall>i<length courts. W (Suc i) = round_winner results (courts ! i)"
      by (simp add: W_def pair_at_def)
    have "losers_map (win_map results) courts (Suc i) = Some (round_loser results (courts ! i))"
      if i: "i < length courts" for i
      unfolding losers_map_def round_loser_def by (rule foldl_upd_nth) (simp_all add: num i)
    then show "\<forall>i<length courts. L (Suc i) = round_loser results (courts ! i)"
      by (simp add: L_def pair_at_def)
  qed
qed

lemma winner_loser_ids:
  "pair_mset (round_winner results c) + pair_mset (round_loser results c) = mset (court_ids c)"
  by (simp add: round_winner_def round_loser_def pair_mset_def court_ids_def)

lemma court_ids_re_pair: "mset (court_ids (re_pair k lo up)) = pair_mset lo + pair_mset up"
  by (simp add: court_ids_def re_pair_def pair_mset_def)

lemma NextRound_people: "people (NextRound courts results bench mode) = people (courts, bench)"
proof (cases "layoutAndBenchOK courts bench \<and> courts \<noteq> []")
  case False
  then show ?thesis by (auto simp: NextRound_def)
next
  case True
  then have ok: "layoutAndBenchOK courts bench" and ne: "courts \<noteq> []" by simp_all
  obtain m where n: "length courts = Suc m" using ne by (cases courts) auto
  obtain W stay L nb where
    NR: "NextRound courts results bench mode =
      (map (\<lambda>i. re_pair (i + 1) (from_below (length courts) W stay (i + 1))
         (from_above mode (length courts) W L (i + 1))) [0..<length courts], nb)"
    and bs: "bye_swap (L (length courts)) bench = (stay, nb)"
    and W: "\<forall>i<length courts. W (Suc i) = round_winner results (courts ! i)"
    and L: "\<forall>i<length courts. L (Suc i) = round_loser results (courts ! i)"
    by (rule NextRound_unfold [OF ok ne, of results mode])
  have "mset (seated (fst (NextRound courts results bench mode))) =
      (\<Sum>i<Suc m. pair_mset (from_below (Suc m) W stay (i + 1))
        + pair_mset (from_above mode (Suc m) W L (i + 1)))"
    unfolding NR fst_conv mset_seated length_map length_upt n
    by (rule sum.cong) (simp_all add: court_ids_re_pair del: upt_Suc)
  also have "\<dots> = ((\<Sum>i<m. pair_mset (W (i + 2))) + pair_mset stay) +
      (pair_mset (W 1) + (\<Sum>i<m. pair_mset (L (i + 1))))"
    by (simp only: sum.distrib sum_below sum_above)
  finally have s: "mset (seated (fst (NextRound courts results bench mode))) =
    ((\<Sum>i<m. pair_mset (W (i + 2))) + pair_mset stay) +
      (pair_mset (W 1) + (\<Sum>i<m. pair_mset (L (i + 1))))" .
  have WS: "(\<Sum>i<Suc m. pair_mset (W (Suc i))) = pair_mset (W 1) + (\<Sum>i<m. pair_mset (W (i + 2)))"
    unfolding sum.lessThan_Suc_shift by simp
  have LS: "(\<Sum>i<Suc m. pair_mset (L (Suc i))) =
      (\<Sum>i<m. pair_mset (L (i + 1))) + pair_mset (L (Suc m))"
    by simp
  have "mset (seated courts) = (\<Sum>i<Suc m. pair_mset (W (Suc i)) + pair_mset (L (Suc i)))"
    unfolding mset_seated n
    by (rule sum.cong) (simp_all add: W L n winner_loser_ids)
  then have c: "mset (seated courts) = (pair_mset (W 1) + (\<Sum>i<m. pair_mset (W (i + 2))))
      + ((\<Sum>i<m. pair_mset (L (i + 1))) + pair_mset (L (Suc m)))"
    by (simp only: sum.distrib WS LS)
  have "pair_mset stay + mset nb = pair_mset (L (Suc m)) + mset bench"
    using bye_swap_people [OF bs] by (simp add: n)
  then show ?thesis
    unfolding people_def fst_conv snd_conv s c using NR by (simp add: ac_simps)
qed

lemma NextRound_contiguous:
  "contiguous 0 courts \<Longrightarrow> contiguous 0 (fst (NextRound courts results bench mode))"
  by (auto simp: NextRound_def Let_def contiguous_def re_pair_def split: prod.splits)

lemma length_NextRound [len_simps, simp]:
  "length (fst (NextRound courts results bench mode)) = length courts"
  by (auto simp: NextRound_def Let_def split: prod.splits)

section \<open>Seeding: nobody is lost, placements are kept\<close>

lemma court_cap_le: "4 * court_cap n k \<le> n"
proof -
  have "4 * nat k \<le> n" if "k < int (n div 4)" using that by (cases "k \<le> 0") auto
  then show ?thesis by (auto simp: court_cap_def Let_def)
qed

lemma mset_concat_update:
  "i < length xss \<Longrightarrow> mset (concat (xss[i := xss ! i @ ys])) = mset (concat xss) + mset ys"
  by (induction xss arbitrary: i) (auto simp: less_Suc_eq_0_disj)

lemma place_seats_people:
  assumes "place_seats c ps seats pool ov = (seats', pool', ov')" and "length seats = c + 1"
  shows "mset (concat seats') + mset pool' + mset ov' =
    mset (concat seats) + mset pool + mset ov + mset (map seat_ID ps)"
  using assms
  by (induction c ps seats pool ov arbitrary: seats' pool' ov' rule: place_seats.induct)
    (auto split: if_splits simp: mset_concat_update nat_less_iff)

lemma place_seats_seats:
  assumes "place_seats c ps seats pool ov = (seats', pool', ov')" and "length seats = c + 1"
  shows "length seats' = c + 1 \<and> seats' ! 0 = seats ! 0
    \<and> (\<forall>k. 1 \<le> k \<and> k \<le> c \<longrightarrow> seats' ! k =
        seats ! k @ take (4 - length (seats ! k)) (map seat_ID (filter (\<lambda>p. seat_Court p = int k) ps)))"
  using assms
proof (induction c ps seats pool ov arbitrary: seats' pool' ov' rule: place_seats.induct)
  case (1 c seats pool overflow)
  then show ?case by simp
next
  case (2 c p ps seats pool overflow)
  show ?case
  proof (cases "1 \<le> seat_Court p \<and> seat_Court p \<le> int c \<and> length (seats ! nat (seat_Court p)) < 4")
    case True
    define j where "j = nat (seat_Court p)"
    have j: "seat_Court p = int j" "1 \<le> j" "j \<le> c" using True by (auto simp: j_def)
    let ?s = "seats[j := seats ! j @ [seat_ID p]]"
    have IH: "length seats' = c + 1 \<and> seats' ! 0 = ?s ! 0
      \<and> (\<forall>k. 1 \<le> k \<and> k \<le> c \<longrightarrow> seats' ! k = ?s ! k @ take (4 - length (?s ! k))
          (map seat_ID (filter (\<lambda>p. seat_Court p = int k) ps)))"
      using "2.IH"(1) [OF True] "2.prems" True by (simp add: j_def)
    obtain r where r: "4 - length (seats ! j) = Suc r" "3 - length (seats ! j) = r"
      using True j_def by (cases "4 - length (seats ! j)") auto
    show ?thesis
    proof (intro conjI allI impI)
      show "length seats' = c + 1" using IH by blast
      show "seats' ! 0 = seats ! 0" using IH j by simp
      fix k assume k: "1 \<le> k \<and> k \<le> c"
      with IH have "seats' ! k = ?s ! k @ take (4 - length (?s ! k))
          (map seat_ID (filter (\<lambda>p. seat_Court p = int k) ps))" by blast
      moreover have "?s ! k = (if k = j then seats ! j @ [seat_ID p] else seats ! k)"
        using k j "2.prems"(2) by simp
      ultimately show "seats' ! k = seats ! k @ take (4 - length (seats ! k))
          (map seat_ID (filter (\<lambda>p. seat_Court p = int k) (p # ps)))"
        using j r by (cases "k = j") simp_all
    qed
  next
    case False
    have full: "take (4 - length (seats ! k)) (map seat_ID (filter (\<lambda>p. seat_Court p = int k) (p # ps)))
        = take (4 - length (seats ! k)) (map seat_ID (filter (\<lambda>p. seat_Court p = int k) ps))"
      if "1 \<le> k" "k \<le> c" for k
      using False that by auto
    have IH: "length seats' = c + 1 \<and> seats' ! 0 = seats ! 0
      \<and> (\<forall>k. 1 \<le> k \<and> k \<le> c \<longrightarrow> seats' ! k = seats ! k @ take (4 - length (seats ! k))
          (map seat_ID (filter (\<lambda>p. seat_Court p = int k) ps)))"
    proof (cases "1 \<le> seat_Court p")
      case True
      have "place_seats c ps seats pool (overflow @ [seat_ID p]) = (seats', pool', ov')"
        using "2.prems"(1) unfolding place_seats.simps if_not_P [OF False] if_P [OF True] .
      from "2.IH"(2) [OF False True this "2.prems"(2)] show ?thesis .
    next
      case unplaced: False
      have "place_seats c ps seats (pool @ [seat_ID p]) overflow = (seats', pool', ov')"
        using "2.prems"(1) unfolding place_seats.simps if_not_P [OF False] if_not_P [OF unplaced] .
      from "2.IH"(3) [OF False unplaced this "2.prems"(2)] show ?thesis .
    qed
    then show ?thesis using full by (simp del: filter.simps)
  qed
qed

lemma fill_seat_spec:
  assumes "fill_seat q pool = (q', pool')" and "length q \<le> 4"
  shows "q' = q @ take (4 - length q) pool \<and> pool' = drop (4 - length q) pool"
  using assms
proof (induction q pool arbitrary: q' pool' rule: fill_seat.induct)
  case (1 q)
  then show ?case by simp
next
  case (2 q p ps)
  show ?case
  proof (cases "length q < 4")
    case True
    then have "4 - length q = Suc (3 - length q)" by simp
    with True 2 show ?thesis by auto
  qed (use 2 in auto)
qed

lemma fill_seats_spec:
  assumes "fill_seats qs pool = (qs', pool')" and "\<forall>q\<in>set qs. length q \<le> 4"
    and "(\<Sum>q\<leftarrow>qs. 4 - length q) \<le> length pool"
  shows "length qs' = length qs \<and> mset (concat qs') + mset pool' = mset (concat qs) + mset pool
    \<and> (\<forall>i<length qs. length (qs' ! i) = 4 \<and> set (qs ! i) \<subseteq> set (qs' ! i))"
  using assms
proof (induction qs pool arbitrary: qs' pool' rule: fill_seats.induct)
  case (1 pool)
  then show ?case by simp
next
  case (2 q qs pool)
  obtain q1 p1 where f: "fill_seat q pool = (q1, p1)" by fastforce
  obtain qs1 p2 where fs: "fill_seats qs p1 = (qs1, p2)" by fastforce
  have q1: "q1 = q @ take (4 - length q) pool" "p1 = drop (4 - length q) pool"
    using fill_seat_spec [OF f] "2.prems"(2) by auto
  have IH: "length qs1 = length qs \<and> mset (concat qs1) + mset p2 = mset (concat qs) + mset p1
    \<and> (\<forall>i<length qs. length (qs1 ! i) = 4 \<and> set (qs ! i) \<subseteq> set (qs1 ! i))"
    using "2.IH" [OF f [symmetric] refl, of qs1 p2] fs "2.prems" q1 by auto
  have res: "qs' = q1 # qs1" "pool' = p2" using "2.prems"(1) f fs by auto
  have len: "length q1 = 4" using q1 "2.prems"(2,3) by auto
  have "mset q1 + mset p1 = mset q + mset pool"
    unfolding q1 by (simp flip: mset_append)
  then have "mset (concat qs') + mset pool' = mset (concat (q # qs)) + mset pool"
    using IH res by (simp add: add.assoc [symmetric]) (metis add.assoc add.commute)
  moreover have "\<forall>i<length (q # qs). length (qs' ! i) = 4 \<and> set ((q # qs) ! i) \<subseteq> set (qs' ! i)"
    unfolding length_Cons All_less_Suc2 using IH res len q1 by auto
  ultimately show ?case using IH res by simp
qed

lemma seated_courts_of_four:
  assumes "length qs = c" and "\<forall>i<c. length (qs ! i) = 4"
  shows "mset (seated (map (\<lambda>k. court_of_four (k + 1) (qs ! k)) [0..<c])) = mset (concat qs)"
proof -
  have "mset (seated (map (\<lambda>k. court_of_four (k + 1) (qs ! k)) [0..<c])) = (\<Sum>i<c. mset (qs ! i))"
    unfolding mset_seated length_map length_upt
    by (rule sum.cong) (simp_all add: seated_court_of_four assms(2))
  also have "\<dots> = mset (concat qs)"
    by (simp add: mset_concat sum_list_sum_nth assms(1) lessThan_atLeast0)
  finally show ?thesis .
qed

lemma sum_needs:
  "\<forall>q\<in>set qs. length q \<le> 4 \<Longrightarrow>
    (\<Sum>q\<leftarrow>qs. 4 - length q) + length (concat qs) = 4 * length qs"
  by (induction qs) auto

definition placed_by :: "Seat list \<Rightarrow> nat \<Rightarrow> pid list list \<Rightarrow> pid list \<Rightarrow> bool" where
  "placed_by players c filled bench \<longleftrightarrow> length filled = c \<and> (\<forall>i<c. length (filled ! i) = 4)
    \<and> mset (concat filled) + mset bench = mset (map seat_ID players)
    \<and> (\<forall>i<c. set (take 4 (map seat_ID (filter (\<lambda>p. seat_Court p = int (i + 1)) players)))
        \<subseteq> set (filled ! i))"

lemma SeedPlaced_unfold:
  assumes c0: "0 < court_cap (length players) maxCourts"
  obtains filled bench where "SeedPlacedCourts players maxCourts = (map (\<lambda>k.
      court_of_four (k + 1) (filled ! k)) [0..<court_cap (length players) maxCourts], bench)"
    and "placed_by players (court_cap (length players) maxCourts) filled bench"
proof -
  define c where "c = court_cap (length players) maxCourts"
  obtain seats pool ov where p: "place_seats c players (replicate (c + 1) []) [] [] = (seats, pool, ov)"
    by (metis prod_cases3)
  obtain filled bench where f: "fill_seats (tl seats) (pool @ ov) = (filled, bench)" by fastforce
  have eq: "SeedPlacedCourts players maxCourts =
      (map (\<lambda>k. court_of_four (k + 1) (filled ! k)) [0..<c], bench)"
    using p f c0 by (simp add: SeedPlacedCourts_def c_def [symmetric] Let_def)
  have len: "length seats = c + 1" and s0: "seats ! 0 = []"
    and sk: "1 \<le> k \<Longrightarrow> k \<le> c \<Longrightarrow> seats ! k =
      take 4 (map seat_ID (filter (\<lambda>p. seat_Court p = int k) players))" for k
    using place_seats_seats [OF p] by (auto simp: nth_append)
  have ti: "tl seats ! i = take 4 (map seat_ID (filter (\<lambda>p. seat_Court p = int (i + 1)) players))"
    if "i < c" for i
    using that len sk [of "i + 1"] by (simp add: nth_tl)
  have lt: "length (tl seats) = c" using len by simp
  have le4: "\<forall>q\<in>set (tl seats). length q \<le> 4"
    unfolding all_set_conv_all_nth lt by (simp add: ti)
  have cs: "concat seats = concat (tl seats)"
    using len s0 by (cases seats) auto
  have people: "mset (concat (tl seats)) + mset (pool @ ov) = mset (map seat_ID players)"
    using place_seats_people [OF p] cs by (simp add: add.assoc)
  have "size (mset (concat (tl seats)) + mset (pool @ ov)) = length players"
    unfolding people by simp
  then have "length (concat (tl seats)) + length (pool @ ov) = length players" by simp
  moreover have "(\<Sum>q\<leftarrow>tl seats. 4 - length q) + length (concat (tl seats)) = 4 * length (tl seats)"
    using le4 by (rule sum_needs)
  ultimately have need: "(\<Sum>q\<leftarrow>tl seats. 4 - length q) \<le> length (pool @ ov)"
    using court_cap_le [of "length players" maxCourts] lt by (simp add: c_def)
  have F: "length filled = c" "mset (concat filled) + mset bench = mset (map seat_ID players)"
    "\<forall>i<c. length (filled ! i) = 4 \<and> set (tl seats ! i) \<subseteq> set (filled ! i)"
    using fill_seats_spec [OF f le4 need] people lt by simp_all
  have "placed_by players c filled bench"
    using F ti by (simp add: placed_by_def)
  with eq show ?thesis by (intro that) (simp_all add: c_def)
qed

text \<open>
  Seeding loses nobody and invents nobody: the players on the opening courts and on the opening
  bench are, with multiplicity, the players given, both for the rating seed and for the placed one;
  the courts are numbered 1, 2, ... and there are min(maxCourts, n div 4) of them (no cap when
  maxCourts is not positive).
\<close>
theorem seeding_conserves_players:
  "people (SeedCourts players maxCourts) = mset players
    \<and> people (SeedPlacedCourts seats maxCourts) = mset (map seat_ID seats)
    \<and> contiguous 0 (fst (SeedCourts players maxCourts))
    \<and> contiguous 0 (fst (SeedPlacedCourts seats maxCourts))
    \<and> length (fst (SeedCourts players maxCourts)) = court_cap (length players) maxCourts
    \<and> length (fst (SeedPlacedCourts seats maxCourts)) = court_cap (length seats) maxCourts"
proof -
  define c where "c = court_cap (length players) maxCourts"
  have c: "4 * c \<le> length players" by (simp add: c_def court_cap_le)
  have SC: "SeedCourts players maxCourts =
      (map (\<lambda>k. court_of_four (k + 1) (drop (4 * k) players)) [0..<c], drop (c * 4) players)"
    by (simp add: SeedCourts_def c_def [symmetric] Let_def)
  have co4: "court_of_four k q = court_of_four k (take 4 q)" for k q
    by (simp add: court_of_four_def)
  have len4: "length (take 4 (drop (4 * k) players)) = 4" if "k < c" for k
    using that c by simp
  have "mset (concat (map (\<lambda>k. take 4 (drop (4 * k) players)) [0..<j])) + mset (drop (4 * j) players)
      = mset players" for j
  proof (induction j)
    case (Suc j)
    have "mset (take 4 (drop (4 * j) players)) + mset (drop (4 + 4 * j) players) =
        mset (drop (4 * j) players)"
      by (simp flip: mset_append drop_drop)
    with Suc show ?case by (simp add: add.assoc)
  qed simp
  moreover have "mset (seated (map (\<lambda>k. court_of_four (k + 1) (drop (4 * k) players)) [0..<c])) =
      mset (concat (map (\<lambda>k. take 4 (drop (4 * k) players)) [0..<c]))"
  proof -
    have eq: "map (\<lambda>k. court_of_four (k + 1) (drop (4 * k) players)) [0..<c] =
      map (\<lambda>k. court_of_four (k + 1) (map (\<lambda>k. take 4 (drop (4 * k) players)) [0..<c] ! k)) [0..<c]"
      by (rule map_cong [OF refl]) (simp add: co4 [of _ "drop _ players"])
    show ?thesis
      unfolding eq using seated_courts_of_four [of "map (\<lambda>k. take 4 (drop (4 * k) players)) [0..<c]" c] len4
      by simp
  qed
  ultimately have "people (SeedCourts players maxCourts) = mset players"
    unfolding SC people_def fst_conv snd_conv
    by (metis mult.commute)
  moreover have "people (SeedPlacedCourts seats maxCourts) = mset (map seat_ID seats)
    \<and> contiguous 0 (fst (SeedPlacedCourts seats maxCourts))
    \<and> length (fst (SeedPlacedCourts seats maxCourts)) = court_cap (length seats) maxCourts"
  proof (cases "court_cap (length seats) maxCourts = 0")
    case True
    then show ?thesis by (simp add: SeedPlacedCourts_def people_def seated_def)
  next
    case False
    then have c0: "0 < court_cap (length seats) maxCourts" by simp
    obtain filled bench where sp: "SeedPlacedCourts seats maxCourts = (map (\<lambda>k.
        court_of_four (k + 1) (filled ! k)) [0..<court_cap (length seats) maxCourts], bench)"
      and pb: "placed_by seats (court_cap (length seats) maxCourts) filled bench"
      by (rule SeedPlaced_unfold [OF c0])
    have "mset (seated (fst (SeedPlacedCourts seats maxCourts))) = mset (concat filled)"
      unfolding sp fst_conv by (rule seated_courts_of_four) (use pb in \<open>simp_all add: placed_by_def\<close>)
    then show ?thesis
      using pb by (simp add: sp people_def contiguous_def placed_by_def) (simp add: court_of_four_def)
  qed
  moreover have "contiguous 0 (fst (SeedCourts players maxCourts))"
    by (simp add: SC contiguous_def court_of_four_def)
  ultimately show ?thesis using SC by (simp add: c_def)
qed

text \<open>
  A placement is a destination and not a sort key: on every court that runs, the first four
  players (in the order given, strongest first) that the organizer put there open on that very
  court; and when at most four were put there, all of them do.
\<close>
theorem placed_seeding_honours_courts:
  assumes "k < court_cap (length seats) maxCourts"
  shows "set (take 4 (map seat_ID (filter (\<lambda>p. seat_Court p = int (k + 1)) seats)))
    \<subseteq> set (court_ids (fst (SeedPlacedCourts seats maxCourts) ! k))"
proof -
  from assms have c: "0 < court_cap (length seats) maxCourts" by simp
  obtain filled bench where sp: "SeedPlacedCourts seats maxCourts = (map (\<lambda>k.
      court_of_four (k + 1) (filled ! k)) [0..<court_cap (length seats) maxCourts], bench)"
    and pb: "placed_by seats (court_cap (length seats) maxCourts) filled bench"
    by (rule SeedPlaced_unfold [OF c])
  have len: "length (filled ! k) = 4" using pb assms by (simp add: placed_by_def)
  have "set (court_ids (court_of_four (k + 1) (filled ! k))) = set (filled ! k)"
    by (metis len seated_court_of_four set_mset_mset)
  then have "set (court_ids (fst (SeedPlacedCourts seats maxCourts) ! k)) = set (filled ! k)"
    using assms by (simp add: sp)
  then show ?thesis using pb assms by (simp add: placed_by_def)
qed

lemma placed_seeding_honours_courts_witness:
  "set (take 4 [''b'', ''d'']) \<subseteq> set (court_ids (fst (SeedPlacedCourts
    [\<lparr>seat_ID = ''a'', seat_Court = 0\<rparr>, \<lparr>seat_ID = ''b'', seat_Court = 2\<rparr>,
     \<lparr>seat_ID = ''c'', seat_Court = 0\<rparr>, \<lparr>seat_ID = ''d'', seat_Court = 2\<rparr>,
     \<lparr>seat_ID = ''e'', seat_Court = 0\<rparr>, \<lparr>seat_ID = ''f'', seat_Court = 0\<rparr>,
     \<lparr>seat_ID = ''g'', seat_Court = 7\<rparr>, \<lparr>seat_ID = ''h'', seat_Court = 0\<rparr>] 0) ! 1))"
  using placed_seeding_honours_courts [of 1
    "[\<lparr>seat_ID = ''a'', seat_Court = 0\<rparr>, \<lparr>seat_ID = ''b'', seat_Court = 2\<rparr>,
     \<lparr>seat_ID = ''c'', seat_Court = 0\<rparr>, \<lparr>seat_ID = ''d'', seat_Court = 2\<rparr>,
     \<lparr>seat_ID = ''e'', seat_Court = 0\<rparr>, \<lparr>seat_ID = ''f'', seat_Court = 0\<rparr>,
     \<lparr>seat_ID = ''g'', seat_Court = 7\<rparr>, \<lparr>seat_ID = ''h'', seat_Court = 0\<rparr>]" 0]
  by (simp add: court_cap_def)

section \<open>The equal-court-time pass\<close>

interpretation seat_order: strict_weak_less "seat_before plays" for plays
  by unfold_locales (auto simp: seat_before_def Let_def split: if_splits)

interpretation bench_order: strict_weak_less "\<lambda>a b. (plays (xs ! a) :: int) < plays (xs ! b)"
  for plays and xs :: "pid list"
  by unfold_locales auto

definition seat_pos :: "seatRef \<Rightarrow> nat \<times> nat" where
  "seat_pos s = (sr_court s, sr_idx s)"

definition seat_in :: "RotCourt list \<Rightarrow> seatRef \<Rightarrow> bool" where
  "seat_in next s \<longleftrightarrow> sr_court s < length next \<and> sr_idx s < 4
    \<and> sr_id s = court_ids (next ! sr_court s) ! sr_idx s"

lemma length_court_ids [simp]: "length (court_ids c) = 4"
  by (simp add: court_ids_def)

lemma map_nth_four: "length q = 4 \<Longrightarrow> map ((!) q) [0..<4] = q"
  using map_nth [of q] by simp

lemma all_seats_ids: "map sr_id (all_seats next) = seated next"
proof -
  have "map sr_id (all_seats next) =
      concat (map (\<lambda>ci. map ((!) (court_ids (next ! ci))) [0..<4]) [0..<length next])"
    unfolding all_seats_def map_concat map_map comp_def by simp
  also have "\<dots> = concat (map (\<lambda>ci. court_ids (next ! ci)) [0..<length next])"
    by (simp only: map_nth_four length_court_ids)
  also have "map (\<lambda>ci. court_ids (next ! ci)) [0..<length next] = map court_ids next"
    by (rule nth_equalityI) simp_all
  finally show ?thesis by (simp add: seated_def)
qed

lemma all_seats_in: "s \<in> set (all_seats next) \<Longrightarrow> seat_in next s"
  by (auto simp: all_seats_def seat_in_def)

lemma all_seats_distinct: "distinct (map seat_pos (all_seats next))"
proof -
  have "map seat_pos (all_seats next) = List.product [0..<length next] [0..<4]"
    unfolding all_seats_def map_concat map_map comp_def seat_pos_def product_concat_map by simp
  then show ?thesis by (simp add: distinct_product)
qed

lemma court_ids_setSeat:
  assumes "seat_in next s"
  shows "court_ids (setSeat next s w ! k) =
    (if k = sr_court s then (court_ids (next ! k))[sr_idx s := w] else court_ids (next ! k))"
proof -
  have "sr_idx s = 0 \<or> sr_idx s = 1 \<or> sr_idx s = 2 \<or> sr_idx s = 3"
    using assms by (auto simp: seat_in_def)
  then show ?thesis
    using assms by (auto simp: setSeat_def seat_in_def court_ids_def Let_def numeral_eq_Suc nth_list_update)
qed

lemma length_setSeat [len_simps, simp]: "length (setSeat next s w) = length next"
  by (simp add: setSeat_def Let_def)

lemma contiguous_setSeat:
  assumes "contiguous 0 next" and "seat_in next s"
  shows "contiguous 0 (setSeat next s w)"
proof -
  have "Court (setSeat next s w ! j) = Court (next ! j)" for j
    using assms(2) by (auto simp: setSeat_def Let_def seat_in_def nth_list_update)
  with assms(1) show ?thesis by (simp add: contiguous_def)
qed

lemma seated_setSeat:
  assumes "seat_in next s"
  shows "mset (seated (setSeat next s w)) + {#sr_id s#} = mset (seated next) + {#w#}"
proof -
  let ?c = "sr_court s"
  have c: "?c < length next" using assms by (simp add: seat_in_def)
  have ins: "(\<Sum>k<length next. f k) = f ?c + (\<Sum>k\<in>{..<length next} - {?c}. f k)"
    for f :: "nat \<Rightarrow> pid multiset"
    using c by (intro sum.remove) simp_all
  have "mset ((court_ids (next ! ?c))[sr_idx s := w]) + {#sr_id s#} = mset (court_ids (next ! ?c)) + {#w#}"
    using assms by (simp add: seat_in_def mset_update insert_DiffM)
  moreover have "(\<Sum>k\<in>{..<length next} - {?c}. mset (court_ids (setSeat next s w ! k))) =
      (\<Sum>k\<in>{..<length next} - {?c}. mset (court_ids (next ! k)))"
    by (rule sum.cong) (auto simp: court_ids_setSeat [OF assms])
  ultimately show ?thesis
    unfolding mset_seated length_setSeat ins
    by (simp add: court_ids_setSeat [OF assms])
qed

lemma seat_in_setSeat:
  assumes "seat_in next s" and "seat_in next t" and "seat_pos t \<noteq> seat_pos s"
  shows "seat_in (setSeat next s w) t"
  using assms by (auto simp: seat_in_def court_ids_setSeat [OF assms(1)] seat_pos_def nth_list_update)

lemma swap_loop_spec:
  assumes "swap_loop plays ps next = (next', took, came)"
    and "distinct (map (seat_pos \<circ> fst) ps)" and "\<forall>p\<in>set ps. seat_in next (fst p)"
    and "contiguous 0 next"
  shows "mset (seated next') + mset took = mset (seated next) + mset came
    \<and> contiguous 0 next'
    \<and> took = map (sr_id \<circ> fst) (take (length took) ps) \<and> came = map snd (take (length took) ps)
    \<and> list_all2 (\<lambda>off on. plays on < plays off) took came"
  using assms
proof (induction plays ps "next" arbitrary: next' took came rule: swap_loop.induct)
  case (1 plays "next")
  then show ?case by simp
next
  case (2 plays seat waiting rest "next")
  show ?case
  proof (cases "plays waiting \<ge> plays (sr_id seat)")
    case True
    with "2.prems" show ?thesis by simp
  next
    case False
    obtain n1 t1 c1 where r: "swap_loop plays rest (setSeat next seat waiting) = (n1, t1, c1)"
      by (metis prod_cases3)
    have res: "next' = n1" "took = sr_id seat # t1" "came = waiting # c1"
      using "2.prems"(1) False r by auto
    have si: "seat_in next seat" using "2.prems"(3) by simp
    have sr: "\<forall>p\<in>set rest. seat_in (setSeat next seat waiting) (fst p)"
    proof
      fix p assume p: "p \<in> set rest"
      then have "seat_pos (fst p) \<noteq> seat_pos seat" using "2.prems"(2) by force
      moreover have "seat_in next (fst p)" using "2.prems"(3) p by simp
      ultimately show "seat_in (setSeat next seat waiting) (fst p)"
        using si seat_in_setSeat by blast
    qed
    have dr: "distinct (map (seat_pos \<circ> fst) rest)" using "2.prems"(2) by (simp add: comp_def)
    have IH: "mset (seated n1) + mset t1 = mset (seated (setSeat next seat waiting)) + mset c1
      \<and> contiguous 0 n1
      \<and> t1 = map (sr_id \<circ> fst) (take (length t1) rest) \<and> c1 = map snd (take (length t1) rest)
      \<and> list_all2 (\<lambda>off on. plays on < plays off) t1 c1"
      using "2.IH" [OF False r dr sr contiguous_setSeat [OF "2.prems"(4) si]] .
    have "mset (seated n1) + mset t1 + {#sr_id seat#} = mset (seated next) + {#waiting#} + mset c1"
      using IH seated_setSeat [OF si, of waiting] by (simp add: add.assoc add.commute)
    then have "mset (seated next') + mset took = mset (seated next) + mset came"
      using res by simp
    then show ?thesis using IH res False by (auto simp: comp_def)
  qed
qed

text \<open>One fair round, relative to the plain round: who went off, who came on.\<close>

definition fair_swap :: "(pid \<Rightarrow> int) \<Rightarrow> layout \<Rightarrow> layout \<Rightarrow> pid list \<Rightarrow> pid list \<Rightarrow> bool" where
  "fair_swap plays plain fair offs ons \<longleftrightarrow>
    length offs \<le> 2 \<and> list_all2 (\<lambda>off on. plays on < plays off) offs ons
    \<and> mset (seated (fst fair)) + mset offs = mset (seated (fst plain)) + mset ons
    \<and> snd fair = filter (\<lambda>i. i \<notin> set ons) (snd plain) @ offs
    \<and> set offs \<subseteq> set (seated (fst plain)) \<and> set ons \<subseteq> set (snd plain) \<and> distinct ons
    \<and> (\<forall>off\<in>set offs. \<forall>x\<in>set (seated (fst plain)) - set offs. plays x \<le> plays off)
    \<and> (\<forall>on\<in>set ons. \<forall>x\<in>set (snd plain) - set ons. plays on \<le> plays x)"

lemma fair_swap_none: "fair_swap plays plain plain [] []"
  by (simp add: fair_swap_def)

lemma sorted_take_le:
  assumes "\<And>i j. i < j \<Longrightarrow> j < length xs \<Longrightarrow> f (xs ! i) \<le> (f (xs ! j) :: int)"
    and "a \<in> set (take k xs)" and "x \<in> set xs - set (take k xs)"
  shows "f a \<le> f x"
proof -
  obtain i where i: "i < k" "i < length xs" "a = xs ! i"
    using assms(2) by (auto simp: in_set_conv_nth)
  obtain j where j: "j < length xs" "x = xs ! j"
    using assms(3) by (auto simp: in_set_conv_nth)
  have "\<not> j < k"
    using assms(3) j by (auto simp: in_set_conv_nth)
  with i j assms(1) [of i j] show ?thesis by simp
qed

lemma mset_filter_out:
  "distinct xs \<Longrightarrow> distinct ys \<Longrightarrow> set ys \<subseteq> set xs \<Longrightarrow>
    mset (filter (\<lambda>x. x \<notin> set ys) xs) + mset ys = mset xs"
proof -
  assume d: "distinct xs" "distinct ys" and s: "set ys \<subseteq> set xs"
  have e: "set (filter (\<lambda>x. x \<in> set ys) xs) = set ys" unfolding set_filter using s by blast
  have df: "distinct (filter (\<lambda>x. x \<in> set ys) xs)" using d(1) by simp
  have "mset (filter (\<lambda>x. x \<in> set ys) xs) = mset ys"
    using set_eq_iff_mset_eq_distinct [OF df d(2)] e by (simp only: simp_thms)
  moreover have "mset xs = mset (filter (\<lambda>x. x \<in> set ys) xs) + mset (filter (\<lambda>x. \<not> x \<in> set ys) xs)"
    unfolding mset_filter by (rule multiset_partition)
  ultimately show ?thesis by (metis union_commute)
qed

lemma fair_swap_exists:
  assumes "NextRoundFair courts results bench mode played = fair"
  shows "\<exists>offs ons. fair_swap (plays_of played) (NextRound courts results bench mode) fair offs ons
    \<and> (offs \<noteq> [] \<longrightarrow> distinct (snd (NextRound courts results bench mode)))
    \<and> (contiguous 0 courts \<longrightarrow> contiguous 0 (fst fair))"
proof -
  obtain "next" nb where NR: "NextRound courts results bench mode = (next, nb)" by fastforce
  have cn: "contiguous 0 courts \<longrightarrow> contiguous 0 next"
    using NextRound_contiguous [of courts results bench mode] NR by simp
  define plays where "plays = plays_of played"
  define seats where "seats = sort_by (seat_before plays) (all_seats next)"
  define order where "order = sort_by (\<lambda>a b. plays (nb ! a) < plays (nb ! b)) [0..<length nb]"
  define ws where "ws = map ((!) nb) order"
  define ps where "ps = take (min2 (length nb)) (zip seats ws)"
  obtain n1 took came where sl: "swap_loop plays ps next = (n1, took, came)" by (metis prod_cases3)
  show ?thesis
  proof (cases "(next, nb) = fair")
    case True
    have "fair_swap (plays_of played) (next, nb) fair [] []"
      unfolding True [symmetric] by (rule fair_swap_none)
    then show ?thesis unfolding NR using cn True by fastforce
  next
    case False
    let ?f = "NextRoundFair courts results bench mode played"
    have cond: "LayoutOK next \<and> bench_clear next nb \<and> fair = (n1, filter (\<lambda>i. i \<notin> set came) nb @ took)"
      using assms False sl unfolding NextRoundFair_def NR ps_def ws_def order_def seats_def plays_def
      by (auto simp: Let_def split: if_splits prod.splits)
    have cnx: "contiguous 0 next"
      using cond by (simp add: LayoutOK_def layoutAndBenchOK_iff)
    have dnb: "distinct nb"
      using cond by (auto simp: bench_clear_def see_ids_eq split: if_splits)
    have sps: "\<forall>p\<in>set ps. seat_in next (fst p)"
    proof
      fix p assume "p \<in> set ps"
      then have "fst p \<in> set seats" unfolding ps_def
        by (metis in_set_takeD prod.collapse set_zip_leftD)
      then show "seat_in next (fst p)" by (simp add: seats_def all_seats_in)
    qed
    have dps: "distinct (map (seat_pos \<circ> fst) ps)"
    proof -
      have "distinct (map seat_pos seats)"
        using all_seats_distinct [of "next"] by (simp add: seats_def distinct_map)
      then have "distinct (take (min2 (length nb)) (map seat_pos (take (min (length seats) (length ws)) seats)))"
        by (simp add: distinct_take flip: take_map)
      moreover have "map (seat_pos \<circ> fst) ps =
          take (min2 (length nb)) (map seat_pos (map fst (zip seats ws)))"
        by (simp add: ps_def take_map)
      ultimately show ?thesis by (simp only: map_fst_zip_take)
    qed
    note SL = swap_loop_spec [OF sl dps sps cnx]
    define k where "k = length took"
    have tk: "took = map (sr_id \<circ> fst) (take k ps)" and cm: "came = map snd (take k ps)"
      and l2: "list_all2 (\<lambda>off on. plays on < plays off) took came"
      unfolding k_def using SL by blast+
    have kps: "k \<le> length ps" using arg_cong [OF tk, of length] k_def by simp
    have kb: "k \<le> length seats" "k \<le> length ws" "k \<le> min2 (length nb)"
      using kps by (simp_all add: ps_def)
    have psk: "take k ps = zip (take k seats) (take k ws)"
      using kb by (simp add: ps_def take_zip min_def)
    have took: "took = map sr_id (take k seats)" and came: "came = take k ws"
      using kb by (simp_all add: tk cm psk map_map [symmetric] del: map_map)
    have seatset: "set (map sr_id seats) = set (seated next)"
      using all_seats_ids [of "next"] by (simp add: seats_def) (metis list.set_map)
    have worder: "mset ws = mset nb"
    proof -
      have "mset ws = image_mset ((!) nb) (mset [0..<length nb])"
        by (simp add: ws_def order_def)
      also have "\<dots> = mset (map ((!) nb) [0..<length nb])" by (simp only: mset_map)
      finally show ?thesis by (simp only: map_nth)
    qed
    then have wset: "set ws = set nb" by (metis mset_eq_setD)
    have dw: "distinct ws" using worder dnb by (metis mset_eq_imp_distinct_iff)
    have seatle: "plays x \<le> plays a" if "a \<in> set took" "x \<in> set (seated next) - set took" for a x
    proof -
      have "- plays a \<le> - plays x"
      proof (rule sorted_take_le [of "map sr_id seats" "\<lambda>i. - plays i" a k x])
        show "- plays (map sr_id seats ! i) \<le> - plays (map sr_id seats ! j)"
          if "i < j" "j < length (map sr_id seats)" for i j
          using seat_order.sort_by_nth [of i j "all_seats next" plays] that
          by (auto simp: seats_def seat_before_def Let_def split: if_splits)
        show "a \<in> set (take k (map sr_id seats))" using that(1) by (simp add: took take_map)
        show "x \<in> set (map sr_id seats) - set (take k (map sr_id seats))"
          using that(2) seatset by (simp add: took take_map)
      qed
      then show ?thesis by simp
    qed
    have benchle: "plays a \<le> plays x" if "a \<in> set came" "x \<in> set nb - set came" for a x
    proof (rule sorted_take_le [of ws plays a k x])
      show "plays (ws ! i) \<le> plays (ws ! j)" if "i < j" "j < length ws" for i j
        using bench_order.sort_by_nth [of i j "[0..<length nb]" plays nb] that
        by (simp add: ws_def order_def)
      show "a \<in> set (take k ws)" using that(1) by (simp add: came)
      show "x \<in> set ws - set (take k ws)" using that(2) wset by (simp add: came)
    qed
    have tsub: "set took \<subseteq> set (seated next)"
      unfolding seatset [symmetric] took by (auto dest: in_set_takeD)
    have csub: "set came \<subseteq> set nb"
      unfolding wset [symmetric] came by (auto dest: in_set_takeD)
    have "fair_swap plays (next, nb) fair took came"
      unfolding fair_swap_def fst_conv snd_conv
    proof (intro conjI)
      show "length took \<le> 2" using kb(3) by (simp add: k_def min2_def split: if_splits)
      show "list_all2 (\<lambda>off on. plays on < plays off) took came" by (rule l2)
      show "mset (seated (fst fair)) + mset took = mset (seated next) + mset came"
        using SL cond by simp
      show "snd fair = filter (\<lambda>i. i \<notin> set came) nb @ took" using cond by simp
      show "distinct came" using dw by (simp add: came)
    qed (use tsub csub seatle benchle in blast)+
    then show ?thesis
      unfolding NR plays_def using dnb SL cond by (intro exI [of _ took] exI [of _ came]) simp
  qed
qed

lemma fair_people:
  assumes "fair_swap plays (next, nb) (next', nb') offs ons" and "offs \<noteq> [] \<longrightarrow> distinct nb"
  shows "people (next', nb') = people (next, nb)"
proof (cases "offs = []")
  case True
  then have "ons = []" using assms(1) by (simp add: fair_swap_def)
  with True assms(1) show ?thesis by (simp add: fair_swap_def people_def)
next
  case False
  then have nb: "mset (filter (\<lambda>x. x \<notin> set ons) nb) + mset ons = mset nb"
    using assms by (intro mset_filter_out) (auto simp: fair_swap_def)
  have "mset (seated next') + mset offs = mset (seated next) + mset ons"
    and "nb' = filter (\<lambda>i. i \<notin> set ons) nb @ offs"
    using assms(1) by (simp_all add: fair_swap_def)
  then have "people (next', nb') + mset ons = people (next, nb) + mset ons"
    using nb by (simp add: people_def) (metis (no_types, lifting) union_assoc union_commute)
  then show ?thesis by simp
qed

lemma NextRoundFair_keeps:
  "people (NextRoundFair courts results bench mode played) = people (courts, bench)"
  "contiguous 0 courts \<Longrightarrow> contiguous 0 (fst (NextRoundFair courts results bench mode played))"
proof -
  obtain offs ons where f: "fair_swap (plays_of played) (NextRound courts results bench mode)
      (NextRoundFair courts results bench mode played) offs ons"
    "offs \<noteq> [] \<longrightarrow> distinct (snd (NextRound courts results bench mode))"
    "contiguous 0 courts \<longrightarrow> contiguous 0 (fst (NextRoundFair courts results bench mode played))"
    using fair_swap_exists [of courts results bench mode played, OF refl] by blast
  have "people (NextRoundFair courts results bench mode played) =
      people (NextRound courts results bench mode)"
    using fair_people [of "plays_of played" "fst (NextRound courts results bench mode)"
        "snd (NextRound courts results bench mode)"
        "fst (NextRoundFair courts results bench mode played)"
        "snd (NextRoundFair courts results bench mode played)" offs ons] f by simp
  then show "people (NextRoundFair courts results bench mode played) = people (courts, bench)"
    by (simp add: NextRound_people)
  show "contiguous 0 courts \<Longrightarrow>
      contiguous 0 (fst (NextRoundFair courts results bench mode played))"
    using f(3) by simp
qed

section \<open>The contract of a round: nobody lost, courts contiguous\<close>

locale layout_mover =
  fixes step :: "'e \<Rightarrow> layout \<Rightarrow> layout"
  assumes step_people: "people (step e s) = people s"
    and step_contiguous: "contiguous 0 (fst s) \<Longrightarrow> contiguous 0 (fst (step e s))"
    and step_courts: "length (fst (step e s)) = length (fst s)"
begin

lemma session_people: "people (fold step es s) = people s"
  by (induction es arbitrary: s) (simp_all add: step_people)

lemma session_courts: "length (fst (fold step es s)) = length (fst s)"
  by (induction es arbitrary: s) (simp_all add: step_courts)

lemma session_contiguous: "contiguous 0 (fst s) \<Longrightarrow> contiguous 0 (fst (fold step es s))"
  by (induction es arbitrary: s) (simp_all add: step_contiguous)

lemma session_ok:
  assumes "layoutAndBenchOK (fst s) (snd s)"
  shows "layoutAndBenchOK (fst (fold step es s)) (snd (fold step es s))
    \<and> people (fold step es s) = people s \<and> length (fst (fold step es s)) = length (fst s)"
  using layout_ok_transfer [OF assms, of "fold step es s"] assms
    session_people session_courts session_contiguous [of s es]
  by (simp add: layoutAndBenchOK_iff)

end

definition river_step :: "LoserMode \<Rightarrow> RotResult list \<Rightarrow> layout \<Rightarrow> layout" where
  "river_step mode results s = NextRound (fst s) results (snd s) mode"

definition fair_step :: "LoserMode \<Rightarrow> RotResult list \<times> (pid \<rightharpoonup> int) \<Rightarrow> layout \<Rightarrow> layout" where
  "fair_step mode e s = NextRoundFair (fst s) (fst e) (snd s) mode (snd e)"

lemma length_seated: "length (seated courts) = 4 * length courts"
  by (induction courts) (simp_all add: seated_def)

lemma length_NextRoundFair [len_simps]:
  "length (fst (NextRoundFair courts results bench mode played)) = length courts"
proof -
  obtain offs ons where f: "fair_swap (plays_of played) (NextRound courts results bench mode)
      (NextRoundFair courts results bench mode played) offs ons"
    using fair_swap_exists [of courts results bench mode played, OF refl] by blast
  have "length offs = length ons"
    using f by (auto simp: fair_swap_def dest: list_all2_lengthD)
  moreover have "size (mset (seated (fst (NextRoundFair courts results bench mode played))) + mset offs)
      = size (mset (seated (fst (NextRound courts results bench mode))) + mset ons)"
    using f by (simp only: fair_swap_def)
  ultimately show ?thesis by (simp add: length_seated)
qed

interpretation river: layout_mover "river_step mode" for mode
  by unfold_locales (simp_all add: river_step_def NextRound_people NextRound_contiguous)

interpretation fair_river: layout_mover "fair_step mode" for mode
  by unfold_locales (simp_all add: fair_step_def NextRoundFair_keeps length_NextRoundFair)

text \<open>
  C18: A whole night loses nobody. From a layout the engine accepts, any number of rounds, in either
  loser mode, with any results (duplicated, missing or nonsensical ones included), with the plain
  movement or with the equal-court-time pass and any games-played counts, leaves a layout the engine
  accepts again, with the same number of courts and exactly the same people on court and bench.
\<close>
theorem rotation_session_conserves:
  assumes "layoutAndBenchOK courts bench"
  shows "layoutAndBenchOK (fst (fold (river_step mode) rounds (courts, bench)))
      (snd (fold (river_step mode) rounds (courts, bench)))
    \<and> people (fold (river_step mode) rounds (courts, bench)) = people (courts, bench)
    \<and> length (fst (fold (river_step mode) rounds (courts, bench))) = length courts
    \<and> layoutAndBenchOK (fst (fold (fair_step mode) frounds (courts, bench)))
      (snd (fold (fair_step mode) frounds (courts, bench)))
    \<and> people (fold (fair_step mode) frounds (courts, bench)) = people (courts, bench)
    \<and> length (fst (fold (fair_step mode) frounds (courts, bench))) = length courts"
  using river.session_ok [of "(courts, bench)" mode rounds]
    fair_river.session_ok [of "(courts, bench)" mode frounds] assms by simp

definition two_courts :: "RotCourt list" where
  "two_courts = [\<lparr>Court = 1, TeamA = (''a'', ''b''), TeamB = (''c'', ''d'')\<rparr>,
    \<lparr>Court = 2, TeamA = (''e'', ''f''), TeamB = (''g'', ''h'')\<rparr>]"

lemma rotation_session_conserves_witness:
  "layoutAndBenchOK two_courts [''i'']
    \<and> people (fold (fair_step LosersStay) [([\<lparr>rr_Court = 1, rr_Winner = ''b''\<rparr>], Map.empty)]
        (two_courts, [''i''])) = people (two_courts, [''i''])"
proof -
  have ok: "layoutAndBenchOK two_courts [''i'']" by code_simp
  show ?thesis
    using ok rotation_session_conserves [OF ok, of LosersStay "[]"
        "[([\<lparr>rr_Court = 1, rr_Winner = ''b''\<rparr>], Map.empty)]"] by blast
qed

section \<open>Where everyone goes\<close>

definition pair_set :: "pid \<times> pid \<Rightarrow> pid set" where
  "pair_set p = {fst p, snd p}"

lemma court_ids_re_pair_set:
  "set (court_ids (re_pair k lo up)) = pair_set lo \<union> pair_set up"
  by (auto simp: court_ids_def re_pair_def pair_set_def)

lemma bye_swap_spec:
  assumes "bye_swap out bench = (stay, nb)"
  shows "nb = drop 2 bench @ take (length bench) [fst out, snd out]
    \<and> set (take 2 bench) \<subseteq> pair_set stay"
proof (cases bench)
  case Nil
  with assms show ?thesis by (simp add: bye_swap_def min2_def)
next
  case (Cons b bs)
  with assms show ?thesis
    by (cases bs) (simp_all add: bye_swap_def min2_def pair_set_def numeral_2_eq_2 Let_def, auto)
qed

text \<open>
  C32: The river's movement. On a layout the engine accepts, the winners of a court are next
  seated one court up (court 1's stay). With losers-down its losers drop one court, bottom court
  apart; with losers-stay the losers of a middle court hold it and the top court's losers land on
  the bottom one. The bye swap takes up to two longest-waiting bench players onto the bottom court
  and puts as many of its losers at the back of the bench.
\<close>
theorem river_moves_winners_up_losers_down:
  assumes ok: "layoutAndBenchOK courts bench" and k: "k < length courts"
    and NR: "NextRound courts results bench mode = (courts', bench')"
  shows "pair_set (round_winner results (courts ! k)) \<subseteq> set (court_ids (courts' ! (k - 1)))
    \<and> (mode = LosersDown \<and> k + 1 < length courts \<longrightarrow>
        pair_set (round_loser results (courts ! k)) \<subseteq> set (court_ids (courts' ! (k + 1))))
    \<and> (mode = LosersStay \<and> 0 < k \<and> k + 1 < length courts \<longrightarrow>
        pair_set (round_loser results (courts ! k)) \<subseteq> set (court_ids (courts' ! k)))
    \<and> (mode = LosersStay \<and> 1 < length courts \<longrightarrow>
        pair_set (round_loser results (courts ! 0)) \<subseteq> set (court_ids (courts' ! (length courts - 1))))
    \<and> bench' = drop 2 bench @ take (length bench)
        [fst (round_loser results (last courts)), snd (round_loser results (last courts))]
    \<and> set (take 2 bench) \<subseteq> set (court_ids (last courts'))"
proof -
  have ne: "courts \<noteq> []" using k by auto
  obtain W stay L nb where
    R: "NextRound courts results bench mode =
      (map (\<lambda>i. re_pair (i + 1) (from_below (length courts) W stay (i + 1))
         (from_above mode (length courts) W L (i + 1))) [0..<length courts], nb)"
    and bs: "bye_swap (L (length courts)) bench = (stay, nb)"
    and W: "\<forall>i<length courts. W (Suc i) = round_winner results (courts ! i)"
    and L: "\<forall>i<length courts. L (Suc i) = round_loser results (courts ! i)"
    by (rule NextRound_unfold [OF ok ne, of results mode])
  let ?n = "length courts"
  have ids: "set (court_ids (courts' ! i)) = pair_set (from_below ?n W stay (i + 1))
      \<union> pair_set (from_above mode ?n W L (i + 1))" if "i < ?n" for i
    using R NR that by (auto simp: court_ids_re_pair_set)
  have len: "length courts' = ?n" using R NR by auto
  have L1: "L (Suc 0) = round_loser results (courts ! 0)" using L ne by simp
  have Ln: "L ?n = round_loser results (last courts)"
    using L k ne by (auto simp: last_conv_nth dest!: spec [of _ "?n - 1"])
  have lc: "set (court_ids (last courts')) = pair_set stay \<union> pair_set (from_above mode ?n W L ?n)"
  proof -
    have "courts' \<noteq> []" using len ne by auto
    then have "last courts' = courts' ! (?n - 1)" by (simp add: last_conv_nth len)
    moreover have "?n - 1 + 1 = ?n" using k by simp
    moreover have "?n - 1 < ?n" using k by simp
    ultimately show ?thesis using ids [of "?n - 1"] unfolding from_below_def by presburger
  qed
  have nb: "bench' = nb" using R NR by simp
  have swap: "bench' = drop 2 bench @ take (length bench)
        [fst (round_loser results (last courts)), snd (round_loser results (last courts))]
      \<and> set (take 2 bench) \<subseteq> set (court_ids (last courts'))"
    using bye_swap_spec [OF bs] nb lc Ln by (metis Un_upper1 subset_trans)
  show ?thesis
  proof (intro conjI impI)
    show "pair_set (round_winner results (courts ! k)) \<subseteq> set (court_ids (courts' ! (k - 1)))"
      using ids [of "k - 1"] k W by (cases k) (auto simp: from_above_def from_below_def)
    show "pair_set (round_loser results (courts ! k)) \<subseteq> set (court_ids (courts' ! (k + 1)))"
      if "mode = LosersDown \<and> k + 1 < ?n"
      using ids [of "k + 1"] k L that by (auto simp: from_above_def)
    show "pair_set (round_loser results (courts ! k)) \<subseteq> set (court_ids (courts' ! k))"
      if "mode = LosersStay \<and> 0 < k \<and> k + 1 < ?n"
      using ids [of k] k L that by (auto simp: from_above_def)
    show "pair_set (round_loser results (courts ! 0)) \<subseteq> set (court_ids (courts' ! (?n - 1)))"
      if "mode = LosersStay \<and> 1 < ?n"
      using ids [of "?n - 1"] L1 that by (auto simp: from_above_def)
  qed (use swap in blast)+
qed

lemma river_moves_winners_up_losers_down_witness:
  "layoutAndBenchOK two_courts [''i''] \<and> (1::nat) < length two_courts
    \<and> pair_set (round_winner [] (two_courts ! 1))
        \<subseteq> set (court_ids (fst (NextRound two_courts [] [''i''] LosersDown) ! 0))"
proof -
  have ok: "layoutAndBenchOK two_courts [''i'']" by code_simp
  have k: "1 < length two_courts" by (simp add: two_courts_def)
  show ?thesis
    using ok k river_moves_winners_up_losers_down [OF ok k prod.collapse [symmetric], of "[]" LosersDown]
    by simp
qed

text \<open>Partners: the two players of one team of one court.\<close>

definition partners :: "RotCourt list \<Rightarrow> pid \<Rightarrow> pid \<Rightarrow> bool" where
  "partners courts x y =
    (\<exists>c\<in>set courts. TeamA c = (x, y) \<or> TeamA c = (y, x) \<or> TeamB c = (x, y) \<or> TeamB c = (y, x))"

definition team_of :: "RotCourt list \<Rightarrow> nat \<Rightarrow> bool \<Rightarrow> pid \<times> pid" where
  "team_of courts i b = (if b then TeamB (courts ! i) else TeamA (courts ! i))"

lemma team_in_court: "pair_set (team_of courts i b) \<subseteq> set (court_ids (courts ! i))"
  by (auto simp: pair_set_def team_of_def court_ids_def)

lemma teams_disjoint:
  assumes d: "distinct (seated courts)" and "i < length courts" "j < length courts"
    and "(i, b) \<noteq> (j, b')"
  shows "pair_set (team_of courts i b) \<inter> pair_set (team_of courts j b') = {}"
proof (cases "i = j")
  case True
  have "distinct (court_ids (courts ! i))"
    using d assms(2) by (simp add: seated_def distinct_concat_iff)
  with True assms(4) show ?thesis
    by (auto simp: court_ids_def pair_set_def team_of_def)
next
  case False
  have "set (court_ids (courts ! i)) \<inter> set (court_ids (courts ! j)) = {}"
    using concat_disjoint_nth [of "map court_ids courts" i j] assms False by (simp add: seated_def)
  with team_in_court [of courts i b] team_in_court [of courts j b'] show ?thesis by blast
qed

lemma partners_team:
  assumes "partners courts x y"
  obtains i b where "i < length courts" "x \<in> pair_set (team_of courts i b)"
    "y \<in> pair_set (team_of courts i b)"
proof -
  obtain c where c: "c \<in> set courts"
    "TeamA c = (x, y) \<or> TeamA c = (y, x) \<or> TeamB c = (x, y) \<or> TeamB c = (y, x)"
    using assms by (auto simp: partners_def)
  then obtain i where i: "i < length courts" "courts ! i = c" by (auto simp: in_set_conv_nth)
  from c(2) have "(x \<in> pair_set (TeamA c) \<and> y \<in> pair_set (TeamA c))
      \<or> (x \<in> pair_set (TeamB c) \<and> y \<in> pair_set (TeamB c))"
    by (auto simp: pair_set_def)
  then show ?thesis using i that [of i True] that [of i False] by (auto simp: team_of_def)
qed

lemma apart_not_partners:
  assumes d: "distinct (seated courts)" and ij: "i < length courts" "j < length courts"
    and ne: "(i, b) \<noteq> (j, b')"
    and x: "x \<in> pair_set (team_of courts i b)" and y: "y \<in> pair_set (team_of courts j b')"
  shows "\<not> partners courts x y"
proof
  assume "partners courts x y"
  then obtain k e where k: "k < length courts" "x \<in> pair_set (team_of courts k e)"
    "y \<in> pair_set (team_of courts k e)" by (rule partners_team)
  have "(k, e) = (i, b)" using teams_disjoint [OF d k(1) ij(1), of e b] k(2) x by blast
  moreover have "(k, e) = (j, b')" using teams_disjoint [OF d k(1) ij(2), of e b'] k(3) y by blast
  ultimately show False using ne by simp
qed

lemma benched_not_partners:
  assumes "distinct (seated courts @ bench)" and "x \<in> set bench"
  shows "\<not> partners courts x y"
proof
  assume "partners courts x y"
  then obtain k e where "k < length courts" "x \<in> pair_set (team_of courts k e)" by (rule partners_team)
  then have "x \<in> set (seated courts)"
    using team_in_court [of courts k e] nth_mem [of k courts] by (auto simp: seated_def)
  with assms show False by auto
qed

lemma partners_sym: "partners courts x y \<longleftrightarrow> partners courts y x"
  by (auto simp: partners_def)

lemma round_winner_team:
  "round_winner results (courts ! i) =
    team_of courts i (win_map results (Court (courts ! i)) = Some ''b'')"
  by (simp add: round_winner_def team_of_def)

lemma round_loser_team:
  "round_loser results (courts ! i) =
    team_of courts i (win_map results (Court (courts ! i)) \<noteq> Some ''b'')"
  by (simp add: round_loser_def team_of_def)

lemma stay_source:
  assumes "bye_swap out bench = (stay, nb)" and "x \<in> pair_set stay"
  shows "x \<in> set bench \<or> x \<in> pair_set out"
proof (cases bench)
  case Nil
  with assms show ?thesis by (auto simp: bye_swap_def min2_def)
next
  case (Cons b bs)
  with assms show ?thesis
    by (cases bs) (auto simp: bye_swap_def min2_def pair_set_def numeral_2_eq_2)
qed

text \<open>Everyone gets a new partner: after a round on a layout the engine accepts, no two players who
  were a team before it are a team again, on any court, in either loser mode, bye swap included.
\<close>
theorem river_partners_change:
  assumes ok: "layoutAndBenchOK courts bench"
    and new: "partners (fst (NextRound courts results bench mode)) x y"
  shows "\<not> partners courts x y"
proof -
  have d: "distinct (seated courts @ bench)" and ds: "distinct (seated courts)"
    using ok by (simp_all add: layoutAndBenchOK_iff)
  have ne: "courts \<noteq> []" using new by (auto simp: NextRound_def partners_def split: if_splits)
  let ?n = "length courts"
  have n1: "?n \<le> Suc 0 \<longrightarrow> ?n = Suc 0" using ne by (cases courts) auto
  obtain W stay L nb where
    R: "NextRound courts results bench mode =
      (map (\<lambda>i. re_pair (i + 1) (from_below ?n W stay (i + 1))
         (from_above mode ?n W L (i + 1))) [0..<?n], nb)"
    and bs: "bye_swap (L ?n) bench = (stay, nb)"
    and W: "\<forall>i<?n. W (Suc i) = round_winner results (courts ! i)"
    and L: "\<forall>i<?n. L (Suc i) = round_loser results (courts ! i)"
    by (rule NextRound_unfold [OF ok ne, of results mode])
  have apart: "\<not> partners courts u v"
    if k: "k < ?n" and u: "u \<in> pair_set (from_below ?n W stay (k + 1))"
      and v: "v \<in> pair_set (from_above mode ?n W L (k + 1))" for k u v
  proof -
    obtain j b where j: "j < ?n" "v \<in> pair_set (team_of courts j b)"
      and jk: "(j = k + 1 \<longrightarrow> False)" "j = ?n - 1 \<and> k = ?n - 1 \<longrightarrow> ?n = 1 \<and>
        b = (win_map results (Court (courts ! 0)) = Some ''b'')"
    proof -
      consider "k = 0" | "0 < k" "mode = LosersStay" "k = ?n - 1" | "0 < k" "mode = LosersStay" "k < ?n - 1"
        | "0 < k" "mode = LosersDown" using k by (cases mode) linarith+
      then show ?thesis
      proof cases
        case 1
        then have "from_above mode ?n W L (k + 1) = W (Suc 0)" by (simp add: from_above_def)
        then show ?thesis using v 1 k W n1 that [of 0 "win_map results (Court (courts ! 0)) = Some ''b''"]
          by (simp add: round_winner_team)
      next
        case 2
        then have "from_above mode ?n W L (k + 1) = L (Suc 0)" by (simp add: from_above_def)
        then show ?thesis using v 2 k L ne that [of 0 "win_map results (Court (courts ! 0)) \<noteq> Some ''b''"]
          by (simp add: round_loser_team)
      next
        case 3
        then have "from_above mode ?n W L (k + 1) = L (Suc k)"
          using k unfolding from_above_def by simp linarith
        then show ?thesis using v 3 k L that [of k "win_map results (Court (courts ! k)) \<noteq> Some ''b''"]
          by (simp add: round_loser_team)
      next
        case 4
        then have "from_above mode ?n W L (k + 1) = L (Suc (k - 1))" by (simp add: from_above_def)
        moreover have "L (Suc (k - 1)) = round_loser results (courts ! (k - 1))" using L k by simp
        ultimately have "v \<in> pair_set (team_of courts (k - 1)
            (win_map results (Court (courts ! (k - 1))) \<noteq> Some ''b''))"
          using v by (simp only: round_loser_team)
        then show ?thesis by (rule that [rotated]) (use 4 k in simp_all)
      qed
    qed
    show ?thesis
    proof (cases "k + 1 = ?n")
      case False
      then have "u \<in> pair_set (team_of courts (k + 1)
          (win_map results (Court (courts ! (k + 1))) = Some ''b''))"
        using u k W by (simp add: from_below_def round_winner_team)
      then show ?thesis
        using apart_not_partners [OF ds _ j(1) _ _ j(2), of "k + 1"] False k jk(1) by auto
    next
      case True
      then have "u \<in> set bench \<or> u \<in> pair_set (L ?n)"
        using u stay_source [OF bs] by (simp add: from_below_def)
      then show ?thesis
      proof
        assume "u \<in> set bench"
        then show ?thesis by (rule benched_not_partners [OF d])
      next
        have opp: "(k, win_map results (Court (courts ! k)) \<noteq> Some ''b'') \<noteq> (j, b)"
        proof
          assume e: "(k, win_map results (Court (courts ! k)) \<noteq> Some ''b'') = (j, b)"
          then have "j = ?n - 1 \<and> k = ?n - 1" using True by auto
          with jk(2) have n: "?n = 1" and b: "b = (win_map results (Court (courts ! 0)) = Some ''b'')"
            by blast+
          from n True have "k = 0" by simp
          with e b show False by simp
        qed
        assume "u \<in> pair_set (L ?n)"
        moreover have "L ?n = round_loser results (courts ! k)" using L True k by (metis Suc_eq_plus1)
        ultimately have "u \<in> pair_set (team_of courts k
            (win_map results (Court (courts ! k)) \<noteq> Some ''b''))"
          by (simp add: round_loser_team)
        then show ?thesis
          using apart_not_partners [OF ds k j(1) opp _ j(2)] by simp
      qed
    qed
  qed
  have "\<exists>k<?n. (x \<in> pair_set (from_below ?n W stay (k + 1))
      \<and> y \<in> pair_set (from_above mode ?n W L (k + 1))) \<or>
    (y \<in> pair_set (from_below ?n W stay (k + 1)) \<and> x \<in> pair_set (from_above mode ?n W L (k + 1)))"
  proof -
    obtain c where c: "c \<in> set (fst (NextRound courts results bench mode))"
      "TeamA c = (x, y) \<or> TeamA c = (y, x) \<or> TeamB c = (x, y) \<or> TeamB c = (y, x)"
      using new unfolding partners_def by blast
    then obtain k where "k < ?n" "c = re_pair (k + 1) (from_below ?n W stay (k + 1))
        (from_above mode ?n W L (k + 1))"
      unfolding R by auto
    with c(2) show ?thesis
      by (intro exI [of _ k]) (auto simp: re_pair_def pair_set_def)
  qed
  then obtain k where k: "k < ?n" and t: "(x \<in> pair_set (from_below ?n W stay (k + 1))
      \<and> y \<in> pair_set (from_above mode ?n W L (k + 1))) \<or>
    (y \<in> pair_set (from_below ?n W stay (k + 1)) \<and> x \<in> pair_set (from_above mode ?n W L (k + 1)))"
    by blast
  then show ?thesis using apart [OF k] partners_sym by blast
qed

lemma river_partners_change_witness:
  "partners (fst (NextRound two_courts [] [''i''] LosersDown)) ''e'' ''a''
    \<and> \<not> partners two_courts ''e'' ''a''"
proof -
  have ok: "layoutAndBenchOK two_courts [''i'']" by code_simp
  have p: "partners (fst (NextRound two_courts [] [''i''] LosersDown)) ''e'' ''a''" by code_simp
  show ?thesis using p river_partners_change [OF ok p] by simp
qed

text \<open>
  The equal-court-time pass swaps at most two players into the plain round: the most-played ones
  seated go off, to the back of the bench in that order, the least-played ones waiting come on into
  those seats, and every swap brings on someone with strictly fewer games than the one who goes off.
  Nobody who stays seated has played more than one who went off; nobody who keeps waiting has played
  less than one who came on.
\<close>
theorem fair_pass_swaps_extremes:
  "\<exists>offs ons. fair_swap (plays_of played) (NextRound courts results bench mode)
    (NextRoundFair courts results bench mode played) offs ons"
  using fair_swap_exists [of courts results bench mode played, OF refl] by blast

text \<open>
  The tripwire survives the fairness pass: a layout the engine refuses (a court number out of
  place, a blank seat, a player twice on court or bench) comes back untouched from both movements,
  which is the signal the service reads.
\<close>
theorem refused_layout_untouched:
  assumes "\<not> layoutAndBenchOK courts bench"
  shows "NextRound courts results bench mode = (courts, bench)
    \<and> NextRoundFair courts results bench mode played = (courts, bench)"
proof -
  have nr: "NextRound courts results bench mode = (courts, bench)"
    using assms by (simp add: NextRound_def)
  have "NextRoundFair courts results bench mode played = (courts, bench)"
  proof (cases "LayoutOK courts \<and> bench_clear courts bench")
    case True
    then have "contiguous 0 courts" "[] \<notin> set (seated courts)" "distinct (seated courts)"
      by (simp_all add: LayoutOK_def layoutAndBenchOK_iff)
    moreover have "[] \<notin> set bench" "distinct bench" "set bench \<inter> set (seated courts) = {}"
      using True by (auto simp: bench_clear_def see_ids_eq seated_def split: if_splits)
    ultimately have "layoutAndBenchOK courts bench" by (auto simp: layoutAndBenchOK_iff)
    with assms show ?thesis by simp
  next
    case False
    then show ?thesis by (auto simp: NextRoundFair_def nr Let_def)
  qed
  with nr show ?thesis by simp
qed

lemma refused_layout_untouched_witness:
  "\<not> layoutAndBenchOK two_courts [''a'']
    \<and> NextRoundFair two_courts [] [''a''] LosersDown Map.empty = (two_courts, [''a''])"
proof -
  have no: "\<not> layoutAndBenchOK two_courts [''a'']" by code_simp
  show ?thesis using no refused_layout_untouched [OF no, of "[]" LosersDown Map.empty] by blast
qed

end
