(* ===== verification/Scoring.thy ===== *)
theory Scoring
  imports Pickle_Prelude
begin

text \<open>
  The scoring rules, \<open>internal/service/scoring.go\<close>: which final scores of one game are legal and
  which lists of games make a decided best-of-N series; and the rally-by-rally game they are the
  final scores of.
\<close>

section \<open>One game\<close>

datatype score_error =
    NegativeScore
  | TiedGame
  | TargetNotReached int
  | MarginTooSmall int int int
  | PastTarget int int
  | EndsAtTarget int
  | NoGames
  | TooManyGames int
  | GameError nat score_error
  | AlreadyDecided
  | NotDecided int int int int

text \<open>None is the code's nil error.\<close>

definition validateGame :: "int \<Rightarrow> int \<Rightarrow> int \<Rightarrow> int \<Rightarrow> score_error option" where
  "validateGame t1 t2 ptw winBy =
    (if t1 < 0 \<or> t2 < 0 then Some NegativeScore
     else if t1 = t2 then Some TiedGame
     else
       let (hi, lo) = (if t2 > t1 then (t2, t1) else (t1, t2)) in
       if hi < ptw then Some (TargetNotReached ptw)
       else if hi - lo < winBy then Some (MarginTooSmall winBy hi lo)
       else if winBy \<ge> 2 then
         (if hi > ptw \<and> (hi - lo \<noteq> winBy \<or> lo < ptw - 1) then Some (PastTarget ptw winBy) else None)
       else if hi > ptw then Some (EndsAtTarget ptw)
       else None)"

section \<open>A series\<close>

record GameScore =
  Team1 :: int
  Team2 :: int

record series_result =
  sr_winner :: nat
  sr_t1total :: int
  sr_t2total :: int

record series_tally =
  st_t1 :: int
  st_t2 :: int
  st_w1 :: int
  st_w2 :: int

definition tally_game :: "GameScore \<Rightarrow> series_tally \<Rightarrow> series_tally" where
  "tally_game g t =
    \<lparr>st_t1 = st_t1 t + Team1 g, st_t2 = st_t2 t + Team2 g,
     st_w1 = (if Team1 g > Team2 g then st_w1 t + 1 else st_w1 t),
     st_w2 = (if Team1 g > Team2 g then st_w2 t else st_w2 t + 1)\<rparr>"

text \<open>The loop over the games: \<open>i\<close> is the index, the rest of the list tells whether it is the last.\<close>

fun series_loop :: "int \<Rightarrow> int \<Rightarrow> int \<Rightarrow> nat \<Rightarrow> GameScore list \<Rightarrow> series_tally
    \<Rightarrow> score_error + series_tally" where
  "series_loop needed ptw winBy i [] t = Inr t"
| "series_loop needed ptw winBy i (g # gs) t =
    (case validateGame (Team1 g) (Team2 g) ptw winBy of
       Some e \<Rightarrow> Inl (GameError (i + 1) e)
     | None \<Rightarrow>
       let t' = tally_game g t in
       if (st_w1 t' \<ge> needed \<or> st_w2 t' \<ge> needed) \<and> gs \<noteq> [] then Inl AlreadyDecided
       else series_loop needed ptw winBy (i + 1) gs t')"

definition validateSeries :: "GameScore list \<Rightarrow> int \<Rightarrow> int \<Rightarrow> int \<Rightarrow> score_error + series_result" where
  "validateSeries games bestOf0 ptw winBy =
    (let bestOf = (if bestOf0 < 1 then 1 else bestOf0) in
     if games = [] then Inl NoGames
     else if int (length games) > bestOf then Inl (TooManyGames bestOf)
     else
       let needed = bestOf div 2 + 1 in
       case series_loop needed ptw winBy 0 games \<lparr>st_t1 = 0, st_t2 = 0, st_w1 = 0, st_w2 = 0\<rparr> of
         Inl e \<Rightarrow> Inl e
       | Inr t \<Rightarrow>
         if st_w1 t < needed \<and> st_w2 t < needed
         then Inl (NotDecided bestOf needed (st_w1 t) (st_w2 t))
         else Inr \<lparr>sr_winner = (if st_w1 t > st_w2 t then 1 else 2),
           sr_t1total = st_t1 t, sr_t2total = st_t2 t\<rparr>)"

section \<open>Rally by rally\<close>

text \<open>
  The game as played: from 0-0 each rally gives one side a point, and play stops as soon as the
  leader has the target and the margin. A margin below one asks for nothing more than the target.
\<close>

definition game_over :: "int \<Rightarrow> int \<Rightarrow> int \<times> int \<Rightarrow> bool" where
  "game_over ptw winBy s \<longleftrightarrow> max (fst s) (snd s) \<ge> ptw \<and> \<bar>fst s - snd s\<bar> \<ge> winBy"

inductive played :: "int \<Rightarrow> int \<Rightarrow> int \<times> int \<Rightarrow> bool" for ptw winBy where
  start: "played ptw winBy (0, 0)"
| rally1: "played ptw winBy (a, b) \<Longrightarrow> \<not> game_over ptw winBy (a, b) \<Longrightarrow> played ptw winBy (a + 1, b)"
| rally2: "played ptw winBy (a, b) \<Longrightarrow> \<not> game_over ptw winBy (a, b) \<Longrightarrow> played ptw winBy (a, b + 1)"

inductive_cases playedE: "played ptw winBy (a, b)"

definition final_score :: "int \<Rightarrow> int \<Rightarrow> int \<times> int \<Rightarrow> bool" where
  "final_score ptw winBy s \<longleftrightarrow> played ptw winBy s \<and> game_over ptw winBy s"

lemma played_nonneg: "played ptw winBy s \<Longrightarrow> 0 \<le> fst s \<and> 0 \<le> snd s"
  by (induction rule: played.induct) auto

lemma game_over_sym: "game_over ptw winBy (a, b) = game_over ptw winBy (b, a)"
  by (auto simp: game_over_def)

lemma played_sym: "played ptw winBy s \<Longrightarrow> played ptw winBy (snd s, fst s)"
proof (induction rule: played.induct)
  case (rally1 a b)
  then show ?case using played.rally2 [of ptw winBy b a] game_over_sym [of ptw winBy a b] by simp
next
  case (rally2 a b)
  then show ?case using played.rally1 [of ptw winBy b a] game_over_sym [of ptw winBy a b] by simp
qed (simp add: played.start)

lemma played_swap: "played ptw winBy (a, b) \<longleftrightarrow> played ptw winBy (b, a)"
  using played_sym [of ptw winBy "(a, b)"] played_sym [of ptw winBy "(b, a)"] by auto

text \<open>Below the target every score is reached.\<close>

lemma played_below:
  assumes "0 < ptw" and "int m < ptw" "int n < ptw"
  shows "played ptw winBy (int m, int n)"
  using assms
proof (induction "m + n" arbitrary: m n)
  case 0
  then show ?case by (simp add: played.start)
next
  case (Suc k)
  show ?case
  proof (cases m)
    case 0
    then obtain n' where n: "n = Suc n'" using Suc.hyps(2) by (cases n) auto
    have "played ptw winBy (int m, int n')" using Suc.hyps(1) [of m n'] Suc.hyps(2) Suc.prems 0 n by simp
    then have "played ptw winBy (int m, int n' + 1)"
      by (rule played.rally2) (use Suc.prems n in \<open>auto simp: game_over_def\<close>)
    then show ?thesis by (simp add: n add.commute)
  next
    case m: (Suc m')
    have "played ptw winBy (int m', int n)" using Suc.hyps(1) [of m' n] Suc.hyps(2) Suc.prems m by simp
    then have "played ptw winBy (int m' + 1, int n)"
      by (rule played.rally1) (use Suc.prems m in \<open>auto simp: game_over_def\<close>)
    then show ?thesis by (simp add: m add.commute)
  qed
qed

text \<open>With a margin of two the deuce ladder climbs one point at a time.\<close>

lemma played_deuce:
  assumes "0 < ptw"
  shows "played ptw 2 (ptw - 1 + int k, ptw - 1 + int k)"
proof (induction k)
  case 0
  have "played ptw 2 (int (nat (ptw - 1)), int (nat (ptw - 1)))"
    using assms by (intro played_below) auto
  then show ?case using assms by simp
next
  case (Suc k)
  let ?x = "ptw - 1 + int k"
  have "played ptw 2 (?x + 1, ?x)"
    using Suc by (rule played.rally1) (simp add: game_over_def)
  then have "played ptw 2 (?x + 1, ?x + 1)"
    by (rule played.rally2) (simp add: game_over_def)
  then show ?case by (simp add: add.commute add.left_commute)
qed

text \<open>With a margin of one nobody passes the target, and only one side reaches it.\<close>

lemma played_one:
  "played ptw 1 s \<Longrightarrow> 0 < ptw \<Longrightarrow> fst s \<le> ptw \<and> snd s \<le> ptw \<and> (fst s < ptw \<or> snd s < ptw)"
  by (induction rule: played.induct) (auto simp: game_over_def)

lemma final_step:
  assumes "final_score ptw winBy (a, b)" and "b < a" and "0 < ptw"
  shows "\<not> game_over ptw winBy (a - 1, b) \<and> 0 \<le> b \<or> (\<not> game_over ptw winBy (a, b - 1) \<and> 0 < b)"
proof -
  have p: "played ptw winBy (a, b)" using assms by (simp add: final_score_def)
  then show ?thesis
    by (cases rule: playedE) (use assms(2) played_nonneg in \<open>fastforce+\<close>)
qed

lemma final_winner_scored_last:
  assumes f: "final_score ptw winBy (a, b)" and "b < a" and "0 < ptw" and "winBy \<le> 2"
  shows "\<not> game_over ptw winBy (a - 1, b)"
proof -
  have o: "game_over ptw winBy (a, b)" using f by (simp add: final_score_def)
  from final_step [OF f assms(2,3)] show ?thesis
  proof
    assume "\<not> game_over ptw winBy (a, b - 1) \<and> 0 < b"
    then have False using o assms(2) by (auto simp: game_over_def)
    then show ?thesis ..
  qed simp
qed

text \<open>
  C30: The game rule is exact. For the margins the product offers (win by 1 and win by 2) and a
  positive target, validateGame accepts a score if and only if it is the final score of a game
  played rally by rally from 0-0 that stops the moment a side has the target and the margin.
\<close>
theorem validateGame_iff_final_score:
  assumes "0 < ptw" and "winBy = 1 \<or> winBy = 2"
  shows "validateGame a b ptw winBy = None \<longleftrightarrow> final_score ptw winBy (a, b)"
proof -
  have main: "validateGame a b ptw winBy = None \<longleftrightarrow> final_score ptw winBy (a, b)"
    if ab: "b < a" for a b
  proof
    assume v: "validateGame a b ptw winBy = None"
    have nn: "0 \<le> b" "0 \<le> a" using v by (auto simp: validateGame_def split: if_splits)
    have hi: "ptw \<le> a" "winBy \<le> a - b"
      using v ab by (auto simp: validateGame_def split: if_splits)
    have over: "game_over ptw winBy (a, b)" using hi ab by (auto simp: game_over_def)
    have "played ptw winBy (a, b)"
    proof (cases "a = ptw")
      case True
      have "played ptw winBy (int (nat (ptw - 1)), int (nat b))"
        using assms(1) nn True ab by (intro played_below) auto
      then have "played ptw winBy (ptw - 1, b)" using assms(1) nn by simp
      then have "played ptw winBy (ptw - 1 + 1, b)"
        by (rule played.rally1) (use True ab in \<open>auto simp: game_over_def\<close>)
      with True show ?thesis by simp
    next
      case False
      then have two: "winBy = 2" and d: "a - b = 2" "ptw - 1 \<le> b"
        using v ab hi assms(2) by (auto simp: validateGame_def split: if_splits)
      have "played ptw 2 (b, b)"
        using played_deuce [OF assms(1), of "nat (b - (ptw - 1))"] d by simp
      then have "played ptw 2 (b + 1, b)"
        by (rule played.rally1) (simp add: game_over_def)
      then have "played ptw 2 (b + 1 + 1, b)"
        by (rule played.rally1) (simp add: game_over_def)
      with two d show ?thesis by (simp add: algebra_simps)
    qed
    with over show "final_score ptw winBy (a, b)" by (simp add: final_score_def)
  next
    assume f: "final_score ptw winBy (a, b)"
    have nn: "0 \<le> b" "0 \<le> a"
      using f played_nonneg [of ptw winBy "(a, b)"] by (auto simp: final_score_def)
    have over: "game_over ptw winBy (a, b)" using f by (simp add: final_score_def)
    have "\<not> game_over ptw winBy (a - 1, b)"
      using final_winner_scored_last [OF f ab assms(1)] assms(2) by auto
    then show "validateGame a b ptw winBy = None"
      using over nn ab assms f played_one [of ptw "(a, b)"]
      by (auto simp: validateGame_def game_over_def final_score_def)
  qed
  have sym: "validateGame a b ptw winBy = None \<longleftrightarrow> validateGame b a ptw winBy = None" for a b
    by (auto simp: validateGame_def)
  consider "b < a" | "a < b" | "a = b" by linarith
  then show ?thesis
  proof cases
    case 1
    then show ?thesis by (rule main)
  next
    case 2
    then show ?thesis
      using main [OF 2] sym [of a b] played_swap [of ptw winBy a b] game_over_sym [of ptw winBy a b]
      by (simp add: final_score_def)
  next
    case 3
    then show ?thesis using assms(2) by (auto simp: validateGame_def final_score_def game_over_def)
  qed
qed

lemma validateGame_iff_final_score_witness:
  "validateGame 12 10 11 2 = None \<and> final_score 11 2 (12, 10)"
  using validateGame_iff_final_score [of 11 2 12 10] by (simp add: validateGame_def)

section \<open>Series\<close>

definition won_by :: "nat \<Rightarrow> GameScore list \<Rightarrow> int" where
  "won_by side gs = int (length (filter (\<lambda>g. (Team1 g > Team2 g) = (side = 1)) gs))"

lemma won_by_simps [simp]:
  "won_by side [] = 0"
  "won_by side (g # gs) = (if (Team1 g > Team2 g) = (side = 1) then 1 else 0) + won_by side gs"
  "won_by side (gs @ hs) = won_by side gs + won_by side hs"
  by (simp_all add: won_by_def)

lemma won_by_nonneg: "0 \<le> won_by side gs"
  by (simp add: won_by_def)

definition legal_games :: "int \<Rightarrow> int \<Rightarrow> GameScore list \<Rightarrow> bool" where
  "legal_games ptw winBy gs \<longleftrightarrow> (\<forall>g\<in>set gs. validateGame (Team1 g) (Team2 g) ptw winBy = None)"

lemma series_loop_iff:
  "series_loop needed ptw winBy i gs t = Inr t' \<longleftrightarrow>
    legal_games ptw winBy gs
    \<and> (\<forall>k. 0 < k \<and> k < length gs \<longrightarrow>
        st_w1 t + won_by 1 (take k gs) < needed \<and> st_w2 t + won_by 2 (take k gs) < needed)
    \<and> t' = \<lparr>st_t1 = st_t1 t + (\<Sum>g\<leftarrow>gs. Team1 g), st_t2 = st_t2 t + (\<Sum>g\<leftarrow>gs. Team2 g),
            st_w1 = st_w1 t + won_by 1 gs, st_w2 = st_w2 t + won_by 2 gs\<rparr>"
proof (induction gs arbitrary: i t)
  case Nil
  show ?case by (cases t; cases t') (auto simp: legal_games_def)
next
  case (Cons g gs)
  have split: "(\<forall>k. 0 < k \<and> k < length (g # gs) \<longrightarrow>
        st_w1 t + won_by 1 (take k (g # gs)) < needed \<and> st_w2 t + won_by 2 (take k (g # gs)) < needed)
    \<longleftrightarrow> (gs \<noteq> [] \<longrightarrow> st_w1 (tally_game g t) < needed \<and> st_w2 (tally_game g t) < needed) \<and>
      (\<forall>k. 0 < k \<and> k < length gs \<longrightarrow> st_w1 (tally_game g t) + won_by 1 (take k gs) < needed
        \<and> st_w2 (tally_game g t) + won_by 2 (take k gs) < needed)" (is "?L \<longleftrightarrow> ?R")
  proof
    assume L: ?L
    have "st_w1 (tally_game g t) + won_by 1 (take k gs) < needed
        \<and> st_w2 (tally_game g t) + won_by 2 (take k gs) < needed" if "k < length gs" for k
      using L [rule_format, of "Suc k"] that by (auto simp: tally_game_def split: if_splits)
    from this [of 0] this show ?R by auto
  next
    assume R: ?R
    show ?L
    proof (intro allI impI)
      fix k assume k: "0 < k \<and> k < length (g # gs)"
      then obtain j where j: "k = Suc j" "j < length gs" by (cases k) auto
      show "st_w1 t + won_by 1 (take k (g # gs)) < needed \<and> st_w2 t + won_by 2 (take k (g # gs)) < needed"
        using R j by (cases "j = 0") (auto simp: tally_game_def split: if_splits)
    qed
  qed
  show ?case
  proof (cases "validateGame (Team1 g) (Team2 g) ptw winBy")
    case (Some e)
    then show ?thesis by (auto simp: legal_games_def)
  next
    case None
    show ?thesis
    proof (cases "(st_w1 (tally_game g t) \<ge> needed \<or> st_w2 (tally_game g t) \<ge> needed) \<and> gs \<noteq> []")
      case True
      then show ?thesis unfolding split using None by (auto simp: Let_def)
    next
      case False
      then have "series_loop needed ptw winBy i (g # gs) t =
          series_loop needed ptw winBy (i + 1) gs (tally_game g t)"
        using None by (auto simp: Let_def)
      then show ?thesis
        unfolding split using Cons.IH [of "i + 1" "tally_game g t"] None False
        by (auto simp: legal_games_def tally_game_def)
    qed
  qed
qed

text \<open>What it takes: a legal, decided series that stops when it is clinched.\<close>

definition decided_series :: "GameScore list \<Rightarrow> int \<Rightarrow> int \<Rightarrow> int \<Rightarrow> nat \<Rightarrow> bool" where
  "decided_series games bestOf ptw winBy w \<longleftrightarrow>
    legal_games ptw winBy games \<and> games \<noteq> [] \<and> int (length games) \<le> bestOf
    \<and> (w = 1 \<or> w = 2)
    \<and> won_by w games = bestOf div 2 + 1 \<and> won_by (3 - w) games < bestOf div 2 + 1
    \<and> (Team1 (last games) > Team2 (last games)) = (w = 1)"

lemma won_by_total: "won_by 1 gs + won_by 2 gs = int (length gs)"
  by (induction gs) auto

text \<open>
  C31: A best-of-N series is accepted exactly when there are at most N games, every game is legal,
  one side has won N div 2 + 1 games, the last game among them, and the other side fewer; the result names that side and the
  two point totals. So no dead game is accepted, no undecided series, and none with too many games.
\<close>
theorem validateSeries_iff_decided:
  assumes "1 \<le> bestOf"
  shows "validateSeries games bestOf ptw winBy = Inr r \<longleftrightarrow>
    (decided_series games bestOf ptw winBy (sr_winner r)
     \<and> r = \<lparr>sr_winner = sr_winner r, sr_t1total = (\<Sum>g\<leftarrow>games. Team1 g),
           sr_t2total = (\<Sum>g\<leftarrow>games. Team2 g)\<rparr>)"
proof -
  define needed where "needed = bestOf div 2 + 1"
  define t0 :: series_tally where "t0 = \<lparr>st_t1 = 0, st_t2 = 0, st_w1 = 0, st_w2 = 0\<rparr>"
  define prefixes where "prefixes \<longleftrightarrow> (\<forall>k. 0 < k \<and> k < length games \<longrightarrow>
    won_by 1 (take k games) < needed \<and> won_by 2 (take k games) < needed)"
  define r' where "r' = \<lparr>sr_winner = (if won_by 1 games > won_by 2 games then 1 else 2),
    sr_t1total = (\<Sum>g\<leftarrow>games. Team1 g), sr_t2total = (\<Sum>g\<leftarrow>games. Team2 g)\<rparr>"
  have run: "validateSeries games bestOf ptw winBy = Inr r \<longleftrightarrow>
      games \<noteq> [] \<and> int (length games) \<le> bestOf \<and> legal_games ptw winBy games \<and> prefixes
      \<and> (won_by 1 games \<ge> needed \<or> won_by 2 games \<ge> needed) \<and> r = r'"
  proof (cases "series_loop needed ptw winBy 0 games t0")
    case (Inl e)
    then have "\<not> (legal_games ptw winBy games \<and> prefixes)"
      using series_loop_iff [of needed ptw winBy 0 games t0]
      by (auto simp: prefixes_def t0_def)
    then show ?thesis
      using assms Inl by (auto simp: validateSeries_def Let_def needed_def t0_def)
  next
    case (Inr t)
    with series_loop_iff [of needed ptw winBy 0 games t0 t]
    have "legal_games ptw winBy games" "prefixes"
      "t = \<lparr>st_t1 = (\<Sum>g\<leftarrow>games. Team1 g), st_t2 = (\<Sum>g\<leftarrow>games. Team2 g),
            st_w1 = won_by 1 games, st_w2 = won_by 2 games\<rparr>"
      by (simp_all add: prefixes_def t0_def)
    then show ?thesis
      using assms Inr by (auto simp: validateSeries_def Let_def needed_def [symmetric] t0_def r'_def)
  qed
  have nonneg: "0 \<le> won_by s gs" for s gs by (rule won_by_nonneg)
  have n2: "bestOf < 2 * needed" "2 * needed \<le> bestOf + 2" "1 \<le> needed"
    using assms by (auto simp: needed_def)
  show ?thesis
  proof
    assume "validateSeries games bestOf ptw winBy = Inr r"
    then have ne: "games \<noteq> []" and len: "int (length games) \<le> bestOf"
      and legal: "legal_games ptw winBy games" and pre: prefixes
      and win: "won_by 1 games \<ge> needed \<or> won_by 2 games \<ge> needed" and r: "r = r'"
      using run by auto
    obtain gs g where gs: "games = gs @ [g]" using ne by (cases games rule: rev_cases) auto
    have bef: "won_by 1 gs < needed \<and> won_by 2 gs < needed"
    proof (cases "gs = []")
      case True
      then show ?thesis using n2 by simp
    next
      case False
      then show ?thesis using pre [unfolded prefixes_def, rule_format, of "length gs"] gs by simp
    qed
    have tot: "won_by 1 games + won_by 2 games < 2 * needed"
      using won_by_total [of games] len n2 by simp
    have "decided_series games bestOf ptw winBy (sr_winner r)"
      using legal ne len bef win tot gs
      by (auto simp: decided_series_def r r'_def needed_def [symmetric] split: if_splits)
    then show "decided_series games bestOf ptw winBy (sr_winner r) \<and> r =
        \<lparr>sr_winner = sr_winner r, sr_t1total = (\<Sum>g\<leftarrow>games. Team1 g),
         sr_t2total = (\<Sum>g\<leftarrow>games. Team2 g)\<rparr>"
      by (simp add: r r'_def)
  next
    assume a: "decided_series games bestOf ptw winBy (sr_winner r) \<and> r =
        \<lparr>sr_winner = sr_winner r, sr_t1total = (\<Sum>g\<leftarrow>games. Team1 g),
         sr_t2total = (\<Sum>g\<leftarrow>games. Team2 g)\<rparr>"
    then have d: "decided_series games bestOf ptw winBy (sr_winner r)" by blast
    then have w: "sr_winner r = 1 \<or> sr_winner r = 2"
      and won: "won_by (sr_winner r) games = needed" "won_by (3 - sr_winner r) games < needed"
      and ne: "games \<noteq> []" and legal: "legal_games ptw winBy games"
      and lw: "(Team1 (last games) > Team2 (last games)) = (sr_winner r = 1)"
      by (auto simp: decided_series_def needed_def)
    obtain gs g where gs: "games = gs @ [g]" using ne by (cases games rule: rev_cases) auto
    have pre: prefixes
      unfolding prefixes_def
    proof (intro allI impI)
      fix k assume k: "0 < k \<and> k < length games"
      then have "won_by s gs = won_by s (take k games) + won_by s (drop k gs)" for s
        using gs by (metis append_take_drop_id butlast_snoc length_append_singleton less_Suc_eq_le
            take_append take_butlast won_by_simps(3))
      then have le: "won_by s (take k games) \<le> won_by s gs" for s using nonneg [of s "drop k gs"] by simp
      show "won_by 1 (take k games) < needed \<and> won_by 2 (take k games) < needed"
        using le [of 1] le [of 2] w won lw gs by (auto split: if_splits)
    qed
    have "int (length games) \<le> bestOf" using d by (simp add: decided_series_def)
    moreover have "r = r'"
      using a w won by (cases r) (auto simp: r'_def)
    ultimately show "validateSeries games bestOf ptw winBy = Inr r"
      using run ne legal pre w won by auto
  qed
qed

lemma validateSeries_iff_decided_witness:
  "validateSeries [\<lparr>Team1 = 11, Team2 = 5\<rparr>, \<lparr>Team1 = 9, Team2 = 11\<rparr>, \<lparr>Team1 = 12, Team2 = 10\<rparr>] 3 11 2
      = Inr \<lparr>sr_winner = 1, sr_t1total = 32, sr_t2total = 26\<rparr>"
  using validateSeries_iff_decided [of 3
    "[\<lparr>Team1 = 11, Team2 = 5\<rparr>, \<lparr>Team1 = 9, Team2 = 11\<rparr>, \<lparr>Team1 = 12, Team2 = 10\<rparr>]" 11 2
    "\<lparr>sr_winner = 1, sr_t1total = 32, sr_t2total = 26\<rparr>"]
  by (simp add: decided_series_def legal_games_def validateGame_def)

end
