(* ===== verification/Arrange.thy ===== *)
theory Arrange
  imports Pickle_Prelude
begin

text \<open>
  Putting pool matches on courts and time slots: \<open>arrangePlacements\<close> of
  \<open>internal/service/service.go\<close>, in its interleaved and its sequential mode, and the division
  court sets it is given (\<open>divisionCourtMapFrom\<close>).

  Go maps read with a default are total functions here; \<open>placements\<close> keeps its partiality.
\<close>

section \<open>State\<close>

type_synonym mid = string
type_synonym division = string

record arr_state =
  occupied :: "int \<Rightarrow> pid list"
  lastSlot :: "pid \<rightharpoonup> int"
  placements :: "mid \<rightharpoonup> int \<times> int"
  scheduled :: nat
  roundIdx :: "division \<Rightarrow> nat"
  pos :: "division \<Rightarrow> nat"
  remaining :: int

record arr_input =
  divOrder :: "division list"
  divRounds :: "division \<Rightarrow> mid list list"
  divCourts :: "division \<Rightarrow> int list"
  courtNums :: "int list"
  matchPlayers :: "mid \<Rightarrow> pid list"
  totalMatches :: int
  minRestSlots :: int

definition arr_init :: "arr_input \<Rightarrow> arr_state" where
  "arr_init inp = \<lparr>occupied = (\<lambda>_. []), lastSlot = Map.empty, placements = Map.empty,
    scheduled = 0, roundIdx = (\<lambda>_. 0), pos = (\<lambda>_. 0), remaining = totalMatches inp\<rparr>"

section \<open>Operations\<close>

definition player_conflict :: "arr_input \<Rightarrow> arr_state \<Rightarrow> int \<Rightarrow> pid \<Rightarrow> bool" where
  "player_conflict inp st slot p \<longleftrightarrow> p \<in> set (occupied st slot)
    \<or> (minRestSlots inp > 0 \<and> (case lastSlot st p of
         None \<Rightarrow> False
       | Some prev \<Rightarrow> slot - prev \<le> minRestSlots inp))"

definition conflictAt :: "arr_input \<Rightarrow> arr_state \<Rightarrow> int \<Rightarrow> mid \<Rightarrow> bool" where
  "conflictAt inp st slot m = list_ex (player_conflict inp st slot) (matchPlayers inp m)"

definition markSlot :: "arr_input \<Rightarrow> int \<Rightarrow> mid \<Rightarrow> arr_state \<Rightarrow> arr_state" where
  "markSlot inp slot m st = st\<lparr>
    occupied := (occupied st)(slot := matchPlayers inp m @ occupied st slot),
    lastSlot := foldl (\<lambda>l p. l(p \<mapsto> slot)) (lastSlot st) (matchPlayers inp m)\<rparr>"

definition place :: "mid \<Rightarrow> int \<Rightarrow> int \<Rightarrow> arr_state \<Rightarrow> arr_state" where
  "place m court slot st =
    st\<lparr>placements := (placements st)(m \<mapsto> (court, slot)), scheduled := scheduled st + 1\<rparr>"

definition courts_for :: "arr_input \<Rightarrow> division \<Rightarrow> int list" where
  "courts_for inp d = (if divCourts inp d = [] then courtNums inp else divCourts inp d)"

text \<open>One match goes on: place, mark, take the court, step the counters.\<close>

definition put_match :: "arr_input \<Rightarrow> division \<Rightarrow> int \<Rightarrow> mid \<Rightarrow> int \<Rightarrow> arr_state \<Rightarrow> arr_state" where
  "put_match inp d slot m court st =
    (let st1 = markSlot inp slot m (place m court slot st) in
     st1\<lparr>pos := (pos st1)(d := pos st1 d + 1), remaining := remaining st1 - 1\<rparr>)"

text \<open>The loop over a division's courts in one slot, with the courts taken so far.\<close>

fun fill_courts :: "arr_input \<Rightarrow> division \<Rightarrow> int \<Rightarrow> mid list \<Rightarrow> int list
    \<Rightarrow> int set \<times> arr_state \<Rightarrow> int set \<times> arr_state" where
  "fill_courts inp d slot round [] us = us"
| "fill_courts inp d slot round (c # cs) (used, st) =
    (if pos st d \<ge> length round then (used, st)
     else if c \<in> used then fill_courts inp d slot round cs (used, st)
     else
       let m = round ! pos st d in
       if conflictAt inp st slot m then (used, st)
       else fill_courts inp d slot round cs (insert c used, put_match inp d slot m c st))"

definition div_slot :: "arr_input \<Rightarrow> int \<Rightarrow> division \<Rightarrow> int set \<times> arr_state \<Rightarrow> int set \<times> arr_state" where
  "div_slot inp slot d us =
    (let ri = roundIdx (snd us) d in
     if ri \<ge> length (divRounds inp d) then us
     else
       let round = divRounds inp d ! ri;
           (used, st) = fill_courts inp d slot round (courts_for inp d) us
       in if pos st d \<ge> length round
          then (used, st\<lparr>roundIdx := (roundIdx st)(d := roundIdx st d + 1), pos := (pos st)(d := 0)\<rparr>)
          else (used, st))"

definition slot_pass :: "arr_input \<Rightarrow> int \<Rightarrow> arr_state \<Rightarrow> arr_state" where
  "slot_pass inp slot st = snd (fold (div_slot inp slot) (divOrder inp) ({}, st))"

definition maxSlots :: "arr_input \<Rightarrow> int" where
  "maxSlots inp = totalMatches inp * (minRestSlots inp + 1) + int (length (courtNums inp)) + 10"

function slot_loop :: "arr_input \<Rightarrow> int \<Rightarrow> arr_state \<Rightarrow> arr_state" where
  "slot_loop inp slot st =
    (if remaining st > 0 \<and> slot \<le> maxSlots inp
     then slot_loop inp (slot + 1) (slot_pass inp slot st)
     else st)"
  by pat_completeness auto
termination by (relation "measure (\<lambda>(inp, slot, st). nat (maxSlots inp + 1 - slot))") auto

declare slot_loop.simps [simp del]

text \<open>
  The sequential mode: each round fills the division's courts wave by wave. None is the panic of
  indexing an empty court list.
\<close>

fun seq_round :: "int list \<Rightarrow> mid list \<Rightarrow> int \<Rightarrow> nat \<Rightarrow> arr_state \<Rightarrow> (int \<times> arr_state) option" where
  "seq_round courts [] slot courtIdx st = Some (slot, st)"
| "seq_round courts (m # ms) slot courtIdx st =
    (let (slot', i) = (if courtIdx = length courts then (slot + 1, 0) else (slot, courtIdx)) in
     if i < length courts then seq_round courts ms slot' (i + 1) (place m (courts ! i) slot' st)
     else None)"

fun seq_rounds :: "int list \<Rightarrow> mid list list \<Rightarrow> int \<Rightarrow> arr_state \<Rightarrow> (int \<times> arr_state) option" where
  "seq_rounds courts [] slot st = Some (slot, st)"
| "seq_rounds courts (r # rs) slot st =
    (case seq_round courts r slot 0 st of
       None \<Rightarrow> None
     | Some (slot', st') \<Rightarrow> seq_rounds courts rs (slot' + 1) st')"

fun seq_divs :: "arr_input \<Rightarrow> division list \<Rightarrow> int \<Rightarrow> arr_state \<Rightarrow> (int \<times> arr_state) option" where
  "seq_divs inp [] slot st = Some (slot, st)"
| "seq_divs inp (d # ds) slot st =
    (case seq_rounds (courts_for inp d) (divRounds inp d) slot st of
       None \<Rightarrow> None
     | Some (slot', st') \<Rightarrow> seq_divs inp ds slot' st')"

definition arrangePlacements :: "arr_input \<Rightarrow> bool \<Rightarrow> ((mid \<rightharpoonup> int \<times> int) \<times> nat) option" where
  "arrangePlacements inp interleave =
    (if interleave
     then let st = slot_loop inp 0 (arr_init inp) in Some (placements st, scheduled st)
     else map_option (\<lambda>(_, st). (placements st, scheduled st))
       (seq_divs inp (divOrder inp) 0 (arr_init inp)))"

text \<open>\<open>divisionCourtMapFrom\<close>: a division's real courts, each once, in order; all courts when none.\<close>

fun valid_courts :: "int set \<Rightarrow> int set \<Rightarrow> int list \<Rightarrow> int list" where
  "valid_courts known seen [] = []"
| "valid_courts known seen (c # cs) =
    (if c \<in> known \<and> c \<notin> seen then c # valid_courts known (insert c seen) cs
     else valid_courts known seen cs)"

definition division_courts :: "int set \<Rightarrow> int list \<Rightarrow> int list \<Rightarrow> int list" where
  "division_courts known allCourts courts =
    (let valid = sort (valid_courts known {} courts) in if valid = [] then allCourts else valid)"

definition divisionCourtMapFrom :: "(division \<times> int list) list \<Rightarrow> int set \<Rightarrow> int list
    \<Rightarrow> (division \<rightharpoonup> int list)" where
  "divisionCourtMapFrom brackets known allCourts =
    foldl (\<lambda>out b. out(fst b \<mapsto> division_courts known allCourts (snd b))) Map.empty brackets"

section \<open>Safety of the interleaved mode\<close>

definition apart :: "arr_input \<Rightarrow> int \<Rightarrow> int \<Rightarrow> bool" where
  "apart inp t1 t2 \<longleftrightarrow> t1 \<noteq> t2 \<and> (minRestSlots inp > 0 \<longrightarrow> \<bar>t1 - t2\<bar> > minRestSlots inp)"

text \<open>
  No court holds two matches in a slot, and no player is in two matches closer than the rest.
\<close>

definition conflict_free :: "arr_input \<Rightarrow> (mid \<rightharpoonup> int \<times> int) \<Rightarrow> bool" where
  "conflict_free inp P \<longleftrightarrow>
    (\<forall>m1 m2 c t. P m1 = Some (c, t) \<and> P m2 = Some (c, t) \<longrightarrow> m1 = m2)
    \<and> (\<forall>m1 m2 c1 t1 c2 t2. P m1 = Some (c1, t1) \<and> P m2 = Some (c2, t2) \<and> m1 \<noteq> m2
        \<and> set (matchPlayers inp m1) \<inter> set (matchPlayers inp m2) \<noteq> {} \<longrightarrow> apart inp t1 t2)"

definition booked :: "arr_input \<Rightarrow> int \<Rightarrow> int set \<Rightarrow> arr_state \<Rightarrow> bool" where
  "booked inp slot used st \<longleftrightarrow> (\<forall>m c t. placements st m = Some (c, t) \<longrightarrow>
    t \<le> slot \<and> (t = slot \<longrightarrow> c \<in> used)
    \<and> (\<forall>p\<in>set (matchPlayers inp m). p \<in> set (occupied st t)
        \<and> (\<exists>t'. lastSlot st p = Some t' \<and> t \<le> t')))"

lemma foldl_last: "foldl (\<lambda>l p. l(p \<mapsto> slot)) l ps p = (if p \<in> set ps then Some slot else l p)"
  by (induction ps arbitrary: l) auto

lemma put_match_simps [simp]:
  "placements (put_match inp d slot m c st) = (placements st)(m \<mapsto> (c, slot))"
  "occupied (put_match inp d slot m c st) = (occupied st)(slot := matchPlayers inp m @ occupied st slot)"
  "lastSlot (put_match inp d slot m c st) p =
    (if p \<in> set (matchPlayers inp m) then Some slot else lastSlot st p)"
  "scheduled (put_match inp d slot m c st) = scheduled st + 1"
  "roundIdx (put_match inp d slot m c st) = roundIdx st"
  "pos (put_match inp d slot m c st) = (pos st)(d := pos st d + 1)"
  "remaining (put_match inp d slot m c st) = remaining st - 1"
  by (simp_all add: put_match_def markSlot_def place_def Let_def foldl_last)

lemma no_conflict_apart:
  assumes b: "booked inp slot used st" and nc: "\<not> conflictAt inp st slot m"
    and pl: "placements st m' = Some (c, t)" and p: "p \<in> set (matchPlayers inp m)"
    and p': "p \<in> set (matchPlayers inp m')"
  shows "apart inp slot t"
proof -
  have np: "\<not> player_conflict inp st slot p" using nc p by (auto simp: conflictAt_def list_ex_iff)
  from b pl p' obtain t' where t: "t \<le> slot" "p \<in> set (occupied st t)" "lastSlot st p = Some t'" "t \<le> t'"
    by (fastforce simp: booked_def)
  then have "t \<noteq> slot" using np by (auto simp: player_conflict_def)
  moreover have "minRestSlots inp > 0 \<longrightarrow> slot - t' > minRestSlots inp"
    using np t by (auto simp: player_conflict_def)
  ultimately show ?thesis using t by (auto simp: apart_def)
qed

lemma apart_sym: "apart inp a b = apart inp b a"
  by (auto simp: apart_def abs_minus_commute)

lemma conflict_free_put:
  assumes cf: "conflict_free inp (placements st)" and b: "booked inp slot used st"
    and nc: "\<not> conflictAt inp st slot m" and c: "c \<notin> used" and m: "placements st m = None"
  shows "conflict_free inp (placements (put_match inp d slot m c st))"
  unfolding conflict_free_def put_match_simps
proof (intro conjI allI impI)
  fix m1 m2 c' t
  assume a: "((placements st)(m \<mapsto> (c, slot))) m1 = Some (c', t) \<and>
    ((placements st)(m \<mapsto> (c, slot))) m2 = Some (c', t)"
  have new: "placements st x \<noteq> Some (c, slot)" for x using b c by (auto simp: booked_def)
  show "m1 = m2"
  proof (cases "m1 = m \<or> m2 = m")
    case True
    then show ?thesis using a new by (auto split: if_splits)
  next
    case False
    then have "placements st m1 = Some (c', t)" "placements st m2 = Some (c', t)" using a by auto
    then show ?thesis using cf unfolding conflict_free_def by blast
  qed
next
  fix m1 m2 c1 t1 c2 t2
  assume a: "((placements st)(m \<mapsto> (c, slot))) m1 = Some (c1, t1) \<and>
    ((placements st)(m \<mapsto> (c, slot))) m2 = Some (c2, t2) \<and> m1 \<noteq> m2 \<and>
    set (matchPlayers inp m1) \<inter> set (matchPlayers inp m2) \<noteq> {}"
  then obtain p where p: "p \<in> set (matchPlayers inp m1)" "p \<in> set (matchPlayers inp m2)" by blast
  consider "m1 = m" | "m2 = m" | "m1 \<noteq> m" "m2 \<noteq> m" by blast
  then show "apart inp t1 t2"
  proof cases
    case 1
    then have "placements st m2 = Some (c2, t2)" "t1 = slot" using a by auto
    then show ?thesis using no_conflict_apart [OF b nc _ _ p(2)] p(1) 1 by simp
  next
    case 2
    then have "placements st m1 = Some (c1, t1)" "t2 = slot" using a by auto
    then show ?thesis using no_conflict_apart [OF b nc _ _ p(1)] p(2) 2 apart_sym by simp
  next
    case 3
    then have "placements st m1 = Some (c1, t1)" "placements st m2 = Some (c2, t2)" using a by auto
    then show ?thesis using cf a unfolding conflict_free_def by blast
  qed
qed

lemma booked_put:
  assumes "booked inp slot used st"
  shows "booked inp slot (insert c used) (put_match inp d slot m c st)"
  unfolding booked_def put_match_simps
proof (intro allI impI)
  fix m' c' t assume a: "((placements st)(m \<mapsto> (c, slot))) m' = Some (c', t)"
  show "t \<le> slot \<and> (t = slot \<longrightarrow> c' \<in> insert c used)
    \<and> (\<forall>p\<in>set (matchPlayers inp m'). p \<in> set (((occupied st)(slot := matchPlayers inp m @ occupied st slot)) t)
      \<and> (\<exists>t'. (if p \<in> set (matchPlayers inp m) then Some slot else lastSlot st p) = Some t' \<and> t \<le> t'))"
  proof (cases "m' = m")
    case True
    then show ?thesis using a by auto
  next
    case False
    then have "placements st m' = Some (c', t)" using a by simp
    then have "t \<le> slot \<and> (t = slot \<longrightarrow> c' \<in> used) \<and> (\<forall>p\<in>set (matchPlayers inp m').
        p \<in> set (occupied st t) \<and> (\<exists>t'. lastSlot st p = Some t' \<and> t \<le> t'))"
      using assms unfolding booked_def by blast
    then show ?thesis by auto
  qed
qed

section \<open>Progress: what each division has placed\<close>

definition all_of :: "arr_input \<Rightarrow> division \<Rightarrow> mid list" where
  "all_of inp d = concat (divRounds inp d)"

definition rest :: "arr_input \<Rightarrow> arr_state \<Rightarrow> division \<Rightarrow> mid list" where
  "rest inp st d = drop (pos st d) (concat (drop (roundIdx st d) (divRounds inp d)))"

definition consumed :: "arr_input \<Rightarrow> arr_state \<Rightarrow> division \<Rightarrow> mid list" where
  "consumed inp st d = take (length (all_of inp d) - length (rest inp st d)) (all_of inp d)"

definition wf_input :: "arr_input \<Rightarrow> bool" where
  "wf_input inp \<longleftrightarrow> distinct (divOrder inp)
    \<and> distinct (concat (map (all_of inp) (divOrder inp)))
    \<and> totalMatches inp = int (length (concat (map (all_of inp) (divOrder inp))))
    \<and> (\<forall>d\<in>set (divOrder inp). [] \<notin> set (divRounds inp d) \<and> courts_for inp d \<noteq> [])
    \<and> minRestSlots inp \<ge> 0"

definition progress :: "arr_input \<Rightarrow> arr_state \<Rightarrow> bool" where
  "progress inp st \<longleftrightarrow>
    (\<forall>d\<in>set (divOrder inp). roundIdx st d < length (divRounds inp d) \<longrightarrow>
      pos st d \<le> length (divRounds inp d ! roundIdx st d))
    \<and> dom (placements st) = (\<Union>d\<in>set (divOrder inp). set (consumed inp st d))
    \<and> (\<forall>d\<in>set (divOrder inp). \<forall>m\<in>set (consumed inp st d).
        \<exists>t. \<exists>c\<in>set (courts_for inp d). placements st m = Some (c, t))
    \<and> scheduled st = (\<Sum>d\<in>set (divOrder inp). length (consumed inp st d))
    \<and> remaining st = totalMatches inp - int (scheduled st)"

definition strict :: "arr_input \<Rightarrow> arr_state \<Rightarrow> bool" where
  "strict inp st \<longleftrightarrow> (\<forall>d\<in>set (divOrder inp). roundIdx st d < length (divRounds inp d) \<longrightarrow>
      pos st d < length (divRounds inp d ! roundIdx st d))"

lemma rest_suffix: "\<exists>xs. all_of inp d = xs @ rest inp st d"
proof -
  have "all_of inp d = concat (take (roundIdx st d) (divRounds inp d))
      @ concat (drop (roundIdx st d) (divRounds inp d))"
    unfolding all_of_def by (metis append_take_drop_id concat_append)
  then show ?thesis
    unfolding rest_def by (metis append_assoc append_take_drop_id)
qed

lemma consumed_rest: "consumed inp st d @ rest inp st d = all_of inp d"
proof -
  obtain xs where xs: "all_of inp d = xs @ rest inp st d" using rest_suffix by blast
  then have "consumed inp st d = xs" by (simp add: consumed_def)
  with xs show ?thesis by simp
qed

lemma rest_round:
  assumes "roundIdx st d < length (divRounds inp d)"
    and "pos st d < length (divRounds inp d ! roundIdx st d)"
  shows "rest inp st d = divRounds inp d ! roundIdx st d ! pos st d #
    drop (pos st d + 1) (concat (drop (roundIdx st d) (divRounds inp d)))"
proof -
  let ?r = "divRounds inp d ! roundIdx st d"
  have c: "concat (drop (roundIdx st d) (divRounds inp d)) =
      ?r @ concat (drop (Suc (roundIdx st d)) (divRounds inp d))"
    using assms(1) by (simp add: Cons_nth_drop_Suc [symmetric])
  have "drop (pos st d) ?r = ?r ! pos st d # drop (Suc (pos st d)) ?r"
    using assms(2) by (simp add: Cons_nth_drop_Suc)
  then show ?thesis using assms(2) unfolding rest_def c by (simp add: drop_Cons')
qed

lemma consumed_put:
  assumes "roundIdx st d < length (divRounds inp d)"
    and "pos st d < length (divRounds inp d ! roundIdx st d)"
    and "m = divRounds inp d ! roundIdx st d ! pos st d"
  shows "consumed inp (put_match inp d slot m c st) d = consumed inp st d @ [m]"
    and "e \<noteq> d \<Longrightarrow> consumed inp (put_match inp d slot m c st) e = consumed inp st e"
proof -
  have r: "rest inp st d = m # rest inp (put_match inp d slot m c st) d"
    using rest_round [OF assms(1,2)] assms(3) by (simp add: rest_def)
  have "consumed inp (put_match inp d slot m c st) d @ rest inp (put_match inp d slot m c st) d =
      consumed inp st d @ [m] @ rest inp (put_match inp d slot m c st) d"
    using consumed_rest [of inp st d] consumed_rest [of inp "put_match inp d slot m c st" d] r by simp
  then show "consumed inp (put_match inp d slot m c st) d = consumed inp st d @ [m]" by simp
  show "e \<noteq> d \<Longrightarrow> consumed inp (put_match inp d slot m c st) e = consumed inp st e"
    by (simp add: consumed_def rest_def)
qed

lemma next_not_placed:
  assumes wf: "wf_input inp" and pr: "progress inp st" and d: "d \<in> set (divOrder inp)"
    and r: "roundIdx st d < length (divRounds inp d)"
      "pos st d < length (divRounds inp d ! roundIdx st d)"
  shows "placements st (divRounds inp d ! roundIdx st d ! pos st d) = None"
proof -
  let ?m = "divRounds inp d ! roundIdx st d ! pos st d"
  have all: "all_of inp d = consumed inp st d @ ?m # tl (rest inp st d)"
    using consumed_rest [of inp st d] rest_round [OF r] by simp
  have dd: "distinct (concat (map (all_of inp) (divOrder inp)))" and dord: "distinct (divOrder inp)"
    using wf by (simp_all add: wf_input_def)
  have "distinct (all_of inp d)" using dd d by (auto simp: distinct_concat_iff)
  then have "?m \<notin> set (consumed inp st d)" unfolding all by auto
  moreover have "?m \<notin> set (consumed inp st e)" if e: "e \<in> set (divOrder inp)" "e \<noteq> d" for e
  proof -
    obtain i j where ij: "i < length (divOrder inp)" "divOrder inp ! i = d"
      "j < length (divOrder inp)" "divOrder inp ! j = e"
      using d e by (auto simp: in_set_conv_nth)
    then have "set (all_of inp d) \<inter> set (all_of inp e) = {}"
      using concat_disjoint_nth [OF dd, of i j] e(2) by auto
    moreover have "?m \<in> set (all_of inp d)" using all by (metis in_set_conv_decomp)
    moreover have "set (consumed inp st e) \<subseteq> set (all_of inp e)"
      by (metis consumed_rest le_supI1 order_refl set_append)
    ultimately show ?thesis by blast
  qed
  ultimately have "?m \<notin> dom (placements st)" using pr by (auto simp: progress_def)
  then show ?thesis by (simp only: domIff not_not)
qed

lemma progress_put:
  assumes pr: "progress inp st" and d: "d \<in> set (divOrder inp)"
    and r: "roundIdx st d < length (divRounds inp d)"
      "pos st d < length (divRounds inp d ! roundIdx st d)"
    and m: "m = divRounds inp d ! roundIdx st d ! pos st d" and c: "c \<in> set (courts_for inp d)"
    and new: "placements st m = None"
  shows "progress inp (put_match inp d slot m c st)"
proof -
  let ?st = "put_match inp d slot m c st"
  note cd = consumed_put(1) [OF r m, of slot c] and ce = consumed_put(2) [OF r m, of _ slot c]
  have "(\<Union>e\<in>set (divOrder inp). set (consumed inp ?st e)) =
      insert m (\<Union>e\<in>set (divOrder inp). set (consumed inp st e))"
  proof -
    have "set (consumed inp ?st e) = (if e = d then insert m (set (consumed inp st e)) else set (consumed inp st e))" for e
      using cd ce by auto
    then show ?thesis using d by auto
  qed
  moreover have "(\<Sum>e\<in>set (divOrder inp). length (consumed inp ?st e)) =
      (\<Sum>e\<in>set (divOrder inp). length (consumed inp st e)) + 1"
    using d cd ce by (simp add: sum.remove [of "set (divOrder inp)" d])
  moreover have "\<forall>e\<in>set (divOrder inp). \<forall>x\<in>set (consumed inp ?st e).
        \<exists>t. \<exists>c\<in>set (courts_for inp e). placements ?st x = Some (c, t)"
  proof (intro ballI)
    fix e x assume e: "e \<in> set (divOrder inp)" and x: "x \<in> set (consumed inp ?st e)"
    show "\<exists>t. \<exists>c\<in>set (courts_for inp e). placements ?st x = Some (c, t)"
    proof (cases "x \<in> set (consumed inp st e)")
      case True
      then obtain t c' where "c' \<in> set (courts_for inp e)" "placements st x = Some (c', t)"
        using pr e unfolding progress_def by blast
      then show ?thesis using new by (cases "x = m") auto
    next
      case False
      then have "e = d" "x = m" using x cd ce by (cases "e = d"; auto)+
      then show ?thesis using c by auto
    qed
  qed
  ultimately show ?thesis
    using pr r(2) unfolding progress_def by auto
qed

definition arr_inv :: "arr_input \<Rightarrow> int \<Rightarrow> int set \<Rightarrow> arr_state \<Rightarrow> bool" where
  "arr_inv inp slot used st \<longleftrightarrow>
    conflict_free inp (placements st) \<and> booked inp slot used st \<and> progress inp st"

lemma arr_inv_put:
  assumes wf: "wf_input inp" and d: "d \<in> set (divOrder inp)" and inv: "arr_inv inp slot used st"
    and r: "roundIdx st d < length (divRounds inp d)"
      "pos st d < length (divRounds inp d ! roundIdx st d)"
    and m: "m = divRounds inp d ! roundIdx st d ! pos st d"
    and c: "c \<in> set (courts_for inp d)" "c \<notin> used" and nc: "\<not> conflictAt inp st slot m"
  shows "arr_inv inp slot (insert c used) (put_match inp d slot m c st)"
proof -
  have i: "conflict_free inp (placements st)" "booked inp slot used st" "progress inp st"
    using inv by (simp_all add: arr_inv_def)
  have new: "placements st m = None" using next_not_placed [OF wf i(3) d r] m by simp
  show ?thesis
    unfolding arr_inv_def
    using conflict_free_put [OF i(1,2) nc c(2) new] booked_put [OF i(2)]
      progress_put [OF i(3) d r m c(1) new] by blast
qed

lemma fill_courts_inv:
  assumes "wf_input inp" and "d \<in> set (divOrder inp)"
    and "arr_inv inp slot (fst us) (snd us)"
    and "roundIdx (snd us) d < length (divRounds inp d)"
    and "round = divRounds inp d ! roundIdx (snd us) d"
    and "set cs \<subseteq> set (courts_for inp d)"
  shows "arr_inv inp slot (fst (fill_courts inp d slot round cs us)) (snd (fill_courts inp d slot round cs us))
    \<and> roundIdx (snd (fill_courts inp d slot round cs us)) = roundIdx (snd us)
    \<and> (\<forall>e. e \<noteq> d \<longrightarrow> pos (snd (fill_courts inp d slot round cs us)) e = pos (snd us) e)
    \<and> scheduled (snd us) \<le> scheduled (snd (fill_courts inp d slot round cs us))"
  using assms
proof (induction inp d slot round cs us rule: fill_courts.induct)
  case (1 inp d slot round us)
  then show ?case by simp
next
  case (2 inp d slot round c cs used st)
  show ?case
  proof (cases "pos st d \<ge> length round")
    case True
    with "2.prems" show ?thesis by simp
  next
    case p: False
    show ?thesis
    proof (cases "c \<in> used")
      case True
      with p "2.IH"(1) [OF p True] "2.prems" show ?thesis by simp
    next
      case u: False
      define m where "m = round ! pos st d"
      show ?thesis
      proof (cases "conflictAt inp st slot m")
        case True
        with p u "2.prems" show ?thesis by (simp add: m_def)
      next
        case nc: False
        let ?st = "put_match inp d slot m c st"
        have r: "roundIdx st d < length (divRounds inp d)"
          "pos st d < length (divRounds inp d ! roundIdx st d)"
          "m = divRounds inp d ! roundIdx st d ! pos st d"
          using "2.prems" p m_def by simp_all
        have inv: "arr_inv inp slot (insert c used) ?st"
          using arr_inv_put [OF "2.prems"(1,2) _ r _ u nc] "2.prems"(3,6) by simp
        have step: "fill_courts inp d slot round (c # cs) (used, st) =
            fill_courts inp d slot round cs (insert c used, ?st)"
          using p u nc by (simp add: m_def)
        show ?thesis
          unfolding step using "2.IH"(2) [OF p u m_def] nc inv "2.prems" by simp
      qed
    qed
  qed
qed

text \<open>With nobody in the way and no court taken, the first court gets a match.\<close>

lemma fill_courts_places:
  assumes "pos st d < length round" and "cs \<noteq> []" and "\<forall>m. \<not> conflictAt inp st slot m"
    and "wf_input inp" "d \<in> set (divOrder inp)" "arr_inv inp slot {} st"
    "roundIdx st d < length (divRounds inp d)" "round = divRounds inp d ! roundIdx st d"
    "set cs \<subseteq> set (courts_for inp d)"
  shows "scheduled st < scheduled (snd (fill_courts inp d slot round cs ({}, st)))"
proof -
  obtain c cs' where cs: "cs = c # cs'" using assms(2) by (cases cs) auto
  define m where "m = round ! pos st d"
  let ?st = "put_match inp d slot m c st"
  have inv: "arr_inv inp slot {c} ?st"
    using arr_inv_put [OF assms(4-7), of m c] assms(1,3,8,9) cs m_def by simp
  have "scheduled ?st \<le> scheduled (snd (fill_courts inp d slot round cs' ({c}, ?st)))"
    using fill_courts_inv [OF assms(4,5), of slot "({c}, ?st)" round cs'] inv assms(7-9) cs by simp
  then show ?thesis
    using assms(1,3) cs by (simp add: m_def Let_def)
qed

definition round_done :: "division \<Rightarrow> arr_state \<Rightarrow> arr_state" where
  "round_done d st = st\<lparr>roundIdx := (roundIdx st)(d := roundIdx st d + 1), pos := (pos st)(d := 0)\<rparr>"

lemma round_done_simps [simp]:
  "placements (round_done d st) = placements st" "occupied (round_done d st) = occupied st"
  "lastSlot (round_done d st) = lastSlot st" "scheduled (round_done d st) = scheduled st"
  "remaining (round_done d st) = remaining st"
  "roundIdx (round_done d st) = (roundIdx st)(d := roundIdx st d + 1)"
  "pos (round_done d st) = (pos st)(d := 0)"
  by (simp_all add: round_done_def)

lemma arr_inv_round_done:
  assumes inv: "arr_inv inp slot used st" and r: "roundIdx st d < length (divRounds inp d)"
    and p: "pos st d = length (divRounds inp d ! roundIdx st d)"
  shows "arr_inv inp slot used (round_done d st)"
proof -
  have rest: "rest inp (round_done d st) e = rest inp st e" for e
  proof (cases "e = d")
    case True
    have "concat (drop (roundIdx st d) (divRounds inp d)) =
      divRounds inp d ! roundIdx st d @ concat (drop (Suc (roundIdx st d)) (divRounds inp d))"
      using r by (simp add: Cons_nth_drop_Suc [symmetric])
    then show ?thesis using True p by (simp add: rest_def)
  qed (simp add: rest_def)
  then have "consumed inp (round_done d st) e = consumed inp st e" for e
    by (simp add: consumed_def)
  then show ?thesis
    using inv by (simp add: arr_inv_def booked_def progress_def)
qed

lemma div_slot_inv:
  assumes wf: "wf_input inp" and d: "d \<in> set (divOrder inp)"
    and inv: "arr_inv inp slot (fst us) (snd us)" and st: "strict inp (snd us)"
  shows "arr_inv inp slot (fst (div_slot inp slot d us)) (snd (div_slot inp slot d us))
    \<and> strict inp (snd (div_slot inp slot d us))
    \<and> scheduled (snd us) \<le> scheduled (snd (div_slot inp slot d us))"
proof (cases "roundIdx (snd us) d < length (divRounds inp d)")
  case False
  then show ?thesis using inv st by (simp add: div_slot_def)
next
  case r: True
  let ?round = "divRounds inp d ! roundIdx (snd us) d"
  obtain used st' where f: "fill_courts inp d slot ?round (courts_for inp d) us = (used, st')"
    by fastforce
  have F: "arr_inv inp slot used st'" "roundIdx st' = roundIdx (snd us)"
    "\<forall>e. e \<noteq> d \<longrightarrow> pos st' e = pos (snd us) e" "scheduled (snd us) \<le> scheduled st'"
    using fill_courts_inv [OF wf d inv r refl, of "courts_for inp d"] f by simp_all
  have ne: "\<forall>r\<in>set (divRounds inp d). 0 < length r" using wf d by (auto simp: wf_input_def)
  show ?thesis
  proof (cases "pos st' d \<ge> length ?round")
    case True
    have "pos st' d \<le> length ?round"
      using F(1,2) d r by (auto simp: arr_inv_def progress_def)
    then have p: "pos st' d = length (divRounds inp d ! roundIdx st' d)" using True F(2) by simp
    have ds: "div_slot inp slot d us = (used, round_done d st')"
      using r f True by (simp add: div_slot_def round_done_def Let_def)
    have "strict inp (round_done d st')"
      using st F(2,3) ne by (auto simp: strict_def)
    then show ?thesis
      unfolding ds using arr_inv_round_done [OF F(1) _ p] r F(2,4) by simp
  next
    case False
    then have ds: "div_slot inp slot d us = (used, st')"
      using r f by (simp add: div_slot_def Let_def)
    have "strict inp st'"
      unfolding strict_def
    proof (intro ballI impI)
      fix e assume "e \<in> set (divOrder inp)" "roundIdx st' e < length (divRounds inp e)"
      then show "pos st' e < length (divRounds inp e ! roundIdx st' e)"
        using st F(2,3) False by (cases "e = d") (auto simp: strict_def)
    qed
    then show ?thesis unfolding ds using F by simp
  qed
qed

section \<open>What a slot can change\<close>

definition grow :: "int \<Rightarrow> arr_state \<Rightarrow> arr_state \<Rightarrow> bool" where
  "grow slot st st' \<longleftrightarrow> scheduled st \<le> scheduled st'
    \<and> (scheduled st' = scheduled st \<longrightarrow> lastSlot st' = lastSlot st \<and> occupied st' = occupied st)
    \<and> (\<forall>p t. lastSlot st' p = Some t \<longrightarrow> lastSlot st p = Some t \<or> t = slot)
    \<and> (\<forall>t. t \<noteq> slot \<longrightarrow> occupied st' t = occupied st t)"

lemma grow_refl [intro, simp]: "grow slot st st"
  by (simp add: grow_def)

lemma grow_trans [trans]: "grow slot a b \<Longrightarrow> grow slot b c \<Longrightarrow> grow slot a c"
  unfolding grow_def by (smt (verit, best) le_antisym le_trans)

lemma grow_put: "grow slot st (put_match inp d slot m c st)"
  by (simp add: grow_def)

lemma grow_fill_courts: "grow slot (snd us) (snd (fill_courts inp d slot round cs us))"
proof (induction inp d slot round cs us rule: fill_courts.induct)
  case (1 inp d slot round us)
  then show ?case by simp
next
  case (2 inp d slot round c cs used st)
  show ?case
  proof (cases "pos st d \<ge> length round \<or> c \<in> used \<or> conflictAt inp st slot (round ! pos st d)")
    case True
    then show ?thesis using "2.IH"(1) by (auto simp: Let_def)
  next
    case False
    then have "grow slot (put_match inp d slot (round ! pos st d) c st)
        (snd (fill_courts inp d slot round cs (insert c used, put_match inp d slot (round ! pos st d) c st)))"
      using "2.IH"(2) by simp
    from grow_trans [OF grow_put this] show ?thesis using False by (simp add: Let_def)
  qed
qed

lemma grow_div_slot: "grow slot (snd us) (snd (div_slot inp slot d us))"
proof -
  obtain used st' where f: "fill_courts inp d slot (divRounds inp d ! roundIdx (snd us) d) (courts_for inp d) us
      = (used, st')" by fastforce
  then have "grow slot (snd us) st'" using grow_fill_courts by (metis snd_conv)
  then show ?thesis using f by (simp add: div_slot_def Let_def grow_def)
qed

lemma grow_fold: "grow slot (snd us) (snd (fold (div_slot inp slot) ds us))"
proof (induction ds arbitrary: us)
  case (Cons d ds)
  show ?case using grow_trans [OF grow_div_slot Cons] by simp
qed simp

lemma div_fold_inv:
  assumes "wf_input inp" and "set ds \<subseteq> set (divOrder inp)"
    and "arr_inv inp slot (fst us) (snd us)" and "strict inp (snd us)"
  shows "(\<exists>used. arr_inv inp slot used (snd (fold (div_slot inp slot) ds us)))
    \<and> strict inp (snd (fold (div_slot inp slot) ds us))"
  using assms
proof (induction ds arbitrary: us)
  case Nil
  then show ?case by auto
next
  case (Cons d ds)
  have d: "d \<in> set (divOrder inp)" using Cons.prems(2) by simp
  note D = div_slot_inv [OF Cons.prems(1) d Cons.prems(3,4)]
  show ?case using Cons.IH [of "div_slot inp slot d us"] Cons.prems D by simp
qed

text \<open>A slot without conflicts puts at least one match on while any is left.\<close>

lemma div_fold_places:
  assumes wf: "wf_input inp" and "set ds \<subseteq> set (divOrder inp)"
    and inv: "arr_inv inp slot {} st" and str: "strict inp st"
    and free: "\<forall>m. \<not> conflictAt inp st slot m"
    and left: "\<exists>d\<in>set ds. roundIdx st d < length (divRounds inp d)"
  shows "scheduled st < scheduled (snd (fold (div_slot inp slot) ds ({}, st)))"
  using assms(2) left
proof (induction ds)
  case Nil
  then show ?case by simp
next
  case (Cons d ds)
  have d: "d \<in> set (divOrder inp)" using Cons.prems(1) by simp
  show ?case
  proof (cases "roundIdx st d < length (divRounds inp d)")
    case False
    then have "div_slot inp slot d ({}, st) = ({}, st)" by (simp add: div_slot_def)
    then show ?thesis using Cons False by auto
  next
    case True
    let ?round = "divRounds inp d ! roundIdx st d"
    have ne: "courts_for inp d \<noteq> []" using wf d by (simp add: wf_input_def)
    have "pos st d < length ?round" using str d True by (simp add: strict_def)
    then have lt: "scheduled st < scheduled (snd (fill_courts inp d slot ?round (courts_for inp d) ({}, st)))"
      using fill_courts_places [OF _ ne free wf d inv True refl] by simp
    obtain used st' where f: "fill_courts inp d slot ?round (courts_for inp d) ({}, st) = (used, st')"
      by fastforce
    have "scheduled (snd (div_slot inp slot d ({}, st))) = scheduled st'"
      using f True by (simp add: div_slot_def Let_def)
    then have "scheduled st < scheduled (snd (div_slot inp slot d ({}, st)))" using lt f by simp
    also have "\<dots> \<le> scheduled (snd (fold (div_slot inp slot) ds (div_slot inp slot d ({}, st))))"
      using grow_fold by (simp add: grow_def)
    finally show ?thesis by simp
  qed
qed

lemma length_consumed: "length (consumed inp st d) \<le> length (all_of inp d)"
  by (simp add: consumed_def)

lemma left_division:
  assumes wf: "wf_input inp" and pr: "progress inp st" and "remaining st > 0"
  shows "\<exists>d\<in>set (divOrder inp). roundIdx st d < length (divRounds inp d)"
proof (rule ccontr)
  assume "\<not> ?thesis"
  then have "\<forall>d\<in>set (divOrder inp). rest inp st d = []" by (auto simp: rest_def not_less)
  then have "\<forall>d\<in>set (divOrder inp). length (consumed inp st d) = length (all_of inp d)"
    by (metis append_Nil2 consumed_rest)
  then have "scheduled st = (\<Sum>d\<in>set (divOrder inp). length (all_of inp d))"
    using pr by (simp add: progress_def)
  also have "\<dots> = (\<Sum>d\<leftarrow>divOrder inp. length (all_of inp d))"
    using wf by (simp add: wf_input_def sum_list_distinct_conv_sum_set)
  also have "\<dots> = length (concat (map (all_of inp) (divOrder inp)))"
    by (simp add: length_concat comp_def)
  finally show False
    using wf pr assms(3) by (simp add: wf_input_def progress_def)
qed

section \<open>The slot loop\<close>

text \<open>Between slots: everything placed lies before \<open>slot\<close>.\<close>

definition idle :: "arr_input \<Rightarrow> int \<Rightarrow> arr_state \<Rightarrow> bool" where
  "idle inp slot st \<longleftrightarrow> arr_inv inp slot {} st \<and> strict inp st"

text \<open>
  The pace: with \<open>L\<close> one past the last used slot, every used slot was paid for by a match
  and at most \<open>minRestSlots\<close> slots in a row stay empty.
\<close>

definition pace :: "arr_input \<Rightarrow> int \<Rightarrow> arr_state \<Rightarrow> bool" where
  "pace inp slot st \<longleftrightarrow> (\<exists>L. L \<le> slot
    \<and> (\<forall>p t. lastSlot st p = Some t \<longrightarrow> t < L) \<and> (\<forall>t\<ge>L. occupied st t = [])
    \<and> L \<le> int (scheduled st) * (minRestSlots inp + 1)
    \<and> (remaining st > 0 \<longrightarrow> slot \<le> L + minRestSlots inp))"

lemma booked_next: "booked inp slot used st \<Longrightarrow> booked inp (slot + 1) {} st"
  unfolding booked_def by fastforce

lemma idle_pass: "wf_input inp \<Longrightarrow> idle inp slot st \<Longrightarrow> idle inp (slot + 1) (slot_pass inp slot st)"
proof -
  assume wf: "wf_input inp" and id: "idle inp slot st"
  from div_fold_inv [OF wf subset_refl, of slot "({}, st)"] id
  obtain used where "arr_inv inp slot used (slot_pass inp slot st)" "strict inp (slot_pass inp slot st)"
    unfolding idle_def slot_pass_def by auto
  then show ?thesis using booked_next by (auto simp: idle_def arr_inv_def)
qed

lemma pace_pass:
  assumes wf: "wf_input inp" and id: "idle inp slot st" and pc: "pace inp slot st"
    and rem: "remaining st > 0"
  shows "pace inp (slot + 1) (slot_pass inp slot st)"
proof -
  let ?st = "slot_pass inp slot st"
  let ?r = "minRestSlots inp"
  have r0: "0 \<le> ?r" using wf by (simp add: wf_input_def)
  obtain L where L: "L \<le> slot" "\<forall>p t. lastSlot st p = Some t \<longrightarrow> t < L" "\<forall>t\<ge>L. occupied st t = []"
    "L \<le> int (scheduled st) * (?r + 1)" "slot \<le> L + ?r"
    using pc rem unfolding pace_def by blast
  have g: "grow slot st ?st"
    unfolding slot_pass_def using grow_fold [of slot "({}, st)"] by simp
  show ?thesis
  proof (cases "scheduled ?st = scheduled st")
    case True
    then have same: "lastSlot ?st = lastSlot st" "occupied ?st = occupied st"
      using g by (simp_all add: grow_def)
    have "slot < L + ?r"
    proof (rule ccontr)
      assume "\<not> slot < L + ?r"
      then have e: "slot = L + ?r" using L(5) by simp
      have "\<not> player_conflict inp st slot p" for p
      proof -
        have "occupied st slot = []" using L(3) e r0 by simp
        moreover have "\<not> slot - t \<le> ?r" if "lastSlot st p = Some t" for t
          using L(2) that e by fastforce
        ultimately show ?thesis by (auto simp: player_conflict_def split: option.splits)
      qed
      then have "\<forall>m. \<not> conflictAt inp st slot m" by (auto simp: conflictAt_def list_ex_iff)
      then have "scheduled st < scheduled ?st"
        unfolding slot_pass_def
        using div_fold_places [OF wf subset_refl _ _ _ left_division [OF wf _ rem]] id
        by (simp add: idle_def arr_inv_def)
      then show False using True by simp
    qed
    then show ?thesis
      unfolding pace_def same True using L by (intro exI [of _ L]) auto
  next
    case False
    then have inc: "scheduled st + 1 \<le> scheduled ?st" using g by (auto simp: grow_def)
    have "slot + 1 \<le> int (scheduled ?st) * (?r + 1)"
    proof -
      have "slot + 1 \<le> int (scheduled st) * (?r + 1) + (?r + 1)" using L(4,5) by simp
      also have "\<dots> = int (scheduled st + 1) * (?r + 1)" by (simp add: algebra_simps)
      also have "\<dots> \<le> int (scheduled ?st) * (?r + 1)"
        using inc r0 by (intro mult_right_mono) simp_all
      finally show ?thesis .
    qed
    moreover have "\<forall>p t. lastSlot ?st p = Some t \<longrightarrow> t < slot + 1"
      using g L(1,2) unfolding grow_def by (smt (verit))
    moreover have "\<forall>t\<ge>slot + 1. occupied ?st t = []"
      using g L(1,3) by (auto simp: grow_def)
    ultimately show ?thesis
      unfolding pace_def using r0 by (intro exI [of _ "slot + 1"]) auto
  qed
qed

lemma slot_loop_result:
  assumes "wf_input inp" and "idle inp slot st" and "pace inp slot st"
  shows "\<exists>slot'. idle inp slot' (slot_loop inp slot st) \<and> remaining (slot_loop inp slot st) \<le> 0"
  using assms
proof (induction inp slot st rule: slot_loop.induct)
  case (1 inp slot st)
  show ?case
  proof (cases "remaining st > 0")
    case False
    then have "slot_loop inp slot st = st" by (simp add: slot_loop.simps)
    then show ?thesis using "1.prems" False by auto
  next
    case True
    let ?r = "minRestSlots inp"
    have pr: "progress inp st" using "1.prems"(2) by (simp add: idle_def arr_inv_def)
    have r0: "0 \<le> ?r" using "1.prems"(1) by (simp add: wf_input_def)
    obtain L where "L \<le> int (scheduled st) * (?r + 1)" "slot \<le> L + ?r"
      using "1.prems"(3) True unfolding pace_def by blast
    moreover have "int (scheduled st) + 1 \<le> totalMatches inp" using pr True by (simp add: progress_def)
    then have "(int (scheduled st) + 1) * (?r + 1) \<le> totalMatches inp * (?r + 1)"
      using r0 by (intro mult_right_mono) simp_all
    then have "int (scheduled st) * (?r + 1) + (?r + 1) \<le> totalMatches inp * (?r + 1)"
      by (simp add: algebra_simps)
    ultimately have "slot \<le> maxSlots inp" by (simp add: maxSlots_def)
    then have go: "remaining st > 0 \<and> slot \<le> maxSlots inp" using True by simp
    then have "slot_loop inp slot st = slot_loop inp (slot + 1) (slot_pass inp slot st)"
      by (simp add: slot_loop.simps [of inp slot st])
    then show ?thesis
      using "1.IH" [OF go "1.prems"(1) idle_pass [OF "1.prems"(1,2)] pace_pass [OF "1.prems" True]] by simp
  qed
qed

lemma arr_init_idle: "wf_input inp \<Longrightarrow> idle inp 0 (arr_init inp) \<and> pace inp 0 (arr_init inp)"
proof -
  assume wf: "wf_input inp"
  have r: "rest inp (arr_init inp) d = all_of inp d" for d
    by (simp add: rest_def all_of_def arr_init_def)
  then have c: "consumed inp (arr_init inp) d = []" for d by (simp add: consumed_def)
  have "\<forall>d\<in>set (divOrder inp). \<forall>r\<in>set (divRounds inp d). 0 < length r"
    using wf by (auto simp: wf_input_def)
  then have "strict inp (arr_init inp)" by (auto simp: strict_def arr_init_def)
  moreover have "progress inp (arr_init inp)"
    unfolding progress_def c by (auto simp: arr_init_def)
  moreover have "conflict_free inp (placements (arr_init inp))" "booked inp 0 {} (arr_init inp)"
    by (simp_all add: conflict_free_def booked_def arr_init_def)
  moreover have "pace inp 0 (arr_init inp)"
    using wf by (auto simp: pace_def arr_init_def wf_input_def intro!: exI [of _ 0])
  ultimately show ?thesis by (simp add: idle_def arr_inv_def)
qed

text \<open>
  C24: The interleaved arranger places everything and never clashes. For divisions with distinct
  matches, no empty round and at least one court each, and a rest of zero or more slots, the
  defensive slot bound is never what stops the loop: every match is placed, exactly the given ones,
  each on a court of its own division; no court gets two matches in a slot; and two matches that
  share a player lie in different slots, more than the rest apart.
\<close>
theorem interleaved_places_all_without_conflict:
  assumes "wf_input inp" and "arrangePlacements inp True = Some (P, n)"
  shows "dom P = set (concat (map (all_of inp) (divOrder inp)))
    \<and> int n = totalMatches inp \<and> conflict_free inp P
    \<and> (\<forall>d\<in>set (divOrder inp). \<forall>m\<in>set (all_of inp d).
        \<exists>t. \<exists>c\<in>set (courts_for inp d). P m = Some (c, t))"
proof -
  define st where "st = slot_loop inp 0 (arr_init inp)"
  obtain slot' where inv: "idle inp slot' st" and rem: "remaining st \<le> 0"
    using slot_loop_result [OF assms(1)] arr_init_idle [OF assms(1)] unfolding st_def by blast
  have Pn: "P = placements st" "n = scheduled st"
    using assms(2) by (simp_all add: arrangePlacements_def st_def Let_def)
  have pr: "progress inp st" and cf: "conflict_free inp (placements st)"
    using inv by (simp_all add: idle_def arr_inv_def)
  have le: "length (consumed inp st d) \<le> length (all_of inp d)" for d by (rule length_consumed)
  have tot: "totalMatches inp = int (\<Sum>d\<in>set (divOrder inp). length (all_of inp d))"
    using assms(1)
    by (simp add: wf_input_def length_concat comp_def sum_list_distinct_conv_sum_set)
  have "(\<Sum>d\<in>set (divOrder inp). length (all_of inp d)) \<le>
      (\<Sum>d\<in>set (divOrder inp). length (consumed inp st d))"
  proof -
    have "scheduled st = (\<Sum>d\<in>set (divOrder inp). length (consumed inp st d))"
      and "remaining st = totalMatches inp - int (scheduled st)"
      using pr by (simp_all only: progress_def)
    then show ?thesis using rem tot by linarith
  qed
  moreover have "(\<Sum>d\<in>set (divOrder inp). length (consumed inp st d)) \<le>
      (\<Sum>d\<in>set (divOrder inp). length (all_of inp d))"
    using le by (rule sum_mono)
  ultimately have eq: "(\<Sum>d\<in>set (divOrder inp). length (consumed inp st d)) =
      (\<Sum>d\<in>set (divOrder inp). length (all_of inp d))" by simp
  have c: "consumed inp st d = all_of inp d" if "d \<in> set (divOrder inp)" for d
  proof -
    have "length (consumed inp st d) = length (all_of inp d)"
      using sum_mono_inv [OF eq le that] by simp
    then show ?thesis using consumed_rest [of inp st d] by (metis append_eq_append_conv append_Nil2)
  qed
  show ?thesis
    using pr cf c eq tot Pn by (auto simp: progress_def)
qed

definition two_divisions :: arr_input where
  "two_divisions = \<lparr>divOrder = [''A'', ''B''],
    divRounds = (\<lambda>d. if d = ''A'' then [[''m1'', ''m2''], [''m3'']] else if d = ''B'' then [[''m4'']] else []),
    divCourts = (\<lambda>d. if d = ''A'' then [1] else []), courtNums = [1, 2],
    matchPlayers = (\<lambda>m. if m = ''m1'' then [''a'', ''b''] else if m = ''m2'' then [''c'', ''d'']
      else if m = ''m3'' then [''a'', ''c''] else [''a'', ''e'']),
    totalMatches = 4, minRestSlots = 1\<rparr>"

lemma interleaved_places_all_without_conflict_witness:
  "wf_input two_divisions \<and> (\<exists>P n. arrangePlacements two_divisions True = Some (P, n)
    \<and> dom P = {''m1'', ''m2'', ''m3'', ''m4''} \<and> conflict_free two_divisions P)"
proof -
  have wf: "wf_input two_divisions"
    by (auto simp: wf_input_def two_divisions_def all_of_def courts_for_def)
  have e: "arrangePlacements two_divisions True =
      Some (placements (slot_loop two_divisions 0 (arr_init two_divisions)),
        scheduled (slot_loop two_divisions 0 (arr_init two_divisions)))"
    by (simp add: arrangePlacements_def Let_def)
  have ids: "set (concat (map (all_of two_divisions) (divOrder two_divisions))) =
      {''m1'', ''m2'', ''m3'', ''m4''}"
    by (auto simp: two_divisions_def all_of_def)
  note t = interleaved_places_all_without_conflict [OF wf e, unfolded ids]
  show ?thesis
    by (rule conjI [OF wf], intro exI conjI, rule e, rule conjunct1 [OF t],
        rule conjunct1 [OF conjunct2 [OF conjunct2 [OF t]]])
qed

section \<open>The sequential mode\<close>

text \<open>The rounds in the order the sequential mode plays them, each with its court list.\<close>

definition jobs :: "arr_input \<Rightarrow> (int list \<times> mid list) list" where
  "jobs inp = concat (map (\<lambda>d. map (\<lambda>r. (courts_for inp d, r)) (divRounds inp d)) (divOrder inp))"

fun seq_jobs :: "(int list \<times> mid list) list \<Rightarrow> int \<Rightarrow> arr_state \<Rightarrow> (int \<times> arr_state) option" where
  "seq_jobs [] slot st = Some (slot, st)"
| "seq_jobs ((cs, r) # js) slot st =
    (case seq_round cs r slot 0 st of
       None \<Rightarrow> None
     | Some (slot', st') \<Rightarrow> seq_jobs js (slot' + 1) st')"

lemma seq_jobs_append:
  "seq_jobs (js @ js') slot st =
    (case seq_jobs js slot st of None \<Rightarrow> None | Some (slot', st') \<Rightarrow> seq_jobs js' slot' st')"
  by (induction js slot st rule: seq_jobs.induct) (auto split: option.splits)

lemma seq_rounds_jobs: "seq_rounds cs rs slot st = seq_jobs (map (\<lambda>r. (cs, r)) rs) slot st"
  by (induction cs rs slot st rule: seq_rounds.induct) (auto split: option.splits)

lemma seq_divs_jobs:
  "seq_divs inp ds slot st =
    seq_jobs (concat (map (\<lambda>d. map (\<lambda>r. (courts_for inp d, r)) (divRounds inp d)) ds)) slot st"
  by (induction inp ds slot st rule: seq_divs.induct)
    (auto simp: seq_rounds_jobs seq_jobs_append split: option.splits)

lemma seq_round_spec:
  assumes "0 < length cs" and "k \<le> length cs" and "distinct ms"
  shows "\<exists>slot' st'. seq_round cs ms slot k st = Some (slot', st')
    \<and> (\<forall>i<length ms. placements st' (ms ! i) =
        Some (cs ! ((k + i) mod length cs), slot + int ((k + i) div length cs))
        \<and> slot + int ((k + i) div length cs) \<le> slot')
    \<and> (\<forall>m. m \<notin> set ms \<longrightarrow> placements st' m = placements st m)
    \<and> scheduled st' = scheduled st + length ms \<and> slot \<le> slot'"
  using assms
proof (induction ms arbitrary: slot k st)
  case Nil
  then show ?case by simp
next
  case (Cons m ms)
  let ?n = "length cs"
  define s1 where "s1 = (if k = ?n then slot + 1 else slot)"
  define i1 where "i1 = (if k = ?n then 0 else k)"
  have i1: "i1 < ?n" and idx: "i1 = k mod ?n" "s1 = slot + int (k div ?n)"
    using Cons.prems by (auto simp: i1_def s1_def)
  have step: "seq_round cs (m # ms) slot k st = seq_round cs ms s1 (i1 + 1) (place m (cs ! i1) s1 st)"
    using i1 Cons.prems(1,2) by (auto simp: s1_def i1_def Let_def)
  from Cons.IH [of "i1 + 1" s1 "place m (cs ! i1) s1 st"] Cons.prems i1
  obtain slot' st' where IH: "seq_round cs ms s1 (i1 + 1) (place m (cs ! i1) s1 st) = Some (slot', st')"
    "\<forall>i<length ms. placements st' (ms ! i) =
        Some (cs ! ((i1 + 1 + i) mod ?n), s1 + int ((i1 + 1 + i) div ?n))
        \<and> s1 + int ((i1 + 1 + i) div ?n) \<le> slot'"
    "\<forall>m'. m' \<notin> set ms \<longrightarrow> placements st' m' = placements (place m (cs ! i1) s1 st) m'"
    "scheduled st' = scheduled (place m (cs ! i1) s1 st) + length ms" "s1 \<le> slot'"
    by auto
  have shift: "(i1 + 1 + i) mod ?n = (k + Suc i) mod ?n"
    "s1 + int ((i1 + 1 + i) div ?n) = slot + int ((k + Suc i) div ?n)" for i
  proof -
    have e: "k + Suc i = (i1 + 1 + i) + ?n * (k div ?n)" using idx by simp
    show "(i1 + 1 + i) mod ?n = (k + Suc i) mod ?n" unfolding e by simp
    have "(k + Suc i) div ?n = (i1 + 1 + i) div ?n + k div ?n"
      unfolding e by (rule div_mult_self2 [of ?n "i1 + 1 + i" "k div ?n", THEN trans]) (use Cons.prems(1) in simp_all)
    then show "s1 + int ((i1 + 1 + i) div ?n) = slot + int ((k + Suc i) div ?n)" using idx by simp
  qed
  have first: "placements st' m = Some (cs ! (k mod ?n), slot + int (k div ?n))"
    using IH(3) Cons.prems(3) idx by (simp add: place_def)
  have le: "slot \<le> s1" by (simp add: s1_def)
  show ?case
  proof (intro exI [of _ slot'] exI [of _ st'] conjI)
    show "seq_round cs (m # ms) slot k st = Some (slot', st')" using step IH(1) by simp
    show "\<forall>i<length (m # ms). placements st' ((m # ms) ! i) =
        Some (cs ! ((k + i) mod ?n), slot + int ((k + i) div ?n)) \<and> slot + int ((k + i) div ?n) \<le> slot'"
      unfolding length_Cons All_less_Suc2 using first IH(2) [unfolded shift] IH(5) idx(2) by simp
    show "\<forall>m'. m' \<notin> set (m # ms) \<longrightarrow> placements st' m' = placements st m'"
      using IH(3) by (simp add: place_def)
    show "scheduled st' = scheduled st + length (m # ms)" using IH(4) by (simp add: place_def)
    show "slot \<le> slot'" using IH(5) le by simp
  qed
qed

text \<open>
  A schedule of rounds: every match on a court of its division, no court twice in a slot, and every
  round wholly before the next.
\<close>

definition rounds_in_order :: "(mid \<rightharpoonup> int \<times> int) \<Rightarrow> (int list \<times> mid list) list \<Rightarrow> int \<Rightarrow> bool" where
  "rounds_in_order P js lo \<longleftrightarrow>
    (\<forall>i<length js. \<forall>m\<in>set (snd (js ! i)). \<exists>c\<in>set (fst (js ! i)). \<exists>t\<ge>lo. P m = Some (c, t))
    \<and> (\<forall>i<length js. \<forall>m\<in>set (snd (js ! i)). \<forall>m'\<in>set (snd (js ! i)). P m = P m' \<longrightarrow> m = m')
    \<and> (\<forall>j<length js. \<forall>i<j. \<forall>m\<in>set (snd (js ! i)). \<forall>m'\<in>set (snd (js ! j)).
        snd (the (P m)) < snd (the (P m')))"

lemma seq_jobs_spec:
  assumes "\<forall>j\<in>set js. fst j \<noteq> [] \<and> distinct (fst j)" and "distinct (concat (map snd js))"
  shows "\<exists>slot' st'. seq_jobs js slot st = Some (slot', st')
    \<and> rounds_in_order (placements st') js slot
    \<and> (\<forall>m. m \<notin> set (concat (map snd js)) \<longrightarrow> placements st' m = placements st m)
    \<and> scheduled st' = scheduled st + length (concat (map snd js))"
  using assms
proof (induction js arbitrary: slot st)
  case Nil
  then show ?case by (simp add: rounds_in_order_def)
next
  case (Cons j js)
  obtain cs r where j: "j = (cs, r)" by fastforce
  have cs: "0 < length cs" "distinct cs" and r: "distinct r"
    and disj: "set r \<inter> set (concat (map snd js)) = {}"
    using Cons.prems j by auto
  obtain s1 st1 where R: "seq_round cs r slot 0 st = Some (s1, st1)"
    "\<forall>i<length r. placements st1 (r ! i) = Some (cs ! (i mod length cs), slot + int (i div length cs))
      \<and> slot + int (i div length cs) \<le> s1"
    "\<forall>m. m \<notin> set r \<longrightarrow> placements st1 m = placements st m"
    "scheduled st1 = scheduled st + length r" "slot \<le> s1"
    using seq_round_spec [OF cs(1), of 0 r slot st] r by auto
  obtain s2 st2 where J: "seq_jobs js (s1 + 1) st1 = Some (s2, st2)"
    "rounds_in_order (placements st2) js (s1 + 1)"
    "\<forall>m. m \<notin> set (concat (map snd js)) \<longrightarrow> placements st2 m = placements st1 m"
    "scheduled st2 = scheduled st1 + length (concat (map snd js))"
    using Cons.IH [of "s1 + 1" st1] Cons.prems by auto
  have keep: "placements st2 m = placements st1 m" if "m \<in> set r" for m
    using J(3) disj that by blast
  have pl: "\<exists>i<length r. m = r ! i \<and> placements st2 m =
      Some (cs ! (i mod length cs), slot + int (i div length cs)) \<and> slot + int (i div length cs) \<le> s1"
    if m: "m \<in> set r" for m
  proof -
    obtain i where "i < length r" "r ! i = m" using m by (auto simp: in_set_conv_nth)
    then show ?thesis using R(2) keep [OF m] by (intro exI [of _ i]) auto
  qed
  have first: "\<exists>c\<in>set cs. \<exists>t\<ge>slot. placements st2 m = Some (c, t)" if "m \<in> set r" for m
    using pl [OF that] cs(1) by fastforce
  have uniq: "m = m'" if m: "m \<in> set r" "m' \<in> set r" "placements st2 m = placements st2 m'" for m m'
  proof -
    obtain i i' where i: "m = r ! i" "m' = r ! i'"
      "cs ! (i mod length cs) = cs ! (i' mod length cs)" "i div length cs = i' div length cs"
      using pl [OF m(1)] pl [OF m(2)] m(3) by auto
    then have "i mod length cs = i' mod length cs"
      using cs by (simp add: nth_eq_iff_index_eq)
    then have "i = i'" using i(4) by (metis div_mult_mod_eq)
    with i show ?thesis by simp
  qed
  have before: "snd (the (placements st2 m)) < snd (the (placements st2 m'))"
    if m: "m \<in> set r" and k: "k < length js" "m' \<in> set (snd (js ! k))" for m m' k
  proof -
    have "snd (the (placements st2 m)) \<le> s1" using pl [OF m] by auto
    moreover obtain c t where "s1 + 1 \<le> t" "placements st2 m' = Some (c, t)"
      using J(2) k unfolding rounds_in_order_def by blast
    ultimately show ?thesis by simp
  qed
  have "rounds_in_order (placements st2) (j # js) slot"
    unfolding rounds_in_order_def
  proof (intro conjI)
    show "\<forall>i<length (j # js). \<forall>m\<in>set (snd ((j # js) ! i)).
        \<exists>c\<in>set (fst ((j # js) ! i)). \<exists>t\<ge>slot. placements st2 m = Some (c, t)"
      unfolding length_Cons All_less_Suc2
    proof (intro conjI)
      show "\<forall>m\<in>set (snd ((j # js) ! 0)). \<exists>c\<in>set (fst ((j # js) ! 0)). \<exists>t\<ge>slot. placements st2 m = Some (c, t)"
        using first j by simp
      show "\<forall>i<length js. \<forall>m\<in>set (snd ((j # js) ! Suc i)).
          \<exists>c\<in>set (fst ((j # js) ! Suc i)). \<exists>t\<ge>slot. placements st2 m = Some (c, t)"
      proof (intro allI impI ballI)
        fix i m assume i: "i < length js" and m: "m \<in> set (snd ((j # js) ! Suc i))"
        have "\<forall>m\<in>set (snd (js ! i)). \<exists>c\<in>set (fst (js ! i)). \<exists>t\<ge>s1 + 1. placements st2 m = Some (c, t)"
          using J(2) i unfolding rounds_in_order_def by blast
        then obtain c t where "c \<in> set (fst (js ! i))" "s1 + 1 \<le> t" "placements st2 m = Some (c, t)"
          using m by auto
        then show "\<exists>c\<in>set (fst ((j # js) ! Suc i)). \<exists>t\<ge>slot. placements st2 m = Some (c, t)"
          using R(5) by (intro bexI [of _ c] exI [of _ t]) auto
      qed
    qed
    show "\<forall>i<length (j # js). \<forall>m\<in>set (snd ((j # js) ! i)). \<forall>m'\<in>set (snd ((j # js) ! i)).
        placements st2 m = placements st2 m' \<longrightarrow> m = m'"
      unfolding length_Cons All_less_Suc2 using uniq j J(2) by (simp add: rounds_in_order_def)
    show "\<forall>ja<length (j # js). \<forall>i<ja. \<forall>m\<in>set (snd ((j # js) ! i)). \<forall>m'\<in>set (snd ((j # js) ! ja)).
        snd (the (placements st2 m)) < snd (the (placements st2 m'))"
    proof (intro allI impI ballI)
      fix ja i m m'
      assume a: "ja < length (j # js)" "i < ja" "m \<in> set (snd ((j # js) ! i))" "m' \<in> set (snd ((j # js) ! ja))"
      then obtain k where k: "ja = Suc k" "k < length js" by (cases ja) auto
      show "snd (the (placements st2 m)) < snd (the (placements st2 m'))"
      proof (cases i)
        case 0
        then show ?thesis using before [of m k m'] a k j by simp
      next
        case (Suc i')
        then have "i' < k" "m \<in> set (snd (js ! i'))" "m' \<in> set (snd (js ! k))" using a k by simp_all
        then show ?thesis using J(2) k(2) unfolding rounds_in_order_def by blast
      qed
    qed
  qed
  moreover have "seq_jobs (j # js) slot st = Some (s2, st2)" using R(1) J(1) j by simp
  ultimately show ?case
    using J(3,4) R(3,4) j by (intro exI [of _ s2] exI [of _ st2]) auto
qed

text \<open>
  The sequential arranger. When every division has at least one court (each listed once) and the
  match ids are distinct, it does not panic, places every match on a court of its division, never
  puts two matches on one court in one slot, and finishes each round, division after division, before
  the next begins; so two matches in one slot are of one round. The rest setting plays no part.
\<close>
theorem sequential_rounds_in_order:
  assumes "\<forall>d\<in>set (divOrder inp). courts_for inp d \<noteq> [] \<and> distinct (courts_for inp d)"
    and "distinct (concat (map snd (jobs inp)))"
  shows "\<exists>P n. arrangePlacements inp False = Some (P, n)
    \<and> n = length (concat (map snd (jobs inp))) \<and> rounds_in_order P (jobs inp) 0"
proof -
  have "\<forall>j\<in>set (jobs inp). fst j \<noteq> [] \<and> distinct (fst j)"
    using assms(1) by (auto simp: jobs_def)
  from seq_jobs_spec [OF this assms(2), of 0 "arr_init inp"]
  show ?thesis
    by (auto simp: arrangePlacements_def seq_divs_jobs jobs_def [symmetric] arr_init_def)
qed

lemma sequential_rounds_in_order_witness:
  "\<exists>P n. arrangePlacements two_divisions False = Some (P, n) \<and> n = 4
    \<and> rounds_in_order P (jobs two_divisions) 0"
proof -
  have j: "jobs two_divisions = [([1], [''m1'', ''m2'']), ([1], [''m3'']), ([1, 2], [''m4''])]"
    by (simp add: jobs_def two_divisions_def courts_for_def)
  have "\<forall>d\<in>set (divOrder two_divisions). courts_for two_divisions d \<noteq> []
      \<and> distinct (courts_for two_divisions d)"
    by (auto simp: two_divisions_def courts_for_def)
  moreover have "distinct (concat (map snd (jobs two_divisions)))" unfolding j by simp
  ultimately obtain P n where "arrangePlacements two_divisions False = Some (P, n)"
    "n = length (concat (map snd (jobs two_divisions)))" "rounds_in_order P (jobs two_divisions) 0"
    using sequential_rounds_in_order [of two_divisions] by blast
  then show ?thesis unfolding j by auto
qed

text \<open>
  Neither the rest between a player's matches nor the players themselves matter to the sequential mode,
  whatever the comment on \<open>arrangePlacements\<close> promises.
\<close>

lemma sequential_ignores_rest:
  "arrangePlacements (inp\<lparr>minRestSlots := k, matchPlayers := who\<rparr>) False = arrangePlacements inp False"
proof -
  have "seq_divs (inp\<lparr>minRestSlots := k, matchPlayers := who\<rparr>) ds slot st = seq_divs inp ds slot st" for ds slot st
    by (induction ds arbitrary: slot st) (auto simp: courts_for_def split: option.split prod.split)
  then show ?thesis by (simp add: arrangePlacements_def arr_init_def)
qed

end
