(* ===== verification/Match_Db.thy ===== *)
theory Match_Db
  imports Scoring
begin

text \<open>
  The match tables the scoring handlers of \<open>internal/service/service.go\<close> read and write, and the
  queries on them: \<open>matches\<close>, \<open>match_participants\<close> (whose primary key is match and player),
  \<open>events\<close>, \<open>rounds\<close>, \<open>brackets\<close> (an id with its event) and \<open>score_reports\<close>.
  \<open>matches\<close> is kept in play order, the order the handlers ask for. A nullable text column reads as the empty string when null
  (\<open>asStr\<close>), a nullable number as 0 (\<open>asInt\<close>). The PostgREST transport does not fail in the
  model; every check the handlers make themselves is an error branch.
\<close>

section \<open>Rows\<close>

datatype match_status = Scheduled | InProgress | Completed | Canceled

record mrow =
  m_id :: string
  m_event :: string
  m_bracket :: string
  m_stage :: string
  m_tier :: string
  m_group :: string
  m_round :: int
  m_slot :: int
  m_status :: match_status
  m_feeds :: "(string \<times> int) option"
  m_loserFeeds :: "(string \<times> int) option"
  m_score1 :: "int option"
  m_score2 :: "int option"
  m_winner :: int
  m_games :: "GameScore list option"
  m_resultType :: string
  m_countsForDiff :: bool
  m_tie :: string
  m_line :: string
  m_court :: string
  m_day :: "int option"
  m_roundId :: string
  m_order :: "int option"

record prow =
  p_match :: string
  p_player :: pid
  p_team :: int

record erow =
  e_id :: string
  e_status :: string
  e_autoStart :: bool
  e_pointsToWin :: int
  e_winBy :: int
  e_bestOf :: int
  e_playoffPtw :: int
  e_playoffWinBy :: int
  e_playoffSize :: int
  e_perpetual :: bool
  e_format :: string
  e_playerScoring :: bool
  e_confirmMinutes :: int
  e_name :: string

datatype report_status = Pending | Confirmed | Disputed | Superseded

record srow =
  s_id :: string
  s_match :: string
  s_team :: int
  s_team1Score :: int
  s_team2Score :: int
  s_status :: report_status
  s_expires :: int

record rrow =
  r_id :: string
  r_status :: string
  r_event :: string
  r_bracket :: string
  r_number :: int

record db =
  db_matches :: "mrow list"
  db_parts :: "prow list"
  db_events :: "erow list"
  db_reports :: "srow list"
  db_rounds :: "rrow list"
  db_brackets :: "(string \<times> string) list"

datatype flow_error =
    NotFound
  | TeamsUndecided
  | BadWinningTeam
  | BadResultType
  | BadSeries score_error
  | NoBracketId
  | OpponentTBD
  | HasResult
  | OtherError string

section \<open>Queries and updates\<close>

text \<open>A new bracket match: scheduled, no feeds, no result.\<close>

definition bracket_row :: "string \<Rightarrow> string \<Rightarrow> string \<Rightarrow> string \<Rightarrow> string \<Rightarrow> int \<Rightarrow> int \<Rightarrow> mrow" where
  "bracket_row i ev bid tier grp rd sl = \<lparr>m_id = i, m_event = ev, m_bracket = bid, m_stage = ''bracket'',
    m_tier = tier, m_group = grp, m_round = rd, m_slot = sl, m_status = Scheduled, m_feeds = None,
    m_loserFeeds = None, m_score1 = None, m_score2 = None, m_winner = 0, m_games = None,
    m_resultType = ''normal'', m_countsForDiff = True, m_tie = [], m_line = [], m_court = [],
    m_day = None, m_roundId = [], m_order = None\<rparr>"

definition find_match :: "string \<Rightarrow> db \<Rightarrow> mrow option" where
  "find_match i d = List.find (\<lambda>m. m_id m = i) (db_matches d)"

definition find_event :: "string \<Rightarrow> db \<Rightarrow> erow option" where
  "find_event i d = List.find (\<lambda>e. e_id e = i) (db_events d)"

definition update_match :: "string \<Rightarrow> (mrow \<Rightarrow> mrow) \<Rightarrow> db \<Rightarrow> db" where
  "update_match i f d =
    d\<lparr>db_matches := map (\<lambda>m. if m_id m = i then f m else m) (db_matches d)\<rparr>"

definition delete_slot :: "string \<Rightarrow> int \<Rightarrow> db \<Rightarrow> db" where
  "delete_slot i t d =
    d\<lparr>db_parts := filter (\<lambda>p. \<not> (p_match p = i \<and> p_team p = t)) (db_parts d)\<rparr>"

definition delete_parts :: "string \<Rightarrow> db \<Rightarrow> db" where
  "delete_parts i d = d\<lparr>db_parts := filter (\<lambda>p. p_match p \<noteq> i) (db_parts d)\<rparr>"

definition delete_match :: "string \<Rightarrow> db \<Rightarrow> db" where
  "delete_match i d = d\<lparr>db_matches := filter (\<lambda>m. m_id m \<noteq> i) (db_matches d)\<rparr>"

text \<open>The players of a match's team slot (\<open>slotPlayers\<close>).\<close>

definition slotPlayers :: "string \<Rightarrow> int \<Rightarrow> db \<Rightarrow> pid list" where
  "slotPlayers i t d = map p_player (filter (\<lambda>p. p_match p = i \<and> p_team p = t) (db_parts d))"

text \<open>Upsert on the key match, player: merge into the row with that key, append otherwise.\<close>

definition upsert_part :: "prow \<Rightarrow> prow list \<Rightarrow> prow list" where
  "upsert_part r ps =
    (if \<exists>p\<in>set ps. p_match p = p_match r \<and> p_player p = p_player r
     then map (\<lambda>p. if p_match p = p_match r \<and> p_player p = p_player r
                    then p\<lparr>p_team := p_team r\<rparr> else p) ps
     else ps @ [r])"

definition upsert_parts :: "prow list \<Rightarrow> db \<Rightarrow> db" where
  "upsert_parts rows d = d\<lparr>db_parts := fold upsert_part rows (db_parts d)\<rparr>"

definition bye_side :: "pid list \<Rightarrow> bool" where
  "bye_side s \<longleftrightarrow> s = [''__BYE__'']"

definition insertSide :: "string \<Rightarrow> int \<Rightarrow> pid list \<Rightarrow> db \<Rightarrow> db" where
  "insertSide i t side d =
    (if side = [] \<or> bye_side side then d
     else upsert_parts (map (\<lambda>p. \<lparr>p_match = i, p_player = p, p_team = t\<rparr>) side) d)"

text \<open>Same player ids, counted (\<open>sameSet\<close>).\<close>

definition sameSet :: "pid list \<Rightarrow> pid list \<Rightarrow> bool" where
  "sameSet a b \<longleftrightarrow> length a = length b \<and> list_all (\<lambda>v. count_list a v = count_list b v) (a @ b)"

definition bothSidesPresent :: "string \<Rightarrow> db \<Rightarrow> bool" where
  "bothSidesPresent i d =
    (list_ex (\<lambda>p. p_match p = i \<and> p_team p = 1) (db_parts d)
     \<and> list_ex (\<lambda>p. p_match p = i \<and> p_team p = 2) (db_parts d))"

section \<open>The reset cascade and advancement\<close>

definition clear_result :: "mrow \<Rightarrow> mrow" where
  "clear_result m = m\<lparr>m_score1 := None, m_score2 := None, m_winner := 0, m_status := Scheduled,
    m_games := None, m_resultType := ''normal'', m_countsForDiff := True\<rparr>"

definition completed_count :: "db \<Rightarrow> nat" where
  "completed_count d = length (filter (\<lambda>m. m_status m = Completed) (db_matches d))"

text \<open>
  \<open>resetCompletedDownstream\<close>: a completed match goes back to unplayed, what it had advanced is
  cleared, and the matches it fed are reset in turn. None would be a recursion without end.
\<close>

partial_function (option) reset_cascade :: "string \<Rightarrow> db \<Rightarrow> db option" where
  "reset_cascade i d =
    (case find_match i d of
       None \<Rightarrow> Some d
     | Some m \<Rightarrow>
       if m_status m \<noteq> Completed then Some d
       else Option.bind
         (case m_feeds m of
            None \<Rightarrow> Some (update_match i clear_result d)
          | Some fs \<Rightarrow> reset_cascade (fst fs)
              (delete_slot (fst fs) (snd fs) (update_match i clear_result d)))
         (\<lambda>d2. case m_loserFeeds m of
            None \<Rightarrow> Some d2
          | Some fs \<Rightarrow> reset_cascade (fst fs) (delete_slot (fst fs) (snd fs) d2)))"

declare reset_cascade.simps [code]

lemma completed_delete_slot [simp]: "completed_count (delete_slot f s d) = completed_count d"
  by (simp add: completed_count_def delete_slot_def)

lemma find_match_Some: "find_match i d = Some m \<Longrightarrow> m \<in> set (db_matches d) \<and> m_id m = i"
  unfolding find_match_def by (induction "db_matches d" arbitrary: d) (auto simp: find_Some_iff)

lemma completed_clear:
  assumes "find_match i d = Some m" and "m_status m = Completed"
  shows "completed_count (update_match i clear_result d) < completed_count d"
proof -
  have m: "m \<in> set (db_matches d)" "m_id m = i" using find_match_Some [OF assms(1)] by auto
  have "length (filter (\<lambda>m. m_status m = Completed) (map (\<lambda>m. if m_id m = i then clear_result m else m) ms))
      < length (filter (\<lambda>m. m_status m = Completed) ms)" if "m \<in> set ms" for ms
    using that
  proof (induction ms)
    case Nil
    then show ?case by simp
  next
    case (Cons x ms)
    have le: "length (filter (\<lambda>m. m_status m = Completed) (map (\<lambda>m. if m_id m = i then clear_result m else m) ms))
      \<le> length (filter (\<lambda>m. m_status m = Completed) ms)" for ms
      by (induction ms) (auto simp: clear_result_def)
    show ?case
    proof (cases "x = m")
      case True
      then show ?thesis using m(2) assms(2) le [of ms] by (simp add: clear_result_def)
    next
      case False
      then show ?thesis using Cons by (auto simp: clear_result_def)
    qed
  qed
  from this [OF m(1)] show ?thesis by (simp add: completed_count_def update_match_def)
qed

lemma reset_cascade_returns:
  "\<exists>d'. reset_cascade i d = Some d' \<and> completed_count d' \<le> completed_count d"
proof (induction "completed_count d" arbitrary: i d rule: less_induct)
  case less
  show ?case
  proof (cases "find_match i d")
    case None
    then show ?thesis by (simp add: reset_cascade.simps [of i d])
  next
    case (Some m)
    show ?thesis
    proof (cases "m_status m = Completed")
      case False
      with Some show ?thesis by (simp add: reset_cascade.simps [of i d])
    next
      case True
      define d1 where "d1 = update_match i clear_result d"
      have lt: "completed_count d1 < completed_count d"
        unfolding d1_def by (rule completed_clear [OF Some True])
      obtain d2 where d2: "(case m_feeds m of None \<Rightarrow> Some d1
          | Some fs \<Rightarrow> reset_cascade (fst fs) (delete_slot (fst fs) (snd fs) d1)) = Some d2"
        "completed_count d2 \<le> completed_count d1"
        using less [of "delete_slot f s d1" f for f s] lt by (cases "m_feeds m") fastforce+
      obtain d3 where d3: "(case m_loserFeeds m of None \<Rightarrow> Some d2
          | Some fs \<Rightarrow> reset_cascade (fst fs) (delete_slot (fst fs) (snd fs) d2)) = Some d3"
        "completed_count d3 \<le> completed_count d2"
        using less [of "delete_slot f s d2" f for f s] lt d2(2) by (cases "m_loserFeeds m") fastforce+
      have "reset_cascade i d = Some d3"
        unfolding reset_cascade.simps [of i d] using Some True d2(1) [unfolded d1_def] d3(1) by simp
      then show ?thesis using lt d2(2) d3(2) by auto
    qed
  qed
qed

definition resetCompletedDownstream :: "string \<Rightarrow> db \<Rightarrow> db" where
  "resetCompletedDownstream i d = the (reset_cascade i d)"

lemma reset_cascade_eq: "reset_cascade i d = Some (resetCompletedDownstream i d)"
  using reset_cascade_returns [of i d] by (auto simp: resetCompletedDownstream_def)

text \<open>The recursion equation, total.\<close>

lemma resetCompletedDownstream_rec:
  "resetCompletedDownstream i d =
    (case find_match i d of
       None \<Rightarrow> d
     | Some m \<Rightarrow>
       if m_status m \<noteq> Completed then d
       else
         let d2 = (case m_feeds m of
               None \<Rightarrow> update_match i clear_result d
             | Some fs \<Rightarrow> resetCompletedDownstream (fst fs)
                 (delete_slot (fst fs) (snd fs) (update_match i clear_result d)))
         in (case m_loserFeeds m of
               None \<Rightarrow> d2
             | Some fs \<Rightarrow> resetCompletedDownstream (fst fs) (delete_slot (fst fs) (snd fs) d2)))"
proof -
  have "Some (resetCompletedDownstream i d) = reset_cascade i d" by (simp add: reset_cascade_eq)
  also have "\<dots> = Some (case find_match i d of
       None \<Rightarrow> d
     | Some m \<Rightarrow>
       if m_status m \<noteq> Completed then d
       else
         let d2 = (case m_feeds m of
               None \<Rightarrow> update_match i clear_result d
             | Some fs \<Rightarrow> resetCompletedDownstream (fst fs)
                 (delete_slot (fst fs) (snd fs) (update_match i clear_result d)))
         in (case m_loserFeeds m of
               None \<Rightarrow> d2
             | Some fs \<Rightarrow> resetCompletedDownstream (fst fs) (delete_slot (fst fs) (snd fs) d2)))"
    by (subst reset_cascade.simps) (auto simp: reset_cascade_eq Let_def split: option.splits)
  finally show ?thesis by simp
qed

definition advanceTeam :: "string \<Rightarrow> int \<Rightarrow> string \<Rightarrow> int \<Rightarrow> db \<Rightarrow> db" where
  "advanceTeam matchID team feedsMatch feedsSlot d =
    (let before = slotPlayers feedsMatch feedsSlot d;
         d1 = delete_slot feedsMatch feedsSlot d;
         side = slotPlayers matchID team d1;
         d2 = insertSide feedsMatch feedsSlot side d1
     in if \<not> sameSet before side then resetCompletedDownstream feedsMatch d2 else d2)"

end
