(* ===== verification/Advancement.thy ===== *)
theory Advancement
  imports Match_Db
begin

text \<open>
  Bracket advancement (\<open>advanceTeam\<close>, \<open>resetCompletedDownstream\<close> and the bracket branch of
  \<open>advanceAfterScore\<close>) against what a draw promises: every slot fed by a finished match holds
  exactly the side that match sends there, and every slot fed by an unfinished one is empty.
\<close>

section \<open>The handler's bracket branch\<close>

definition advance_bracket :: "mrow \<Rightarrow> db \<Rightarrow> db" where
  "advance_bracket m d =
    (let winner = m_winner m; loser = 3 - winner;
         d1 = (case m_feeds m of None \<Rightarrow> d
               | Some (f, s) \<Rightarrow> advanceTeam (m_id m) winner f s d)
     in case m_loserFeeds m of None \<Rightarrow> d1
        | Some (f, s) \<Rightarrow> advanceTeam (m_id m) loser f s d1)"

section \<open>Slots as sets\<close>

definition slot_set :: "string \<Rightarrow> int \<Rightarrow> db \<Rightarrow> pid set" where
  "slot_set i t d = set (slotPlayers i t d)"

lemma slot_set_iff:
  "p \<in> slot_set i t d \<longleftrightarrow> (\<exists>r\<in>set (db_parts d). p_match r = i \<and> p_team r = t \<and> p_player r = p)"
  by (auto simp: slot_set_def slotPlayers_def)

lemma slot_set_update_match [simp]: "slot_set i t (update_match j f d) = slot_set i t d"
  by (simp add: slot_set_def slotPlayers_def update_match_def)

lemma slot_set_delete_slot [simp]:
  "slot_set i t (delete_slot j u d) = (if i = j \<and> t = u then {} else slot_set i t d)"
  by (auto simp: slot_set_iff delete_slot_def)

lemma matches_delete_slot [simp]: "db_matches (delete_slot f s d) = db_matches d"
  by (simp add: delete_slot_def)

lemma matches_insertSide [simp]: "db_matches (insertSide f s side d) = db_matches d"
  by (simp add: insertSide_def upsert_parts_def)

definition keys_ok :: "db \<Rightarrow> bool" where
  "keys_ok d \<longleftrightarrow> distinct (map (\<lambda>r. (p_match r, p_player r)) (db_parts d))"

lemma keys_ok_delete_slot [simp]: "keys_ok d \<Longrightarrow> keys_ok (delete_slot f s d)"
  by (simp add: keys_ok_def delete_slot_def distinct_map_filter)

lemma keys_ok_update_match [simp]: "keys_ok (update_match i f d) = keys_ok d"
  by (simp add: keys_ok_def update_match_def)

lemma in_upsert_part:
  "x \<in> set (upsert_part r ps) \<longleftrightarrow>
    (if \<exists>p\<in>set ps. p_match p = p_match r \<and> p_player p = p_player r
     then (\<exists>p\<in>set ps. x = (if p_match p = p_match r \<and> p_player p = p_player r
                            then p\<lparr>p_team := p_team r\<rparr> else p))
     else x = r \<or> x \<in> set ps)"
  by (auto simp: upsert_part_def)

text \<open>A new player goes in; the player's row in another match is left alone.\<close>

lemma upsert_part_slots:
  assumes "\<not> (\<exists>p\<in>set ps. p_match p = i \<and> p_player p = pl \<and> p_team p \<noteq> t)"
  shows "(\<exists>x\<in>set (upsert_part \<lparr>p_match = i, p_player = pl, p_team = t\<rparr> ps).
      p_match x = j \<and> p_team x = u \<and> p_player x = q) \<longleftrightarrow>
    (\<exists>x\<in>set ps. p_match x = j \<and> p_team x = u \<and> p_player x = q) \<or> (j = i \<and> u = t \<and> q = pl)"
proof (cases "\<exists>p\<in>set ps. p_match p = i \<and> p_player p = pl")
  case False
  then show ?thesis by (auto simp: upsert_part_def)
next
  case True
  have same: "(if p_match p = i \<and> p_player p = pl then p\<lparr>p_team := t\<rparr> else p) = p" if "p \<in> set ps" for p
    using assms that by (cases p) auto
  have "map (\<lambda>p. if p_match p = i \<and> p_player p = pl then p\<lparr>p_team := t\<rparr> else p) ps = ps"
    using same by (intro map_idI) blast
  then have "upsert_part \<lparr>p_match = i, p_player = pl, p_team = t\<rparr> ps = ps"
    using True unfolding upsert_part_def prow.simps by (simp only: if_True)
  then show ?thesis using True assms by auto
qed

lemma fold_upsert_slots:
  assumes "\<forall>pl\<in>set side. \<not> (\<exists>p\<in>set ps. p_match p = i \<and> p_player p = pl \<and> p_team p \<noteq> t)"
  shows "(\<exists>x\<in>set (fold upsert_part (map (\<lambda>p. \<lparr>p_match = i, p_player = p, p_team = t\<rparr>) side) ps).
      p_match x = j \<and> p_team x = u \<and> p_player x = q) \<longleftrightarrow>
    (\<exists>x\<in>set ps. p_match x = j \<and> p_team x = u \<and> p_player x = q) \<or> (j = i \<and> u = t \<and> q \<in> set side)"
  using assms
proof (induction side arbitrary: ps)
  case Nil
  then show ?case by simp
next
  case (Cons pl side)
  let ?ps = "upsert_part \<lparr>p_match = i, p_player = pl, p_team = t\<rparr> ps"
  have pl: "\<not> (\<exists>p\<in>set ps. p_match p = i \<and> p_player p = pl \<and> p_team p \<noteq> t)" using Cons.prems by simp
  note U = upsert_part_slots [OF pl]
  have "\<forall>pl'\<in>set side. \<not> (\<exists>p\<in>set ?ps. p_match p = i \<and> p_player p = pl' \<and> p_team p \<noteq> t)"
  proof
    fix pl' assume "pl' \<in> set side"
    then have "\<not> (\<exists>p\<in>set ps. p_match p = i \<and> p_player p = pl' \<and> p_team p \<noteq> t)" using Cons.prems by simp
    moreover have False if p: "p \<in> set ?ps" "p_match p = i" "p_player p = pl'" "p_team p \<noteq> t" for p
    proof -
      have "\<exists>x\<in>set ?ps. p_match x = i \<and> p_team x = p_team p \<and> p_player x = pl'" using p by blast
      then have "\<exists>x\<in>set ps. p_match x = i \<and> p_team x = p_team p \<and> p_player x = pl'"
        using U [of i "p_team p" pl'] p(4) by simp
      then show False using Cons.prems \<open>pl' \<in> set side\<close> p(4) by auto
    qed
    ultimately show "\<not> (\<exists>p\<in>set ?ps. p_match p = i \<and> p_player p = pl' \<and> p_team p \<noteq> t)"
      by blast
  qed
  from Cons.IH [OF this] show ?case using U [of j u q] by auto
qed

text \<open>
  What may be written into slot \<open>s\<close> of match \<open>f\<close>: real players, none of them in another slot there.
\<close>

definition insertable :: "pid set \<Rightarrow> string \<Rightarrow> int \<Rightarrow> db \<Rightarrow> bool" where
  "insertable side f s d \<longleftrightarrow> ''__BYE__'' \<notin> side \<and> (\<forall>t. t \<noteq> s \<longrightarrow> side \<inter> slot_set f t d = {})"

lemma slot_set_insertSide:
  assumes "insertable (set side) f s d"
  shows "slot_set i t (insertSide f s side d) =
    (if i = f \<and> t = s then slot_set f s d \<union> set side else slot_set i t d)"
proof (cases "side = []")
  case True
  then show ?thesis by (simp add: insertSide_def)
next
  case False
  have nb: "\<not> bye_side side" using assms by (auto simp: bye_side_def insertable_def)
  have "\<forall>pl\<in>set side. \<not> (\<exists>p\<in>set (db_parts d). p_match p = f \<and> p_player p = pl \<and> p_team p \<noteq> s)"
  proof (intro ballI notI)
    fix pl assume pl: "pl \<in> set side"
      and "\<exists>p\<in>set (db_parts d). p_match p = f \<and> p_player p = pl \<and> p_team p \<noteq> s"
    then obtain t where "t \<noteq> s" "pl \<in> slot_set f t d" by (auto simp: slot_set_iff)
    with assms pl show False by (auto simp: insertable_def)
  qed
  note F = fold_upsert_slots [OF this]
  have "q \<in> slot_set i t (insertSide f s side d) \<longleftrightarrow>
      q \<in> slot_set i t d \<or> (i = f \<and> t = s \<and> q \<in> set side)" for q
    using F [of i t q] False nb by (simp add: slot_set_iff insertSide_def upsert_parts_def)
  then show ?thesis by auto
qed

section \<open>Topology\<close>

definition dest :: "mrow \<Rightarrow> bool \<Rightarrow> (string \<times> int) option" where
  "dest m w = (if w then m_feeds m else m_loserFeeds m)"

definition sent_team :: "mrow \<Rightarrow> bool \<Rightarrow> int" where
  "sent_team m w = (if w then m_winner m else 3 - m_winner m)"

definition wf_topo :: "db \<Rightarrow> bool" where
  "wf_topo d \<longleftrightarrow> distinct (map m_id (db_matches d))
    \<and> (\<forall>m\<in>set (db_matches d). \<forall>m'\<in>set (db_matches d). \<forall>w w' x.
        dest m w = Some x \<and> dest m' w' = Some x \<longrightarrow> m_id m = m_id m' \<and> w = w')"

definition edge_ok :: "db \<Rightarrow> mrow \<Rightarrow> bool \<Rightarrow> bool" where
  "edge_ok d m w \<longleftrightarrow> (case dest m w of
      None \<Rightarrow> True
    | Some (f, s) \<Rightarrow> slot_set f s d =
        (if m_status m = Completed then slot_set (m_id m) (sent_team m w) d else {}))"

definition consistent :: "db \<Rightarrow> (string \<times> bool) set \<Rightarrow> bool" where
  "consistent d E \<longleftrightarrow> (\<forall>m\<in>set (db_matches d). \<forall>w. (m_id m, w) \<notin> E \<longrightarrow> edge_ok d m w)"

lemma edge_ok_update_match [simp]: "edge_ok (update_match i f d) m w = edge_ok d m w"
  unfolding edge_ok_def slot_set_update_match ..

abbreviation out_edges :: "string \<Rightarrow> (string \<times> bool) set" where
  "out_edges i \<equiv> {(i, True), (i, False)}"

text \<open>A row after some resets: itself or cleared.\<close>

definition rows_reset :: "db \<Rightarrow> db \<Rightarrow> bool" where
  "rows_reset d d' \<longleftrightarrow> list_all2 (\<lambda>m m'. m' = m \<or> m' = clear_result m) (db_matches d) (db_matches d')"

lemma clear_result_simps [simp]:
  "m_id (clear_result m) = m_id m" "dest (clear_result m) w = dest m w"
  "m_status (clear_result m) = Scheduled" "clear_result (clear_result m) = clear_result m"
  "m_feeds (clear_result m) = m_feeds m" "m_loserFeeds (clear_result m) = m_loserFeeds m"
  by (simp_all add: clear_result_def dest_def)

lemma rows_reset_refl [simp]: "rows_reset d d"
  by (simp add: rows_reset_def list.rel_refl)

lemma rows_reset_trans: "rows_reset a b \<Longrightarrow> rows_reset b c \<Longrightarrow> rows_reset a c"
  unfolding rows_reset_def by (rule list_all2_trans) auto

lemma rows_reset_matches: "db_matches a = db_matches b \<Longrightarrow> rows_reset a b"
  by (simp add: rows_reset_def list.rel_refl)

lemma rows_reset_clear: "rows_reset d (update_match i clear_result d)"
  by (simp add: rows_reset_def update_match_def list_all2_conv_all_nth)

lemma rows_reset_ids: "rows_reset d d' \<Longrightarrow> map m_id (db_matches d') = map m_id (db_matches d)"
  unfolding rows_reset_def by (induction rule: list_all2_induct) auto

lemma rows_reset_back:
  assumes "rows_reset d d'" and "m' \<in> set (db_matches d')"
  obtains m where "m \<in> set (db_matches d)" "m' = m \<or> m' = clear_result m"
proof -
  obtain k where k: "k < length (db_matches d')" "db_matches d' ! k = m'"
    using assms(2) by (auto simp: in_set_conv_nth)
  then have "k < length (db_matches d)" "m' = db_matches d ! k \<or> m' = clear_result (db_matches d ! k)"
    using assms(1) by (auto simp: rows_reset_def list_all2_conv_all_nth)
  then show ?thesis using that nth_mem by blast
qed

lemma wf_topo_reset: "rows_reset d d' \<Longrightarrow> wf_topo d \<Longrightarrow> wf_topo d'"
proof -
  assume r: "rows_reset d d'" and wf: "wf_topo d"
  have origin: "\<exists>n\<in>set (db_matches d). m_id n = m_id m \<and> (\<forall>w. dest n w = dest m w)"
    if "m \<in> set (db_matches d')" for m
    using rows_reset_back [OF r that] by (metis clear_result_simps(1,2))
  show ?thesis
    unfolding wf_topo_def
  proof (intro conjI ballI allI impI)
    show "distinct (map m_id (db_matches d'))"
      using wf rows_reset_ids [OF r] by (simp add: wf_topo_def)
    fix m m' w w' x
    assume m: "m \<in> set (db_matches d')" "m' \<in> set (db_matches d')" "dest m w = Some x \<and> dest m' w' = Some x"
    obtain n n' where "n \<in> set (db_matches d)" "m_id n = m_id m" "dest n w = Some x"
      "n' \<in> set (db_matches d)" "m_id n' = m_id m'" "dest n' w' = Some x"
      using origin [OF m(1)] origin [OF m(2)] m(3) by auto
    with wf show "m_id m = m_id m'" "w = w'" unfolding wf_topo_def by metis+
  qed
qed

lemma same_row:
  assumes "wf_topo d" and "m \<in> set (db_matches d)" "m' \<in> set (db_matches d)" "m_id m = m_id m'"
  shows "m = m'"
  using assms by (auto simp: wf_topo_def distinct_map inj_on_def)

lemma find_match_row:
  assumes "wf_topo d" and "m \<in> set (db_matches d)"
  shows "find_match (m_id m) d = Some m"
proof (cases "find_match (m_id m) d")
  case None
  then show ?thesis using assms(2) by (auto simp: find_match_def find_None_iff)
next
  case (Some m')
  then show ?thesis using find_match_Some [OF Some] same_row [OF assms(1)] assms(2) by auto
qed

section \<open>The cascade restores consistency\<close>

lemma status_of_reset:
  assumes "rows_reset d d'" "m \<in> set (db_matches d)" "m_status m \<noteq> Completed"
    "m' \<in> set (db_matches d')" "m_id m' = m_id m" "wf_topo d"
  shows "m_status m' \<noteq> Completed"
proof -
  obtain n where n: "n \<in> set (db_matches d)" "m' = n \<or> m' = clear_result n"
    using rows_reset_back [OF assms(1,4)] .
  then have "m_id n = m_id m" using assms(5) by auto
  then have "n = m" using same_row [OF assms(6) n(1) assms(2)] by blast
  then show ?thesis using n(2) assms(3) by auto
qed

text \<open>
  Emptying the slot one edge feeds: that edge is right if its match is unplayed, and only the edges
  out of the match that lost its players may be wrong now - none if that match is unplayed.
\<close>

lemma consistent_delete:
  assumes wf: "wf_topo d" and m: "m \<in> set (db_matches d)" "m_status m \<noteq> Completed"
    and e: "dest m w = Some (f, s)" and c: "consistent d (insert (m_id m, w) E)"
  shows "consistent (delete_slot f s d) (E \<union> out_edges f)"
    and "\<forall>n. find_match f d = Some n \<longrightarrow> m_status n \<noteq> Completed \<Longrightarrow> consistent (delete_slot f s d) E"
proof -
  have ok: "edge_ok (delete_slot f s d) n u"
    if n: "n \<in> set (db_matches d)" "(m_id n, u) \<notin> E" and nf: "m_id n \<noteq> f \<or> m_status n \<noteq> Completed"
    for n u
  proof (cases "m_id n = m_id m \<and> u = w")
    case True
    then have "n = m" using same_row [OF wf n(1) m(1)] by blast
    then show ?thesis using True e m(2) by (simp add: edge_ok_def)
  next
    case False
    then have old: "edge_ok d n u" using c n by (auto simp: consistent_def)
    show ?thesis
    proof (cases "dest n u")
      case None
      then show ?thesis by (simp add: edge_ok_def)
    next
      case (Some x)
      obtain f' s' where x: "x = (f', s')" by fastforce
      have "x \<noteq> (f, s)" using False wf n(1) m(1) e Some unfolding wf_topo_def by metis
      then show ?thesis using old Some x nf by (auto simp: edge_ok_def split: if_splits)
    qed
  qed
  show "consistent (delete_slot f s d) (E \<union> out_edges f)"
    unfolding consistent_def matches_delete_slot
  proof (intro ballI allI impI)
    fix n u assume n: "n \<in> set (db_matches d)" "(m_id n, u) \<notin> E \<union> out_edges f"
    then have "m_id n \<noteq> f" by (cases u) auto
    with ok n show "edge_ok (delete_slot f s d) n u" by blast
  qed
  show "consistent (delete_slot f s d) E"
    if un: "\<forall>n. find_match f d = Some n \<longrightarrow> m_status n \<noteq> Completed"
    unfolding consistent_def matches_delete_slot
  proof (intro ballI allI impI)
    fix n u assume n: "n \<in> set (db_matches d)" "(m_id n, u) \<notin> E"
    then have "m_id n \<noteq> f \<or> m_status n \<noteq> Completed" using un find_match_row [OF wf n(1)] by auto
    with ok n show "edge_ok (delete_slot f s d) n u" by blast
  qed
qed

lemma find_match_cong: "db_matches a = db_matches b \<Longrightarrow> find_match i a = find_match i b"
  by (simp add: find_match_def)

text \<open>
  Whatever relation the two writes of the cascade respect - clearing a result, emptying a slot - the
  whole cascade respects.
\<close>

lemma cascade_respects:
  assumes refl: "\<And>d. R d d" and trans: "\<And>a b c. R a b \<Longrightarrow> R b c \<Longrightarrow> R a c"
    and clear: "\<And>i d. R d (update_match i clear_result d)" and del: "\<And>f s d. R d (delete_slot f s d)"
  shows "R d (resetCompletedDownstream i d)"
proof (induction "completed_count d" arbitrary: i d rule: less_induct)
  case less
  show ?case
  proof (cases "\<exists>m. find_match i d = Some m \<and> m_status m = Completed")
    case False
    then have "resetCompletedDownstream i d = d"
      by (subst resetCompletedDownstream_rec) (auto split: option.split)
    then show ?thesis by (simp add: refl)
  next
    case True
    then obtain m where m: "find_match i d = Some m" "m_status m = Completed" by blast
    let ?d1 = "update_match i clear_result d"
    define d2 where "d2 = (case m_feeds m of None \<Rightarrow> ?d1
      | Some fs \<Rightarrow> resetCompletedDownstream (fst fs) (delete_slot (fst fs) (snd fs) ?d1))"
    have lt: "completed_count ?d1 < completed_count d" by (rule completed_clear [OF m])
    have step: "R a (resetCompletedDownstream f (delete_slot f s a))"
      if "completed_count a < completed_count d" for a f s
      by (rule trans [OF del less]) (simp add: that)
    have r2: "R ?d1 d2" by (cases "m_feeds m") (simp_all add: d2_def refl step [OF lt])
    have "completed_count d2 \<le> completed_count ?d1"
      using reset_cascade_returns reset_cascade_eq
      by (auto simp: d2_def split: option.splits) (metis completed_delete_slot option.inject)
    then have lt2: "completed_count d2 < completed_count d" using lt by simp
    have "resetCompletedDownstream i d = (case m_loserFeeds m of None \<Rightarrow> d2
      | Some fs \<Rightarrow> resetCompletedDownstream (fst fs) (delete_slot (fst fs) (snd fs) d2))"
      unfolding resetCompletedDownstream_rec [of i d] d2_def Let_def using m by simp
    then have "R d2 (resetCompletedDownstream i d)"
      by (cases "m_loserFeeds m") (simp_all add: refl step [OF lt2])
    then show ?thesis by (rule trans [OF trans [OF clear r2]])
  qed
qed

lemma cascade_rows: "rows_reset d (resetCompletedDownstream i d)"
  by (rule cascade_respects [where R = rows_reset])
    (rule rows_reset_refl, erule (1) rows_reset_trans, rule rows_reset_clear, rule rows_reset_matches, simp)

lemma cascade_others [simp]:
  "db_reports (resetCompletedDownstream i d) = db_reports d"
  "db_events (resetCompletedDownstream i d) = db_events d"
  "db_brackets (resetCompletedDownstream i d) = db_brackets d"
proof -
  have "db_reports d = db_reports (resetCompletedDownstream i d)
      \<and> db_events d = db_events (resetCompletedDownstream i d)
      \<and> db_brackets d = db_brackets (resetCompletedDownstream i d)"
    by (rule cascade_respects [where R = "\<lambda>a b. db_reports a = db_reports b \<and> db_events a = db_events b
          \<and> db_brackets a = db_brackets b"])
      (simp_all add: update_match_def delete_slot_def)
  then show "db_reports (resetCompletedDownstream i d) = db_reports d"
    "db_events (resetCompletedDownstream i d) = db_events d"
    "db_brackets (resetCompletedDownstream i d) = db_brackets d" by simp_all
qed

lemma advanceTeam_others [simp]:
  "db_reports (advanceTeam i t f s d) = db_reports d" "db_events (advanceTeam i t f s d) = db_events d"
  "db_brackets (advanceTeam i t f s d) = db_brackets d"
  by (simp_all add: advanceTeam_def insertSide_def upsert_parts_def delete_slot_def Let_def)

lemma advance_others [simp]:
  "db_reports (advance_bracket m d) = db_reports d" "db_events (advance_bracket m d) = db_events d"
  "db_brackets (advance_bracket m d) = db_brackets d"
  unfolding advance_bracket_def Let_def
  by (cases "m_feeds m"; cases "m_loserFeeds m"; force)+

text \<open>
  The cascade, from a state where only the edges in \<open>E\<close> and, if match \<open>i\<close> is played, those out of
  \<open>i\<close> may be wrong: afterwards only the edges in \<open>E\<close> may be.
\<close>

lemma cascade_consistent:
  assumes "wf_topo d" and "consistent d (E \<union> out_edges i)"
    and "\<forall>m. find_match i d = Some m \<longrightarrow> m_status m \<noteq> Completed \<Longrightarrow> consistent d E"
  shows "consistent (resetCompletedDownstream i d) E"
  using assms
proof (induction "completed_count d" arbitrary: i d E rule: less_induct)
  case less
  show ?case
  proof (cases "\<exists>m. find_match i d = Some m \<and> m_status m = Completed")
    case False
    then have "resetCompletedDownstream i d = d"
      by (subst resetCompletedDownstream_rec) (auto split: option.splits)
    then show ?thesis using less.prems(3) False by auto
  next
    case True
    then obtain m where fm: "find_match i d = Some m" and cpl: "m_status m = Completed" by blast
    have m: "m \<in> set (db_matches d)" "m_id m = i" using find_match_Some [OF fm] by auto
    let ?d1 = "update_match i clear_result d"
    let ?m1 = "clear_result m"
    have wf1: "wf_topo ?d1" using wf_topo_reset [OF rows_reset_clear less.prems(1)] .
    have m1: "?m1 \<in> set (db_matches ?d1)" using m by (auto simp: update_match_def)
    have lt: "completed_count ?d1 < completed_count d" by (rule completed_clear [OF fm cpl])
    have c1: "consistent ?d1 (E \<union> out_edges i)"
      unfolding consistent_def
    proof (intro ballI allI impI)
      fix n u assume n: "n \<in> set (db_matches ?d1)" "(m_id n, u) \<notin> E \<union> out_edges i"
      then have "m_id n \<noteq> i" by (cases u) auto
      then have "n \<in> set (db_matches d)" using n(1) by (auto simp: update_match_def split: if_splits)
      then have "edge_ok d n u" using less.prems(2) n(2) unfolding consistent_def by blast
      then show "edge_ok ?d1 n u" by simp
    qed
    text \<open>One edge after the other: delete the slot it feeds, reset the match it feeds.\<close>
    have edge: "consistent (case dest m w of None \<Rightarrow> a
          | Some fs \<Rightarrow> resetCompletedDownstream (fst fs) (delete_slot (fst fs) (snd fs) a)) F"
      if a: "completed_count a < completed_count d" "rows_reset ?d1 a"
        "consistent a (insert (i, w) F)" for a w F
    proof -
      have wfa: "wf_topo a" using wf_topo_reset [OF a(2) wf1] .
      have "m_id ?m1 \<in> set (map m_id (db_matches a))"
        unfolding rows_reset_ids [OF a(2)] using m1 by (metis imageI list.set_map)
      then obtain n where n: "n \<in> set (db_matches a)" "m_id n = i" using m by auto
      have nn: "m_status n \<noteq> Completed"
        using status_of_reset [OF a(2) m1 _ n(1) _ wf1] n(2) m(2) by simp
      obtain b where b: "b \<in> set (db_matches ?d1)" "n = b \<or> n = clear_result b"
        using rows_reset_back [OF a(2) n(1)] .
      then have "m_id b = m_id ?m1" using n(2) m(2) by auto
      then have "b = ?m1" using same_row [OF wf1 b(1) m1] by blast
      then have dn: "dest n w = dest m w" using b(2) by auto
      show ?thesis
      proof (cases "dest m w")
        case None
        have "edge_ok a n w" using dn None by (simp add: edge_ok_def)
        have "consistent a F"
          unfolding consistent_def
        proof (intro ballI allI impI)
          fix k u assume k: "k \<in> set (db_matches a)" "(m_id k, u) \<notin> F"
          show "edge_ok a k u"
          proof (cases "m_id k = i \<and> u = w")
            case True
            then have "k = n" using same_row [OF wfa k(1) n(1)] n(2) by simp
            then show ?thesis using True \<open>edge_ok a n w\<close> by simp
          next
            case False
            then show ?thesis using a(3) k by (auto simp: consistent_def)
          qed
        qed
        then show ?thesis using None by simp
      next
        case (Some fs)
        obtain f s where fs: "fs = (f, s)" by fastforce
        have e: "dest n w = Some (f, s)" using dn Some fs by simp
        have c: "consistent a (insert (m_id n, w) F)" using a(3) n(2) by simp
        note D = consistent_delete [OF wfa n(1) nn e c]
        have wfd: "wf_topo (delete_slot f s a)"
          using wf_topo_reset [OF rows_reset_matches wfa] by simp
        have "consistent (resetCompletedDownstream f (delete_slot f s a)) F"
        proof (rule less.hyps [OF _ wfd D(1)])
          show "completed_count (delete_slot f s a) < completed_count d" using a(1) by simp
          show "consistent (delete_slot f s a) F"
            if "\<forall>m. find_match f (delete_slot f s a) = Some m \<longrightarrow> m_status m \<noteq> Completed"
            using D(2) that find_match_cong [of "delete_slot f s a" a] by simp
        qed
        then show ?thesis using Some fs by simp
      qed
    qed
    define d2 where "d2 = (case m_feeds m of None \<Rightarrow> ?d1
      | Some fs \<Rightarrow> resetCompletedDownstream (fst fs) (delete_slot (fst fs) (snd fs) ?d1))"
    have c2: "consistent d2 (insert (i, False) E)"
      using edge [OF lt rows_reset_refl, of True "insert (i, False) E"] c1
      by (simp add: d2_def dest_def)
    have r2: "rows_reset ?d1 d2"
      using cascade_rows rows_reset_trans rows_reset_matches
      by (auto simp: d2_def split: option.splits) (metis matches_delete_slot)
    have "completed_count d2 \<le> completed_count ?d1"
      using reset_cascade_returns reset_cascade_eq
      by (auto simp: d2_def split: option.splits) (metis completed_delete_slot option.inject)
    then have lt2: "completed_count d2 < completed_count d" using lt by simp
    have "resetCompletedDownstream i d = (case m_loserFeeds m of None \<Rightarrow> d2
        | Some fs \<Rightarrow> resetCompletedDownstream (fst fs) (delete_slot (fst fs) (snd fs) d2))"
      unfolding resetCompletedDownstream_rec [of i d] d2_def Let_def using fm cpl by simp
    then show ?thesis using edge [OF lt2 r2 c2] by (simp add: dest_def)
  qed
qed

section \<open>What the cascade leaves alone\<close>

text \<open>Feeds go forward: a rank (the round, say) grows along every feed.\<close>

definition ranked :: "(string \<Rightarrow> nat) \<Rightarrow> db \<Rightarrow> bool" where
  "ranked r d \<longleftrightarrow> (\<forall>m\<in>set (db_matches d). \<forall>w f s. dest m w = Some (f, s) \<longrightarrow> r (m_id m) < r f)"

lemma ranked_reset: "rows_reset d d' \<Longrightarrow> ranked r d \<Longrightarrow> ranked r d'"
  unfolding ranked_def by (metis clear_result_simps(1,2) rows_reset_back)

text \<open>
  Below rank \<open>k\<close> the rows, and up to rank \<open>k\<close> the slots, are untouched; elsewhere slots only lose players.
\<close>

definition frame :: "(string \<Rightarrow> nat) \<Rightarrow> nat \<Rightarrow> db \<Rightarrow> db \<Rightarrow> bool" where
  "frame r k d d' \<longleftrightarrow> rows_reset d d' \<and> (keys_ok d \<longrightarrow> keys_ok d')
    \<and> (\<forall>i. r i < k \<longrightarrow> find_match i d' = find_match i d)
    \<and> (\<forall>i t. slot_set i t d' \<subseteq> slot_set i t d) \<and> (\<forall>i t. r i \<le> k \<longrightarrow> slot_set i t d' = slot_set i t d)"

lemma frame_refl [simp]: "frame r k d d"
  by (simp add: frame_def)

lemma frame_trans: "frame r k a b \<Longrightarrow> frame r k' b c \<Longrightarrow> k \<le> k' \<Longrightarrow> frame r k a c"
  unfolding frame_def using rows_reset_trans [of a b c]
  by (intro conjI allI impI) (meson less_le_trans order_trans | force)+

lemma find_match_update:
  "j \<noteq> i \<Longrightarrow> find_match j (update_match i clear_result d) = find_match j d"
proof -
  assume "j \<noteq> i"
  then have "List.find (\<lambda>m. m_id m = j) (map (\<lambda>m. if m_id m = i then clear_result m else m) ms) =
      List.find (\<lambda>m. m_id m = j) ms" for ms
    by (induction ms) auto
  then show ?thesis by (simp add: find_match_def update_match_def)
qed

lemma frame_clear: "frame r (r i) d (update_match i clear_result d)"
proof -
  have "find_match j (update_match i clear_result d) = find_match j d" if "r j < r i" for j
    using that by (intro find_match_update) auto
  then show ?thesis by (simp add: frame_def rows_reset_clear)
qed

lemma frame_delete: "k < r f \<Longrightarrow> frame r k d (delete_slot f s d)"
  unfolding frame_def using rows_reset_matches [of d "delete_slot f s d"]
  by (auto simp: find_match_def)

lemma cascade_frame:
  assumes "ranked r d"
  shows "frame r (r i) d (resetCompletedDownstream i d)"
  using assms
proof (induction "completed_count d" arbitrary: i d rule: less_induct)
  case less
  show ?case
  proof (cases "\<exists>m. find_match i d = Some m \<and> m_status m = Completed")
    case False
    then have "resetCompletedDownstream i d = d"
      by (subst resetCompletedDownstream_rec) (auto split: option.splits)
    then show ?thesis by simp
  next
    case True
    then obtain m where fm: "find_match i d = Some m" and cpl: "m_status m = Completed" by blast
    have m: "m \<in> set (db_matches d)" "m_id m = i" using find_match_Some [OF fm] by auto
    let ?d1 = "update_match i clear_result d"
    have lt: "completed_count ?d1 < completed_count d" by (rule completed_clear [OF fm cpl])
    have rk1: "ranked r ?d1" using ranked_reset [OF rows_reset_clear less.prems] .
    have fr: "frame r (r i) a (resetCompletedDownstream f (delete_slot f s a))"
      if "completed_count a < completed_count d" "ranked r a" "dest m w = Some (f, s)" for a f s w
    proof -
      have "r i < r f" using less.prems m that(3) by (auto simp: ranked_def)
      moreover have "ranked r (delete_slot f s a)" using that(2) by (simp add: ranked_def)
      then have "frame r (r f) (delete_slot f s a) (resetCompletedDownstream f (delete_slot f s a))"
        using less.hyps that(1) by simp
      ultimately show ?thesis
        using frame_trans [OF frame_delete] by (metis less_imp_le)
    qed
    define d2 where "d2 = (case m_feeds m of None \<Rightarrow> ?d1
      | Some fs \<Rightarrow> resetCompletedDownstream (fst fs) (delete_slot (fst fs) (snd fs) ?d1))"
    have f2: "frame r (r i) ?d1 d2"
      using fr [OF lt rk1, of True] by (auto simp: d2_def dest_def split: option.splits)
    have "completed_count d2 \<le> completed_count ?d1"
      using reset_cascade_returns reset_cascade_eq
      by (auto simp: d2_def split: option.splits) (metis completed_delete_slot option.inject)
    then have lt2: "completed_count d2 < completed_count d" using lt by simp
    have rk2: "ranked r d2" using f2 rk1 ranked_reset by (auto simp: frame_def)
    have e: "resetCompletedDownstream i d = (case m_loserFeeds m of None \<Rightarrow> d2
        | Some fs \<Rightarrow> resetCompletedDownstream (fst fs) (delete_slot (fst fs) (snd fs) d2))"
      unfolding resetCompletedDownstream_rec [of i d] d2_def Let_def using fm cpl by simp
    have "frame r (r i) d2 (resetCompletedDownstream i d)"
      unfolding e using fr [OF lt2 rk2, of False] by (auto simp: dest_def split: option.splits)
    then show ?thesis using frame_trans frame_clear f2 by blast
  qed
qed

section \<open>Advancing one side\<close>

lemma sameSet_set: "sameSet a b \<Longrightarrow> set a = set b"
proof -
  assume "sameSet a b"
  then have c: "v \<in> set (a @ b) \<Longrightarrow> count_list a v = count_list b v" for v
    by (auto simp: sameSet_def list_all_iff)
  show "set a = set b"
  proof (intro equalityI subsetI)
    fix v assume v: "v \<in> set a"
    then have "count_list a v \<noteq> 0" by (simp add: count_list_0_iff)
    then have "count_list b v \<noteq> 0" using c [of v] v by simp
    then show "v \<in> set b" by (simp add: count_list_0_iff)
  next
    fix v assume v: "v \<in> set b"
    then have "count_list b v \<noteq> 0" by (simp add: count_list_0_iff)
    then have "count_list a v \<noteq> 0" using c [of v] v by simp
    then show "v \<in> set a" by (simp add: count_list_0_iff)
  qed
qed

lemma keys_ok_upsert: "distinct (map (\<lambda>r. (p_match r, p_player r)) ps) \<Longrightarrow>
  distinct (map (\<lambda>r. (p_match r, p_player r)) (upsert_part r ps))"
proof -
  assume d: "distinct (map (\<lambda>r. (p_match r, p_player r)) ps)"
  show ?thesis
  proof (cases "\<exists>p\<in>set ps. p_match p = p_match r \<and> p_player p = p_player r")
    case True
    have "map (\<lambda>r. (p_match r, p_player r)) (map (\<lambda>p. if p_match p = p_match r \<and> p_player p = p_player r
        then p\<lparr>p_team := p_team r\<rparr> else p) ps) = map (\<lambda>r. (p_match r, p_player r)) ps"
      by simp
    then show ?thesis using d True unfolding upsert_part_def by (simp only: if_True)
  next
    case False
    then show ?thesis using d by (auto simp: upsert_part_def)
  qed
qed

lemma keys_ok_insertSide: "keys_ok d \<Longrightarrow> keys_ok (insertSide f s side d)"
proof -
  assume k: "keys_ok d"
  have "distinct (map (\<lambda>r. (p_match r, p_player r)) (fold upsert_part rows ps))"
    if "distinct (map (\<lambda>r. (p_match r, p_player r)) ps)" for rows ps
    using that by (induction rows arbitrary: ps) (auto intro: keys_ok_upsert)
  then show ?thesis using k by (simp add: keys_ok_def insertSide_def upsert_parts_def)
qed

text \<open>
  The played match \<open>m\<close> sends a side along edge \<open>w\<close>: that edge becomes right and no other one wrong.
\<close>

lemma advanceTeam_consistent:
  assumes wf: "wf_topo d" and rk: "ranked r d" and m: "m \<in> set (db_matches d)" "m_status m = Completed"
    and e: "dest m w = Some (f, s)" and c: "consistent d (insert (m_id m, w) E)"
    and ins: "insertable (slot_set (m_id m) (sent_team m w) d) f s d"
  defines "d' \<equiv> advanceTeam (m_id m) (sent_team m w) f s d"
  shows "consistent d' E" and "rows_reset d d'" and "keys_ok d \<Longrightarrow> keys_ok d'"
    and "\<And>i. r i < r f \<Longrightarrow> find_match i d' = find_match i d"
    and "\<And>i t. i \<noteq> f \<Longrightarrow> slot_set i t d' \<subseteq> slot_set i t d"
    and "\<And>i t. r i < r f \<Longrightarrow> slot_set i t d' = slot_set i t d"
proof -
  let ?S = "slot_set (m_id m) (sent_team m w) d"
  have mf: "m_id m \<noteq> f" using rk m(1) e by (auto simp: ranked_def)
  define d1 where "d1 = delete_slot f s d"
  define side where "side = slotPlayers (m_id m) (sent_team m w) d1"
  define d2 where "d2 = insertSide f s side d1"
  have side: "set side = ?S"
    using mf slot_set_delete_slot [of "m_id m" "sent_team m w" f s d]
    by (simp add: side_def d1_def slot_set_def)
  have "insertable (set side) f s d1"
    using ins unfolding side by (auto simp: insertable_def d1_def)
  note SI = slot_set_insertSide [OF this]
  have slots: "slot_set i t d2 = (if i = f \<and> t = s then ?S else slot_set i t d)" for i t
    unfolding d2_def SI by (auto simp: d1_def side)
  have mt: "db_matches d2 = db_matches d" by (simp add: d2_def d1_def)
  have wf2: "wf_topo d2" and rk2: "ranked r d2"
    using wf_topo_reset [OF rows_reset_matches wf] ranked_reset [OF rows_reset_matches rk] mt by metis+
  have ok: "edge_ok d2 n u" if n: "n \<in> set (db_matches d)" "(m_id n, u) \<notin> E"
    and nf: "m_id n \<noteq> f \<or> m_status n \<noteq> Completed \<or> slot_set f s d = ?S" for n u
  proof (cases "m_id n = m_id m \<and> u = w")
    case True
    then have "n = m" using same_row [OF wf n(1) m(1)] by blast
    then show ?thesis using True e m(2) mf by (simp add: edge_ok_def slots)
  next
    case False
    then have old: "edge_ok d n u" using c n by (auto simp: consistent_def)
    show ?thesis
    proof (cases "dest n u")
      case None
      then show ?thesis by (simp add: edge_ok_def)
    next
      case (Some x)
      obtain f' s' where x: "x = (f', s')" by fastforce
      have "x \<noteq> (f, s)" using False wf n(1) m(1) e Some unfolding wf_topo_def by metis
      then show ?thesis using old Some x nf by (auto simp: edge_ok_def slots split: if_splits)
    qed
  qed
  have c_out: "consistent d2 (E \<union> out_edges f)"
    unfolding consistent_def mt
  proof (intro ballI allI impI)
    fix n u assume n: "n \<in> set (db_matches d)" "(m_id n, u) \<notin> E \<union> out_edges f"
    then have "m_id n \<noteq> f" by (cases u) auto
    with ok n show "edge_ok d2 n u" by blast
  qed
  have c_all: "consistent d2 E"
    if "(\<forall>n. find_match f d2 = Some n \<longrightarrow> m_status n \<noteq> Completed) \<or> slot_set f s d = ?S"
    unfolding consistent_def mt
  proof (intro ballI allI impI)
    fix n u assume n: "n \<in> set (db_matches d)" "(m_id n, u) \<notin> E"
    then have "m_id n \<noteq> f \<or> m_status n \<noteq> Completed \<or> slot_set f s d = ?S"
      using that find_match_row [OF wf2, of n] mt by auto
    with ok n show "edge_ok d2 n u" by blast
  qed
  have d': "d' = (if \<not> sameSet (slotPlayers f s d) side then resetCompletedDownstream f d2 else d2)"
    by (simp add: d'_def advanceTeam_def d1_def d2_def side_def Let_def)
  have fr: "frame r (r f) d2 d'" using cascade_frame [OF rk2] by (simp add: d')
  show "consistent d' E"
  proof (cases "sameSet (slotPlayers f s d) side")
    case True
    then have "slot_set f s d = ?S" using sameSet_set side by (simp add: slot_set_def)
    then show ?thesis using c_all True by (simp add: d')
  next
    case False
    then show ?thesis using cascade_consistent [OF wf2 c_out] c_all by (simp add: d')
  qed
  show "rows_reset d d'"
    using fr rows_reset_matches [of d d2] mt rows_reset_trans by (auto simp: frame_def)
  show "keys_ok d'" if "keys_ok d"
    using fr that keys_ok_insertSide [of d1 f s side] by (simp add: frame_def d2_def d1_def)
  show "find_match i d' = find_match i d" if "r i < r f" for i
    using fr that find_match_cong [OF mt] by (simp add: frame_def)
  show "slot_set i t d' \<subseteq> slot_set i t d" if "i \<noteq> f" for i t
  proof -
    have "slot_set i t d' \<subseteq> slot_set i t d2" using fr by (simp add: frame_def)
    then show ?thesis using slots [of i t] that by simp
  qed
  show "slot_set i t d' = slot_set i t d" if "r i < r f" for i t
  proof -
    have "i \<noteq> f" using that by auto
    then show ?thesis using fr slots [of i t] that by (simp add: frame_def)
  qed
qed

text \<open>
  A result on match \<open>i\<close> - a first one, a correction, a forfeit - and the advancement of both sides.
\<close>

lemma edge_ok_none: "dest n w = None \<Longrightarrow> edge_ok d n w"
  by (simp add: edge_ok_def)

lemma consistent_settle:
  assumes "wf_topo d" and "n \<in> set (db_matches d)" and "edge_ok d n w"
    and "consistent d (insert (m_id n, w) E)"
  shows "consistent d E"
  unfolding consistent_def
proof (intro ballI allI impI)
  fix k u assume k: "k \<in> set (db_matches d)" "(m_id k, u) \<notin> E"
  show "edge_ok d k u"
  proof (cases "m_id k = m_id n \<and> u = w")
    case True
    then have "k = n" using same_row [OF assms(1) k(1) assms(2)] by simp
    then show ?thesis using True assms(3) by simp
  next
    case False
    then show ?thesis using assms(4) k by (auto simp: consistent_def)
  qed
qed

lemma advance_bracket_consistent:
  assumes wf: "wf_topo d" and rk: "ranked r d" and keys: "keys_ok d"
    and m: "m \<in> set (db_matches d)" "m_status m = Completed" and c: "consistent d (out_edges (m_id m))"
    and ins1: "\<forall>f s. m_feeds m = Some (f, s) \<longrightarrow> insertable (slot_set (m_id m) (m_winner m) d) f s d"
    and ins2: "\<forall>f s. m_loserFeeds m = Some (f, s) \<longrightarrow> insertable (slot_set (m_id m) (3 - m_winner m) d) f s d"
    and split: "\<forall>f s f' s'. m_feeds m = Some (f, s) \<and> m_loserFeeds m = Some (f', s') \<longrightarrow> f \<noteq> f'"
  shows "consistent (advance_bracket m d) {}"
    and "rows_reset d (advance_bracket m d)" and "keys_ok (advance_bracket m d)"
proof -
  define d1 where "d1 = (case m_feeds m of None \<Rightarrow> d
    | Some (f, s) \<Rightarrow> advanceTeam (m_id m) (m_winner m) f s d)"
  have D: "consistent d1 {(m_id m, False)} \<and> rows_reset d d1 \<and> keys_ok d1
    \<and> find_match (m_id m) d1 = find_match (m_id m) d
    \<and> (\<forall>t. slot_set (m_id m) t d1 = slot_set (m_id m) t d)
    \<and> (\<forall>i t. (\<forall>f s. m_feeds m = Some (f, s) \<longrightarrow> i \<noteq> f) \<longrightarrow> slot_set i t d1 \<subseteq> slot_set i t d)"
  proof (cases "m_feeds m")
    case None
    have "edge_ok d m True" using None by (intro edge_ok_none) (simp add: dest_def)
    then have "consistent d {(m_id m, False)}" using consistent_settle [OF wf m(1)] c by blast
    then show ?thesis using None keys by (simp add: d1_def)
  next
    case (Some fs)
    obtain f s where fs: "fs = (f, s)" by fastforce
    have e: "dest m True = Some (f, s)" using Some fs by (simp add: dest_def)
    have lt: "r (m_id m) < r f" using rk m(1) e by (auto simp: ranked_def)
    have ins: "insertable (slot_set (m_id m) (sent_team m True) d) f s d"
      using ins1 Some fs by (simp add: sent_team_def)
    have d1: "d1 = advanceTeam (m_id m) (sent_team m True) f s d"
      by (simp add: d1_def Some fs sent_team_def)
    note A = advanceTeam_consistent [OF wf rk m e c ins, folded d1]
    show ?thesis using A(1-3) A(4,6) [OF lt] A(5) keys Some fs by simp
  qed
  have wf1: "wf_topo d1" and rk1: "ranked r d1" using D wf_topo_reset [OF _ wf] ranked_reset [OF _ rk] by blast+
  have m1: "m \<in> set (db_matches d1)"
    using D find_match_row [OF wf m(1)] find_match_Some by metis
  have ab: "advance_bracket m d = (case m_loserFeeds m of None \<Rightarrow> d1
      | Some (f, s) \<Rightarrow> advanceTeam (m_id m) (3 - m_winner m) f s d1)"
    unfolding advance_bracket_def d1_def Let_def ..
  have "consistent (advance_bracket m d) {} \<and> rows_reset d (advance_bracket m d)
    \<and> keys_ok (advance_bracket m d)"
  proof (cases "m_loserFeeds m")
    case None
    have "edge_ok d1 m False" using None by (intro edge_ok_none) (simp add: dest_def)
    then have "consistent d1 {}" using consistent_settle [OF wf1 m1] D by blast
    then show ?thesis using None D by (simp add: ab)
  next
    case (Some fs)
    obtain f s where fs: "fs = (f, s)" by fastforce
    have e: "dest m False = Some (f, s)" using Some fs by (simp add: dest_def)
    have "\<forall>f0 s0. m_feeds m = Some (f0, s0) \<longrightarrow> f \<noteq> f0" using split Some fs by blast
    then have sub: "slot_set f t d1 \<subseteq> slot_set f t d" for t using D by blast
    have "insertable (slot_set (m_id m) (sent_team m False) d1) f s d1"
      using ins2 Some fs D sub unfolding insertable_def sent_team_def by fastforce
    moreover have "consistent d1 (insert (m_id m, False) {})" using D by simp
    ultimately have A: "consistent (advanceTeam (m_id m) (sent_team m False) f s d1) {}"
      "rows_reset d1 (advanceTeam (m_id m) (sent_team m False) f s d1)"
      "keys_ok d1 \<Longrightarrow> keys_ok (advanceTeam (m_id m) (sent_team m False) f s d1)"
      using advanceTeam_consistent(1-3) [OF wf1 rk1 m1 m(2) e] by blast+
    then show ?thesis
      using Some fs D rows_reset_trans by (auto simp: ab sent_team_def)
  qed
  then show "consistent (advance_bracket m d) {}" "rows_reset d (advance_bracket m d)"
    "keys_ok (advance_bracket m d)" by blast+
qed

lemma update_match_topology:
  assumes "wf_topo d" and "\<And>m. m_id (f m) = m_id m" and "\<And>m. dest (f m) = dest m"
  shows "wf_topo (update_match i f d)" and "ranked r d \<Longrightarrow> ranked r (update_match i f d)"
proof -
  let ?g = "\<lambda>m. if m_id m = i then f m else m"
  have ids: "map m_id (db_matches (update_match i f d)) = map m_id (db_matches d)"
    using assms(2) by (simp add: update_match_def)
  have origin: "\<exists>n\<in>set (db_matches d). m_id n = m_id m \<and> (\<forall>w. dest n w = dest m w)"
    if "m \<in> set (db_matches (update_match i f d))" for m
    using that assms(2,3) by (auto simp: update_match_def)
  show "wf_topo (update_match i f d)"
    unfolding wf_topo_def
  proof (intro conjI ballI allI impI)
    show "distinct (map m_id (db_matches (update_match i f d)))"
      unfolding ids using assms(1) by (simp add: wf_topo_def)
    fix m m' w w' x
    assume mm: "m \<in> set (db_matches (update_match i f d))" "m' \<in> set (db_matches (update_match i f d))"
      "dest m w = Some x \<and> dest m' w' = Some x"
    obtain n n' where "n \<in> set (db_matches d)" "m_id n = m_id m" "dest n w = Some x"
      "n' \<in> set (db_matches d)" "m_id n' = m_id m'" "dest n' w' = Some x"
      using origin [OF mm(1)] origin [OF mm(2)] mm(3) by auto
    with assms(1) show "m_id m = m_id m'" "w = w'" unfolding wf_topo_def by metis+
  qed
  show "ranked r (update_match i f d)" if "ranked r d"
    using that origin unfolding ranked_def by metis
qed

text \<open>Everything a correct draw satisfies, as one predicate.\<close>

definition draw_ok :: "(string \<Rightarrow> nat) \<Rightarrow> db \<Rightarrow> bool" where
  "draw_ok r d \<longleftrightarrow> wf_topo d \<and> ranked r d \<and> keys_ok d \<and> consistent d {}"

text \<open>The sides of match \<open>i\<close> may move where its feeds send them.\<close>

definition movable :: "mrow \<Rightarrow> db \<Rightarrow> bool" where
  "movable m d \<longleftrightarrow>
    (\<forall>w f s t. dest m w = Some (f, s) \<longrightarrow> insertable (slot_set (m_id m) t d) f s d)
    \<and> (\<forall>f s f' s'. m_feeds m = Some (f, s) \<and> m_loserFeeds m = Some (f', s') \<longrightarrow> f \<noteq> f')"

lemma draw_ok_advance:
  assumes ok: "draw_ok r d" and fm: "find_match i d = Some m" and mv: "movable m d"
    and f: "\<And>m. m_id (f m) = m_id m" "\<And>m. dest (f m) = dest m" and cpl: "m_status (f m) = Completed"
  shows "draw_ok r (advance_bracket (f m) (update_match i f d))"
proof -
  let ?d = "update_match i f d"
  have wf: "wf_topo d" and rk: "ranked r d" and keys: "keys_ok d" and c: "consistent d {}"
    using ok by (simp_all add: draw_ok_def)
  have m: "m \<in> set (db_matches d)" "m_id m = i" using find_match_Some [OF fm] by auto
  have fm': "f m \<in> set (db_matches ?d)" using m by (force simp: update_match_def)
  note T = update_match_topology [OF wf f]
  have fd: "m_feeds (f m) = m_feeds m" "m_loserFeeds (f m) = m_loserFeeds m"
    using f(2) [of m] by (metis dest_def)+
  have c': "consistent ?d (out_edges (m_id (f m)))"
    unfolding consistent_def
  proof (intro ballI allI impI)
    fix n u assume n: "n \<in> set (db_matches ?d)" "(m_id n, u) \<notin> out_edges (m_id (f m))"
    then have "m_id n \<noteq> i" using m(2) f(1) by (cases u) auto
    then have "n \<in> set (db_matches d)" using n(1) f(1) by (auto simp: update_match_def split: if_splits)
    then have "edge_ok d n u" using c unfolding consistent_def by blast
    then show "edge_ok ?d n u" by simp
  qed
  have i1: "\<forall>g s. m_feeds (f m) = Some (g, s) \<longrightarrow>
      insertable (slot_set (m_id (f m)) (m_winner (f m)) ?d) g s ?d"
    and i2: "\<forall>g s. m_loserFeeds (f m) = Some (g, s) \<longrightarrow>
      insertable (slot_set (m_id (f m)) (3 - m_winner (f m)) ?d) g s ?d"
    and sp: "\<forall>g s f' s'. m_feeds (f m) = Some (g, s) \<and> m_loserFeeds (f m) = Some (f', s') \<longrightarrow> g \<noteq> f'"
    using mv f(1) [of m] unfolding movable_def insertable_def fd dest_def slot_set_update_match
    by (metis (full_types))+
  have keys': "keys_ok ?d" using keys by simp
  note A = advance_bracket_consistent [OF T(1) T(2) [OF rk] keys' fm' cpl c' i1 i2 sp]
  show ?thesis
    using A wf_topo_reset [OF A(2) T(1)] ranked_reset [OF A(2) T(2) [OF rk]] by (simp add: draw_ok_def)
qed

end
