(* ===== verification/Match_Control.thy ===== *)
theory Match_Control
  imports Advancement
begin

text \<open>
  The life of a match in \<open>internal/service/service.go\<close>: starting, cancelling and restoring it,
  recording a series or a forfeit, and everything that follows from a result - advancement, the grand
  final's reset game, seeding the playoff when the pools are done, the event's status and the
  auto-start of the next game on the court.
\<close>

section \<open>Outcomes and the operations of other components\<close>

text \<open>
  A handler returns its error, if any, with the tables as they are then: writes made before a later
  error stay written.
\<close>

type_synonym outcome = "flow_error option \<times> db"

definition ok :: "db \<Rightarrow> outcome" where
  "ok d = (None, d)"

definition fail :: "flow_error \<Rightarrow> db \<Rightarrow> outcome" where
  "fail e d = (Some e, d)"

definition and_then :: "outcome \<Rightarrow> (db \<Rightarrow> outcome) \<Rightarrow> outcome" where
  "and_then r k = (case r of (None, d) \<Rightarrow> k d | (Some e, d) \<Rightarrow> (Some e, d))"

lemma and_then_simps [simp]:
  "and_then (ok d) k = k d" "and_then (fail e d) k = fail e d"
  "and_then (None, d) k = k d" "and_then (Some e, d) k = (Some e, d)"
  by (simp_all add: and_then_def ok_def fail_def)

text \<open>
  What the handlers call elsewhere: the seed order of a division (\<open>seedTopTeams\<close>), the playoff
  build (\<open>buildPlayoffLocked\<close>, whose failure is logged and ignored), a tie's roll-up
  (\<open>rollupTie\<close>), court assignment (\<open>spreadBracketCourts\<close>), the id the database gives a new
  row, and whether the playoff scoring columns exist.
\<close>

record env =
  env_seedTopTeams :: "string \<Rightarrow> string \<Rightarrow> string \<Rightarrow> db \<Rightarrow> pid list list"
  env_buildPlayoff :: "string \<Rightarrow> string \<Rightarrow> int \<Rightarrow> db \<Rightarrow> db"
  env_rollupTie :: "string \<Rightarrow> db \<Rightarrow> outcome"
  env_spreadCourts :: "string \<Rightarrow> db \<Rightarrow> db"
  env_newId :: "db \<Rightarrow> string"
  env_playoffCols :: bool

section \<open>Starting, cancelling, restoring\<close>

definition start_round :: "string \<Rightarrow> db \<Rightarrow> db" where
  "start_round rid d = (if rid = [] then d
    else d\<lparr>db_rounds := map (\<lambda>r. if r_id r = rid \<and> r_status r = ''pending''
      then r\<lparr>r_status := ''active''\<rparr> else r) (db_rounds d)\<rparr>)"

definition set_status :: "match_status \<Rightarrow> match_status \<Rightarrow> mrow \<Rightarrow> mrow" where
  "set_status old new m = (if m_status m = old then m\<lparr>m_status := new\<rparr> else m)"

definition StartMatch :: "string \<Rightarrow> db \<Rightarrow> outcome" where
  "StartMatch i d =
    (case find_match i d of
       None \<Rightarrow> fail NotFound d
     | Some m \<Rightarrow>
       if \<not> bothSidesPresent i d then fail OpponentTBD d
       else if m_status m \<noteq> Scheduled then ok d
       else ok (start_round (m_roundId m) (update_match i (set_status Scheduled InProgress) d)))"

definition UnstartMatch :: "string \<Rightarrow> db \<Rightarrow> outcome" where
  "UnstartMatch i d =
    (case find_match i d of
       None \<Rightarrow> fail NotFound d
     | Some m \<Rightarrow>
       if m_status m = InProgress then ok (update_match i (set_status InProgress Scheduled) d)
       else if m_status m = Completed then fail HasResult d
       else ok d)"

definition cancel_row :: "mrow \<Rightarrow> mrow" where
  "cancel_row m =
    (if m_status m = Scheduled \<or> m_status m = InProgress
     then m\<lparr>m_status := Canceled, m_score1 := None, m_score2 := None, m_winner := 0,
            m_games := None, m_resultType := ''normal''\<rparr>
     else m)"

definition CancelMatch :: "string \<Rightarrow> db \<Rightarrow> outcome" where
  "CancelMatch i d =
    (case find_match i d of
       None \<Rightarrow> fail NotFound d
     | Some m \<Rightarrow>
       if m_status m = Completed then fail HasResult d
       else ok (update_match i cancel_row d))"

definition RestoreMatch :: "string \<Rightarrow> db \<Rightarrow> outcome" where
  "RestoreMatch i d =
    (case find_match i d of
       None \<Rightarrow> fail NotFound d
     | Some m \<Rightarrow>
       if m_status m \<noteq> Canceled then ok d
       else ok (update_match i (set_status Canceled Scheduled) d))"

section \<open>The grand final's reset game\<close>

definition match_parts :: "string \<Rightarrow> db \<Rightarrow> prow list" where
  "match_parts i d = filter (\<lambda>p. p_match p = i) (db_parts d)"

definition sameParticipants :: "prow list \<Rightarrow> prow list \<Rightarrow> bool" where
  "sameParticipants a b \<longleftrightarrow> length a = length b
    \<and> list_all (\<lambda>p. list_ex (\<lambda>q. p_player q = p_player p \<and> p_team q = p_team p) a) b"

definition copyGrandFinalTeams :: "string \<Rightarrow> string \<Rightarrow> db \<Rightarrow> db" where
  "copyGrandFinalTeams fromID toID d =
    (let parts = match_parts fromID d; cur = match_parts toID d in
     if sameParticipants parts cur then d
     else
       let d1 = delete_parts toID d in
       if parts = [] then d1
       else upsert_parts (map (\<lambda>p. \<lparr>p_match = toID, p_player = p_player p, p_team = p_team p\<rparr>) parts) d1)"

definition is_reset_game :: "string \<Rightarrow> string \<Rightarrow> mrow \<Rightarrow> bool" where
  "is_reset_game ev bid m \<longleftrightarrow> m_event m = ev \<and> m_bracket m = bid
    \<and> m_tier m = ''grand_final'' \<and> m_round m = 2"

definition reset_game :: "string \<Rightarrow> string \<Rightarrow> string \<Rightarrow> mrow" where
  "reset_game i ev bid = bracket_row i ev bid ''grand_final'' [] 2 0"

definition insert_match :: "mrow \<Rightarrow> db \<Rightarrow> db" where
  "insert_match m d = d\<lparr>db_matches := db_matches d @ [m]\<rparr>"

definition resolveGrandFinal :: "env \<Rightarrow> mrow \<Rightarrow> db \<Rightarrow> outcome" where
  "resolveGrandFinal E gf1 d =
    (let ev = m_event gf1; bid = m_bracket gf1 in
     if bid = [] then fail NoBracketId d
     else
       let existing = List.find (is_reset_game ev bid) (db_matches d) in
       if m_winner gf1 = 1 then
         (case existing of
            None \<Rightarrow> ok d
          | Some g \<Rightarrow> ok (delete_match (m_id g) (delete_parts (m_id g) d)))
       else
         (case existing of
            Some g \<Rightarrow> ok (copyGrandFinalTeams (m_id gf1) (m_id g) d)
          | None \<Rightarrow>
            let i = env_newId E d;
                d1 = insert_match (reset_game i ev bid) d;
                d2 = (if ev \<noteq> [] then env_spreadCourts E ev d1 else d1)
            in ok (copyGrandFinalTeams (m_id gf1) i d2)))"

section \<open>When the pools are done\<close>

definition normalizePlayoffSize :: "int \<Rightarrow> int" where
  "normalizePlayoffSize n = (if n \<le> 0 then 0 else if n < 8 then 4 else if n < 16 then 8 else 16)"

definition poolProgress :: "string \<Rightarrow> db \<Rightarrow> nat \<times> nat" where
  "poolProgress bid d =
    (let ms = filter (\<lambda>m. m_bracket m = bid \<and> m_stage m = ''pool'' \<and> m_status m \<noteq> Canceled) (db_matches d)
     in (length ms, length (filter (\<lambda>m. m_status m \<noteq> Completed) ms)))"

definition bracket_matches :: "string \<Rightarrow> db \<Rightarrow> mrow list" where
  "bracket_matches bid d = filter (\<lambda>m. m_bracket m = bid \<and> m_stage m = ''bracket'') (db_matches d)"

definition bracketStarted :: "string \<Rightarrow> db \<Rightarrow> bool" where
  "bracketStarted bid d =
    list_ex (\<lambda>m. m_status m = InProgress \<or> m_status m = Completed) (bracket_matches bid d)"

definition last_with :: "('a \<Rightarrow> bool) \<Rightarrow> 'a list \<Rightarrow> 'a option" where
  "last_with P xs = List.find P (rev xs)"

definition seed_semis :: "env \<Rightarrow> string \<Rightarrow> string \<Rightarrow> string \<Rightarrow> string \<Rightarrow> db \<Rightarrow> db" where
  "seed_semis E ev bid sf1 sf2 d =
    (let alreadySeeded = match_parts sf1 d \<noteq> [] in
     if alreadySeeded \<and> bracketStarted bid d then d
     else
       let sides = env_seedTopTeams E ev bid ''wins'' d in
       if length sides < 4 then d
       else
         let d1 = (if alreadySeeded then delete_parts sf2 (delete_parts sf1 d) else d);
             d2 = insertSide sf2 2 (sides ! 2) (insertSide sf2 1 (sides ! 1)
                    (insertSide sf1 2 (sides ! 3) (insertSide sf1 1 (sides ! 0) d1)))
         in env_spreadCourts E ev d2)"

definition maybeSeedPlayoff :: "env \<Rightarrow> string \<Rightarrow> db \<Rightarrow> outcome" where
  "maybeSeedPlayoff E bid d =
    (case map_of (db_brackets d) bid of
       None \<Rightarrow> fail NotFound d
     | Some ev \<Rightarrow>
       if (case find_event ev d of None \<Rightarrow> False | Some e \<Rightarrow> normalizePlayoffSize (e_playoffSize e) \<ge> 4)
       then ok d
       else
         let (total, opn) = poolProgress bid d in
         if total = 0 \<or> opn > 0 then ok d
         else
           let semis = filter (\<lambda>m. m_round m = 1) (bracket_matches bid d) in
           if length semis \<noteq> 2 then ok d
           else
             (case (last_with (\<lambda>m. m_slot m = 0) semis, last_with (\<lambda>m. m_slot m = 1) semis) of
                (Some a, Some b) \<Rightarrow>
                  if find_event ev d = None \<and> \<not> (match_parts (m_id a) d \<noteq> [] \<and> bracketStarted bid d)
                  then fail NotFound d
                  else ok (seed_semis E ev bid (m_id a) (m_id b) d)
              | _ \<Rightarrow> ok d))"

definition maybeAutoBuildPlayoff :: "env \<Rightarrow> string \<Rightarrow> string \<Rightarrow> db \<Rightarrow> outcome" where
  "maybeAutoBuildPlayoff E ev bid d =
    (case find_event ev d of
       None \<Rightarrow> fail NotFound d
     | Some e \<Rightarrow>
       if e_perpetual e then ok d
       else
         let size0 = normalizePlayoffSize (e_playoffSize e);
             size = (if size0 < 4 \<and> e_format e = ''pools_playoff'' then 4 else size0)
         in if size < 4 then ok d
            else
              let (total, opn) = poolProgress bid d in
              if total = 0 \<or> opn > 0 then ok d
              else
                let existing = bracket_matches bid d in
                if existing \<noteq> [] \<and> bracketStarted bid d then ok d
                else if list_ex (\<lambda>m. match_parts (m_id m) d \<noteq> []) existing then ok d
                else ok (env_buildPlayoff E bid ev size d))"

section \<open>The event's status and the next game on the court\<close>

definition syncEventStatus :: "string \<Rightarrow> db \<Rightarrow> db" where
  "syncEventStatus ev d =
    (let opn = list_ex (\<lambda>m. m_event m = ev \<and> m_status m \<noteq> Completed) (db_matches d) in
     d\<lparr>db_events := map (\<lambda>e.
         if e_id e = ev \<and> \<not> opn \<and> e_status e \<noteq> ''completed'' then e\<lparr>e_status := ''completed''\<rparr>
         else if e_id e = ev \<and> opn \<and> e_status e = ''completed'' then e\<lparr>e_status := ''in_progress''\<rparr>
         else e) (db_events d)\<rparr>)"

fun sameSchedDay :: "int option \<Rightarrow> int option \<Rightarrow> bool" where
  "sameSchedDay None None = True"
| "sameSchedDay (Some a) (Some b) = (a = b)"
| "sameSchedDay _ _ = False"

definition playersInProgress :: "string \<Rightarrow> db \<Rightarrow> pid list" where
  "playersInProgress ev d = concat (map (\<lambda>m. filter (\<lambda>p. p \<noteq> []) (map p_player (match_parts (m_id m) d)))
    (filter (\<lambda>m. m_event m = ev \<and> m_status m = InProgress) (db_matches d)))"

definition next_ready :: "string \<Rightarrow> string \<Rightarrow> int option \<Rightarrow> db \<Rightarrow> mrow option" where
  "next_ready ev court doneDay d =
    List.find (\<lambda>m. m_event m = ev \<and> m_court m = court \<and> m_status m = Scheduled
        \<and> sameSchedDay doneDay (m_day m) \<and> bothSidesPresent (m_id m) d
        \<and> \<not> list_ex (\<lambda>p. p_player p \<in> set (playersInProgress ev d)) (match_parts (m_id m) d))
      (db_matches d)"

definition autoStartNextOnCourt :: "string \<Rightarrow> string \<Rightarrow> int option \<Rightarrow> db \<Rightarrow> db" where
  "autoStartNextOnCourt ev court doneDay d =
    (if court = [] then d
     else if list_ex (\<lambda>m. m_event m = ev \<and> m_court m = court \<and> m_status m = InProgress) (db_matches d) then d
     else
       (case next_ready ev court doneDay d of
          None \<Rightarrow> d
        | Some m \<Rightarrow> snd (StartMatch (m_id m) d)))"

section \<open>After a result\<close>

definition bracket_branch :: "env \<Rightarrow> mrow \<Rightarrow> db \<Rightarrow> outcome" where
  "bracket_branch E m d =
    (if m_stage m \<noteq> ''bracket'' then ok d
     else
       let d1 = advance_bracket m d in
       if m_tier m = ''grand_final'' \<and> m_round m = 1 then resolveGrandFinal E m d1 else ok d1)"

definition pool_branch :: "env \<Rightarrow> mrow \<Rightarrow> db \<Rightarrow> outcome" where
  "pool_branch E m d =
    (if m_stage m = ''pool'' \<and> m_bracket m \<noteq> [] \<and> m_tie m = []
     then and_then (maybeSeedPlayoff E (m_bracket m) d)
       (\<lambda>d1. if m_event m \<noteq> [] then maybeAutoBuildPlayoff E (m_event m) (m_bracket m) d1 else ok d1)
     else ok d)"

definition advanceAfterScore :: "env \<Rightarrow> mrow \<Rightarrow> bool \<Rightarrow> db \<Rightarrow> outcome" where
  "advanceAfterScore E m freshCompletion d =
    and_then (bracket_branch E m d) (\<lambda>d1.
    and_then (pool_branch E m d1) (\<lambda>d2.
      let d3 = syncEventStatus (m_event m) d2 in
      ok (case find_event (m_event m) d2 of
            None \<Rightarrow> d3
          | Some e \<Rightarrow> if freshCompletion \<and> e_autoStart e
              then autoStartNextOnCourt (m_event m) (m_court m) (m_day m) d3 else d3)))"

definition supersedeScoreReport :: "string \<Rightarrow> db \<Rightarrow> db" where
  "supersedeScoreReport i d = d\<lparr>db_reports := map (\<lambda>r.
    if s_match r = i \<and> (s_status r = Pending \<or> s_status r = Disputed)
    then r\<lparr>s_status := Superseded\<rparr> else r) (db_reports d)\<rparr>"

definition series_row :: "GameScore list \<Rightarrow> int \<Rightarrow> int \<Rightarrow> int \<Rightarrow> mrow \<Rightarrow> mrow" where
  "series_row games winner t1 t2 m = m\<lparr>m_score1 := Some t1, m_score2 := Some t2, m_winner := winner,
    m_games := Some games, m_status := Completed, m_resultType := ''normal'', m_countsForDiff := True\<rparr>"

definition rollup :: "env \<Rightarrow> mrow \<Rightarrow> db \<Rightarrow> outcome" where
  "rollup E m d = (if m_tie m \<noteq> [] then env_rollupTie E (m_tie m) d else ok d)"

definition applySeries :: "env \<Rightarrow> string \<Rightarrow> GameScore list \<Rightarrow> int \<Rightarrow> int \<Rightarrow> int \<Rightarrow> db \<Rightarrow> outcome" where
  "applySeries E i games winner t1 t2 d =
    (if \<not> bothSidesPresent i d then fail TeamsUndecided d
     else
       (case find_match i d of
          None \<Rightarrow> fail NotFound d
        | Some cur \<Rightarrow>
          let fresh = (m_status cur \<noteq> Completed);
              m = series_row games winner t1 t2 cur;
              d1 = supersedeScoreReport i (update_match i (series_row games winner t1 t2) d)
          in and_then (advanceAfterScore E m fresh d1) (rollup E m)))"

definition scoringForMatch :: "env \<Rightarrow> string \<Rightarrow> db \<Rightarrow> (int \<times> int \<times> int) option" where
  "scoringForMatch E i d =
    (case find_match i d of
       None \<Rightarrow> None
     | Some m \<Rightarrow>
       let (ptw, winBy, bestOf) =
         (case find_event (m_event m) d of
            None \<Rightarrow> (11, 2, 1)
          | Some e \<Rightarrow>
            let p0 = (if e_pointsToWin e > 0 then e_pointsToWin e else 11);
                w0 = (if e_winBy e > 0 then e_winBy e else 2);
                b0 = (if e_bestOf e > 0 then e_bestOf e else 1)
            in if m_stage m = ''bracket'' \<and> env_playoffCols E \<and> e_playoffPtw e > 0
               then (e_playoffPtw e, if e_playoffWinBy e > 0 then e_playoffWinBy e else w0, b0)
               else (p0, w0, b0))
       in Some (if m_line m = ''dec'' then (21, 2, 1) else (ptw, winBy, bestOf)))"

definition RecordSeries :: "env \<Rightarrow> string \<Rightarrow> GameScore list \<Rightarrow> db \<Rightarrow> outcome" where
  "RecordSeries E i games d =
    (case scoringForMatch E i d of
       None \<Rightarrow> fail NotFound d
     | Some (ptw, winBy, bestOf) \<Rightarrow>
       (case validateSeries games bestOf ptw winBy of
          Inl e \<Rightarrow> fail (BadSeries e) d
        | Inr r \<Rightarrow> applySeries E i games (int (sr_winner r)) (sr_t1total r) (sr_t2total r) d))"

definition RecordScore :: "env \<Rightarrow> string \<Rightarrow> int \<Rightarrow> int \<Rightarrow> db \<Rightarrow> outcome" where
  "RecordScore E i t1 t2 d = RecordSeries E i [\<lparr>Team1 = t1, Team2 = t2\<rparr>] d"

definition applyScore :: "env \<Rightarrow> string \<Rightarrow> int \<Rightarrow> int \<Rightarrow> db \<Rightarrow> outcome" where
  "applyScore E i t1 t2 d =
    applySeries E i [\<lparr>Team1 = t1, Team2 = t2\<rparr>] (if t2 > t1 then 2 else 1) t1 t2 d"

definition forfeit_row :: "int \<Rightarrow> string \<Rightarrow> int \<Rightarrow> int \<Rightarrow> bool \<Rightarrow> mrow \<Rightarrow> mrow" where
  "forfeit_row winner kind t1 t2 diff m = m\<lparr>m_score1 := Some t1, m_score2 := Some t2, m_winner := winner,
    m_games := None, m_status := Completed, m_resultType := kind, m_countsForDiff := diff\<rparr>"

definition forfeit_points :: "int \<Rightarrow> string \<Rightarrow> int \<Rightarrow> int option \<Rightarrow> int option \<Rightarrow> int \<times> int \<times> bool" where
  "forfeit_points winningTeam kind ptw s1 s2 = (case (s1, s2) of
      (Some a, Some b) \<Rightarrow> if kind = ''retire'' then (a, b, True)
        else if winningTeam = 2 then (0, ptw, False) else (ptw, 0, False)
    | _ \<Rightarrow> if winningTeam = 2 then (0, ptw, False) else (ptw, 0, False))"

definition ForfeitMatch :: "env \<Rightarrow> string \<Rightarrow> int \<Rightarrow> string \<Rightarrow> int option \<Rightarrow> int option \<Rightarrow> db \<Rightarrow> outcome" where
  "ForfeitMatch E i winningTeam kind0 s1 s2 d =
    (if winningTeam \<noteq> 1 \<and> winningTeam \<noteq> 2 then fail BadWinningTeam d
     else
       let kind = (if kind0 = [] then ''forfeit'' else kind0) in
       if kind \<noteq> ''forfeit'' \<and> kind \<noteq> ''retire'' \<and> kind \<noteq> ''walkover'' then fail BadResultType d
       else if \<not> bothSidesPresent i d then fail TeamsUndecided d
       else
         (case find_match i d of
            None \<Rightarrow> fail NotFound d
          | Some cur \<Rightarrow>
            let ptw = (case find_event (m_event cur) d of
                  None \<Rightarrow> 11
                | Some e \<Rightarrow> if e_pointsToWin e > 0 then e_pointsToWin e else 11);
                (t1, t2, diff) = forfeit_points winningTeam kind ptw s1 s2;
                m = forfeit_row winningTeam kind t1 t2 diff cur;
                d1 = update_match i (forfeit_row winningTeam kind t1 t2 diff) d
            in and_then (advanceAfterScore E m False d1) (rollup E m)))"

end
