(* ===== verification/Match_Control_Props.thy ===== *)
theory Match_Control_Props
  imports Match_Control
begin

text \<open>
  What the match handlers guarantee: draws stay right, results appear only where a game was recorded,
  refused input changes nothing, and what follows from a result happens exactly when it should.
\<close>

section \<open>Draws stay right\<close>

lemma and_then_snd:
  assumes "P (snd r)" and "\<And>d. P d \<Longrightarrow> P (snd (k d))"
  shows "P (snd (and_then r k))"
  using assms by (cases r) (auto simp: and_then_def split: option.splits)

lemma rollup_no_tie [simp]: "m_tie m = [] \<Longrightarrow> rollup E m d = Match_Control.ok d"
  by (simp add: rollup_def)

lemma and_then_rollup [simp]: "m_tie m = [] \<Longrightarrow> and_then r (rollup E m) = r"
  by (cases r) (auto simp: and_then_def Match_Control.ok_def rollup_def split: option.splits)

lemma snd_ok [simp]: "snd (Match_Control.ok d) = d" and snd_fail [simp]: "snd (fail e d) = d"
  by (simp_all add: Match_Control.ok_def fail_def)

lemma draw_ok_cong:
  assumes "db_matches d' = db_matches d" "db_parts d' = db_parts d"
  shows "draw_ok r d' = draw_ok r d"
proof -
  have s: "slot_set i t d' = slot_set i t d" for i t
    by (simp add: slot_set_def slotPlayers_def assms)
  have "edge_ok d' m w = edge_ok d m w" for m w unfolding edge_ok_def s ..
  then show ?thesis
    by (simp add: draw_ok_def wf_topo_def ranked_def keys_ok_def consistent_def assms)
qed

lemma draw_ok_status:
  assumes ok: "draw_ok r d" and f: "\<And>m. m_id (f m) = m_id m" "\<And>m. dest (f m) = dest m"
    "\<And>m. m_winner (f m) = m_winner m" "\<And>m. m_status (f m) = Completed \<longleftrightarrow> m_status m = Completed"
  shows "draw_ok r (update_match i f d)"
proof -
  have "edge_ok (update_match i f d) n u" if n: "n \<in> set (db_matches (update_match i f d))" for n u
  proof -
    obtain b where b: "b \<in> set (db_matches d)" "n = b \<or> n = f b"
      using n by (auto simp: update_match_def)
    have "edge_ok d b u" using ok b(1) by (simp add: draw_ok_def consistent_def)
    moreover have "edge_ok d (f b) u = edge_ok d b u"
      unfolding edge_ok_def sent_team_def f ..
    ultimately show ?thesis using b(2) by auto
  qed
  then show ?thesis
    using ok update_match_topology [of d f, OF _ f(1,2)] by (simp add: draw_ok_def consistent_def)
qed

lemma set_status_keeps:
  "old \<noteq> Completed \<Longrightarrow> new \<noteq> Completed \<Longrightarrow>
    m_status (set_status old new m) = Completed \<longleftrightarrow> m_status m = Completed"
  "m_id (set_status old new m) = m_id m" "dest (set_status old new m) = dest m"
  "m_winner (set_status old new m) = m_winner m"
  by (auto simp: set_status_def dest_def fun_eq_iff)

lemma start_round_same [simp]:
  "db_matches (start_round rid d) = db_matches d" "db_parts (start_round rid d) = db_parts d"
  "db_events (start_round rid d) = db_events d"
  by (simp_all add: start_round_def)

lemma draw_ok_StartMatch: "draw_ok r d \<Longrightarrow> draw_ok r (snd (StartMatch i d))"
proof -
  assume ok: "draw_ok r d"
  have "draw_ok r (start_round rid (update_match i (set_status Scheduled InProgress) d))" for rid
    using draw_ok_status [OF ok, of "set_status Scheduled InProgress" i]
      draw_ok_cong [of "start_round rid (update_match i (set_status Scheduled InProgress) d)"]
    by (simp add: set_status_keeps)
  then show ?thesis using ok by (simp add: StartMatch_def fail_def Match_Control.ok_def split: option.splits)
qed

lemma draw_ok_sync: "draw_ok r (syncEventStatus ev d) = draw_ok r d"
  by (rule draw_ok_cong) (simp_all add: syncEventStatus_def Let_def)

lemma draw_ok_auto: "draw_ok r d \<Longrightarrow> draw_ok r (autoStartNextOnCourt ev c dd d)"
  by (auto simp: autoStartNextOnCourt_def draw_ok_StartMatch split: option.splits)

lemma draw_ok_after:
  assumes "draw_ok r (advance_bracket m d)" and "m_stage m = ''bracket''"
    and "\<not> (m_tier m = ''grand_final'' \<and> m_round m = 1)"
  shows "draw_ok r (snd (advanceAfterScore E m fresh d))"
  using assms
  by (auto simp: advanceAfterScore_def bracket_branch_def pool_branch_def Let_def draw_ok_sync
      draw_ok_auto Match_Control.ok_def split: option.splits)

lemma supersede_same [simp]:
  "db_matches (supersedeScoreReport i d) = db_matches d" "db_parts (supersedeScoreReport i d) = db_parts d"
  "db_events (supersedeScoreReport i d) = db_events d"
  by (simp_all add: supersedeScoreReport_def)

lemma advance_bracket_matches_cong:
  "draw_ok r (supersedeScoreReport i d) = draw_ok r d"
  by (rule draw_ok_cong) simp_all

lemma find_match_supersede [simp]: "find_match j (supersedeScoreReport i d) = find_match j d"
  by (simp add: find_match_def)

lemma supersede_update: "supersedeScoreReport i (update_match j f d) = update_match j f (supersedeScoreReport i d)"
  by (simp add: supersedeScoreReport_def update_match_def)

lemma movable_cong:
  assumes "db_parts d' = db_parts d"
  shows "movable m d' = movable m d"
  by (simp add: movable_def insertable_def slot_set_def slotPlayers_def assms)

lemma row_fields [simp]:
  "m_tie (series_row g v t1 t2 m) = m_tie m" "m_tie (forfeit_row v k t1 t2 df m) = m_tie m"
  "m_id (series_row g v t1 t2 m) = m_id m" "m_id (forfeit_row v k t1 t2 df m) = m_id m"
  "m_stage (series_row g v t1 t2 m) = m_stage m" "m_stage (forfeit_row v k t1 t2 df m) = m_stage m"
  "m_tier (series_row g v t1 t2 m) = m_tier m" "m_tier (forfeit_row v k t1 t2 df m) = m_tier m"
  "m_round (series_row g v t1 t2 m) = m_round m" "m_round (forfeit_row v k t1 t2 df m) = m_round m"
  "m_event (series_row g v t1 t2 m) = m_event m" "m_event (forfeit_row v k t1 t2 df m) = m_event m"
  "m_status (series_row g v t1 t2 m) = Completed" "m_status (forfeit_row v k t1 t2 df m) = Completed"
  "m_winner (series_row g v t1 t2 m) = v" "m_winner (forfeit_row v k t1 t2 df m) = v"
  "dest (series_row g v t1 t2 m) = dest m" "dest (forfeit_row v k t1 t2 df m) = dest m"
  by (simp_all add: series_row_def forfeit_row_def dest_def fun_eq_iff)

text \<open>A refused result, or a validated one that is applied.\<close>

lemma applySeries_cases:
  "(\<exists>e. applySeries E i games v t1 t2 d = fail e d)
    \<or> (\<exists>m fresh. find_match i d = Some m \<and> bothSidesPresent i d \<and> fresh = (m_status m \<noteq> Completed)
        \<and> applySeries E i games v t1 t2 d =
          and_then (advanceAfterScore E (series_row games v t1 t2 m) fresh
            (supersedeScoreReport i (update_match i (series_row games v t1 t2) d)))
            (rollup E (series_row games v t1 t2 m)))"
  by (cases "find_match i d") (auto simp: applySeries_def Let_def)

lemma RecordSeries_cases:
  "(\<exists>e. RecordSeries E i games d = fail e d)
    \<or> (\<exists>ptw winBy bestOf r. scoringForMatch E i d = Some (ptw, winBy, bestOf)
        \<and> validateSeries games bestOf ptw winBy = Inr r
        \<and> RecordSeries E i games d = applySeries E i games (int (sr_winner r)) (sr_t1total r) (sr_t2total r) d)"
proof (cases "scoringForMatch E i d")
  case None
  then show ?thesis by (auto simp: RecordSeries_def)
next
  case (Some p)
  obtain a b c where p: "p = (a, b, c)" by (cases p)
  show ?thesis
    using Some by (cases "validateSeries games c a b") (auto simp: RecordSeries_def p)
qed

lemma ForfeitMatch_cases:
  "(\<exists>e. ForfeitMatch E i v kind s1 s2 d = fail e d)
    \<or> (\<exists>m k ptw t1 t2 df. find_match i d = Some m \<and> bothSidesPresent i d \<and> (v = 1 \<or> v = 2)
        \<and> k \<in> {''forfeit'', ''retire'', ''walkover''} \<and> forfeit_points v k ptw s1 s2 = (t1, t2, df)
        \<and> ForfeitMatch E i v kind s1 s2 d =
          and_then (advanceAfterScore E (forfeit_row v k t1 t2 df m) False
            (update_match i (forfeit_row v k t1 t2 df) d)) (rollup E (forfeit_row v k t1 t2 df m)))"
proof (cases "(v = 1 \<or> v = 2) \<and> (kind = [] \<or> kind \<in> {''forfeit'', ''retire'', ''walkover''}) \<and> bothSidesPresent i d")
  case False
  then show ?thesis by (auto simp: ForfeitMatch_def Let_def)
next
  case True
  define k where "k = (if kind = [] then ''forfeit'' else kind)"
  show ?thesis
  proof (cases "find_match i d")
    case None
    then show ?thesis using True by (auto simp: ForfeitMatch_def Let_def)
  next
    case (Some m)
    define ptw where "ptw = (case find_event (m_event m) d of
      None \<Rightarrow> 11 | Some e \<Rightarrow> if e_pointsToWin e > 0 then e_pointsToWin e else 11)"
    obtain t1 t2 df where t: "forfeit_points v k ptw s1 s2 = (t1, t2, df)" by (cases "forfeit_points v k ptw s1 s2")
    have k: "k \<in> {''forfeit'', ''retire'', ''walkover''}" using True by (auto simp: k_def)
    have "ForfeitMatch E i v kind s1 s2 d =
          and_then (advanceAfterScore E (forfeit_row v k t1 t2 df m) False
            (update_match i (forfeit_row v k t1 t2 df) d)) (rollup E (forfeit_row v k t1 t2 df m))"
      unfolding ForfeitMatch_def Let_def k_def [symmetric] Some option.case ptw_def [symmetric]
        t prod.case using True k by auto
    then show ?thesis using Some True k t by blast
  qed
qed


section \<open>A small draw to run the handlers on\<close>

text \<open>Two semifinals, one of them played, a final they feed, and a bronze game for the losers.\<close>

definition blank_row :: "string \<Rightarrow> int \<Rightarrow> int \<Rightarrow> mrow" where
  "blank_row i rd sl = bracket_row i ''e'' ''b'' [] [] rd sl"

definition demo_event :: erow where
  "demo_event = \<lparr>e_id = ''e'', e_status = ''in_progress'', e_autoStart = False, e_pointsToWin = 11,
    e_winBy = 2, e_bestOf = 1, e_playoffPtw = 0, e_playoffWinBy = 0, e_playoffSize = 0,
    e_perpetual = False, e_format = ''medal'', e_playerScoring = True,
    e_confirmMinutes = 0, e_name = ''Open''\<rparr>"

definition demo_semi1 :: mrow where
  "demo_semi1 = (blank_row ''s1'' 1 0)\<lparr>m_feeds := Some (''f'', 1), m_loserFeeds := Some (''z'', 1),
    m_status := Completed, m_score1 := Some 11, m_score2 := Some 4, m_winner := 1\<rparr>"

definition demo_semi2 :: mrow where
  "demo_semi2 = (blank_row ''s2'' 1 1)\<lparr>m_feeds := Some (''f'', 2), m_loserFeeds := Some (''z'', 2)\<rparr>"

definition demo_db :: db where
  "demo_db = \<lparr>db_matches = [demo_semi1, demo_semi2, blank_row ''f'' 2 0, blank_row ''z'' 2 1],
    db_parts = [\<lparr>p_match = ''s1'', p_player = ''a'', p_team = 1\<rparr>, \<lparr>p_match = ''s1'', p_player = ''b'', p_team = 2\<rparr>,
      \<lparr>p_match = ''s2'', p_player = ''c'', p_team = 1\<rparr>, \<lparr>p_match = ''s2'', p_player = ''d'', p_team = 2\<rparr>,
      \<lparr>p_match = ''f'', p_player = ''a'', p_team = 1\<rparr>, \<lparr>p_match = ''z'', p_player = ''b'', p_team = 1\<rparr>],
    db_events = [demo_event], db_reports = [], db_rounds = [], db_brackets = [(''b'', ''e'')]\<rparr>"

definition demo_env :: env where
  "demo_env = \<lparr>env_seedTopTeams = (\<lambda>_ _ _ _. [[''a''], [''b''], [''c''], [''d'']]),
    env_buildPlayoff = (\<lambda>_ _ _ d. d), env_rollupTie = (\<lambda>_. Match_Control.ok),
    env_spreadCourts = (\<lambda>_ d. d), env_newId = (\<lambda>_. ''new''), env_playoffCols = True\<rparr>"

definition demo_rank :: "string \<Rightarrow> nat" where
  "demo_rank i = (if i = ''s1'' \<or> i = ''s2'' then 0 else 1)"

lemmas demo_defs = demo_db_def demo_semi1_def demo_semi2_def blank_row_def bracket_row_def demo_event_def

lemma demo_draw_ok: "draw_ok demo_rank demo_db"
proof -
  have "wf_topo demo_db" "ranked demo_rank demo_db" "keys_ok demo_db"
    by (auto simp: wf_topo_def ranked_def keys_ok_def demo_defs dest_def demo_rank_def split: if_splits)
  moreover have "consistent demo_db {}"
    by (auto simp: consistent_def edge_ok_def dest_def sent_team_def slot_set_def slotPlayers_def
        demo_defs split: if_splits)
  ultimately show ?thesis by (simp add: draw_ok_def)
qed

lemma demo_movable: "movable demo_semi1 demo_db"
  by (auto simp: movable_def insertable_def dest_def slot_set_def slotPlayers_def demo_defs split: if_splits)


end
