(* ===== verification/Match_Life.thy ===== *)
theory Match_Life
  imports Match_Control_Props
begin

text \<open>
  The life of a match over any sequence of handler calls: where results appear, what a refused call
  leaves alone, what the reset cascade undoes, the grand final's reset game, the seeding of the
  semifinals and the game that starts by itself.
\<close>

section \<open>Results only where a game was recorded\<close>

definition row_ok :: "mrow \<Rightarrow> bool" where
  "row_ok m \<longleftrightarrow>
    (if m_status m = Completed
     then (m_winner m = 1 \<or> m_winner m = 2) \<and> (m_score1 m = None \<longleftrightarrow> m_score2 m = None)
     else m_winner m = 0 \<and> m_score1 m = None \<and> m_score2 m = None \<and> m_games m = None)"

definition results_ok :: "db \<Rightarrow> bool" where
  "results_ok d \<longleftrightarrow> list_all row_ok (db_matches d)"

text \<open>What the operations of other components keep.\<close>

definition env_keeps :: "env \<Rightarrow> (db \<Rightarrow> bool) \<Rightarrow> bool" where
  "env_keeps E P \<longleftrightarrow> (\<forall>d. P d \<longrightarrow>
    (\<forall>ev. P (env_spreadCourts E ev d)) \<and> (\<forall>b ev n. P (env_buildPlayoff E b ev n d))
    \<and> (\<forall>t. P (snd (env_rollupTie E t d))))"

lemma results_ok_cong: "db_matches d' = db_matches d \<Longrightarrow> results_ok d' = results_ok d"
  by (simp add: results_ok_def)

lemma parts_only [simp]:
  "db_matches (insertSide i t s d) = db_matches d" "db_matches (delete_parts i d) = db_matches d"
  "db_matches (upsert_parts rows d) = db_matches d" "db_matches (copyGrandFinalTeams a b d) = db_matches d"
  by (simp_all add: insertSide_def delete_parts_def upsert_parts_def copyGrandFinalTeams_def Let_def)

lemma results_ok_parts [simp]:
  "results_ok (insertSide i t s d) = results_ok d" "results_ok (delete_parts i d) = results_ok d"
  "results_ok (upsert_parts rows d) = results_ok d" "results_ok (copyGrandFinalTeams a b d) = results_ok d"
  "results_ok (delete_slot i t d) = results_ok d" "results_ok (supersedeScoreReport i d) = results_ok d"
  "results_ok (start_round i d) = results_ok d" "results_ok (syncEventStatus ev d) = results_ok d"
  by (simp_all add: results_ok_def syncEventStatus_def Let_def)

lemma results_ok_update:
  assumes "results_ok d" and "\<And>m. m \<in> set (db_matches d) \<Longrightarrow> m_id m = i \<Longrightarrow> row_ok m \<Longrightarrow> row_ok (f m)"
  shows "results_ok (update_match i f d)"
  using assms by (auto simp: results_ok_def list_all_iff update_match_def)

lemma row_ok_clear [simp]: "row_ok (clear_result m)"
  by (simp add: row_ok_def clear_result_def)

lemma row_ok_status [simp]:
  "row_ok m \<Longrightarrow> old \<noteq> Completed \<Longrightarrow> new \<noteq> Completed \<Longrightarrow> row_ok (set_status old new m)"
  "row_ok m \<Longrightarrow> row_ok (cancel_row m)"
  "v = 1 \<or> v = 2 \<Longrightarrow> row_ok (series_row g v t1 t2 m)" "v = 1 \<or> v = 2 \<Longrightarrow> row_ok (forfeit_row v k t1 t2 df m)"
  by (auto simp: row_ok_def set_status_def cancel_row_def series_row_def forfeit_row_def)

lemma results_ok_reset: "rows_reset d d' \<Longrightarrow> results_ok d \<Longrightarrow> results_ok d'"
  unfolding results_ok_def list_all_iff by (metis rows_reset_back row_ok_clear)

lemma rows_reset_advanceTeam: "rows_reset d (advanceTeam i t f s d)"
proof -
  have "rows_reset d (insertSide f s x (delete_slot f s d))" for x
    by (rule rows_reset_matches) simp
  then show ?thesis
    unfolding advanceTeam_def Let_def by (simp add: rows_reset_trans [OF _ cascade_rows])
qed

lemma rows_reset_advance_bracket: "rows_reset d (advance_bracket m d)"
  unfolding advance_bracket_def Let_def
  using rows_reset_advanceTeam rows_reset_trans by (fastforce split: option.split)

lemma results_ok_insert_delete [simp]:
  "results_ok d \<Longrightarrow> results_ok (delete_match i d)"
  "results_ok d \<Longrightarrow> results_ok (insert_match (reset_game i ev b) d)"
  by (auto simp: results_ok_def list_all_iff delete_match_def insert_match_def reset_game_def bracket_row_def row_ok_def)

lemma env_keepsD:
  assumes "env_keeps E P" and "P d"
  shows "P (env_spreadCourts E ev d)" "P (env_buildPlayoff E b ev n d)" "P (snd (env_rollupTie E t d))"
  using assms by (auto simp: env_keeps_def)

text \<open>
  An invariant of the matches and the score reports that survives a reset, the creation and removal
  of the reset game and the start of a match survives everything that follows a result.
\<close>

locale result_invariant =
  fixes P :: "db \<Rightarrow> bool"
  assumes same: "P d \<Longrightarrow> db_matches d' = db_matches d \<Longrightarrow> db_reports d' = db_reports d \<Longrightarrow> P d'"
    and reset: "P d \<Longrightarrow> rows_reset d d' \<Longrightarrow> db_reports d' = db_reports d \<Longrightarrow> P d'"
    and started: "P d \<Longrightarrow> P (update_match i (set_status Scheduled InProgress) d)"
    and inserted: "P d \<Longrightarrow> P (insert_match (reset_game i ev b) d)"
    and deleted: "P d \<Longrightarrow> P (delete_match i d)"
begin

lemma parts [simp]:
  "P d \<Longrightarrow> P (insertSide i t s d)" "P d \<Longrightarrow> P (delete_parts i d)"
  "P d \<Longrightarrow> P (copyGrandFinalTeams a b d)" "P d \<Longrightarrow> P (start_round r d)"
  "P d \<Longrightarrow> P (syncEventStatus ev d)"
  by (erule same; simp add: syncEventStatus_def start_round_def insertSide_def delete_parts_def
      upsert_parts_def copyGrandFinalTeams_def Let_def)+

lemma resolve: "env_keeps E P \<Longrightarrow> P d \<Longrightarrow> P (snd (resolveGrandFinal E m d))"
  by (auto simp: resolveGrandFinal_def Let_def inserted deleted env_keepsD split: option.splits)

lemma bracket: "env_keeps E P \<Longrightarrow> P d \<Longrightarrow> P (snd (bracket_branch E m d))"
  using reset [OF _ rows_reset_advance_bracket] resolve by (simp add: bracket_branch_def Let_def)

lemma pools:
  assumes "env_keeps E P" and "P d"
  shows "P (snd (pool_branch E m d))"
proof -
  have seed: "P (seed_semis E ev b s1 s2 d)" if "P d" for ev b s1 s2 d
    using assms(1) that by (simp add: seed_semis_def Let_def env_keepsD)
  have "P (snd (maybeSeedPlayoff E b d))" if "P d" for b d
    using that seed by (simp add: maybeSeedPlayoff_def Let_def split: option.split prod.split)
  moreover have "P (snd (maybeAutoBuildPlayoff E ev b d))" if "P d" for ev b d
    using assms(1) that by (simp add: maybeAutoBuildPlayoff_def Let_def env_keepsD split: option.split prod.split)
  ultimately show ?thesis
    unfolding pool_branch_def using assms(2) by (auto intro!: and_then_snd [where P = P])
qed

lemma start_match: "P d \<Longrightarrow> P (snd (StartMatch i d))"
  by (simp add: StartMatch_def started split: option.split)

lemma after:
  assumes "env_keeps E P" and "P d"
  shows "P (snd (advanceAfterScore E m fresh d))"
proof -
  have "P (snd (and_then (pool_branch E m d1) (\<lambda>d2.
      let d3 = syncEventStatus (m_event m) d2 in
      Match_Control.ok (case find_event (m_event m) d2 of None \<Rightarrow> d3
        | Some e \<Rightarrow> if fresh \<and> e_autoStart e
            then autoStartNextOnCourt (m_event m) (m_court m) (m_day m) d3 else d3))))"
    if "P d1" for d1
    using pools [OF assms(1) that]
    by (rule and_then_snd [where P = P])
      (simp add: Let_def autoStartNextOnCourt_def start_match split: option.split)
  then show ?thesis
    unfolding advanceAfterScore_def
    using bracket [OF assms] by (rule and_then_snd [where P = P, rotated])
qed

lemma roll_up: "env_keeps E P \<Longrightarrow> P (snd r) \<Longrightarrow> P (snd (and_then r (rollup E m)))"
  by (rule and_then_snd [where P = P]) (simp_all add: rollup_def env_keepsD)

lemma series:
  assumes "env_keeps E P" and "P d"
    and "P (supersedeScoreReport i (update_match i (series_row games v t1 t2) d))"
  shows "P (snd (applySeries E i games v t1 t2 d))"
  using applySeries_cases [of E i games v t1 t2 d] assms
  by (elim disjE exE conjE) (simp_all add: roll_up after)

end

interpretation results: result_invariant results_ok
proof
  show "results_ok d \<Longrightarrow> db_matches d' = db_matches d \<Longrightarrow> db_reports d' = db_reports d \<Longrightarrow> results_ok d'" for d d'
    using results_ok_cong by blast
  show "results_ok d \<Longrightarrow> rows_reset d d' \<Longrightarrow> db_reports d' = db_reports d \<Longrightarrow> results_ok d'" for d d'
    using results_ok_reset by blast
qed (simp_all add: results_ok_update)

interpretation reports: result_invariant "\<lambda>d. db_reports d = R" for R
  by unfold_locales (simp_all add: update_match_def insert_match_def delete_match_def)

text \<open>One call of a handler.\<close>

inductive match_step :: "env \<Rightarrow> db \<Rightarrow> db \<Rightarrow> bool" for E where
  start: "match_step E d (snd (StartMatch i d))"
| unstart: "match_step E d (snd (UnstartMatch i d))"
| cancel: "match_step E d (snd (CancelMatch i d))"
| restore: "match_step E d (snd (RestoreMatch i d))"
| scored: "match_step E d (snd (RecordSeries E i games d))"
| forfeit: "match_step E d (snd (ForfeitMatch E i v kind s1 s2 d))"

inductive match_reach :: "env \<Rightarrow> db \<Rightarrow> db \<Rightarrow> bool" for E where
  refl: "match_reach E d d"
| step: "match_reach E d d' \<Longrightarrow> match_step E d' d'' \<Longrightarrow> match_reach E d d''"

lemma validateSeries_winner: "validateSeries games b p w = Inr r \<Longrightarrow> sr_winner r = 1 \<or> sr_winner r = 2"
  by (auto simp: validateSeries_def Let_def split: if_splits sum.splits)

lemma int_winner: "w = 1 \<or> w = 2 \<Longrightarrow> int w = 1 \<or> int w = 2"
  by auto

lemma results_applySeries:
  assumes "env_keeps E results_ok" "results_ok d" "v = 1 \<or> v = 2"
  shows "results_ok (snd (applySeries E i games v t1 t2 d))"
  using assms by (intro results.series) (simp_all add: results_ok_update)

lemma results_step:
  assumes E: "env_keeps E results_ok" and s: "match_step E d d'" and d: "results_ok d"
  shows "results_ok d'"
  using s d
proof cases
  case (scored i games)
  show ?thesis
    unfolding scored using RecordSeries_cases [of E i games d] d
    by (elim disjE exE conjE)
      (simp_all add: results_applySeries [OF E d int_winner [OF validateSeries_winner]])
next
  case (forfeit i v kind s1 s2)
  have "results_ok (update_match i (forfeit_row v k t1 t2 df) d)" if "v = 1 \<or> v = 2" for k t1 t2 df
    using d that by (simp add: results_ok_update)
  then show ?thesis
    using forfeit ForfeitMatch_cases [of E i v kind s1 s2 d] d
    by (elim disjE exE conjE) (simp_all add: results.roll_up [OF E results.after [OF E]])
qed (use d in \<open>auto simp: results.start_match UnstartMatch_def CancelMatch_def RestoreMatch_def
       intro!: results_ok_update split: option.splits\<close>)


lemma demo_env_keeps: "env_keeps demo_env P"
  by (simp add: env_keeps_def demo_env_def Match_Control.ok_def)


section \<open>Refused calls and protected results\<close>

text \<open>
  A refused call changes nothing. A match one of whose sides is still to be decided cannot be
  started, scored or forfeited; a series the format does not allow, a winner other than team 1 or 2
  and an unknown result type are refused; a match with a result can be neither unstarted nor marked
  as not played. In each case the handler returns its error and the tables are exactly as they were.
\<close>
theorem refused_calls_change_nothing:
  "(find_match i d \<noteq> None \<and> \<not> bothSidesPresent i d \<longrightarrow> StartMatch i d = (Some OpponentTBD, d))
    \<and> (\<not> bothSidesPresent i d \<longrightarrow> (\<exists>e. RecordSeries E i games d = (Some e, d))
        \<and> (\<exists>e. ForfeitMatch E i v kind s1 s2 d = (Some e, d)))
    \<and> (\<forall>ptw winBy bestOf e. scoringForMatch E i d = Some (ptw, winBy, bestOf)
        \<and> validateSeries games bestOf ptw winBy = Inl e \<longrightarrow> RecordSeries E i games d = (Some (BadSeries e), d))
    \<and> (v \<noteq> 1 \<and> v \<noteq> 2 \<longrightarrow> ForfeitMatch E i v kind s1 s2 d = (Some BadWinningTeam, d))
    \<and> ((v = 1 \<or> v = 2) \<and> kind \<notin> {[], ''forfeit'', ''retire'', ''walkover''}
        \<longrightarrow> ForfeitMatch E i v kind s1 s2 d = (Some BadResultType, d))
    \<and> (\<forall>m. find_match i d = Some m \<and> m_status m = Completed \<longrightarrow>
        UnstartMatch i d = (Some HasResult, d) \<and> CancelMatch i d = (Some HasResult, d))"
proof (intro conjI impI allI; (elim conjE)?)
  assume "\<not> bothSidesPresent i d"
  then show "\<exists>e. RecordSeries E i games d = (Some e, d)"
    using RecordSeries_cases [of E i games d]
    by (elim disjE exE conjE) (auto simp: fail_def applySeries_def)
  show "\<exists>e. ForfeitMatch E i v kind s1 s2 d = (Some e, d)"
    using ForfeitMatch_cases [of E i v kind s1 s2 d] \<open>\<not> bothSidesPresent i d\<close>
    by (elim disjE exE conjE) (auto simp: fail_def)
qed (auto simp: StartMatch_def RecordSeries_def ForfeitMatch_def UnstartMatch_def CancelMatch_def fail_def Let_def)

theorem refused_calls_change_nothing_witness:
  "StartMatch ''f'' demo_db = (Some OpponentTBD, demo_db)
    \<and> ForfeitMatch demo_env ''s1'' 3 [] None None demo_db = (Some BadWinningTeam, demo_db)
    \<and> UnstartMatch ''s1'' demo_db = (Some HasResult, demo_db)"
proof -
  have f: "find_match ''f'' demo_db \<noteq> None \<and> \<not> bothSidesPresent ''f'' demo_db"
    and s: "find_match ''s1'' demo_db = Some demo_semi1 \<and> m_status demo_semi1 = Completed"
    by (simp_all add: find_match_def bothSidesPresent_def demo_defs)
  show ?thesis
    using refused_calls_change_nothing [of "''f''" demo_db] f s
      refused_calls_change_nothing [of "''s1''" demo_db demo_env "[]" 3 "[]" None None]
    by simp
qed

definition results_of :: "db \<Rightarrow> mrow list" where
  "results_of d = filter (\<lambda>m. m_status m = Completed) (db_matches d)"

lemma results_of_update:
  assumes "\<And>m. m_status m = Completed \<Longrightarrow> f m = m" and "\<And>m. m_status m \<noteq> Completed \<Longrightarrow> m_status (f m) \<noteq> Completed"
  shows "results_of (update_match i f d) = results_of d"
proof -
  have "filter (\<lambda>m. m_status m = Completed) (map (\<lambda>m. if m_id m = i then f m else m) ms)
      = filter (\<lambda>m. m_status m = Completed) ms" for ms
    using assms by (induction ms) auto
  then show ?thesis by (simp add: results_of_def update_match_def)
qed

lemma results_of_status [simp]:
  assumes "old \<noteq> Completed" "new \<noteq> Completed"
  shows "results_of (update_match i (set_status old new) d) = results_of d"
  using assms by (intro results_of_update) (auto simp: set_status_def)

text \<open>
  Only recording touches results. Starting, unstarting, cancelling or restoring any match leaves
  every finished match of the tables exactly as it was, and finishes none.
\<close>
theorem organiser_actions_keep_results:
  "results_of (snd (StartMatch i d)) = results_of d
    \<and> results_of (snd (UnstartMatch i d)) = results_of d
    \<and> results_of (snd (CancelMatch i d)) = results_of d
    \<and> results_of (snd (RestoreMatch i d)) = results_of d"
proof -
  have "results_of (update_match i cancel_row d) = results_of d"
    by (rule results_of_update) (auto simp: cancel_row_def)
  moreover have "results_of (start_round r d) = results_of d" for r d
    by (simp add: results_of_def)
  ultimately show ?thesis
    by (simp add: StartMatch_def UnstartMatch_def CancelMatch_def RestoreMatch_def split: option.split)
qed

section \<open>The reset cascade\<close>

lemma cascade_undoes:
  assumes "find_match i (resetCompletedDownstream i d) = Some m"
  shows "m_status m \<noteq> Completed"
proof (cases "\<exists>m. find_match i d = Some m \<and> m_status m = Completed")
  case False
  then have "resetCompletedDownstream i d = d"
    by (subst resetCompletedDownstream_rec) (auto split: option.split)
  then show ?thesis using False assms by auto
next
  case True
  then obtain n where n: "find_match i d = Some n" "m_status n = Completed" by blast
  define d1 where "d1 = update_match i clear_result d"
  define d2 where "d2 = (case m_feeds n of None \<Rightarrow> d1
    | Some fs \<Rightarrow> resetCompletedDownstream (fst fs) (delete_slot (fst fs) (snd fs) d1))"
  have step: "rows_reset a (resetCompletedDownstream f (delete_slot f s a))" for a f s
    by (rule rows_reset_trans [OF rows_reset_matches cascade_rows]) simp
  have "rows_reset d1 d2" by (simp add: d2_def step split: option.split)
  moreover have "resetCompletedDownstream i d = (case m_loserFeeds n of None \<Rightarrow> d2
      | Some fs \<Rightarrow> resetCompletedDownstream (fst fs) (delete_slot (fst fs) (snd fs) d2))"
    unfolding d2_def d1_def by (subst resetCompletedDownstream_rec) (simp add: n Let_def)
  then have "rows_reset d2 (resetCompletedDownstream i d)" by (simp add: step split: option.split)
  ultimately have rr: "rows_reset d1 (resetCompletedDownstream i d)" by (rule rows_reset_trans)
  have m: "m \<in> set (db_matches (resetCompletedDownstream i d))" "m_id m = i"
    using find_match_Some [OF assms] by simp_all
  obtain k where k: "k \<in> set (db_matches d1)" "m = k \<or> m = clear_result k"
    by (rule rows_reset_back [OF rr m(1)])
  have "k \<in> (\<lambda>x. if m_id x = i then clear_result x else x) ` set (db_matches d)"
    using k(1) by (simp add: d1_def update_match_def)
  then obtain x where x: "k = (if m_id x = i then clear_result x else x)" by (rule imageE)
  have "m_id k = i" using k(2) m(2) by (metis clear_result_simps(1))
  then have "m_status k = Scheduled" using x by (metis clear_result_simps(3))
  then show ?thesis using k(2) by (metis clear_result_simps(3) match_status.distinct(3))
qed

text \<open>
  C36: The reset cascade ends. \<open>resetCompletedDownstream\<close> returns on any tables, even with feeds that
  form a cycle: each call it makes undoes one finished match more. Afterwards the match it started
  from is unplayed, and every match is as it was or cleared back to scheduled, so nothing is finished
  that was not finished before.
\<close>
theorem reset_cascade_ends:
  "\<exists>d'. reset_cascade i d = Some d' \<and> completed_count d' \<le> completed_count d
    \<and> list_all2 (\<lambda>m m'. m' = m \<or> m' = clear_result m) (db_matches d) (db_matches d')
    \<and> (case find_match i d' of None \<Rightarrow> True | Some m \<Rightarrow> m_status m \<noteq> Completed)"
proof -
  obtain d' where d': "reset_cascade i d = Some d'" "completed_count d' \<le> completed_count d"
    using reset_cascade_returns by blast
  then have "d' = resetCompletedDownstream i d" by (simp add: reset_cascade_eq)
  then show ?thesis
    using d' cascade_rows [of d i] cascade_undoes [of i d] by (auto simp: rows_reset_def split: option.split)
qed

section \<open>The grand final\<close>

definition sides_of :: "string \<Rightarrow> db \<Rightarrow> (pid \<times> int) set" where
  "sides_of i d = {(p, t). p \<in> slot_set i t d}"

lemma sides_of_parts: "sides_of i d = (\<lambda>p. (p_player p, p_team p)) ` set (match_parts i d)"
  by (force simp: sides_of_def slot_set_iff match_parts_def)

lemma distinct_match_parts:
  assumes "keys_ok d"
  shows "distinct (map (\<lambda>p. (p_player p, p_team p)) (match_parts i d))"
    and "distinct (map p_player (match_parts i d))"
proof -
  have P: "distinct (map p_player (filter (\<lambda>p. p_match p = i) ps))
      \<and> distinct (map (\<lambda>p. (p_player p, p_team p)) (filter (\<lambda>p. p_match p = i) ps))"
    if "distinct (map (\<lambda>r. (p_match r, p_player r)) ps)" for ps
    using that by (induction ps) (auto simp: image_iff)
  show "distinct (map (\<lambda>p. (p_player p, p_team p)) (match_parts i d))"
    "distinct (map p_player (match_parts i d))"
    using P [OF assms [unfolded keys_ok_def]] unfolding match_parts_def by blast+
qed

lemma sameParticipants_sides:
  assumes "keys_ok d" and "sameParticipants (match_parts a d) (match_parts b d)"
  shows "sides_of a d = sides_of b d"
proof -
  let ?k = "\<lambda>p. (p_player p, p_team p)"
  have sub: "?k ` set (match_parts b d) \<subseteq> ?k ` set (match_parts a d)"
  proof
    fix x assume "x \<in> ?k ` set (match_parts b d)"
    then obtain p where p: "p \<in> set (match_parts b d)" "x = ?k p" by blast
    then obtain q where "q \<in> set (match_parts a d)" "p_player q = p_player p" "p_team q = p_team p"
      using assms(2) by (fastforce simp: sameParticipants_def list_all_iff list_ex_iff)
    then have "x = ?k q" using p(2) by simp
    then show "x \<in> ?k ` set (match_parts a d)" using \<open>q \<in> set (match_parts a d)\<close> by (rule image_eqI)
  qed
  moreover have "card (?k ` set (match_parts b d)) = card (?k ` set (match_parts a d))"
    using assms(2) distinct_card [OF distinct_match_parts(1) [OF assms(1)]]
    by (simp add: sameParticipants_def)
  ultimately have "?k ` set (match_parts b d) = ?k ` set (match_parts a d)"
    by (intro card_subset_eq) simp_all
  then show ?thesis by (simp only: sides_of_parts)
qed

lemma fold_upsert_append:
  assumes "\<forall>r\<in>set rows. p_match r = j" "distinct (map p_player rows)" "\<forall>p\<in>set ps. p_match p = j \<longrightarrow> p_player p \<notin> p_player ` set rows"
  shows "fold upsert_part rows ps = ps @ rows"
  using assms
proof (induction rows arbitrary: ps)
  case Nil
  then show ?case by simp
next
  case (Cons r rows)
  have "upsert_part r ps = ps @ [r]" using Cons.prems by (auto simp: upsert_part_def)
  moreover have "fold upsert_part rows (ps @ [r]) = (ps @ [r]) @ rows"
    using Cons.prems by (intro Cons.IH) auto
  ultimately show ?case by simp
qed

lemma copy_sides:
  assumes keys: "keys_ok d" and "a \<noteq> b"
  shows "sides_of b (copyGrandFinalTeams a b d) = sides_of a d"
    and "i \<noteq> b \<Longrightarrow> sides_of i (copyGrandFinalTeams a b d) = sides_of i d"
proof -
  let ?rows = "map (\<lambda>p. \<lparr>p_match = b, p_player = p_player p, p_team = p_team p\<rparr>) (match_parts a d)"
  let ?d1 = "delete_parts b d"
  have "distinct (map p_player ?rows)"
    using distinct_match_parts(2) [OF keys, of a] by (simp add: comp_def)
  then have fu: "fold upsert_part ?rows (db_parts ?d1) = db_parts ?d1 @ ?rows"
    by (intro fold_upsert_append [of _ b]) (auto simp: delete_parts_def)
  have parts: "db_parts (copyGrandFinalTeams a b d) =
      (if sameParticipants (match_parts a d) (match_parts b d) then db_parts d else db_parts ?d1 @ ?rows)"
    unfolding copyGrandFinalTeams_def Let_def upsert_parts_def using fu by simp
  have same: "sides_of a d = sides_of b d" if "sameParticipants (match_parts a d) (match_parts b d)"
    using sameParticipants_sides [OF keys that] .
  have new: "match_parts b (d\<lparr>db_parts := db_parts ?d1 @ ?rows\<rparr>) = ?rows"
    by (simp add: match_parts_def delete_parts_def filter_empty_conv)
  have old: "match_parts i (d\<lparr>db_parts := db_parts ?d1 @ ?rows\<rparr>) = match_parts i d" if "i \<noteq> b"
    using that by (auto simp: match_parts_def delete_parts_def filter_empty_conv intro: filter_cong)
  have cong: "match_parts i (copyGrandFinalTeams a b d) = match_parts i (d\<lparr>db_parts := db_parts ?d1 @ ?rows\<rparr>)"
    if "\<not> sameParticipants (match_parts a d) (match_parts b d)" for i
    using that by (simp add: match_parts_def parts)
  have keep: "match_parts i (copyGrandFinalTeams a b d) = match_parts i d"
    if "sameParticipants (match_parts a d) (match_parts b d)" for i
    using that by (simp add: match_parts_def parts)
  show "sides_of b (copyGrandFinalTeams a b d) = sides_of a d"
  proof (cases "sameParticipants (match_parts a d) (match_parts b d)")
    case True
    then show ?thesis using same keep [of b] by (simp add: sides_of_parts)
  next
    case False
    show ?thesis unfolding sides_of_parts cong [OF False] new by (simp add: image_image)
  qed
  show "sides_of i (copyGrandFinalTeams a b d) = sides_of i d" if "i \<noteq> b"
    using keep [of i] cong [of i] old [OF that]
    by (cases "sameParticipants (match_parts a d) (match_parts b d)") (simp_all add: sides_of_parts)
qed

text \<open>What the court assignment keeps: the rows' identity and tier, and who plays where.\<close>

definition courts_only :: "env \<Rightarrow> bool" where
  "courts_only E \<longleftrightarrow> (\<forall>ev d. db_parts (env_spreadCourts E ev d) = db_parts d
    \<and> map (\<lambda>m. (m_id m, m_event m, m_bracket m, m_tier m, m_round m, m_status m)) (db_matches (env_spreadCourts E ev d))
      = map (\<lambda>m. (m_id m, m_event m, m_bracket m, m_tier m, m_round m, m_status m)) (db_matches d))"

lemma courts_only_reset:
  assumes "courts_only E"
  shows "filter (is_reset_game e b) (db_matches (env_spreadCourts E ev d)) = [] \<longleftrightarrow>
      filter (is_reset_game e b) (db_matches d) = []"
    and "map m_id (filter (is_reset_game e b) (db_matches (env_spreadCourts E ev d)))
      = map m_id (filter (is_reset_game e b) (db_matches d))"
proof -
  have m: "map m_id (filter (is_reset_game e b) ms) = map m_id (filter (is_reset_game e b) ns)"
    if "map (\<lambda>m. (m_id m, m_event m, m_bracket m, m_tier m, m_round m, m_status m)) ms
      = map (\<lambda>m. (m_id m, m_event m, m_bracket m, m_tier m, m_round m, m_status m)) ns" for ms ns
    using that
  proof (induction ms arbitrary: ns)
    case Nil
    then show ?case by simp
  next
    case (Cons x ms)
    then obtain y ns' where "ns = y # ns'" by (cases ns) auto
    then show ?case using Cons by (auto simp: is_reset_game_def)
  qed
  show "map m_id (filter (is_reset_game e b) (db_matches (env_spreadCourts E ev d)))
      = map m_id (filter (is_reset_game e b) (db_matches d))"
    using assms by (intro m) (simp add: courts_only_def)
  then show "filter (is_reset_game e b) (db_matches (env_spreadCourts E ev d)) = [] \<longleftrightarrow>
      filter (is_reset_game e b) (db_matches d) = []" by (metis map_is_Nil_conv)
qed

text \<open>
  C37: The grand final of a double elimination. When game 1 goes to the winners'-bracket champion
  (team 1) no reset game is left, even one already created or played. When the losers'-bracket
  champion wins, there is exactly one reset game in the bracket - the existing one, or a new one -
  and its two sides are those of game 1, each with its team number. (Row ids are unique, at most one
  reset game existed, and court assignment touches courts only.)
\<close>
theorem grand_final_resolved:
  assumes E: "courts_only E" and fresh: "env_newId E d \<notin> m_id ` set (db_matches d)"
    and ids: "distinct (map m_id (db_matches d))" and keys: "keys_ok d"
    and gf: "gf \<in> set (db_matches d)" "m_bracket gf \<noteq> []" "m_round gf = 1"
    and one: "length (filter (is_reset_game (m_event gf) (m_bracket gf)) (db_matches d)) \<le> 1"
  shows "\<exists>d'. resolveGrandFinal E gf d = (None, d')
    \<and> (let resets = map m_id (filter (is_reset_game (m_event gf) (m_bracket gf)) (db_matches d')) in
       (m_winner gf = 1 \<longrightarrow> resets = [])
       \<and> (m_winner gf \<noteq> 1 \<longrightarrow> (\<exists>i. resets = [i] \<and> sides_of i d' = sides_of (m_id gf) d)))"
proof -
  let ?P = "is_reset_game (m_event gf) (m_bracket gf)"
  show ?thesis
  proof (cases "List.find ?P (db_matches d)")
    case None
    then have none: "filter ?P (db_matches d) = []" by (simp add: find_None_iff filter_empty_conv)
    let ?i = "env_newId E d"
    let ?d1 = "insert_match (reset_game ?i (m_event gf) (m_bracket gf)) d"
    let ?d2 = "if m_event gf \<noteq> [] then env_spreadCourts E (m_event gf) ?d1 else ?d1"
    have ne: "m_id gf \<noteq> ?i" using fresh gf(1) by (metis imageI)
    have r1: "map m_id (filter ?P (db_matches ?d1)) = [?i]"
      using none by (simp add: insert_match_def is_reset_game_def reset_game_def bracket_row_def)
    have p1: "db_parts ?d2 = db_parts d" using E by (simp add: courts_only_def insert_match_def)
    have "?d2 = ?d1 \<or> ?d2 = env_spreadCourts E (m_event gf) ?d1" by simp
    then have "map m_id (filter ?P (db_matches ?d2)) = [?i]"
      by (elim disjE) (simp_all only: courts_only_reset(2) [OF E] r1)
    moreover have "keys_ok ?d2" using keys p1 unfolding keys_ok_def by simp
    then have "sides_of ?i (copyGrandFinalTeams (m_id gf) ?i ?d2) = sides_of (m_id gf) ?d2"
      using copy_sides(1) ne by blast
    moreover have "sides_of (m_id gf) ?d2 = sides_of (m_id gf) d"
      unfolding sides_of_parts match_parts_def p1 ..
    ultimately show ?thesis
      using None gf(2) none by (simp add: resolveGrandFinal_def Let_def Match_Control.ok_def)
  next
    case (Some g)
    then have g: "g \<in> set (db_matches d)" "?P g" by (auto simp: find_Some_iff)
    then have "g \<in> set (filter ?P (db_matches d))" by simp
    then have gs: "filter ?P (db_matches d) = [g]"
      using one by (cases "filter ?P (db_matches d)") auto
    have "g \<noteq> gf" using g(2) gf(3) by (auto simp: is_reset_game_def)
    then have ne: "m_id gf \<noteq> m_id g" using ids g(1) gf(1) by (auto simp: distinct_map inj_on_def)
    have "filter ?P (db_matches (delete_match (m_id g) (delete_parts (m_id g) d)))
        = filter (\<lambda>m. m_id m \<noteq> m_id g) (filter ?P (db_matches d))"
      by (simp add: delete_match_def conj_commute)
    then have "filter ?P (db_matches (delete_match (m_id g) (delete_parts (m_id g) d))) = []"
      by (simp add: gs)
    then show ?thesis
      using Some gf(2) gs copy_sides(1) [OF keys ne] by (simp add: resolveGrandFinal_def Let_def Match_Control.ok_def)
  qed
qed

definition demo_gf :: mrow where
  "demo_gf = (blank_row ''g1'' 1 0)\<lparr>m_tier := ''grand_final'', m_status := Completed,
    m_score1 := Some 5, m_score2 := Some 11, m_winner := 2\<rparr>"

definition demo_gf_db :: db where
  "demo_gf_db = demo_db\<lparr>db_matches := [demo_gf], db_parts := [\<lparr>p_match = ''g1'', p_player = ''a'', p_team = 1\<rparr>,
    \<lparr>p_match = ''g1'', p_player = ''b'', p_team = 2\<rparr>]\<rparr>"

lemma demo_courts_only: "courts_only demo_env"
  by (simp add: courts_only_def demo_env_def)

theorem grand_final_resolved_witness:
  "\<exists>d' i. resolveGrandFinal demo_env demo_gf demo_gf_db = (None, d')
    \<and> map m_id (filter (is_reset_game ''e'' ''b'') (db_matches d')) = [i]
    \<and> sides_of i d' = sides_of ''g1'' demo_gf_db"
proof -
  have gf: "m_event demo_gf = ''e''" "m_bracket demo_gf = ''b''" "m_id demo_gf = ''g1''" "m_winner demo_gf \<noteq> 1"
    by (simp_all add: demo_gf_def blank_row_def bracket_row_def)
  have "\<exists>d'. resolveGrandFinal demo_env demo_gf demo_gf_db = (None, d')
    \<and> (let resets = map m_id (filter (is_reset_game (m_event demo_gf) (m_bracket demo_gf)) (db_matches d')) in
       (m_winner demo_gf = 1 \<longrightarrow> resets = [])
       \<and> (m_winner demo_gf \<noteq> 1 \<longrightarrow> (\<exists>i. resets = [i] \<and> sides_of i d' = sides_of (m_id demo_gf) demo_gf_db)))"
    by (rule grand_final_resolved [OF demo_courts_only])
      (simp_all add: demo_env_def demo_gf_db_def demo_gf_def demo_defs keys_ok_def is_reset_game_def)
  then show ?thesis using gf by (auto simp: Let_def)
qed

section \<open>Seeding the semifinals\<close>

lemma bracket_started_parts [simp]:
  "bracketStarted b (insertSide i t s d) = bracketStarted b d"
  by (simp add: bracketStarted_def bracket_matches_def)

lemma slot_set_delete_parts [simp]:
  "slot_set i t (delete_parts j d) = (if i = j then {} else slot_set i t d)"
  by (auto simp: slot_set_iff delete_parts_def)

lemma no_parts_slot: "match_parts i d = [] \<Longrightarrow> slot_set i t d = {}"
  by (auto simp: slot_set_iff match_parts_def filter_empty_conv)

lemma seed_slots:
  assumes "a \<noteq> b" and empty: "\<And>t. slot_set a t d = {}" "\<And>t. slot_set b t d = {}"
    and "set s0 \<inter> set s3 = {}" "set s1 \<inter> set s2 = {}" "''__BYE__'' \<notin> set s0 \<union> set s1 \<union> set s2 \<union> set s3"
  defines "e \<equiv> insertSide b 2 s2 (insertSide b 1 s1 (insertSide a 2 s3 (insertSide a 1 s0 d)))"
  shows "slot_set a 1 e = set s0 \<and> slot_set a 2 e = set s3 \<and> slot_set b 1 e = set s1 \<and> slot_set b 2 e = set s2"
proof -
  have 1: "insertable (set s0) a 1 d" using assms by (simp add: insertable_def)
  note S1 = slot_set_insertSide [OF 1]
  have 2: "insertable (set s3) a 2 (insertSide a 1 s0 d)" using assms by (auto simp: insertable_def S1)
  note S2 = slot_set_insertSide [OF 2]
  have 3: "insertable (set s1) b 1 (insertSide a 2 s3 (insertSide a 1 s0 d))"
    using assms by (auto simp: insertable_def S1 S2)
  note S3 = slot_set_insertSide [OF 3]
  have 4: "insertable (set s2) b 2 (insertSide b 1 s1 (insertSide a 2 s3 (insertSide a 1 s0 d)))"
    using assms by (auto simp: insertable_def S1 S2 S3)
  show ?thesis
    using assms(1) empty by (simp add: e_def slot_set_insertSide [OF 4] S3 S2 S1)
qed

text \<open>
  When the last pool game of a division is in, its two semifinals are seeded 1 against 4 and 2
  against 3 from the seed order, replacing a seeding made before as long as no playoff game has been
  started. While a pool game is open, or once a seeded playoff is under way, the tables stay as they
  are. (The division has the two-semifinal skeleton, the event asks for no larger draw, and the four
  seeds are disjoint sides of real players.)
\<close>
theorem semifinals_seeded_from_pools:
  assumes ev: "map_of (db_brackets d) bid = Some ev" "find_event ev d = Some e"
      "normalizePlayoffSize (e_playoffSize e) < 4"
    and semis: "filter (\<lambda>m. m_round m = 1) (bracket_matches bid d) = [a, b]"
      "m_slot a = 0" "m_slot b = 1" "m_id a \<noteq> m_id b"
      "match_parts (m_id a) d = [] \<longrightarrow> match_parts (m_id b) d = []"
    and seeds: "env_seedTopTeams E ev bid ''wins'' d = s0 # s1 # s2 # s3 # lower"
      "set s0 \<inter> set s3 = {}" "set s1 \<inter> set s2 = {}" "''__BYE__'' \<notin> set s0 \<union> set s1 \<union> set s2 \<union> set s3"
    and E: "courts_only E"
  shows "(let (total, opn) = poolProgress bid d; d' = snd (maybeSeedPlayoff E bid d) in
    (opn > 0 \<or> match_parts (m_id a) d \<noteq> [] \<and> bracketStarted bid d \<longrightarrow> d' = d)
    \<and> (total > 0 \<and> opn = 0 \<and> \<not> bracketStarted bid d \<longrightarrow>
        slot_set (m_id a) 1 d' = set s0 \<and> slot_set (m_id a) 2 d' = set s3
        \<and> slot_set (m_id b) 1 d' = set s1 \<and> slot_set (m_id b) 2 d' = set s2))"
proof -
  obtain total opn where tp: "poolProgress bid d = (total, opn)" by fastforce
  have m: "maybeSeedPlayoff E bid d = (if total = 0 \<or> opn > 0 then Match_Control.ok d
      else Match_Control.ok (seed_semis E ev bid (m_id a) (m_id b) d))"
    using ev semis(1-3) tp by (simp add: maybeSeedPlayoff_def last_with_def)
  have slots: "slot_set i t (env_spreadCourts E ev d0) = slot_set i t d0" for i t d0
    using E by (simp add: courts_only_def slot_set_def slotPlayers_def)
  have empty: "slot_set (m_id a) t d = {} \<and> slot_set (m_id b) t d = {}" if "match_parts (m_id a) d = []" for t
    using that semis(5) by (simp add: no_parts_slot)
  have "let d' = seed_semis E ev bid (m_id a) (m_id b) d in
      slot_set (m_id a) 1 d' = set s0 \<and> slot_set (m_id a) 2 d' = set s3
      \<and> slot_set (m_id b) 1 d' = set s1 \<and> slot_set (m_id b) 2 d' = set s2" if "\<not> bracketStarted bid d"
  proof -
    let ?d1 = "if match_parts (m_id a) d \<noteq> [] then delete_parts (m_id b) (delete_parts (m_id a) d) else d"
    have "slot_set (m_id a) t ?d1 = {}" "slot_set (m_id b) t ?d1 = {}" for t
      using empty by simp_all
    from seed_slots [OF semis(4) this seeds(2-4)] show ?thesis
      using that seeds(1) by (simp add: seed_semis_def Let_def slots)
  qed
  then show ?thesis
    by (auto simp: tp m seed_semis_def Let_def)
qed

definition demo_pool :: db where
  "demo_pool = demo_db\<lparr>db_matches := [(blank_row ''p1'' 1 0)\<lparr>m_stage := ''pool'', m_status := Completed,
      m_score1 := Some 11, m_score2 := Some 4, m_winner := 1\<rparr>, blank_row ''s1'' 1 0, blank_row ''s2'' 1 1], db_parts := []\<rparr>"

theorem semifinals_seeded_from_pools_witness:
  "slot_set ''s1'' 1 (snd (maybeSeedPlayoff demo_env ''b'' demo_pool)) = {''a''}
    \<and> slot_set ''s1'' 2 (snd (maybeSeedPlayoff demo_env ''b'' demo_pool)) = {''d''}"
proof -
  have semis: "filter (\<lambda>m. m_round m = 1) (bracket_matches ''b'' demo_pool)
      = [blank_row ''s1'' 1 0, blank_row ''s2'' 1 1]"
    by (simp add: bracket_matches_def demo_pool_def demo_defs)
  have pp: "poolProgress ''b'' demo_pool = (1, 0)" and ns: "\<not> bracketStarted ''b'' demo_pool"
    by (simp_all add: poolProgress_def bracketStarted_def bracket_matches_def demo_pool_def demo_defs)
  have "(let (total, opn) = poolProgress ''b'' demo_pool; d' = snd (maybeSeedPlayoff demo_env ''b'' demo_pool) in
    (opn > 0 \<or> match_parts (m_id (blank_row ''s1'' 1 0)) demo_pool \<noteq> [] \<and> bracketStarted ''b'' demo_pool \<longrightarrow> d' = demo_pool)
    \<and> (total > 0 \<and> opn = 0 \<and> \<not> bracketStarted ''b'' demo_pool \<longrightarrow>
        slot_set (m_id (blank_row ''s1'' 1 0)) 1 d' = set [''a''] \<and> slot_set (m_id (blank_row ''s1'' 1 0)) 2 d' = set [''d'']
        \<and> slot_set (m_id (blank_row ''s2'' 1 1)) 1 d' = set [''b''] \<and> slot_set (m_id (blank_row ''s2'' 1 1)) 2 d' = set [''c'']))"
    by (rule semifinals_seeded_from_pools [OF _ _ _ semis _ _ _ _ _ _ _ _ demo_courts_only,
        where ev = "''e''" and e = demo_event and lower = "[]"])
      (simp_all add: demo_pool_def demo_db_def demo_event_def find_event_def normalizePlayoffSize_def
        blank_row_def bracket_row_def match_parts_def demo_env_def)
  moreover have "m_id (blank_row ''s1'' 1 0) = ''s1''" by (simp add: blank_row_def bracket_row_def)
  ultimately show ?thesis using pp ns by (simp only: Let_def prod.case) simp
qed

section \<open>The next game on the court\<close>

definition startable :: "string \<Rightarrow> string \<Rightarrow> int option \<Rightarrow> db \<Rightarrow> mrow \<Rightarrow> bool" where
  "startable ev court doneDay d m \<longleftrightarrow> m_event m = ev \<and> m_court m = court \<and> m_status m = Scheduled
    \<and> sameSchedDay doneDay (m_day m) \<and> bothSidesPresent (m_id m) d
    \<and> (\<forall>n\<in>set (db_matches d). m_event n = ev \<and> m_status n = InProgress \<longrightarrow>
        (\<forall>t u p. p \<noteq> [] \<and> p \<in> slot_set (m_id m) t d \<longrightarrow> p \<notin> slot_set (m_id n) u d))"

lemma playersInProgress_iff:
  "p \<in> set (playersInProgress ev d) \<longleftrightarrow> p \<noteq> [] \<and> (\<exists>n\<in>set (db_matches d). m_event n = ev
    \<and> m_status n = InProgress \<and> (\<exists>t. p \<in> slot_set (m_id n) t d))"
  by (auto simp: playersInProgress_def match_parts_def slot_set_iff image_iff)

lemma some_part_iff:
  "list_ex (\<lambda>p. Q (p_player p)) (match_parts i d) \<longleftrightarrow> (\<exists>t q. q \<in> slot_set i t d \<and> Q q)"
  by (auto simp: list_ex_iff match_parts_def slot_set_iff)

lemma next_ready_startable: "next_ready ev court doneDay d = List.find (startable ev court doneDay d) (db_matches d)"
proof -
  have A: "(\<not> list_ex (\<lambda>p. p_player p \<in> set (playersInProgress ev d)) (match_parts (m_id m) d)) \<longleftrightarrow>
      (\<forall>n\<in>set (db_matches d). m_event n = ev \<and> m_status n = InProgress \<longrightarrow>
        (\<forall>t u p. p \<noteq> [] \<and> p \<in> slot_set (m_id m) t d \<longrightarrow> p \<notin> slot_set (m_id n) u d))" for m
    by (subst some_part_iff [of "\<lambda>q. q \<in> set (playersInProgress ev d)"]) (unfold playersInProgress_iff, blast)
  show ?thesis unfolding next_ready_def startable_def A ..
qed

text \<open>
  At most one game starts by itself, and only one that can be played. When a result frees a court,
  either nothing changes or exactly one match is started, the first in play order that was scheduled on
  that court on the same day as the finished one, has both its sides, and nobody in it playing in
  another game of the event; and no game was in progress on the court. (Match ids are unique.)
\<close>
theorem auto_start_is_safe:
  assumes ids: "distinct (map m_id (db_matches d))"
  shows "autoStartNextOnCourt ev court doneDay d = d
    \<or> (\<exists>m earlier later. db_matches d = earlier @ m # later
        \<and> autoStartNextOnCourt ev court doneDay d
          = start_round (m_roundId m) (update_match (m_id m) (set_status Scheduled InProgress) d)
        \<and> startable ev court doneDay d m \<and> (\<forall>n\<in>set earlier. \<not> startable ev court doneDay d n)
        \<and> (\<forall>n\<in>set (db_matches d). m_event n = ev \<and> m_court n = court \<longrightarrow> m_status n \<noteq> InProgress))"
proof (cases "autoStartNextOnCourt ev court doneDay d = d")
  case False
  then have c: "court \<noteq> []" and idle: "\<not> list_ex (\<lambda>m. m_event m = ev \<and> m_court m = court \<and> m_status m = InProgress) (db_matches d)"
    by (auto simp: autoStartNextOnCourt_def split: if_splits)
  then obtain m where m: "next_ready ev court doneDay d = Some m"
    using False by (auto simp: autoStartNextOnCourt_def split: option.splits)
  let ?P = "startable ev court doneDay d"
  obtain j where j: "j < length (db_matches d)" "?P (db_matches d ! j)" "m = db_matches d ! j"
    "\<forall>i<j. \<not> ?P (db_matches d ! i)"
    using m unfolding next_ready_startable find_Some_iff by blast
  have split: "db_matches d = take j (db_matches d) @ m # drop (Suc j) (db_matches d)"
    using id_take_nth_drop [OF j(1)] j(3) by simp
  have fm: "find_match (m_id m) d = Some m"
  proof -
    have mem: "m \<in> set (db_matches d)" using j(1,3) by simp
    then obtain m' where m': "find_match (m_id m) d = Some m'"
      by (cases "find_match (m_id m) d") (auto simp: find_match_def find_None_iff)
    then show ?thesis using find_match_Some [OF m'] mem ids by (auto simp: distinct_map inj_on_def)
  qed
  have run: "autoStartNextOnCourt ev court doneDay d
      = start_round (m_roundId m) (update_match (m_id m) (set_status Scheduled InProgress) d)"
    using c idle m j(2,3) fm by (simp add: autoStartNextOnCourt_def StartMatch_def startable_def)
  have "\<forall>n\<in>set (take j (db_matches d)). \<not> ?P n"
    using j(1,4) by (auto simp: in_set_conv_nth)
  moreover have "\<forall>n\<in>set (db_matches d). m_event n = ev \<and> m_court n = court \<longrightarrow> m_status n \<noteq> InProgress"
    using idle by (auto simp: list_ex_iff)
  ultimately show ?thesis using split run j(2,3) by blast
qed simp

theorem auto_start_is_safe_witness:
  "autoStartNextOnCourt ''e'' ''c1'' None demo_db = demo_db \<or> (\<exists>m. startable ''e'' ''c1'' None demo_db m)"
proof -
  have "distinct (map m_id (db_matches demo_db))" by (simp add: demo_defs)
  from auto_start_is_safe [OF this, of "''e''" "''c1''" None] show ?thesis by blast
qed

section \<open>Two flaws\<close>

text \<open>
  A match marked as not played keeps its event open: \<open>syncEventStatus\<close> asks for matches whose status
  is not completed, and a canceled one qualifies, so the event is never marked completed.
\<close>

lemma canceled_game_keeps_event_open:
  assumes "m \<in> set (db_matches d)" "m_event m = ev" "m_status m = Canceled"
    and "e \<in> set (db_events (syncEventStatus ev d))" "e_id e = ev"
  shows "e_status e \<noteq> ''completed''"
proof -
  have "list_ex (\<lambda>m. m_event m = ev \<and> m_status m \<noteq> Completed) (db_matches d)"
    using assms(1-3) by (auto simp: list_ex_iff)
  then have "e \<in> (\<lambda>e. if e_id e = ev \<and> e_status e = ''completed'' then e\<lparr>e_status := ''in_progress''\<rparr> else e)
      ` set (db_events d)"
    using assms(4) by (simp add: syncEventStatus_def)
  then obtain e0 where "e = (if e_id e0 = ev \<and> e_status e0 = ''completed'' then e0\<lparr>e_status := ''in_progress''\<rparr> else e0)"
    by (rule imageE)
  then show ?thesis using assms(5) by (cases "e_id e0 = ev \<and> e_status e0 = ''completed''") auto
qed

text \<open>
  A reset game already played keeps its result when game 1 is recorded again with other players: only
  its participants are replaced.
\<close>

lemma reset_game_keeps_stale_result:
  assumes "m_bracket gf \<noteq> []" "m_winner gf \<noteq> 1"
    and "List.find (is_reset_game (m_event gf) (m_bracket gf)) (db_matches d) = Some g"
  shows "db_matches (snd (resolveGrandFinal E gf d)) = db_matches d"
  using assms by (simp add: resolveGrandFinal_def Let_def)

end
