(* ===== verification/Score_Reports.thy ===== *)
theory Score_Reports
  imports Match_Life
begin

text \<open>
  Player score reports, \<open>internal/service/score_reports.go\<close>: the winning side reports a score, the
  other side confirms or disputes it, silence confirms it when the window ends, and the organizer's
  own entry always wins. Pushes and bell entries are left out. \<open>score_reports\<close> has one row per match
  (its unique key), kept in creation order; time is in milliseconds.
\<close>

section \<open>Who is calling\<close>

datatype report_error =
    MissingToken
  | NoSuchMatch
  | WrongLink
  | NotLinked
  | NotInMatch
  | Disabled
  | BestOfSeries
  | AlreadyFinal
  | WaitingOnTeams
  | NoTies
  | IllegalScore score_error
  | WinnersReport
  | ScoreReportExists
  | NothingToConfirm
  | NotAwaiting
  | OtherSideConfirms
  | NothingToDispute
  | ReporterCannotDispute
  | Recording flow_error

text \<open>
  Registrations as (event, check-in token, player), players as (user, player), player names, and
  the Premium entitlement of an event (payments), all read-only here.
\<close>

record directory =
  pe_regs :: "(string \<times> string \<times> pid) list"
  pe_players :: "(string \<times> pid) list"
  pe_name :: "pid \<Rightarrow> string"
  pe_premium :: "erow \<Rightarrow> bool"

definition is_space :: "char \<Rightarrow> bool" where
  "is_space c \<longleftrightarrow> c = CHR '' '' \<or> (9 \<le> (of_char c :: nat) \<and> (of_char c :: nat) \<le> 13)"

definition TrimSpace :: "string \<Rightarrow> string" where
  "TrimSpace s = rev (dropWhile is_space (rev (dropWhile is_space s)))"

definition caller_player :: "directory \<Rightarrow> string \<Rightarrow> string \<Rightarrow> string \<Rightarrow> report_error + pid" where
  "caller_player P ev token user =
    (if token \<noteq> [] then
       (case List.find (\<lambda>r. fst r = ev \<and> fst (snd r) = token) (pe_regs P) of
          None \<Rightarrow> Inl WrongLink
        | Some r \<Rightarrow> Inr (snd (snd r)))
     else
       (case List.find (\<lambda>p. fst p = user) (pe_players P) of
          None \<Rightarrow> Inl NotLinked
        | Some p \<Rightarrow> Inr (snd p)))"

definition scoreParticipant :: "directory \<Rightarrow> string \<Rightarrow> string \<Rightarrow> string \<Rightarrow> db
    \<Rightarrow> report_error + int \<times> string \<times> pid" where
  "scoreParticipant P i token0 user d =
    (let token = TrimSpace token0 in
     if token = [] \<and> TrimSpace user = [] then Inl MissingToken
     else
       (case find_match i d of
          None \<Rightarrow> Inl NoSuchMatch
        | Some m \<Rightarrow>
          (case caller_player P (m_event m) token user of
             Inl e \<Rightarrow> Inl e
           | Inr pl \<Rightarrow>
             (case filter (\<lambda>p. p_player p = pl) (match_parts i d) of
                [] \<Rightarrow> Inl NotInMatch
              | p # _ \<Rightarrow> Inr (p_team p, m_event m, pl)))))"

definition playerScoringEnabled :: "directory \<Rightarrow> erow option \<Rightarrow> bool" where
  "playerScoringEnabled P ev = (case ev of None \<Rightarrow> False | Some e \<Rightarrow> e_playerScoring e \<and> pe_premium P e)"

section \<open>The page state\<close>

definition find_report :: "string \<Rightarrow> db \<Rightarrow> srow option" where
  "find_report i d = List.find (\<lambda>r. s_match r = i) (db_reports d)"

record ScoreReportState =
  EventName :: string
  Team1Names :: "string list"
  Team2Names :: "string list"
  CallerTeam :: int
  MatchStatus :: "match_status option"
  Enabled :: bool
  Report :: "(int \<times> int \<times> int \<times> report_status \<times> int) option"
  CanConfirm :: bool

definition GetScoreReportState :: "directory \<Rightarrow> string \<Rightarrow> string \<Rightarrow> string \<Rightarrow> db \<Rightarrow> report_error + ScoreReportState" where
  "GetScoreReportState P i token user d =
    (case scoreParticipant P i token user d of
       Inl e \<Rightarrow> Inl e
     | Inr (team, eventID, _) \<Rightarrow>
       let ev = find_event eventID d;
           parts = match_parts i d;
           rep = find_report i d
       in Inr \<lparr>EventName = (case ev of None \<Rightarrow> [] | Some e \<Rightarrow> e_name e),
            Team1Names = map (\<lambda>p. pe_name P (p_player p)) (filter (\<lambda>p. p_team p = 1) parts),
            Team2Names = map (\<lambda>p. pe_name P (p_player p)) (filter (\<lambda>p. p_team p \<noteq> 1) parts),
            CallerTeam = team,
            MatchStatus = map_option m_status (find_match i d),
            Enabled = playerScoringEnabled P ev,
            Report = map_option (\<lambda>r. (s_team r, s_team1Score r, s_team2Score r, s_status r, s_expires r)) rep,
            CanConfirm = (case rep of None \<Rightarrow> False | Some r \<Rightarrow> s_status r = Pending \<and> team \<noteq> s_team r)\<rparr>)"

section \<open>Reporting\<close>

definition set_report_status :: "string \<Rightarrow> report_status \<Rightarrow> report_status \<Rightarrow> db \<Rightarrow> db" where
  "set_report_status rid old new d = d\<lparr>db_reports := map (\<lambda>r.
    if s_id r = rid \<and> s_status r = old then r\<lparr>s_status := new\<rparr> else r) (db_reports d)\<rparr>"

definition report_check :: "env \<Rightarrow> directory \<Rightarrow> string \<Rightarrow> int \<Rightarrow> string \<Rightarrow> int \<Rightarrow> int \<Rightarrow> db \<Rightarrow> report_error option" where
  "report_check E P i team eventID t1 t2 d =
    (let ev = find_event eventID d in
     if \<not> playerScoringEnabled P ev then Some Disabled
     else if e_bestOf (the ev) > 1 then Some BestOfSeries
     else if map_option m_status (find_match i d) = Some Completed then Some AlreadyFinal
     else if \<not> bothSidesPresent i d then Some WaitingOnTeams
     else if t1 < 0 \<or> t2 < 0 \<or> t1 = t2 then Some NoTies
     else
       (case scoringForMatch E i d of
          None \<Rightarrow> Some NoSuchMatch
        | Some (ptw, winBy, _) \<Rightarrow>
          (case validateGame t1 t2 ptw winBy of
             Some e \<Rightarrow> Some (IllegalScore e)
           | None \<Rightarrow> if (if t2 > t1 then 2 else 1) \<noteq> team then Some WinnersReport else None)))"

definition confirm_minutes :: "erow option \<Rightarrow> int" where
  "confirm_minutes ev = (case ev of None \<Rightarrow> 5 | Some e \<Rightarrow> if e_confirmMinutes e \<le> 0 then 5 else e_confirmMinutes e)"

definition ReportScore :: "env \<Rightarrow> directory \<Rightarrow> int \<Rightarrow> string \<Rightarrow> string \<Rightarrow> string \<Rightarrow> int \<Rightarrow> int \<Rightarrow> db
    \<Rightarrow> (report_error + ScoreReportState) \<times> db" where
  "ReportScore E P clock i token user t1 t2 d =
    (case scoreParticipant P i token user d of
       Inl e \<Rightarrow> (Inl e, d)
     | Inr (team, eventID, _) \<Rightarrow>
       (case report_check E P i team eventID t1 t2 d of
          Some e \<Rightarrow> (Inl e, d)
        | None \<Rightarrow>
          if find_report i d \<noteq> None then (Inl ScoreReportExists, d)
          else
            let d' = d\<lparr>db_reports := db_reports d @ [\<lparr>s_id = env_newId E d, s_match = i, s_team = team,
                  s_team1Score = t1, s_team2Score = t2, s_status = Pending,
                  s_expires = clock + confirm_minutes (find_event eventID d) * 60000\<rparr>]\<rparr>
            in (GetScoreReportState P i token user d', d')))"

section \<open>Resolving a report\<close>

definition finalizeScoreReport :: "env \<Rightarrow> srow \<Rightarrow> report_status \<Rightarrow> db \<Rightarrow> outcome" where
  "finalizeScoreReport E rep status d =
    (let claimed = list_ex (\<lambda>r. s_id r = s_id rep \<and> s_status r = Pending) (db_reports d);
         d1 = set_report_status (s_id rep) Pending status d
     in if \<not> claimed then ok d1
        else
          (case RecordScore E (s_match rep) (s_team1Score rep) (s_team2Score rep) d1 of
             (None, d2) \<Rightarrow> ok d2
           | (Some e, d2) \<Rightarrow>
             if map_option m_status (find_match (s_match rep) d2) = Some Completed then (Some e, d2)
             else (Some e, d2\<lparr>db_reports := map (\<lambda>r. if s_id r = s_id rep then r\<lparr>s_status := Pending\<rparr> else r)
                    (db_reports d2)\<rparr>)))"

definition ConfirmScore :: "env \<Rightarrow> directory \<Rightarrow> string \<Rightarrow> string \<Rightarrow> string \<Rightarrow> db \<Rightarrow> (report_error + ScoreReportState) \<times> db" where
  "ConfirmScore E P i token user d =
    (case scoreParticipant P i token user d of
       Inl e \<Rightarrow> (Inl e, d)
     | Inr (team, _, _) \<Rightarrow>
       (case find_report i d of
          None \<Rightarrow> (Inl NothingToConfirm, d)
        | Some rep \<Rightarrow>
          if s_status rep \<noteq> Pending then (Inl NotAwaiting, d)
          else if s_team rep = team then (Inl OtherSideConfirms, d)
          else
            (case finalizeScoreReport E rep Confirmed d of
               (Some e, d') \<Rightarrow> (Inl (Recording e), d')
             | (None, d') \<Rightarrow> (GetScoreReportState P i token user d', d'))))"

definition DisputeScore :: "directory \<Rightarrow> string \<Rightarrow> string \<Rightarrow> string \<Rightarrow> db \<Rightarrow> (report_error + ScoreReportState) \<times> db" where
  "DisputeScore P i token user d =
    (case scoreParticipant P i token user d of
       Inl e \<Rightarrow> (Inl e, d)
     | Inr (team, _, _) \<Rightarrow>
       (case find_report i d of
          None \<Rightarrow> (Inl NothingToDispute, d)
        | Some rep \<Rightarrow>
          if s_status rep \<noteq> Pending then (Inl NothingToDispute, d)
          else if s_team rep = team then (Inl ReporterCannotDispute, d)
          else
            let d' = set_report_status (s_id rep) Pending Disputed d
            in (GetScoreReportState P i token user d', d')))"

definition auto_confirm_one :: "env \<Rightarrow> int \<Rightarrow> srow \<Rightarrow> db \<Rightarrow> db" where
  "auto_confirm_one E clock rep d =
    (if s_expires rep \<le> clock then snd (finalizeScoreReport E rep Confirmed d) else d)"

definition AutoConfirmDueScoreReports :: "env \<Rightarrow> int \<Rightarrow> db \<Rightarrow> db" where
  "AutoConfirmDueScoreReports E clock d =
    fold (auto_confirm_one E clock) (take 100 (filter (\<lambda>r. s_status r = Pending) (db_reports d))) d"

definition clampConfirmMinutes :: "int \<Rightarrow> int" where
  "clampConfirmMinutes m = (if m < 0 then 0 else if m > 1440 then 1440 else m)"

section \<open>An accepted report can be confirmed\<close>

lemma one_game_series:
  assumes "validateGame t1 t2 ptw winBy = None" and "bestOf \<le> 1"
  shows "validateSeries [\<lparr>Team1 = t1, Team2 = t2\<rparr>] bestOf ptw winBy
    = Inr \<lparr>sr_winner = (if t1 > t2 then 1 else 2), sr_t1total = t1, sr_t2total = t2\<rparr>"
  using assms by (simp add: validateSeries_def tally_game_def)

lemma find_match_reports [simp]: "find_match i (d\<lparr>db_reports := rs\<rparr>) = find_match i d"
  by (simp add: find_match_def)

lemma both_sides_reports [simp]: "bothSidesPresent i (d\<lparr>db_reports := rs\<rparr>) = bothSidesPresent i d"
  by (simp add: bothSidesPresent_def)

lemma find_event_reports [simp]: "find_event i (d\<lparr>db_reports := rs\<rparr>) = find_event i d"
  by (simp add: find_event_def)

lemma scoring_reports [simp]: "scoringForMatch E i (d\<lparr>db_reports := rs\<rparr>) = scoringForMatch E i d"
  unfolding scoringForMatch_def find_match_reports find_event_reports ..

lemma scoring_best_of:
  assumes "scoringForMatch E i d = Some (ptw, winBy, bestOf)" and "find_match i d = Some m"
    and "find_event (m_event m) d = Some e" and "e_bestOf e \<le> 1"
  shows "bestOf \<le> 1"
  using assms by (auto simp: scoringForMatch_def Let_def split: if_splits)

lemma scoreParticipant_match:
  assumes "scoreParticipant P i token user d = Inr (team, ev, pl)"
  shows "\<exists>m. find_match i d = Some m \<and> m_event m = ev"
  using assms by (auto simp: scoreParticipant_def Let_def split: if_splits option.splits sum.splits list.splits)

lemma report_check_passed:
  assumes "report_check E P i team ev t1 t2 d = None"
  shows "\<exists>e ptw winBy bestOf. find_event ev d = Some e \<and> e_bestOf e \<le> 1 \<and> bothSidesPresent i d
    \<and> scoringForMatch E i d = Some (ptw, winBy, bestOf) \<and> validateGame t1 t2 ptw winBy = None
    \<and> t1 \<noteq> t2 \<and> team = (if t2 > t1 then 2 else 1) \<and> playerScoringEnabled P (Some e)
    \<and> map_option m_status (find_match i d) \<noteq> Some Completed"
  using assms
  by (auto simp: report_check_def Let_def playerScoringEnabled_def
      split: if_splits option.splits)

text \<open>
  C34: A report that is accepted can be finalized. When \<open>ReportScore\<close> stores a report, the reporter's
  side is ahead in it, the game is not finished, nobody had reported it before, and recording that
  very score passes every check of the scoring path: the format's rules - the playoff's for a bracket
  game - accept it as a complete match won by the reporting side, and both sides are there. So the
  confirming side, or the timer, never meets a report that cannot be recorded.
\<close>
theorem accepted_report_can_be_finalized:
  assumes "ReportScore E P clock i token user t1 t2 d = (Inr st, d')"
  shows "\<exists>team r. find_report i d = None \<and> db_reports d' = db_reports d @ [r]
    \<and> s_match r = i \<and> s_status r = Pending \<and> s_team r = team \<and> s_expires r > clock
    \<and> team = (if t1 > t2 then 1 else 2)
    \<and> map_option m_status (find_match i d') \<noteq> Some Completed
    \<and> bothSidesPresent i d' \<and> find_match i d' \<noteq> None
    \<and> RecordScore E i (s_team1Score r) (s_team2Score r) d'
      = applySeries E i [\<lparr>Team1 = t1, Team2 = t2\<rparr>] team t1 t2 d'"
proof -
  obtain team ev pl where sp: "scoreParticipant P i token user d = Inr (team, ev, pl)"
    using assms by (auto simp: ReportScore_def split: sum.splits)
  have chk: "report_check E P i team ev t1 t2 d = None" and new: "find_report i d = None"
    using assms sp by (auto simp: ReportScore_def Let_def split: option.splits if_splits)
  let ?r = "\<lparr>s_id = env_newId E d, s_match = i, s_team = team, s_team1Score = t1, s_team2Score = t2,
    s_status = Pending, s_expires = clock + confirm_minutes (find_event ev d) * 60000\<rparr>"
  have d': "d' = d\<lparr>db_reports := db_reports d @ [?r]\<rparr>"
    using assms sp chk new by (auto simp: ReportScore_def Let_def)
  obtain m where m: "find_match i d = Some m" "m_event m = ev" using scoreParticipant_match [OF sp] by blast
  obtain e ptw winBy bestOf where c: "find_event ev d = Some e" "e_bestOf e \<le> 1" "bothSidesPresent i d"
    "scoringForMatch E i d = Some (ptw, winBy, bestOf)" "validateGame t1 t2 ptw winBy = None"
    "t1 \<noteq> t2" "team = (if t2 > t1 then 2 else 1)" "map_option m_status (find_match i d) \<noteq> Some Completed"
    using report_check_passed [OF chk] by blast
  have "bestOf \<le> 1" using scoring_best_of [OF c(4) m(1)] m(2) c(1,2) by simp
  from one_game_series [OF c(5) this]
  have "RecordScore E i t1 t2 d' = applySeries E i [\<lparr>Team1 = t1, Team2 = t2\<rparr>] team t1 t2 d'"
    using c(4,6,7) by (simp add: RecordScore_def RecordSeries_def d')
  moreover have "confirm_minutes (find_event ev d) > 0" by (simp add: confirm_minutes_def split: option.split)
  ultimately show ?thesis
    using new c m(1) d' by (intro exI [of _ team] exI [of _ ?r]) auto
qed

definition demo_directory :: directory where
  "demo_directory = \<lparr>pe_regs = [(''e'', ''tok'', ''c''), (''e'', ''kot'', ''d'')], pe_players = [(''u'', ''c'')],
    pe_name = (\<lambda>p. p), pe_premium = (\<lambda>_. True)\<rparr>"

theorem accepted_report_can_be_finalized_witness:
  "\<exists>st d'. ReportScore demo_env demo_directory 0 ''s2'' ''tok'' [] 11 7 demo_db = (Inr st, d')
    \<and> RecordScore demo_env ''s2'' 11 7 d' = applySeries demo_env ''s2'' [\<lparr>Team1 = 11, Team2 = 7\<rparr>] 1 11 7 d'"
proof -
  let ?run = "ReportScore demo_env demo_directory 0 ''s2'' ''tok'' [] 11 7 demo_db"
  have "\<not> isl (fst ?run)" and rs: "map (\<lambda>r. (s_team1Score r, s_team2Score r)) (db_reports (snd ?run)) = [(11, 7)]" by code_simp+
  then obtain st d' where run: "?run = (Inr st, d')" by (cases ?run; cases "fst ?run") auto
  show ?thesis
    using accepted_report_can_be_finalized [OF run] rs run by (auto simp: demo_db_def)
qed

section \<open>Only the other side resolves a report\<close>

text \<open>
  Only the other side of an open report can resolve it. Whenever \<open>ConfirmScore\<close> or \<open>DisputeScore\<close>
  changes the tables or succeeds, the caller plays in that match, on the team that did not report,
  and the report was still pending; every other call is refused and changes nothing.
\<close>
theorem only_opponents_resolve_reports:
  "(\<forall>res d'. (ConfirmScore E P i token user d = (res, d') \<or> DisputeScore P i token user d = (res, d'))
      \<and> (d' \<noteq> d \<or> \<not> isl res) \<longrightarrow>
    (\<exists>team ev pl rep. scoreParticipant P i token user d = Inr (team, ev, pl)
      \<and> find_report i d = Some rep \<and> s_status rep = Pending \<and> s_team rep \<noteq> team))"
proof (intro allI impI)
  fix res d'
  assume a: "(ConfirmScore E P i token user d = (res, d') \<or> DisputeScore P i token user d = (res, d'))
      \<and> (d' \<noteq> d \<or> \<not> isl res)"
  show "\<exists>team ev pl rep. scoreParticipant P i token user d = Inr (team, ev, pl)
      \<and> find_report i d = Some rep \<and> s_status rep = Pending \<and> s_team rep \<noteq> team"
  proof (cases "scoreParticipant P i token user d")
    case (Inl e)
    then show ?thesis using a by (auto simp: ConfirmScore_def DisputeScore_def)
  next
    case (Inr x)
    obtain team ev pl where x: "x = (team, ev, pl)" by (cases x)
    show ?thesis
    proof (cases "find_report i d")
      case None
      then show ?thesis using a Inr x by (auto simp: ConfirmScore_def DisputeScore_def)
    next
      case (Some rep)
      then show ?thesis using a Inr x by (auto simp: ConfirmScore_def DisputeScore_def split: if_splits)
    qed
  qed
qed

theorem only_opponents_resolve_reports_witness:
  "\<exists>team ev pl rep. scoreParticipant demo_directory ''s2'' ''kot'' []
      (snd (ReportScore demo_env demo_directory 0 ''s2'' ''tok'' [] 11 7 demo_db)) = Inr (team, ev, pl)
    \<and> find_report ''s2'' (snd (ReportScore demo_env demo_directory 0 ''s2'' ''tok'' [] 11 7 demo_db)) = Some rep
    \<and> s_team rep \<noteq> team"
proof -
  let ?d = "snd (ReportScore demo_env demo_directory 0 ''s2'' ''tok'' [] 11 7 demo_db)"
  have "\<not> isl (fst (ConfirmScore demo_env demo_directory ''s2'' ''kot'' [] ?d))" by code_simp
  then obtain res d' where "ConfirmScore demo_env demo_directory ''s2'' ''kot'' [] ?d = (res, d')" "\<not> isl res"
    by (cases "ConfirmScore demo_env demo_directory ''s2'' ''kot'' [] ?d") auto
  with only_opponents_resolve_reports [of demo_env demo_directory "''s2''" "''kot''" "[]" ?d] show ?thesis by blast
qed

section \<open>What happens to a report\<close>

definition keeps_reports :: "env \<Rightarrow> bool" where
  "keeps_reports E \<longleftrightarrow> (\<forall>R. env_keeps E (\<lambda>d. db_reports d = R))"

definition supersede_row :: "string \<Rightarrow> srow \<Rightarrow> srow" where
  "supersede_row i r = (if s_match r = i \<and> (s_status r = Pending \<or> s_status r = Disputed)
    then r\<lparr>s_status := Superseded\<rparr> else r)"

lemma reports_supersede: "db_reports (supersedeScoreReport i d) = map (supersede_row i) (db_reports d)"
  by (simp add: supersedeScoreReport_def supersede_row_def [abs_def])

lemma reports_after_result:
  assumes "keeps_reports E"
  shows "db_reports (snd (and_then (advanceAfterScore E m fresh d) (rollup E m))) = db_reports d"
  using assms unfolding keeps_reports_def by (blast intro: reports.roll_up reports.after)

lemma reports_series:
  assumes "keeps_reports E" and "bothSidesPresent i d" and "find_match i d = Some m"
  shows "db_reports (snd (applySeries E i games v t1 t2 d)) = map (supersede_row i) (db_reports d)"
  using assms by (simp add: applySeries_def Let_def reports_after_result [unfolded keeps_reports_def]
      reports_after_result reports_supersede update_match_def)

lemma reports_recorded:
  assumes "keeps_reports E"
  shows "db_reports (snd (RecordSeries E i games d)) = db_reports d
    \<or> db_reports (snd (RecordSeries E i games d)) = map (supersede_row i) (db_reports d)"
  using RecordSeries_cases [of E i games d]
proof (elim disjE exE conjE)
  fix p w b x
  assume R: "RecordSeries E i games d = applySeries E i games (int (sr_winner x)) (sr_t1total x) (sr_t2total x) d"
  show ?thesis
    unfolding R using applySeries_cases [of E i games "int (sr_winner x)" "sr_t1total x" "sr_t2total x" d]
      reports_series [OF assms] by (elim disjE exE conjE) (simp_all, metis snd_fail)
qed simp

lemma reports_forfeit:
  assumes "keeps_reports E"
  shows "db_reports (snd (ForfeitMatch E i v kind s1 s2 d)) = db_reports d"
  using ForfeitMatch_cases [of E i v kind s1 s2 d]
  by (elim disjE exE conjE) (simp_all add: reports_after_result [OF assms] update_match_def)


text \<open>A pending report on the second semifinal, reported 11-7 by team 1.\<close>

definition demo_report :: srow where
  "demo_report = \<lparr>s_id = ''r'', s_match = ''s2'', s_team = 1, s_team1Score = 11, s_team2Score = 7,
    s_status = Pending, s_expires = 10\<rparr>"

definition demo_reported :: db where
  "demo_reported = demo_db\<lparr>db_reports := [demo_report]\<rparr>"

lemma demo_keeps_reports: "keeps_reports demo_env"
  by (simp add: keeps_reports_def demo_env_keeps)


text \<open>
  A forfeit leaves the match's pending report open, and the timer then records the reported score
  over it: \<open>ForfeitMatch\<close> does not supersede reports the way \<open>applySeries\<close> does.
\<close>

lemma forfeit_overwritten_by_report:
  "let d = snd (ForfeitMatch demo_env ''s2'' 2 ''forfeit'' None None demo_reported);
       d' = AutoConfirmDueScoreReports demo_env 10 d
   in map_option m_winner (find_match ''s2'' d) = Some 2 \<and> map_option m_winner (find_match ''s2'' d') = Some 1"
  by code_simp

text \<open>
  A match has one report ever: after an upstream correction has reset the match, its players cannot
  report the new game, whatever became of the old report.
\<close>

lemma second_report_refused:
  assumes "find_report i d \<noteq> None"
  shows "snd (ReportScore E P clock i token user t1 t2 d) = d"
  using assms by (auto simp: ReportScore_def split: sum.split option.split)

section \<open>The life of a report\<close>

definition report_change :: "srow \<Rightarrow> srow \<Rightarrow> bool" where
  "report_change r r' \<longleftrightarrow> r' = r\<lparr>s_status := s_status r'\<rparr>
    \<and> (s_status r' = s_status r \<or> s_status r = Pending \<or> s_status r = Disputed \<and> s_status r' = Superseded)"

lemma report_change_refl [simp]: "report_change r r"
  by (simp add: report_change_def)

lemma report_change_supersede: "report_change r (supersede_row i r)"
  by (auto simp: report_change_def supersede_row_def)

lemma list_change_map:
  "(\<And>r. r \<in> set rs \<Longrightarrow> report_change r (f r)) \<Longrightarrow> list_all2 report_change rs (map f rs)"
  by (induction rs) auto

lemma list_change_trans: "list_all2 report_change a b \<Longrightarrow> list_all2 report_change b c \<Longrightarrow> list_all2 report_change a c"
proof (rule list_all2_trans)
  show "report_change x y \<Longrightarrow> report_change y z \<Longrightarrow> report_change x z" for x y z
    by (cases x; cases y; cases z) (auto simp: report_change_def)
qed

lemma list_change_ids: "list_all2 report_change a b \<Longrightarrow> map s_id b = map s_id a \<and> map s_match b = map s_match a"
proof (induction rule: list_all2_induct)
  case (Cons x xs y ys)
  then have "y = x\<lparr>s_status := s_status y\<rparr>" by (simp add: report_change_def)
  then have "s_id y = s_id x" "s_match y = s_match x" by (metis srow.select_convs srow.surjective srow.update_convs(6))+
  then show ?case using Cons by simp
qed simp

lemma finalize_change:
  assumes E: "keeps_reports E" and ids: "distinct (map s_id (db_reports d))"
  shows "list_all2 report_change (db_reports d) (db_reports (snd (finalizeScoreReport E rep status d)))"
proof (cases "list_ex (\<lambda>r. s_id r = s_id rep \<and> s_status r = Pending) (db_reports d)")
  case False
  have "db_reports (set_report_status (s_id rep) Pending status d) = db_reports d"
    using False by (auto simp: set_report_status_def list_ex_iff intro!: map_idI)
  then show ?thesis using False by (simp add: finalizeScoreReport_def list_all2_refl)
next
  case True
  let ?claim = "\<lambda>r. if s_id r = s_id rep \<and> s_status r = Pending then r\<lparr>s_status := status\<rparr> else r"
  let ?d1 = "set_report_status (s_id rep) Pending status d"
  let ?out = "RecordScore E (s_match rep) (s_team1Score rep) (s_team2Score rep) ?d1"
  let ?reopen = "\<lambda>r. if s_id r = s_id rep then r\<lparr>s_status := Pending\<rparr> else r"
  have d1: "db_reports ?d1 = map ?claim (db_reports d)" by (simp add: set_report_status_def)
  obtain g where g: "db_reports (snd ?out) = map g (db_reports ?d1)" "g = (\<lambda>r. r) \<or> g = supersede_row (s_match rep)"
    using reports_recorded [OF E] unfolding RecordScore_def by (metis list.map_ident)
  have pend: "s_status r = Pending" if "r \<in> set (db_reports d)" "s_id r = s_id rep" for r
  proof -
    obtain r0 where "r0 \<in> set (db_reports d)" "s_id r0 = s_id rep" "s_status r0 = Pending"
      using True by (auto simp: list_ex_iff)
    then show ?thesis using that ids by (metis (mono_tags, lifting) distinct_map inj_onD)
  qed
  have change: "report_change r (g (?claim r))" "report_change r (?reopen (g (?claim r)))"
    if "r \<in> set (db_reports d)" for r
    using g(2) pend [OF that] by (auto simp: report_change_def supersede_row_def split: if_splits)
  have "db_reports (snd (finalizeScoreReport E rep status d)) = map (g \<circ> ?claim) (db_reports d)
    \<or> db_reports (snd (finalizeScoreReport E rep status d)) = map (?reopen \<circ> g \<circ> ?claim) (db_reports d)"
    using True g(1) d1 by (cases ?out; cases "fst ?out") (auto simp: finalizeScoreReport_def Let_def)
  then show ?thesis using change by (auto intro!: list_change_map)
qed

lemma auto_confirm_change:
  assumes "keeps_reports E" and "distinct (map s_id (db_reports d))"
  shows "list_all2 report_change (db_reports d) (db_reports (fold (auto_confirm_one E clock) reps d))"
  using assms(2)
proof (induction reps arbitrary: d)
  case Nil
  then show ?case by (simp add: list_all2_refl)
next
  case (Cons rep reps)
  have c: "list_all2 report_change (db_reports d) (db_reports (auto_confirm_one E clock rep d))"
    using finalize_change [OF assms(1) Cons.prems] by (simp add: auto_confirm_one_def list_all2_refl)
  then have "distinct (map s_id (db_reports (auto_confirm_one E clock rep d)))"
    using list_change_ids [OF c] Cons.prems by simp
  from list_change_trans [OF c Cons.IH [OF this]] show ?case by simp
qed

inductive report_step :: "env \<Rightarrow> directory \<Rightarrow> db \<Rightarrow> db \<Rightarrow> bool" for E P where
  confirm: "report_step E P d (snd (ConfirmScore E P i token user d))"
| dispute: "report_step E P d (snd (DisputeScore P i token user d))"
| timer: "report_step E P d (AutoConfirmDueScoreReports E clock d)"
| organizer: "report_step E P d (snd (RecordSeries E i games d))"
| forfeited: "report_step E P d (snd (ForfeitMatch E i v kind s1 s2 d))"

text \<open>The life of a score report. Confirming, disputing, the timer, the organizer's score and a
  forfeit keep every report, its match, its side and its score; they change only its status, and
  only from pending to anything or from disputed to superseded: a confirmed or superseded report
  stays so for ever, and a disputed one is never confirmed. (Report ids are unique; the other
  components leave reports alone.)
\<close>
theorem report_life:
  assumes E: "keeps_reports E" and "report_step E P d d'" and ids: "distinct (map s_id (db_reports d))"
  shows "list_all2 (\<lambda>r r'. r' = r\<lparr>s_status := s_status r'\<rparr>
      \<and> (s_status r' = s_status r \<or> s_status r = Pending \<or> s_status r = Disputed \<and> s_status r' = Superseded))
    (db_reports d) (db_reports d')"
proof -
  have "list_all2 report_change (db_reports d) (db_reports d')"
    using assms(2)
  proof cases
    case (confirm i token user)
    have "db_reports d' = db_reports d
        \<or> (\<exists>rep. db_reports d' = db_reports (snd (finalizeScoreReport E rep Confirmed d)))"
      unfolding confirm ConfirmScore_def
      by (auto split: sum.split option.split prod.split) (metis snd_conv)+
    then show ?thesis using finalize_change [OF E ids] by (auto simp: list_all2_refl)
  next
    case (dispute i token user)
    have "list_all2 report_change (db_reports d) (db_reports (set_report_status rid Pending Disputed d))" for rid
      unfolding set_report_status_def by (simp, rule list_change_map) (auto simp: report_change_def)
    then show ?thesis
      unfolding dispute DisputeScore_def by (auto simp: Let_def list_all2_refl split: sum.split option.split prod.split)
  next
    case (timer clock)
    then show ?thesis using auto_confirm_change [OF E ids] by (simp add: AutoConfirmDueScoreReports_def)
  next
    case (organizer i games)
    then show ?thesis using reports_recorded [OF E, of i games d]
      by (auto simp: list_all2_refl intro!: list_change_map report_change_supersede)
  next
    case (forfeited i v kind s1 s2)
    then show ?thesis using reports_forfeit [OF E] by (simp add: list_all2_refl)
  qed
  then show ?thesis by (simp add: report_change_def [abs_def])
qed

theorem report_life_witness:
  "list_all2 (\<lambda>r r'. r' = r\<lparr>s_status := s_status r'\<rparr>
      \<and> (s_status r' = s_status r \<or> s_status r = Pending \<or> s_status r = Disputed \<and> s_status r' = Superseded))
    (db_reports demo_reported) (db_reports (AutoConfirmDueScoreReports demo_env 10 demo_reported))"
  using report_life [OF demo_keeps_reports report_step.timer, of demo_reported]
  by (simp add: demo_reported_def)

end
