(* ===== verification/Draw_Persist.thy ===== *)
theory Draw_Persist
  imports Match_Life Consolation Compass Double_Elim
begin

text \<open>
  Writing a generated draw into the tables, \<open>internal/service/service.go\<close>: \<open>persistBracket\<close>,
  \<open>persistMedalBracket\<close>, \<open>persistDoubleElim\<close>, \<open>persistCompass\<close>, the batched feed updates they
  share, and the playoff build on top of them. A Go map from "round:slot" keys to ids is an
  association list with tuples for keys; reading a missing key gives the empty string.
\<close>

section \<open>Bulk inserts\<close>

text \<open>Insert returns the rows in input order, each with its new id.\<close>

fun insert_rows :: "env \<Rightarrow> mrow list \<Rightarrow> db \<Rightarrow> string list \<times> db" where
  "insert_rows E [] d = ([], d)"
| "insert_rows E (r # rs) d =
    (let i = env_newId E d; (ids, d') = insert_rows E rs (insert_match (r\<lparr>m_id := i\<rparr>) d)
     in (i # ids, d'))"

definition id_of :: "('k \<times> string) list \<Rightarrow> 'k \<Rightarrow> string" where
  "id_of keys k = (case map_of (rev keys) k of None \<Rightarrow> [] | Some i \<Rightarrow> i)"

definition appendSideParts :: "prow list \<Rightarrow> string \<Rightarrow> int \<Rightarrow> side \<Rightarrow> prow list" where
  "appendSideParts rows i team s =
    (case s of
       None \<Rightarrow> rows
     | Some ps \<Rightarrow> if ps = [] \<or> IsBye s then rows
         else rows @ map (\<lambda>p. \<lparr>p_match = i, p_player = p, p_team = team\<rparr>) ps)"

section \<open>Batched feed updates\<close>

text \<open>
  A payload is the winner feed and the loser feed it sets, each if any. The updates are grouped by
  payload, in the order payloads first appear, and written in chunks of 80 ids.
\<close>

type_synonym feed_payload = "(string \<times> int) option \<times> (string \<times> int) option"
type_synonym feedUpdates = "(feed_payload \<times> string list) list"

fun feed_group :: "string \<Rightarrow> 'p \<Rightarrow> ('p \<times> string list) list \<Rightarrow> ('p \<times> string list) list" where
  "feed_group i p [] = [(p, [i])]"
| "feed_group i p ((q, js) # gs) = (if q = p then (q, js @ [i]) # gs else (q, js) # feed_group i p gs)"

definition feed_add :: "string \<times> 'p \<Rightarrow> ('p \<times> string list) list \<Rightarrow> ('p \<times> string list) list" where
  "feed_add ip gs = (if fst ip = [] then gs else feed_group (fst ip) (snd ip) gs)"

definition apply_feed :: "feed_payload \<Rightarrow> mrow \<Rightarrow> mrow" where
  "apply_feed p m = m\<lparr>
    m_feeds := (case fst p of None \<Rightarrow> m_feeds m | Some x \<Rightarrow> Some x),
    m_loserFeeds := (case snd p of None \<Rightarrow> m_loserFeeds m | Some x \<Rightarrow> Some x)\<rparr>"

definition update_ids :: "string list \<Rightarrow> (mrow \<Rightarrow> mrow) \<Rightarrow> db \<Rightarrow> db" where
  "update_ids js f d = d\<lparr>db_matches := map (\<lambda>m. if m_id m \<in> set js then f m else m) (db_matches d)\<rparr>"

fun chunks :: "nat \<Rightarrow> 'a list \<Rightarrow> 'a list list" where
  "chunks n [] = []"
| "chunks n (x # xs) = take (Suc n) (x # xs) # chunks n (drop n xs)"

definition flush_groups :: "('p \<Rightarrow> mrow \<Rightarrow> mrow) \<Rightarrow> ('p \<times> string list) list \<Rightarrow> db \<Rightarrow> db" where
  "flush_groups f gs d = fold (\<lambda>(p, js) d. fold (\<lambda>c d. update_ids c (f p) d) (chunks 79 js) d) gs d"

definition feed_flush :: "feedUpdates \<Rightarrow> db \<Rightarrow> db" where
  "feed_flush gs d = flush_groups apply_feed gs d"

definition flush_all :: "(string \<times> feed_payload) list \<Rightarrow> db \<Rightarrow> db" where
  "flush_all ups d = feed_flush (fold feed_add ups []) d"

section \<open>The single-elimination draw\<close>

definition resolved_row :: "mrow \<Rightarrow> side \<Rightarrow> side \<Rightarrow> mrow" where
  "resolved_row row winner s1 = (if winner \<noteq> None
    then row\<lparr>m_status := Completed, m_winner := (if \<not> IsBye s1 \<and> s1 \<noteq> None then 1 else 2)\<rparr> else row)"

definition main_row :: "string \<Rightarrow> string \<Rightarrow> bmatch \<Rightarrow> mrow" where
  "main_row ev bid m =
    resolved_row (bracket_row [] ev bid [] [] (int (bm_round m)) (int (bm_slot m))) (resolvedWinner m) (side1 m)"

definition plan_parts :: "(string \<times> side \<times> side) list \<Rightarrow> prow list" where
  "plan_parts xs = fold (\<lambda>(i, s1, s2) rows. appendSideParts (appendSideParts rows i 1 s1) i 2 s2) xs []"

definition persist_main :: "env \<Rightarrow> string \<Rightarrow> string \<Rightarrow> bracket_plan \<Rightarrow> db \<Rightarrow> string list \<times> db" where
  "persist_main E ev bid plan d =
    (let ms = bp_matches plan;
         (ids, d1) = insert_rows E (map (main_row ev bid) ms) d;
         keys = zip (map (\<lambda>m. (bm_round m, bm_slot m)) ms) ids;
         parts = plan_parts (map (\<lambda>(i, m). (i, side1 m, side2 m)) (zip ids ms));
         d2 = (if parts = [] then d1 else upsert_parts parts d1);
         feeds = map (\<lambda>m. (id_of keys (bm_round m, bm_slot m),
                   (Some (id_of keys (feedsRound m, feedsSlot m), int (feedsTeam m)), None)))
                 (filter (\<lambda>m. feedsRound m \<noteq> 0) ms)
     in (ids, flush_all feeds d2))"

definition cons_row :: "string \<Rightarrow> string \<Rightarrow> consolation_match \<Rightarrow> mrow" where
  "cons_row ev bid m = bracket_row [] ev bid ''consolation'' [] (int (co_round m)) (int (co_slot m))"

definition persist_consolation :: "env \<Rightarrow> string \<Rightarrow> string \<Rightarrow> bracket_plan \<Rightarrow> string list \<Rightarrow> db \<Rightarrow> nat \<times> db" where
  "persist_consolation E ev bid plan mainIds d =
    (let ms = bp_matches plan;
         bye = (\<lambda>slot. list_ex (\<lambda>m. bm_round m = 1 \<and> resolvedWinner m \<noteq> None \<and> bm_slot m = slot) ms);
         cons = GenerateConsolation (bp_size plan) bye;
         (ids, d1) = insert_rows E (map (cons_row ev bid) (cp_matches cons)) d;
         consId = zip (map (\<lambda>m. (co_round m, co_slot m)) (cp_matches cons)) ids;
         mainId = zip (map (\<lambda>m. (bm_round m, bm_slot m)) ms) mainIds;
         d2 = flush_all (map (\<lambda>m. (id_of consId (co_round m, co_slot m),
                   (Some (id_of consId (co_feedsRound m, co_feedsSlot m), int (co_feedsTeam m)), None)))
                (filter (\<lambda>m. co_feedsRound m \<noteq> 0) (cp_matches cons))) d1;
         d3 = flush_all (map (\<lambda>l. (id_of mainId (1, ld_mainSlot l),
                   (None, Some (id_of consId (ld_round l, ld_slot l), int (ld_team l)))))
                (filter (\<lambda>l. id_of mainId (1, ld_mainSlot l) \<noteq> []) (cp_drops cons))) d2
     in (length ids, d3))"

text \<open>None is the panic of the generator.\<close>

definition persistBracket :: "env \<Rightarrow> string \<Rightarrow> string \<Rightarrow> side list \<Rightarrow> bool \<Rightarrow> db \<Rightarrow> (nat \<times> db) option" where
  "persistBracket E ev bid seededSides consolation d =
    (case GenerateBracket seededSides of
       None \<Rightarrow> None
     | Some plan \<Rightarrow>
       if bp_matches plan = [] then Some (0, d)
       else
         let (ids, d1) = persist_main E ev bid plan d in
         if consolation
         then let (n, d2) = persist_consolation E ev bid plan ids d1 in Some (length ids + n, d2)
         else Some (length ids, d1))"

section \<open>The medal draw\<close>

definition persistMedalBracket :: "env \<Rightarrow> string \<Rightarrow> string \<Rightarrow> pid list list \<Rightarrow> db \<Rightarrow> nat \<times> db" where
  "persistMedalBracket E ev bid sides d =
    (let s = (\<lambda>k. if length sides \<ge> 4 then sides ! k else []);
         gold = env_newId E d;
         d1 = insert_match (bracket_row gold ev bid [] [] 2 0) d;
         bronze = env_newId E d1;
         d2 = insert_match (bracket_row bronze ev bid [] [] 2 1) d1;
         semi = (\<lambda>slot a b d.
           let i = env_newId E d;
               d' = insert_match ((bracket_row i ev bid [] [] 1 slot)
                      \<lparr>m_feeds := Some (gold, slot + 1), m_loserFeeds := Some (bronze, slot + 1)\<rparr>) d
           in insertSide i 2 b (insertSide i 1 a d'))
     in (4, semi 1 (s 1) (s 2) (semi 0 (s 0) (s 3) d2)))"

section \<open>Double elimination\<close>

fun tier_name :: "de_tier \<Rightarrow> string" where
  "tier_name NoTier = []"
| "tier_name WinnersTier = ''winners''"
| "tier_name LosersTier = ''losers''"
| "tier_name GrandFinalTier = ''grand_final''"

definition de_row :: "string \<Rightarrow> string \<Rightarrow> de_match \<Rightarrow> mrow" where
  "de_row ev bid m = resolved_row (bracket_row [] ev bid (tier_name (de_tier m)) []
    (int (de_round m)) (int (de_slot m))) (de_resolvedWinner m) (de_side1 m)"

definition de_payload :: "((de_tier \<times> nat \<times> nat) \<times> string) list \<Rightarrow> de_match \<Rightarrow> feed_payload" where
  "de_payload keys m =
    ((if winTier m \<noteq> NoTier
      then Some (id_of keys (winTier m, winRound m, winSlot m), int (winTeam m)) else None),
     (if loseTier m \<noteq> NoTier \<and> de_resolvedWinner m = None
      then Some (id_of keys (loseTier m, loseRound m, loseSlot m), int (loseTeam m)) else None))"

definition persistDoubleElim :: "env \<Rightarrow> string \<Rightarrow> string \<Rightarrow> side list \<Rightarrow> db \<Rightarrow> (nat \<times> db) option" where
  "persistDoubleElim E ev bid seededSides d =
    (case GenerateDoubleElim seededSides of
       None \<Rightarrow> None
     | Some plan \<Rightarrow>
       let ms = dp_matches plan in
       if ms = [] then Some (0, d)
       else
         let (ids, d1) = insert_rows E (map (de_row ev bid) ms) d;
             keys = zip (map (\<lambda>m. (de_tier m, de_round m, de_slot m)) ms) ids;
             parts = plan_parts (map (\<lambda>(i, m). (i, de_side1 m, de_side2 m)) (zip ids ms));
             d2 = (if parts = [] then d1 else upsert_parts parts d1);
             feeds = map (\<lambda>m. (id_of keys (de_tier m, de_round m, de_slot m), de_payload keys m))
                       (filter (\<lambda>m. de_payload keys m \<noteq> (None, None)) ms)
         in Some (length ids, flush_all feeds d2))"

section \<open>The compass draw\<close>

definition compass_row :: "string \<Rightarrow> string \<Rightarrow> compass_match \<Rightarrow> mrow" where
  "compass_row ev bid m = resolved_row (bracket_row [] ev bid ''main'' (cm_group m)
    (int (cm_round m)) (int (cm_slot m))) (cm_resolvedWinner m) (cm_side1 m)"

definition compass_payload :: "((string \<times> nat \<times> nat) \<times> string) list \<Rightarrow> compass_match \<Rightarrow> feed_payload" where
  "compass_payload keys m =
    ((if cm_feedsRound m \<noteq> 0
      then Some (id_of keys (cm_group m, cm_feedsRound m, cm_feedsSlot m), int (cm_feedsTeam m)) else None),
     (if cm_loserGroup m \<noteq> [] \<and> cm_resolvedWinner m = None
      then Some (id_of keys (cm_loserGroup m, cm_loserRound m, cm_loserSlot m), int (cm_loserTeam m)) else None))"

definition persistCompass :: "env \<Rightarrow> string \<Rightarrow> string \<Rightarrow> side list \<Rightarrow> db \<Rightarrow> (nat \<times> db) option" where
  "persistCompass E ev bid seededSides d =
    (case GenerateCompass seededSides of
       None \<Rightarrow> None
     | Some plan \<Rightarrow>
       let ms = cpl_matches plan in
       if ms = [] then Some (0, d)
       else
         let (ids, d1) = insert_rows E (map (compass_row ev bid) ms) d;
             keys = zip (map (\<lambda>m. (cm_group m, cm_round m, cm_slot m)) ms) ids;
             parts = plan_parts (map (\<lambda>(i, m). (i, cm_side1 m, cm_side2 m)) (zip ids ms));
             d2 = (if parts = [] then d1 else upsert_parts parts d1);
             feeds = map (\<lambda>m. (id_of keys (cm_group m, cm_round m, cm_slot m), compass_payload keys m))
                       (filter (\<lambda>m. compass_payload keys m \<noteq> (None, None)) ms)
         in Some (length ids, flush_all feeds d2))"

section \<open>Building the playoff\<close>

text \<open>Deleting a match deletes its participants (the foreign key cascades).\<close>

definition wipeBracketStage :: "string \<Rightarrow> db \<Rightarrow> db" where
  "wipeBracketStage bid d =
    (let gone = map m_id (bracket_matches bid d) in
     d\<lparr>db_matches := filter (\<lambda>m. \<not> (m_bracket m = bid \<and> m_stage m = ''bracket'')) (db_matches d),
       db_parts := filter (\<lambda>p. p_match p \<notin> set gone) (db_parts d)\<rparr>)"

definition main_tier :: "mrow \<Rightarrow> bool" where
  "main_tier m \<longleftrightarrow> m_tier m = [] \<or> m_tier m = ''main''"

definition addThirdPlaceGame :: "env \<Rightarrow> string \<Rightarrow> string \<Rightarrow> db \<Rightarrow> nat \<times> db" where
  "addThirdPlaceGame E ev bid d =
    (let rows = filter main_tier (bracket_matches bid d);
         maxRound = fold (\<lambda>m x. max x (m_round m)) rows 0
     in if maxRound < 2 then (0, d)
        else if list_ex (\<lambda>m. m_round m = maxRound \<and> m_slot m = 1) rows then (0, d)
        else
          let semis = filter (\<lambda>m. m_round m = maxRound - 1) rows in
          if length semis \<noteq> 2 then (0, d)
          else
            let bronze = env_newId E d;
                d1 = insert_match (bracket_row bronze ev bid [] [] maxRound 1) d;
                ordered = sort_by (\<lambda>a b. m_slot a < m_slot b) semis;
                link = (\<lambda>i m d. update_ids [m_id m] (\<lambda>r. r\<lparr>m_loserFeeds := Some (bronze, i)\<rparr>) d)
            in (1, link 2 (ordered ! 1) (link 1 (ordered ! 0) d1)))"

definition validateManualSides :: "pid list list \<Rightarrow> pid list list \<Rightarrow> bool" where
  "validateManualSides manual valid =
    (list_all (\<lambda>t. list_ex (\<lambda>v. sort v = sort t) valid) manual
     \<and> distinct (map sort manual))"

definition playoff_sides :: "env \<Rightarrow> string \<Rightarrow> string \<Rightarrow> string \<Rightarrow> pid list list \<Rightarrow> db \<Rightarrow> flow_error + pid list list" where
  "playoff_sides E ev bid seeding manual d =
    (if seeding = ''manual'' then
       if manual = [] then Inl (OtherError ''manual seeding needs the team order'')
       else if validateManualSides manual (env_seedTopTeams E ev bid ''wins'' d) then Inr manual
       else Inl (OtherError ''manual seeding'')
     else Inr (env_seedTopTeams E ev bid seeding d))"

definition buildPlayoffLocked :: "env \<Rightarrow> string \<Rightarrow> string \<Rightarrow> int \<Rightarrow> string \<Rightarrow> pid list list \<Rightarrow> db
    \<Rightarrow> ((flow_error + nat) \<times> db) option" where
  "buildPlayoffLocked E bid ev topN seeding manual d =
    (let (total, opn) = poolProgress bid d in
     if total = 0 then Some (Inl (OtherError ''no pool matches''), d)
     else if opn > 0 then Some (Inl (OtherError ''pool matches open''), d)
     else if find_event ev d = None then Some (Inl NotFound, d)
     else
       (case playoff_sides E ev bid seeding manual d of
          Inl e \<Rightarrow> Some (Inl e, d)
        | Inr sides \<Rightarrow>
          if length sides < 4 then Some (Inl (OtherError ''need at least 4 teams''), d)
          else
            let top = min (if topN < 4 then 4 else topN) (int (length sides));
                d1 = wipeBracketStage bid d
            in if top = 4
               then let (n, d2) = persistMedalBracket E ev bid (take 4 sides) d1
                    in Some (Inr n, env_spreadCourts E ev d2)
               else
                 (case persistBracket E ev bid (map Some (take (nat top) sides)) False d1 of
                    None \<Rightarrow> None
                  | Some (n, d2) \<Rightarrow>
                    let (b, d3) = addThirdPlaceGame E ev bid d2
                    in Some (Inr (n + b), env_spreadCourts E ev d3))))"

definition GeneratePlayoffBracket :: "env \<Rightarrow> string \<Rightarrow> int \<Rightarrow> string \<Rightarrow> pid list list \<Rightarrow> db
    \<Rightarrow> ((flow_error + nat) \<times> db) option" where
  "GeneratePlayoffBracket E bid topN seeding manual d =
    (case map_of (db_brackets d) bid of
       None \<Rightarrow> Some (Inl NotFound, d)
     | Some ev \<Rightarrow> buildPlayoffLocked E bid ev topN seeding manual d)"

end
