(* ===== verification/Draw_Correct.thy ===== *)
theory Draw_Correct
  imports Draw_Persist
begin

text \<open>
  A persisted draw is a correct draw: the batched writes of \<open>persistBracket\<close> put every side where the
  plan has it and link every match where the plan sends its winner, so what the generator guarantees of
  the plan holds of the tables, and recording results keeps it.
\<close>

section \<open>Bulk inserts\<close>

definition fresh_ids :: "env \<Rightarrow> bool" where
  "fresh_ids E \<longleftrightarrow> (\<forall>d. env_newId E d \<noteq> [] \<and> env_newId E d \<notin> m_id ` set (db_matches d)
    \<and> env_newId E d \<notin> p_match ` set (db_parts d))"

definition with_ids :: "string list \<Rightarrow> mrow list \<Rightarrow> mrow list" where
  "with_ids ids rows = map2 (\<lambda>i r. r\<lparr>m_id := i\<rparr>) ids rows"

lemma insert_rows_spec:
  assumes "fresh_ids E" and "insert_rows E rows d = (ids, d')"
  shows "length ids = length rows"
    and "d' = d\<lparr>db_matches := db_matches d @ with_ids ids rows\<rparr>"
    and "distinct ids"
    and "[] \<notin> set ids \<and> set ids \<inter> m_id ` set (db_matches d) = {} \<and> set ids \<inter> p_match ` set (db_parts d) = {}"
proof -
  have "length ids = length rows \<and> d' = d\<lparr>db_matches := db_matches d @ with_ids ids rows\<rparr> \<and> distinct ids
    \<and> [] \<notin> set ids \<and> set ids \<inter> m_id ` set (db_matches d) = {} \<and> set ids \<inter> p_match ` set (db_parts d) = {}"
    using assms(2)
  proof (induction rows arbitrary: d ids)
    case Nil
    then show ?case by (simp add: with_ids_def)
  next
    case (Cons r rows)
    let ?i = "env_newId E d"
    let ?d1 = "insert_match (r\<lparr>m_id := ?i\<rparr>) d"
    obtain js where ids: "ids = ?i # js" "insert_rows E rows ?d1 = (js, d')"
      using Cons.prems by (auto simp: Let_def split: prod.splits)
    have f: "?i \<noteq> []" "?i \<notin> m_id ` set (db_matches d)" "?i \<notin> p_match ` set (db_parts d)"
      using assms(1) by (simp_all add: fresh_ids_def)
    note IH = Cons.IH [OF ids(2)]
    have "?i \<notin> set js" using IH by (auto simp: insert_match_def)
    then show ?case using IH f by (auto simp: ids(1) insert_match_def with_ids_def)
  qed
  then show "length ids = length rows" "d' = d\<lparr>db_matches := db_matches d @ with_ids ids rows\<rparr>"
    "distinct ids"
    "[] \<notin> set ids \<and> set ids \<inter> m_id ` set (db_matches d) = {} \<and> set ids \<inter> p_match ` set (db_parts d) = {}"
    by blast+
qed

section \<open>Batched feed updates are one update per match\<close>

lemma apply_feed_id [simp]: "m_id (apply_feed p m) = m_id m"
  by (simp add: apply_feed_def)

lemma apply_feed_idem: "apply_feed p (apply_feed p m) = apply_feed p m"
  by (auto simp: apply_feed_def split: option.splits)

lemma concat_chunks: "concat (chunks n xs) = xs"
  by (induction n xs rule: chunks.induct) simp_all

definition on_rows :: "(mrow \<Rightarrow> mrow) \<Rightarrow> db \<Rightarrow> db" where
  "on_rows f d = d\<lparr>db_matches := map f (db_matches d)\<rparr>"

lemma update_ids_rows: "update_ids js f = on_rows (\<lambda>m. if m_id m \<in> set js then f m else m)"
  by (simp add: update_ids_def on_rows_def fun_eq_iff)

lemma on_rows_comp: "on_rows g (on_rows f d) = on_rows (g \<circ> f) d"
  by (simp add: on_rows_def)

text \<open>An update that may be written twice without effect and keeps the id.\<close>

definition stable_update :: "('p \<Rightarrow> mrow \<Rightarrow> mrow) \<Rightarrow> bool" where
  "stable_update f \<longleftrightarrow> (\<forall>p m. f p (f p m) = f p m \<and> m_id (f p m) = m_id m)"

lemma apply_feed_stable: "stable_update apply_feed"
  by (simp add: stable_update_def apply_feed_idem)

lemma flush_chunks:
  assumes "stable_update f"
  shows "fold (\<lambda>c d. update_ids c (f p) d) cs d = update_ids (concat cs) (f p) d"
proof (induction cs arbitrary: d)
  case Nil
  then show ?case by (simp add: update_ids_def)
next
  case (Cons c cs)
  have "(\<lambda>m. if m_id m \<in> set (concat cs) then f p m else m) \<circ> (\<lambda>m. if m_id m \<in> set c then f p m else m)
    = (\<lambda>m. if m_id m \<in> set (concat (c # cs)) then f p m else m)"
    using assms by (auto simp: fun_eq_iff stable_update_def)
  then show ?case using Cons by (simp add: update_ids_rows on_rows_comp)
qed

lemma flush_groups_rows:
  assumes "stable_update f"
  shows "flush_groups f gs d = on_rows (\<lambda>m. fold (\<lambda>(p, js) m. if m_id m \<in> set js then f p m else m) gs m) d"
proof (induction gs arbitrary: d)
  case Nil
  then show ?case by (simp add: flush_groups_def on_rows_def)
next
  case (Cons g gs)
  obtain p js where g: "g = (p, js)" by (cases g)
  have "flush_groups f (g # gs) d = flush_groups f gs (update_ids js (f p) d)"
    by (simp add: flush_groups_def g flush_chunks [OF assms] concat_chunks)
  then show ?case by (simp add: Cons update_ids_rows on_rows_comp g comp_def)
qed

text \<open>The groups hold every update once, each id under its payload.\<close>

lemma feed_group_flat:
  "mset (concat (map (\<lambda>(p, js). map (\<lambda>i. (i, p)) js) (feed_group i p gs)))
    = add_mset (i, p) (mset (concat (map (\<lambda>(p, js). map (\<lambda>i. (i, p)) js) gs)))"
  by (induction i p gs rule: feed_group.induct) auto

lemma feed_groups_flat:
  assumes "[] \<notin> fst ` set ups"
  shows "mset (concat (map (\<lambda>(p, js). map (\<lambda>i. (i, p)) js) (fold feed_add ups gs)))
    = mset ups + mset (concat (map (\<lambda>(p, js). map (\<lambda>i. (i, p)) js) gs))"
  using assms
proof (induction ups arbitrary: gs)
  case Nil
  then show ?case by simp
next
  case (Cons u ups)
  have "fst u \<noteq> []" "[] \<notin> fst ` set ups" using Cons.prems by auto
  then show ?case using Cons.IH [of "feed_add u gs"] feed_group_flat [of "fst u" "snd u" gs]
    by (simp add: feed_add_def)
qed

lemma fold_groups_one:
  assumes f: "stable_update f" and "distinct (map fst (concat (map (\<lambda>(p, js). map (\<lambda>i. (i, p)) js) gs)))"
  shows "fold (\<lambda>(p, js) m. if m_id m \<in> set js then f p m else m) gs m
    = (case map_of (concat (map (\<lambda>(p, js). map (\<lambda>i. (i, p)) js) gs)) (m_id m) of
         None \<Rightarrow> m | Some p \<Rightarrow> f p m)"
  using assms(2)
proof (induction gs arbitrary: m)
  case Nil
  then show ?case by simp
next
  case (Cons g gs)
  obtain p js where g: "g = (p, js)" by (cases g)
  let ?flat = "concat (map (\<lambda>(p, js). map (\<lambda>i. (i, p)) js) gs)"
  have d: "distinct (map fst ?flat)" using Cons.prems by (simp add: g)
  have id: "m_id (f p m) = m_id m" for p m using f by (simp add: stable_update_def)
  have look: "map_of (map (\<lambda>i. (i, p)) js) j = (if j \<in> set js then Some p else None)" for j
    by (induction js) auto
  show ?case
  proof (cases "m_id m \<in> set js")
    case True
    have e: "map fst (concat (map (\<lambda>(p, js). map (\<lambda>i. (i, p)) js) (g # gs))) = js @ map fst ?flat"
      by (simp add: g comp_def)
    have "m_id m \<notin> set (map fst ?flat)" using Cons.prems True unfolding e distinct_append by blast
    then have "map_of ?flat (m_id m) = None" unfolding map_of_eq_None_iff by simp
    then show ?thesis using True Cons.IH [OF d] by (simp add: g look map_add_def id)
  next
    case False
    then show ?thesis using Cons.IH [OF d] by (simp add: g look map_add_def split: option.split)
  qed
qed

text \<open>
  The batching is only batching: grouping the updates by payload and sending them in chunks sets on
  each match exactly its own.
\<close>

lemma flush_groups_one:
  assumes "stable_update f" "distinct (map fst ups)" and "[] \<notin> fst ` set ups"
  shows "flush_groups f (fold feed_add ups []) d
    = on_rows (\<lambda>m. case map_of ups (m_id m) of None \<Rightarrow> m | Some p \<Rightarrow> f p m) d"
proof -
  let ?gs = "fold feed_add ups []"
  let ?flat = "concat (map (\<lambda>(p, js). map (\<lambda>i. (i, p)) js) ?gs)"
  have flat: "mset ?flat = mset ups" using feed_groups_flat [OF assms(3), of "[]"] by simp
  then have "mset (map fst ?flat) = mset (map fst ups)" by (simp only: mset_map)
  then have d: "distinct (map fst ?flat)" using assms(2) mset_eq_imp_distinct_iff by blast
  have "set ?flat = set ups" using flat mset_eq_setD by blast
  then have look: "map_of ?flat = map_of ups"
    using d assms(2) by (metis map_of_inject_set)
  show ?thesis unfolding flush_groups_rows [OF assms(1)] fold_groups_one [OF assms(1) d] look ..
qed

lemma flush_all_rows:
  assumes "distinct (map fst ups)" and "[] \<notin> fst ` set ups"
  shows "flush_all ups d = on_rows (\<lambda>m. case map_of ups (m_id m) of None \<Rightarrow> m | Some p \<Rightarrow> apply_feed p m) d"
  unfolding flush_all_def feed_flush_def by (rule flush_groups_one [OF apply_feed_stable assms])

section \<open>Keys and participants\<close>

lemma map_id_of_zip:
  assumes "distinct ks" "length ids = length ks"
  shows "map (id_of (zip ks ids)) ks = ids"
proof (rule nth_equalityI)
  show "length (map (id_of (zip ks ids)) ks) = length ids" using assms(2) by simp
next
  fix j assume "j < length (map (id_of (zip ks ids)) ks)"
  then have j: "j < length ks" by simp
  have "map fst (rev (zip ks ids)) = rev ks" using assms(2) by (simp add: rev_map [symmetric])
  then have "distinct (map fst (rev (zip ks ids)))" using assms(1) by simp
  moreover have "(ks ! j, ids ! j) \<in> set (rev (zip ks ids))"
    using j assms(2) by (force simp: set_zip)
  ultimately have "map_of (rev (zip ks ids)) (ks ! j) = Some (ids ! j)" by (rule map_of_is_SomeI)
  then show "map (id_of (zip ks ids)) ks ! j = ids ! j" using j by (simp add: id_of_def)
qed

definition side_rows :: "string \<Rightarrow> int \<Rightarrow> side \<Rightarrow> prow list" where
  "side_rows i t s = (case s of None \<Rightarrow> [] | Some ps \<Rightarrow> if IsBye s then [] else
    map (\<lambda>p. \<lparr>p_match = i, p_player = p, p_team = t\<rparr>) ps)"

lemma appendSideParts_rows: "appendSideParts rows i t s = rows @ side_rows i t s"
  by (auto simp: appendSideParts_def side_rows_def split: option.split)

lemma plan_parts_rows:
  "plan_parts xs = concat (map (\<lambda>(i, s1, s2). side_rows i 1 s1 @ side_rows i 2 s2) xs)"
proof -
  have "fold (\<lambda>(i, s1, s2) rows. appendSideParts (appendSideParts rows i 1 s1) i 2 s2) xs rows
      = rows @ concat (map (\<lambda>(i, s1, s2). side_rows i 1 s1 @ side_rows i 2 s2) xs)" for rows
    by (induction xs arbitrary: rows) (auto simp: appendSideParts_rows)
  then show ?thesis by (simp add: plan_parts_def)
qed

definition part_key :: "prow \<Rightarrow> string \<times> pid" where
  "part_key p = (p_match p, p_player p)"

lemma fold_upsert_new:
  assumes "distinct (map part_key rows)" and "part_key ` set rows \<inter> part_key ` set ps = {}"
  shows "fold upsert_part rows ps = ps @ rows"
  using assms
proof (induction rows arbitrary: ps)
  case Nil
  then show ?case by simp
next
  case (Cons r rows)
  have "part_key r \<notin> part_key ` set ps" using Cons.prems(2) by auto
  then have "\<not> (\<exists>p\<in>set ps. p_match p = p_match r \<and> p_player p = p_player r)"
    unfolding part_key_def image_iff by (metis (no_types))
  then have "upsert_part r ps = ps @ [r]" by (simp add: upsert_part_def)
  moreover have "fold upsert_part rows (ps @ [r]) = (ps @ [r]) @ rows"
    using Cons.prems by (intro Cons.IH) auto
  ultimately show ?case by simp
qed

definition side_players :: "side \<Rightarrow> pid list" where
  "side_players s = (case s of None \<Rightarrow> [] | Some ps \<Rightarrow> if IsBye s then [] else ps)"

lemma side_rows_players: "side_rows i t s = map (\<lambda>p. \<lparr>p_match = i, p_player = p, p_team = t\<rparr>) (side_players s)"
  by (simp add: side_rows_def side_players_def split: option.split)

lemma in_side_rows:
  "r \<in> set (side_rows i t s) \<longleftrightarrow> p_match r = i \<and> p_team r = t \<and> p_player r \<in> set (side_players s)"
  by (cases r) (auto simp: side_rows_players)

lemma in_plan_parts:
  "r \<in> set (plan_parts xs) \<longleftrightarrow> (\<exists>s1 s2. (p_match r, s1, s2) \<in> set xs
    \<and> (p_team r = 1 \<and> p_player r \<in> set (side_players s1) \<or> p_team r = 2 \<and> p_player r \<in> set (side_players s2)))"
  by (induction xs) (auto simp: plan_parts_rows in_side_rows)

lemma distinct_plan_parts:
  assumes "distinct (map fst xs)"
    and "\<And>i s1 s2. (i, s1, s2) \<in> set xs \<Longrightarrow> distinct (side_players s1 @ side_players s2)"
  shows "distinct (map part_key (plan_parts xs))"
  using assms
proof (induction xs)
  case Nil
  then show ?case by (simp add: plan_parts_rows)
next
  case (Cons x xs)
  obtain i s1 s2 where x: "x = (i, s1, s2)" by (cases x)
  define new where "new = side_rows i 1 s1 @ side_rows i 2 s2"
  have "distinct (map part_key new)"
    using Cons.prems(2) [of i s1 s2] by (auto simp: new_def x side_rows_players part_key_def distinct_map inj_on_def)
  moreover have "fst q = i" if "q \<in> part_key ` set new" for q
    using that by (auto simp: new_def in_side_rows part_key_def)
  moreover have "fst q \<in> fst ` set xs" if "q \<in> part_key ` set (plan_parts xs)" for q
  proof -
    from that obtain r where r: "q = part_key r" "r \<in> set (plan_parts xs)" by (rule imageE)
    then obtain s1 s2 where "(p_match r, s1, s2) \<in> set xs" unfolding in_plan_parts by blast
    then show ?thesis using r(1) by (force simp: part_key_def)
  qed
  moreover have "i \<notin> fst ` set xs" using Cons.prems(1) by (simp add: x)
  moreover have "distinct (map part_key (plan_parts xs))" using Cons by auto
  moreover have "plan_parts (x # xs) = new @ plan_parts xs"
    by (simp add: plan_parts_rows x new_def)
  moreover have "part_key ` set new \<inter> part_key ` set (plan_parts xs) = {}"
    using calculation(2-4) by blast
  ultimately show ?case unfolding distinct_append map_append set_map by simp
qed

lemma slots_appended:
  assumes "db_parts d' = db_parts d @ plan_parts xs" and "distinct (map fst xs)"
    and "fst ` set xs \<inter> p_match ` set (db_parts d) = {}"
  shows "i \<notin> fst ` set xs \<Longrightarrow> slot_set i t d' = slot_set i t d"
    and "(i, s1, s2) \<in> set xs \<Longrightarrow> slot_set i t d' =
      (if t = 1 then set (side_players s1) else if t = 2 then set (side_players s2) else {})"
proof -
  show "slot_set i t d' = slot_set i t d" if "i \<notin> fst ` set xs"
  proof -
    have "p_match r \<noteq> i" if "r \<in> set (plan_parts xs)" for r
      using that \<open>i \<notin> fst ` set xs\<close> unfolding in_plan_parts by force
    then show ?thesis by (auto simp: set_eq_iff slot_set_iff assms(1))
  qed
  assume x: "(i, s1, s2) \<in> set xs"
  then have "i \<notin> p_match ` set (db_parts d)" using assms(3) by force
  then have old: "\<forall>r\<in>set (db_parts d). p_match r \<noteq> i" by blast
  have "s1' = s1 \<and> s2' = s2" if "(i, s1', s2') \<in> set xs" for s1' s2'
    using eq_key_imp_eq_value [OF assms(2) x that] by simp
  then have new: "r \<in> set (plan_parts xs) \<longleftrightarrow>
      (p_team r = 1 \<and> p_player r \<in> set (side_players s1) \<or> p_team r = 2 \<and> p_player r \<in> set (side_players s2))"
    if "p_match r = i" for r
    using x that unfolding in_plan_parts by blast
  have "p \<in> slot_set i t d' \<longleftrightarrow> t = 1 \<and> p \<in> set (side_players s1) \<or> t = 2 \<and> p \<in> set (side_players s2)" for p
  proof -
    have "p \<in> slot_set i t d' \<longleftrightarrow> (\<exists>r. r \<in> set (plan_parts xs) \<and> p_match r = i \<and> p_team r = t \<and> p_player r = p)"
      unfolding slot_set_iff assms(1) set_append using old by auto
    also have "\<dots> \<longleftrightarrow> \<lparr>p_match = i, p_player = p, p_team = t\<rparr> \<in> set (plan_parts xs)"
    proof
      assume "\<exists>r. r \<in> set (plan_parts xs) \<and> p_match r = i \<and> p_team r = t \<and> p_player r = p"
      then obtain r where r: "r \<in> set (plan_parts xs)" "p_match r = i" "p_team r = t" "p_player r = p" by blast
      have "r = \<lparr>p_match = i, p_player = p, p_team = t\<rparr>" by (rule prow.equality) (simp_all add: r)
      then show "\<lparr>p_match = i, p_player = p, p_team = t\<rparr> \<in> set (plan_parts xs)" using r(1) by simp
    qed (auto intro: exI [of _ "\<lparr>p_match = i, p_player = p, p_team = t\<rparr>"])
    finally show ?thesis by (simp add: new)
  qed
  then show "slot_set i t d' =
      (if t = 1 then set (side_players s1) else if t = 2 then set (side_players s2) else {})"
    by auto
qed

section \<open>The single-elimination draw in the tables\<close>

definition pos_of :: "bmatch \<Rightarrow> nat \<times> nat" where
  "pos_of m = (bm_round m, bm_slot m)"

lemma distinct_positions:
  "distinct rs \<Longrightarrow> distinct (concat (map (\<lambda>r. map (Pair r) [0..<f r]) rs))"
  by (induction rs) (auto simp: distinct_map inj_on_def)

lemma plan_positions_distinct:
  assumes "GenerateBracket S = Some plan"
  shows "distinct (map pos_of (bp_matches plan))"
proof -
  let ?k = "bp_rounds plan"
  have "map pos_of (bp_matches plan) = concat (map (\<lambda>r. map (Pair r) [0..<2 ^ (?k - r)]) [1..<Suc ?k])"
    unfolding plan_matches(3) [OF assms] grid_def
    by (simp add: map_concat comp_def pos_of_def final_match_sel del: upt_Suc)
  then show ?thesis by (simp only: distinct_positions distinct_upt)
qed

definition linked_row :: "string \<Rightarrow> string \<Rightarrow> (nat \<times> nat \<Rightarrow> string) \<Rightarrow> bmatch \<Rightarrow> mrow" where
  "linked_row ev bid idf m = (main_row ev bid m)\<lparr>m_id := idf (pos_of m),
    m_feeds := (if feedsRound m \<noteq> 0 then Some (idf (feedsRound m, feedsSlot m), int (feedsTeam m)) else None)\<rparr>"

lemma main_row_fields [simp]:
  "m_feeds (main_row ev bid m) = None" "m_loserFeeds (main_row ev bid m) = None"
  "m_stage (main_row ev bid m) = ''bracket''" "m_tier (main_row ev bid m) = []" "m_tie (main_row ev bid m) = []"
  "m_status (main_row ev bid m) = (if resolvedWinner m = None then Scheduled else Completed)"
  "m_winner (main_row ev bid m) = (if resolvedWinner m = None then 0
     else if \<not> IsBye (side1 m) \<and> side1 m \<noteq> None then 1 else 2)"
  by (simp_all add: main_row_def resolved_row_def bracket_row_def)

lemma persist_main_spec:
  assumes E: "fresh_ids E" and dpos: "distinct (map pos_of ms)" and ms: "ms = bp_matches plan"
    and run: "persist_main E ev bid plan d = (ids, d')" and keys: "keys_ok d"
    and sd: "\<forall>m\<in>set ms. distinct (side_players (side1 m) @ side_players (side2 m))"
    and idf: "idf = id_of (zip (map pos_of ms) ids)"
  shows "db_matches d' = db_matches d @ map (linked_row ev bid idf) ms"
    and "db_parts d' = db_parts d @ plan_parts (map (\<lambda>m. (idf (pos_of m), side1 m, side2 m)) ms)"
    and "ids = map (idf \<circ> pos_of) ms" and "distinct ids"
    and "[] \<notin> set ids \<and> set ids \<inter> m_id ` set (db_matches d) = {} \<and> set ids \<inter> p_match ` set (db_parts d) = {}"
    and "keys_ok d'"
proof -
  obtain ids1 d1 where ins: "insert_rows E (map (main_row ev bid) ms) d = (ids1, d1)" by fastforce
  note I = insert_rows_spec [OF E ins]
  have "ids1 = ids" using run ins by (simp add: persist_main_def ms [symmetric] Let_def)
  note I = I [unfolded this]
  have pos: "(\<lambda>m. (bm_round m, bm_slot m)) = pos_of" by (simp add: pos_of_def fun_eq_iff)
  have "map idf (map pos_of ms) = ids"
    unfolding idf by (rule map_id_of_zip [OF dpos]) (simp add: I(1))
  then have ids: "ids = map (idf \<circ> pos_of) ms" by simp
  let ?xs = "map (\<lambda>m. (idf (pos_of m), side1 m, side2 m)) ms"
  have fst: "map fst ?xs = ids" by (simp add: ids comp_def)
  have zipped: "map (\<lambda>(i, m). (i, side1 m, side2 m)) (zip ids ms) = ?xs"
    unfolding ids by (simp add: zip_map1 zip_same_conv_map)
  let ?parts = "plan_parts ?xs"
  have dk: "distinct (map part_key ?parts)"
  proof (rule distinct_plan_parts)
    show "distinct (map fst ?xs)" unfolding fst by (rule I(3))
  next
    fix i s1 s2 assume "(i, s1, s2) \<in> set ?xs"
    then obtain m where m: "m \<in> set ms" "s1 = side1 m" "s2 = side2 m" by auto
    then show "distinct (side_players s1 @ side_players s2)" using sd by blast
  qed
  have "part_key ` set ?parts \<inter> part_key ` set (db_parts d) = {}"
  proof -
    have "p_match r \<in> set ids" if "r \<in> set ?parts" for r
    proof -
      from that obtain s1 s2 where "(p_match r, s1, s2) \<in> set ?xs" unfolding in_plan_parts by blast
      then have "p_match r \<in> set (map fst ?xs)" by force
      then show ?thesis unfolding fst .
    qed
    moreover have "p_match r \<notin> set ids" if "r \<in> set (db_parts d)" for r using I(4) that by blast
    ultimately show ?thesis by (fastforce simp: part_key_def)
  qed
  then have app: "fold upsert_part ?parts (db_parts d) = db_parts d @ ?parts"
    by (intro fold_upsert_new [OF dk])
  let ?d2 = "if ?parts = [] then d1 else upsert_parts ?parts d1"
  have d2: "?d2 = d1\<lparr>db_parts := db_parts d @ ?parts\<rparr>"
    using app by (simp add: upsert_parts_def I(2))
  let ?ups = "map (\<lambda>m. (idf (pos_of m), (Some (idf (feedsRound m, feedsSlot m), int (feedsTeam m)), None)))
    (filter (\<lambda>m. feedsRound m \<noteq> 0) ms)"
  have d': "d' = flush_all ?ups ?d2"
    using run by (simp add: persist_main_def ms [symmetric] ins [unfolded \<open>ids1 = ids\<close>] pos idf [symmetric] zipped
        pos_of_def [symmetric] Let_def cong: if_cong)
  have ups: "map fst ?ups = map (idf \<circ> pos_of) (filter (\<lambda>m. feedsRound m \<noteq> 0) ms)" by (simp add: comp_def)
  have dups: "distinct (map fst ?ups)"
    unfolding ups by (rule distinct_map_filter) (use I(3) ids in simp)
  have "[] \<notin> fst ` set ?ups" using I(4) unfolding ids by auto
  note F = flush_all_rows [OF dups this]
  have look: "map_of ?ups (idf (pos_of m)) = (if feedsRound m \<noteq> 0
      then Some (Some (idf (feedsRound m, feedsSlot m), int (feedsTeam m)), None) else None)"
    if "m \<in> set ms" for m
  proof -
    have inj: "n = m" if "n \<in> set ms" "idf (pos_of n) = idf (pos_of m)" for n
      using I(3) \<open>m \<in> set ms\<close> that unfolding ids by (auto simp: distinct_map inj_on_def)
    show ?thesis
    proof (cases "feedsRound m \<noteq> 0")
      case True
      then have "(idf (pos_of m), (Some (idf (feedsRound m, feedsSlot m), int (feedsTeam m)), None)) \<in> set ?ups"
        using that by auto
      then show ?thesis using map_of_is_SomeI [OF dups] True by simp
    next
      case False
      then have "idf (pos_of m) \<notin> fst ` set ?ups" using inj by force
      then show ?thesis using False by (simp only: map_of_eq_None_iff if_False)
    qed
  qed
  have old: "map_of ?ups (m_id n) = None" if "n \<in> set (db_matches d)" for n
  proof -
    have "m_id n \<notin> set ids" using I(4) that by auto
    then show ?thesis unfolding map_of_eq_None_iff ids by auto
  qed
  have new: "with_ids ids (map (main_row ev bid) ms) = map (\<lambda>m. (main_row ev bid m)\<lparr>m_id := idf (pos_of m)\<rparr>) ms"
    unfolding with_ids_def ids by (simp add: zip_map1 zip_map2 zip_same_conv_map)
  have "db_matches d' = map (\<lambda>m. case map_of ?ups (m_id m) of None \<Rightarrow> m | Some p \<Rightarrow> apply_feed p m)
      (db_matches d @ map (\<lambda>m. (main_row ev bid m)\<lparr>m_id := idf (pos_of m)\<rparr>) ms)"
    unfolding d' F d2 on_rows_def I(2) new by simp
  also have "\<dots> = db_matches d @ map (linked_row ev bid idf) ms"
  proof -
    have "map (\<lambda>m. case map_of ?ups (m_id m) of None \<Rightarrow> m | Some p \<Rightarrow> apply_feed p m) (db_matches d) = db_matches d"
      by (intro map_idI) (simp only: old option.case)
    moreover have "(case map_of ?ups (idf (pos_of m)) of None \<Rightarrow> (main_row ev bid m)\<lparr>m_id := idf (pos_of m)\<rparr>
        | Some p \<Rightarrow> apply_feed p ((main_row ev bid m)\<lparr>m_id := idf (pos_of m)\<rparr>)) = linked_row ev bid idf m" if "m \<in> set ms" for m
      unfolding look [OF that] by (simp add: linked_row_def apply_feed_def)
    ultimately show ?thesis by (simp add: comp_def)
  qed
  finally show "db_matches d' = db_matches d @ map (linked_row ev bid idf) ms" .
  show parts: "db_parts d' = db_parts d @ ?parts" unfolding d' F d2 on_rows_def by simp
  show "ids = map (idf \<circ> pos_of) ms" "distinct ids"
    "[] \<notin> set ids \<and> set ids \<inter> m_id ` set (db_matches d) = {} \<and> set ids \<inter> p_match ` set (db_parts d) = {}"
    using ids I(3,4) by blast+
  show "keys_ok d'"
    using keys dk \<open>part_key ` set ?parts \<inter> part_key ` set (db_parts d) = {}\<close>
    unfolding keys_ok_def parts part_key_def [symmetric, abs_def] by auto
qed

text \<open>
  Where a side can come from: team slot \<open>t\<close> of match \<open>s\<close> of round \<open>r\<close> is fed by the opening lanes
  \<open>p\<close> with \<open>p div 2 ^ (r - 1) = 2 * s + t - 1\<close>.
\<close>

definition disjoint_sides :: "side list \<Rightarrow> bool" where
  "disjoint_sides S \<longleftrightarrow> distinct (concat (map side_players S))"

definition lane :: "side list \<Rightarrow> nat \<Rightarrow> nat \<Rightarrow> pid set" where
  "lane S k p = set (side_players (first_side S k p))"

definition lane_block :: "side list \<Rightarrow> nat \<Rightarrow> nat \<Rightarrow> nat \<Rightarrow> pid set" where
  "lane_block S k r j = {x. \<exists>p<2 ^ k. p div 2 ^ (r - 1) = j \<and> x \<in> lane S k p}"

lemma side_players_bye [simp]: "side_players None = []" "IsBye s \<Longrightarrow> side_players s = []"
  by (auto simp: side_players_def split: option.split)

lemma disjoint_sides_nth:
  "disjoint_sides S \<Longrightarrow> i < length S \<Longrightarrow> j < length S \<Longrightarrow> i \<noteq> j \<Longrightarrow>
    set (side_players (S ! i)) \<inter> set (side_players (S ! j)) = {}"
proof (induction S arbitrary: i j)
  case Nil
  then show ?case by simp
next
  case (Cons x S)
  have head: "set (side_players x) \<inter> set (side_players (S ! n)) = {}" if "n < length S" for n
    using Cons.prems(1) nth_mem [OF that] by (auto simp: disjoint_sides_def)
  have tail: "disjoint_sides S" using Cons.prems(1) by (simp add: disjoint_sides_def)
  show ?case
    using Cons.prems head Cons.IH [OF tail] by (cases i; cases j) (auto simp: Int_commute)
qed

lemma disjoint_sides_distinct: "disjoint_sides S \<Longrightarrow> x \<in> set S \<Longrightarrow> distinct (side_players x)"
  by (induction S) (auto simp: disjoint_sides_def)

lemma lane_disjoint:
  assumes "disjoint_sides S" "p < 2 ^ k" "q < 2 ^ k" "p \<noteq> q"
  shows "lane S k p \<inter> lane S k q = {}"
proof -
  have b: "1 \<le> seeds k ! p" "1 \<le> seeds k ! q" using seeds_bounds assms(2,3) by blast+
  have "seeds k ! p \<noteq> seeds k ! q"
    using nth_eq_iff_index_eq [OF distinct_seeds, of p k q] assms(2-4) by simp
  then have ne: "seeds k ! p - 1 \<noteq> seeds k ! q - 1" using b by linarith
  have bye: "IsBye (Some [Bye])" by (simp add: IsBye_def)
  show ?thesis
    using disjoint_sides_nth [OF assms(1) _ _ ne] bye
    by (auto simp: lane_def first_side_def sideForSeed_def split: if_splits)
qed

lemma lane_block_disjoint:
  assumes "disjoint_sides S" "i \<noteq> j"
  shows "lane_block S k r i \<inter> lane_block S k r j = {}"
proof -
  have False if "x \<in> lane_block S k r i" "x \<in> lane_block S k r j" for x
  proof -
    from that obtain p q where "p < 2 ^ k" "q < 2 ^ k" "p div 2 ^ (r - 1) = i" "q div 2 ^ (r - 1) = j"
      "x \<in> lane S k p" "x \<in> lane S k q" unfolding lane_block_def by blast
    moreover from this assms(2) have "p \<noteq> q" by blast
    ultimately show False using lane_disjoint [OF assms(1), of p k q] by blast
  qed
  then show ?thesis by blast
qed

lemma distinct_first_side: "disjoint_sides S \<Longrightarrow> distinct (side_players (first_side S k p))"
  using disjoint_sides_distinct [of S] by (auto simp: first_side_def sideForSeed_def IsBye_def)

lemma first_lone_cases: "first_lone S k i = None \<or> first_lone S k i = first_side S k (2 * i)
    \<or> first_lone S k i = first_side S k (2 * i + 1)"
  by (simp add: first_lone_def Let_def)

definition team_side :: "bmatch \<Rightarrow> nat \<Rightarrow> side" where
  "team_side m t = (if t = 1 then side1 m else side2 m)"

lemma team_side_final:
  fixes S :: "side list"
  defines "k \<equiv> bracket_rounds (length S)"
  assumes "t \<in> {1, 2}"
  shows "team_side (final_match S r s) t =
    (if r = 1 then first_side S k (2 * s + t - 1)
     else if r = 2 \<and> 2 * s + t - 1 < 2 ^ (k - 1) then first_lone S k (2 * s + t - 1) else None)"
  using assms(2) by (auto simp: team_side_def final_match_def bstage_def Let_def k_def)

lemma team_side_block:
  fixes S :: "side list"
  defines "k \<equiv> bracket_rounds (length S)"
  assumes dj: "disjoint_sides S" and r: "1 \<le> r" "r \<le> k" "s < 2 ^ (k - r)" and t: "t \<in> {1, 2}"
  shows "distinct (side_players (team_side (final_match S r s) t))"
    and "set (side_players (team_side (final_match S r s) t)) \<subseteq> lane_block S k r (2 * s + t - 1)"
proof -
  let ?j = "2 * s + t - 1"
  note ts = team_side_final [OF t, of S r s, folded k_def]
  show "distinct (side_players (team_side (final_match S r s) t))"
    using first_lone_cases [of S k ?j] distinct_first_side [OF dj, of k] unfolding ts by auto
  show "set (side_players (team_side (final_match S r s) t)) \<subseteq> lane_block S k r ?j"
  proof (cases "r = 1")
    case True
    have "2 * 2 ^ (k - 1) = (2::nat) ^ k" using r by (simp flip: power_Suc)
    then have "?j < 2 ^ k" using r(3) t True by auto
    then show ?thesis unfolding ts using True by (auto simp: lane_block_def lane_def)
  next
    case False
    show ?thesis
    proof (cases "r = 2 \<and> ?j < 2 ^ (k - 1)")
      case True
      have "2 * 2 ^ (k - 1) = (2::nat) ^ k" using r by (simp flip: power_Suc)
      then have lt: "2 * ?j < 2 ^ k" "2 * ?j + 1 < 2 ^ k" using True by auto
      have "x \<in> lane_block S k 2 ?j" if "x \<in> lane S k (2 * ?j) \<or> x \<in> lane S k (2 * ?j + 1)" for x
      proof -
        have half: "(2 * ?j) div 2 ^ (2 - 1) = ?j" "(2 * ?j + 1) div 2 ^ (2 - 1) = ?j" by simp_all
        show ?thesis using that lt half unfolding lane_block_def by blast
      qed
      then show ?thesis unfolding ts using True first_lone_cases [of S k ?j] by (auto simp: lane_def)
    next
      case False
      then have "team_side (final_match S r s) t = None"
        unfolding ts using \<open>r \<noteq> 1\<close> by (simp only: if_False)
      then show ?thesis by simp
    qed
  qed
qed

section \<open>A persisted knockout satisfies the draw invariant\<close>

text \<open>A feed column is a foreign key: it names a match of the table.\<close>

definition feeds_closed :: "db \<Rightarrow> bool" where
  "feeds_closed d \<longleftrightarrow> (\<forall>m\<in>set (db_matches d). \<forall>w f s. dest m w = Some (f, s) \<longrightarrow> f \<in> m_id ` set (db_matches d))"

lemma linked_row_sel [simp]:
  "m_id (linked_row ev bid idf m) = idf (pos_of m)"
  "m_feeds (linked_row ev bid idf m) =
    (if feedsRound m \<noteq> 0 then Some (idf (feedsRound m, feedsSlot m), int (feedsTeam m)) else None)"
  "m_loserFeeds (linked_row ev bid idf m) = None"
  "m_status (linked_row ev bid idf m) = (if resolvedWinner m = None then Scheduled else Completed)"
  "m_winner (linked_row ev bid idf m) = (if resolvedWinner m = None then 0
     else if \<not> IsBye (side1 m) \<and> side1 m \<noteq> None then 1 else 2)"
  by (simp_all add: linked_row_def)

text \<open>
  A knockout in the tables: where the plan's matches are, and what is in their team slots. Everything
  below is stated of it, so that the generator and the batched writes are used once.
\<close>

definition knockout_in :: "string \<Rightarrow> string \<Rightarrow> side list \<Rightarrow> (nat \<times> nat \<Rightarrow> string) \<Rightarrow> db \<Rightarrow> db \<Rightarrow> bool" where
  "knockout_in ev bid S idf d d' \<longleftrightarrow>
    (let k = bracket_rounds (length S);
         ms = concat (grid k (final_match S));
         ids = map (idf \<circ> pos_of) ms
     in db_matches d' = db_matches d @ map (linked_row ev bid idf) ms
      \<and> distinct ids \<and> set ids \<inter> m_id ` set (db_matches d) = {} \<and> keys_ok d'
      \<and> (\<forall>i t. i \<notin> set ids \<longrightarrow> slot_set i t d' = slot_set i t d)
      \<and> (\<forall>r s t. 1 \<le> r \<and> r \<le> k \<and> s < 2 ^ (k - r) \<longrightarrow> slot_set (idf (r, s)) t d' =
            (if t = 1 then set (side_players (side1 (final_match S r s)))
             else if t = 2 then set (side_players (side2 (final_match S r s))) else {})))"

lemma persistBracket_knockout:
  assumes E: "fresh_ids E" and keys: "keys_ok d" and dj: "disjoint_sides S"
  obtains n d' idf where "persistBracket E ev bid S False d = Some (n, d')" "knockout_in ev bid S idf d d'"
    "n = 2 ^ bracket_rounds (length S) - 1"
proof -
  let ?k = "bracket_rounds (length S)"
  let ?ms = "concat (grid ?k (final_match S))"
  obtain plan where g: "GenerateBracket S = Some plan" using GenerateBracket_eq [of S] by blast
  note pm = plan_matches [OF g]
  have ms: "?ms = bp_matches plan" unfolding pm(3) pm(1) ..
  obtain ids d' where run: "persist_main E ev bid plan d = (ids, d')" by fastforce
  define idf where "idf = id_of (zip (map pos_of ?ms) ids)"
  have sd: "\<forall>m\<in>set ?ms. distinct (side_players (side1 m) @ side_players (side2 m))"
  proof
    fix m assume "m \<in> set ?ms"
    then obtain r s where m: "1 \<le> r" "r \<le> ?k" "s < 2 ^ (?k - r)" "m = final_match S r s"
      unfolding set_concat_grid by blast
    note b1 = team_side_block [OF dj m(1-3), of 1] and b2 = team_side_block [OF dj m(1-3), of 2]
    have "lane_block S ?k r (2 * s + 1 - 1) \<inter> lane_block S ?k r (2 * s + 2 - 1) = {}"
      by (rule lane_block_disjoint [OF dj]) simp
    then show "distinct (side_players (side1 m) @ side_players (side2 m))"
      using b1 b2 by (auto simp: team_side_def m(4))
  qed
  have dpos: "distinct (map pos_of ?ms)" unfolding ms by (rule plan_positions_distinct [OF g])
  note P = persist_main_spec [OF E dpos ms run keys sd idf_def]
  have len: "length ids = 2 ^ ?k - 1" unfolding P(3) by (simp add: length_concat_grid)
  moreover have "2 ^ ?k - 1 \<noteq> (0::nat)" using bracket_rounds_size(2) [of "length S"] power_increasing [of 1 ?k "2::nat"] by simp
  ultimately have "ids \<noteq> []" by auto
  then have "bp_matches plan \<noteq> []" unfolding P(3) ms by blast
  then have res: "persistBracket E ev bid S False d = Some (2 ^ ?k - 1, d')"
    by (simp add: persistBracket_def g run len)
  let ?xs = "map (\<lambda>m. (idf (pos_of m), side1 m, side2 m)) ?ms"
  have fst: "map fst ?xs = ids" unfolding P(3) by (simp add: comp_def)
  have dx: "distinct (map fst ?xs)" unfolding fst by (rule P(4))
  have fs: "fst ` set ?xs = set ids" using fst by (metis list.set_map)
  have nx: "fst ` set ?xs \<inter> p_match ` set (db_parts d) = {}" unfolding fs using P(5) by blast
  note SA = slots_appended [OF P(2) dx nx]
  have "knockout_in ev bid S idf d d'"
    unfolding knockout_in_def Let_def
  proof (intro conjI allI impI)
    show "db_matches d' = db_matches d @ map (linked_row ev bid idf) ?ms" by (rule P(1))
    show "distinct (map (idf \<circ> pos_of) ?ms)" using P(3,4) by simp
    show "set (map (idf \<circ> pos_of) ?ms) \<inter> m_id ` set (db_matches d) = {}" using P(3,5) by simp
    show "keys_ok d'" by (rule P(6))
    show "slot_set i t d' = slot_set i t d" if "i \<notin> set (map (idf \<circ> pos_of) ?ms)" for i t
      using SA(1) [of i t] that unfolding fs P(3) by blast
    show "slot_set (idf (r, s)) t d' =
            (if t = 1 then set (side_players (side1 (final_match S r s)))
             else if t = 2 then set (side_players (side2 (final_match S r s))) else {})"
      if "1 \<le> r \<and> r \<le> ?k \<and> s < 2 ^ (?k - r)" for r s t
    proof (rule SA(2))
      have "final_match S r s \<in> set ?ms" unfolding set_concat_grid using that by blast
      moreover have "pos_of (final_match S r s) = (r, s)" by (simp add: pos_of_def final_match_sel)
      ultimately show "(idf (r, s), side1 (final_match S r s), side2 (final_match S r s)) \<in> set ?xs"
        by (auto intro!: image_eqI [of _ _ "final_match S r s"])
    qed
  qed
  with res show ?thesis by (intro that [of "2 ^ ?k - 1" d' idf]) simp_all
qed

text \<open>The rows of a knockout in the tables, and their targets.\<close>

lemma knockout_row:
  assumes ko: "knockout_in ev bid S idf d d'" and m: "m \<in> set (db_matches d')"
  shows "m \<in> set (db_matches d) \<or> (\<exists>r s. 1 \<le> r \<and> r \<le> bracket_rounds (length S)
    \<and> s < 2 ^ (bracket_rounds (length S) - r) \<and> m = linked_row ev bid idf (final_match S r s))"
proof -
  let ?k = "bracket_rounds (length S)"
  have "db_matches d' = db_matches d @ map (linked_row ev bid idf) (concat (grid ?k (final_match S)))"
    using ko unfolding knockout_in_def Let_def by blast
  then have "m \<in> set (db_matches d) \<or> m \<in> linked_row ev bid idf ` set (concat (grid ?k (final_match S)))"
    using m by (simp only: set_append set_map Un_iff)
  then show ?thesis unfolding set_concat_grid by blast
qed

lemma knockout_ids:
  assumes "knockout_in ev bid S idf d d'" "1 \<le> r" "r \<le> bracket_rounds (length S)"
    "s < 2 ^ (bracket_rounds (length S) - r)"
  shows "idf (r, s) \<notin> m_id ` set (db_matches d)"
    and "1 \<le> r' \<Longrightarrow> r' \<le> bracket_rounds (length S) \<Longrightarrow> s' < 2 ^ (bracket_rounds (length S) - r') \<Longrightarrow>
      idf (r, s) = idf (r', s') \<Longrightarrow> r = r' \<and> s = s'"
proof -
  let ?k = "bracket_rounds (length S)"
  let ?ms = "concat (grid ?k (final_match S))"
  have "distinct (map (idf \<circ> pos_of) ?ms)"
    and dis: "set (map (idf \<circ> pos_of) ?ms) \<inter> m_id ` set (db_matches d) = {}"
    using assms(1) unfolding knockout_in_def Let_def by blast+
  then have inj: "inj_on (idf \<circ> pos_of) (set ?ms)" unfolding distinct_map by blast
  have pos: "pos_of (final_match S r s) = (r, s)" for r s by (simp add: pos_of_def final_match_sel)
  have mem: "final_match S r s \<in> set ?ms" if "1 \<le> r" "r \<le> ?k" "s < 2 ^ (?k - r)" for r s
    unfolding set_concat_grid using that by blast
  have "idf (r, s) \<in> set (map (idf \<circ> pos_of) ?ms)"
    unfolding set_map using pos by (intro image_eqI [OF _ mem [OF assms(2-4)]]) simp
  then show "idf (r, s) \<notin> m_id ` set (db_matches d)" using dis by blast
  assume r': "1 \<le> r'" "r' \<le> ?k" "s' < 2 ^ (?k - r')" "idf (r, s) = idf (r', s')"
  have "final_match S r s = final_match S r' s'"
    by (rule inj_onD [OF inj _ mem [OF assms(2-4)] mem [OF r'(1-3)]]) (simp add: pos r'(4))
  then show "r = r' \<and> s = s'" using pos by (metis prod.inject)
qed

lemma linked_row_dest:
  assumes "1 \<le> r" "r \<le> bracket_rounds (length S)" "s < 2 ^ (bracket_rounds (length S) - r)"
    and "dest (linked_row ev bid idf (final_match S r s)) w = Some (f, t)"
  shows "w" "f = idf (Suc r, s div 2)" "t = int (s mod 2 + 1)"
    and "Suc r \<le> bracket_rounds (length S)" "s div 2 < 2 ^ (bracket_rounds (length S) - Suc r)"
proof -
  let ?k = "bracket_rounds (length S)"
  show w: "w" using assms(4) by (cases w) (simp_all add: dest_def)
  have lt: "r < ?k" using assms(4) w by (simp add: dest_def final_match_sel split: if_splits)
  then show "f = idf (Suc r, s div 2)" "t = int (s mod 2 + 1)" "Suc r \<le> ?k"
    using assms(4) w by (simp_all add: dest_def final_match_sel)
  have "2 * 2 ^ (?k - Suc r) = (2::nat) ^ (?k - r)" using lt by (simp add: Suc_diff_Suc flip: power_Suc)
  then show "s div 2 < 2 ^ (?k - Suc r)" using assms(3) by linarith
qed

lemma knockout_edge:
  assumes ko: "knockout_in ev bid S idf d d'" and real: "real_sides S" "2 \<le> length S"
    and r: "1 \<le> r" "r \<le> bracket_rounds (length S)" "s < 2 ^ (bracket_rounds (length S) - r)"
  shows "edge_ok d' (linked_row ev bid idf (final_match S r s)) w"
proof (cases "dest (linked_row ev bid idf (final_match S r s)) w")
  case None
  then show ?thesis by (simp add: edge_ok_def)
next
  case (Some x)
  let ?k = "bracket_rounds (length S)"
  let ?m = "linked_row ev bid idf (final_match S r s)"
  obtain f t where x: "x = (f, t)" by (cases x)
  note D = linked_row_dest [OF r Some [unfolded x]]
  have slots: "slot_set (idf (r, s)) t d' = (if t = 1 then set (side_players (side1 (final_match S r s)))
      else if t = 2 then set (side_players (side2 (final_match S r s))) else {})"
    if "1 \<le> r" "r \<le> ?k" "s < 2 ^ (?k - r)" for r s t
    using ko that unfolding knockout_in_def Let_def by blast
  have half: "2 * (s div 2) + nat t - 1 = s" "nat t \<in> {1, 2}" unfolding D(3) by (auto simp: nat_add_distrib)
  have "slot_set f t d' = set (side_players (team_side (final_match S (Suc r) (s div 2)) (nat t)))"
    unfolding D(2) slots [OF _ D(4,5), simplified] using half(2) by (auto simp: team_side_def)
  also have "team_side (final_match S (Suc r) (s div 2)) (nat t) =
      (if r = 1 \<and> s < 2 ^ (?k - 1) then first_lone S ?k s else None)"
    unfolding team_side_final [OF half(2)] half(1) using r(1) by simp
  also have "set (side_players \<dots>) = (if m_status ?m = Completed then slot_set (m_id ?m) (sent_team ?m w) d' else {})"
  proof (cases "r = 1")
    case False
    then show ?thesis by (simp add: final_match_later)
  next
    case True
    then have s: "s < 2 ^ (?k - 1)" using r(3) by simp
    note top = first_side_top [OF real s HOL.refl] and lone = first_lone_real [OF real s HOL.refl]
    have rw: "resolvedWinner (final_match S 1 s) = first_lone S ?k s" "side1 (final_match S 1 s) = first_side S ?k (2 * s)"
      using final_match_first [of S s] s by simp_all
    show ?thesis
    proof (cases "first_lone S ?k s = None")
      case True
      then show ?thesis using \<open>r = 1\<close> rw by simp
    next
      case False
      then have l: "first_lone S ?k s = first_side S ?k (2 * s)" using lone top(1) by (simp split: if_splits)
      have "m_winner ?m = 1" "m_status ?m = Completed" using \<open>r = 1\<close> rw False top(3,4) by simp_all
      then show ?thesis
        using s D(1) l slots [OF r, of 1] \<open>r = 1\<close> rw by (simp add: sent_team_def pos_of_def final_match_sel)
    qed
  qed
  finally show ?thesis by (simp add: edge_ok_def Some x)
qed

text \<open>Old rows keep their edges: their slots and those they feed are not the draw's.\<close>

lemma old_edge:
  assumes ko: "knockout_in ev bid S idf d d'" and cl: "feeds_closed d" and m: "m \<in> set (db_matches d)"
  shows "edge_ok d' m w \<longleftrightarrow> edge_ok d m w"
proof -
  have "i \<in> m_id ` set (db_matches d) \<Longrightarrow> slot_set i t d' = slot_set i t d" for i t
    using ko unfolding knockout_in_def Let_def by blast
  moreover have "m_id m \<in> m_id ` set (db_matches d)" using m by blast
  moreover have "f \<in> m_id ` set (db_matches d)" if "dest m w = Some (f, s)" for f s
    using cl m that unfolding feeds_closed_def by blast
  ultimately show ?thesis unfolding edge_ok_def by (cases "dest m w") auto
qed

text \<open>Ranks: a match of the draw ranks by its round, every other match as before.\<close>

definition draw_rank :: "side list \<Rightarrow> (nat \<times> nat \<Rightarrow> string) \<Rightarrow> (string \<Rightarrow> nat) \<Rightarrow> string \<Rightarrow> nat" where
  "draw_rank S idf rk i = (let ms = concat (grid (bracket_rounds (length S)) (final_match S)) in
    case List.find (\<lambda>m. idf (pos_of m) = i) ms of None \<Rightarrow> rk i | Some m \<Rightarrow> bm_round m)"

lemma draw_rank_old:
  assumes ko: "knockout_in ev bid S idf d d'" and "i \<in> m_id ` set (db_matches d)"
  shows "draw_rank S idf rk i = rk i"
proof -
  let ?ms = "concat (grid (bracket_rounds (length S)) (final_match S))"
  have "set (map (idf \<circ> pos_of) ?ms) \<inter> m_id ` set (db_matches d) = {}"
    using ko unfolding knockout_in_def Let_def by blast
  then have "i \<notin> (\<lambda>m. idf (pos_of m)) ` set ?ms" using assms(2) by auto
  then have "List.find (\<lambda>m. idf (pos_of m) = i) ?ms = None" unfolding find_None_iff by blast
  then show ?thesis by (simp only: draw_rank_def Let_def option.case)
qed

lemma draw_rank_new:
  assumes ko: "knockout_in ev bid S idf d d'" and r: "1 \<le> r" "r \<le> bracket_rounds (length S)"
    "s < 2 ^ (bracket_rounds (length S) - r)"
  shows "draw_rank S idf rk (idf (r, s)) = r"
proof -
  let ?k = "bracket_rounds (length S)"
  let ?ms = "concat (grid ?k (final_match S))"
  have pos: "pos_of (final_match S r s) = (r, s)" for r s by (simp add: pos_of_def final_match_sel)
  have "final_match S r s \<in> set ?ms" unfolding set_concat_grid using r by blast
  then have "List.find (\<lambda>m. idf (pos_of m) = idf (r, s)) ?ms \<noteq> None"
    unfolding find_None_iff using pos by force
  then obtain m where f: "List.find (\<lambda>m. idf (pos_of m) = idf (r, s)) ?ms = Some m" by blast
  then have "m \<in> set ?ms" "idf (pos_of m) = idf (r, s)" unfolding find_Some_iff using nth_mem by blast+
  then obtain r' s' where m: "1 \<le> r'" "r' \<le> ?k" "s' < 2 ^ (?k - r')" "m = final_match S r' s'"
    unfolding set_concat_grid by blast
  then have "idf (r', s') = idf (r, s)" using \<open>idf (pos_of m) = idf (r, s)\<close> pos by simp
  then have "r' = r" using knockout_ids(2) [OF ko m(1-3) r] by blast
  then show ?thesis using f m(4) by (simp add: draw_rank_def final_match_sel)
qed

lemma knockout_draw_ok:
  assumes ko: "knockout_in ev bid S idf d d'" and ok: "draw_ok rk d" and cl: "feeds_closed d"
    and real: "real_sides S" "2 \<le> length S"
  shows "draw_ok (draw_rank S idf rk) d'" and "feeds_closed d'"
proof -
  let ?k = "bracket_rounds (length S)"
  let ?ms = "concat (grid ?k (final_match S))"
  let ?R = "linked_row ev bid idf"
  have rows: "db_matches d' = db_matches d @ map ?R ?ms" and k': "keys_ok d'"
    and di: "distinct (map (idf \<circ> pos_of) ?ms)" "set (map (idf \<circ> pos_of) ?ms) \<inter> m_id ` set (db_matches d) = {}"
    using ko unfolding knockout_in_def Let_def by blast+
  have pos: "pos_of (final_match S r s) = (r, s)" for r s by (simp add: pos_of_def final_match_sel)
  have old: "wf_topo d" "ranked rk d" "consistent d {}" using ok by (simp_all add: draw_ok_def)
  note row = knockout_row [OF ko]
  have cl_old: "f \<in> m_id ` set (db_matches d)" if "m \<in> set (db_matches d)" "dest m w = Some (f, s)" for m w f s
    using cl that unfolding feeds_closed_def by blast
  have new_f: "\<exists>r' s'. f = idf (r', s') \<and> 1 \<le> r' \<and> r' \<le> ?k \<and> s' < 2 ^ (?k - r')"
    if "1 \<le> r" "r \<le> ?k" "s < 2 ^ (?k - r)" "dest (?R (final_match S r s)) w = Some (f, t)" for r s w f t
    using linked_row_dest [OF that] by (intro exI [of _ "Suc r"] exI [of _ "s div 2"]) simp
  have ids: "map m_id (db_matches d') = map m_id (db_matches d) @ map (idf \<circ> pos_of) ?ms"
    unfolding rows by (simp add: comp_def)
  have topo: "wf_topo d'"
    unfolding wf_topo_def
  proof (rule conjI)
    show "distinct (map m_id (db_matches d'))"
      unfolding ids using old(1) di by (auto simp: wf_topo_def)
  next
    show "\<forall>m\<in>set (db_matches d'). \<forall>n\<in>set (db_matches d'). \<forall>w v x.
        dest m w = Some x \<and> dest n v = Some x \<longrightarrow> m_id m = m_id n \<and> w = v"
    proof (intro ballI allI impI)
      fix m n w v x assume mn: "m \<in> set (db_matches d')" "n \<in> set (db_matches d')" "dest m w = Some x \<and> dest n v = Some x"
      obtain f t where x: "x = (f, t)" by (cases x)
      have dm: "dest m w = Some (f, t)" and dn: "dest n v = Some (f, t)" using mn(3) x by simp_all
      have no: False if "a \<in> set (db_matches d)" "dest a u = Some (f, t)" "1 \<le> r" "r \<le> ?k" "s < 2 ^ (?k - r)"
        "dest (?R (final_match S r s)) v = Some (f, t)" for a u r s v
      proof -
        from new_f [OF that(3-6)]
        obtain r' s' where "f = idf (r', s')" "1 \<le> r'" "r' \<le> ?k" "s' < 2 ^ (?k - r')" by blast
        with knockout_ids(1) [OF ko this(2-4)] cl_old [OF that(1,2)] show False by simp
      qed
      show "m_id m = m_id n \<and> w = v"
        using row [OF mn(1)] row [OF mn(2)]
      proof (elim disjE exE conjE)
        assume "m \<in> set (db_matches d)" "n \<in> set (db_matches d)"
        then show ?thesis using old(1) mn(3) unfolding wf_topo_def by blast
      next
        fix r s assume "m \<in> set (db_matches d)" "1 \<le> r" "r \<le> ?k" "s < 2 ^ (?k - r)" "n = ?R (final_match S r s)"
        then show ?thesis using no [of m w r s v] dm dn by blast
      next
        fix r s assume "n \<in> set (db_matches d)" "1 \<le> r" "r \<le> ?k" "s < 2 ^ (?k - r)" "m = ?R (final_match S r s)"
        then show ?thesis using no [of n v r s w] dm dn by blast
      next
        fix r s r' s' assume a: "1 \<le> r" "r \<le> ?k" "s < 2 ^ (?k - r)" "m = ?R (final_match S r s)"
          and b: "1 \<le> r'" "r' \<le> ?k" "s' < 2 ^ (?k - r')" "n = ?R (final_match S r' s')"
        note A = linked_row_dest [OF a(1-3) dm [unfolded a(4)]]
        note B = linked_row_dest [OF b(1-3) dn [unfolded b(4)]]
        have "Suc r = Suc r' \<and> s div 2 = s' div 2"
          using knockout_ids(2) [OF ko _ A(4,5) _ B(4,5)] A(2) B(2) by simp
        moreover have "s mod 2 = s' mod 2" using A(3) B(3) by simp
        ultimately have "r = r'" by simp
        have "s = s'"
          using \<open>Suc r = Suc r' \<and> s div 2 = s' div 2\<close> \<open>s mod 2 = s' mod 2\<close> by (metis div_mult_mod_eq)
        then show "m_id m = m_id n \<and> w = v" using \<open>r = r'\<close> A(1) B(1) a(4) b(4) by simp
      qed
    qed
  qed
  have rank: "ranked (draw_rank S idf rk) d'"
    unfolding ranked_def
  proof (intro ballI allI impI)
    fix m w f s assume m: "m \<in> set (db_matches d')" "dest m w = Some (f, s)"
    from row [OF m(1)] show "draw_rank S idf rk (m_id m) < draw_rank S idf rk f"
    proof (elim disjE exE conjE)
      assume o: "m \<in> set (db_matches d)"
      then have "m_id m \<in> m_id ` set (db_matches d)" by blast
      then show ?thesis
        using old(2) [unfolded ranked_def, rule_format, OF o m(2)]
          draw_rank_old [OF ko] cl_old [OF o m(2)] by simp
    next
      fix r s' assume a: "1 \<le> r" "r \<le> ?k" "s' < 2 ^ (?k - r)" "m = ?R (final_match S r s')"
      note A = linked_row_dest [OF a(1-3) m(2) [unfolded a(4)]]
      show ?thesis using draw_rank_new [OF ko a(1-3)] draw_rank_new [OF ko _ A(4,5)] A(2) by (simp add: a(4) pos)
    qed
  qed
  have "consistent d' {}"
    unfolding consistent_def
  proof (intro ballI allI impI)
    fix m w assume "m \<in> set (db_matches d')"
    from row [OF this] show "edge_ok d' m w"
    proof (elim disjE exE conjE)
      assume "m \<in> set (db_matches d)"
      then show ?thesis using old(3) old_edge [OF ko cl] unfolding consistent_def by blast
    next
      fix r s assume "1 \<le> r" "r \<le> ?k" "s < 2 ^ (?k - r)" "m = ?R (final_match S r s)"
      then show ?thesis using knockout_edge [OF ko real] by blast
    qed
  qed
  with topo rank k' show "draw_ok (draw_rank S idf rk) d'" by (simp add: draw_ok_def)
  show "feeds_closed d'"
    unfolding feeds_closed_def
  proof (intro ballI allI impI)
    fix m w f s assume m: "m \<in> set (db_matches d')" "dest m w = Some (f, s)"
    from row [OF m(1)] show "f \<in> m_id ` set (db_matches d')"
    proof (elim disjE exE conjE)
      assume "m \<in> set (db_matches d)"
      then have "f \<in> m_id ` set (db_matches d)" using cl_old m(2) by blast
      then show ?thesis unfolding rows set_append image_Un by blast
    next
      fix r s' assume a: "1 \<le> r" "r \<le> ?k" "s' < 2 ^ (?k - r)" "m = ?R (final_match S r s')"
      note A = linked_row_dest [OF a(1-3) m(2) [unfolded a(4)]]
      have "final_match S (Suc r) (s' div 2) \<in> set ?ms"
        unfolding set_concat_grid using A(4,5) le_SucI [OF a(1)] by blast
      then have "?R (final_match S (Suc r) (s' div 2)) \<in> set (db_matches d')" unfolding rows by simp
      moreover have "m_id (?R (final_match S (Suc r) (s' div 2))) = f" by (simp add: pos A(2))
      ultimately show ?thesis by blast
    qed
  qed
qed


definition long_id :: "db \<Rightarrow> string" where
  "long_id d = replicate (Suc (sum_list (map (\<lambda>m. length (m_id m)) (db_matches d))
    + sum_list (map (\<lambda>p. length (p_match p)) (db_parts d)))) (CHR ''x'')"

definition fresh_env :: env where
  "fresh_env = demo_env\<lparr>env_newId := long_id\<rparr>"

lemma fresh_env_ids: "fresh_ids fresh_env"
  unfolding fresh_ids_def
proof (intro allI conjI)
  fix d
  have "length (m_id m) < length (long_id d)" if "m \<in> set (db_matches d)" for m
    using member_le_sum_list [of "length (m_id m)" "map (\<lambda>m. length (m_id m)) (db_matches d)"] that
    by (force simp: long_id_def)
  then show "env_newId fresh_env d \<notin> m_id ` set (db_matches d)" by (fastforce simp: fresh_env_def)
  have "length (p_match p) < length (long_id d)" if "p \<in> set (db_parts d)" for p
    using member_le_sum_list [of "length (p_match p)" "map (\<lambda>p. length (p_match p)) (db_parts d)"] that
    by (force simp: long_id_def)
  then show "env_newId fresh_env d \<notin> p_match ` set (db_parts d)" by (fastforce simp: fresh_env_def)
  show "env_newId fresh_env d \<noteq> []" by (simp add: fresh_env_def long_id_def)
qed

lemma demo_feeds_closed: "feeds_closed demo_db"
  by (auto simp: feeds_closed_def demo_defs dest_def split: if_splits)


end
