(* ===== verification/Standings.thy ===== *)
theory Standings
  imports Complex_Main Match_Db
begin

text \<open>
  Pool standings: the box score of a window or a season (\<open>standingRowsBetween\<close> in
  \<open>internal/service/standings_window.go\<close>, \<open>seasonStandingRows\<close> in \<open>season.go\<close>), the head-to-head
  table, and the ranking (\<open>rankStandingsWith\<close> in \<open>service.go\<close>). A game row is a match with its round's
  creation time and its participants, the join the queries ask for. Rows come in the order players
  first appear; the code's map order is arbitrary, and that the ranking does not depend on it is proved.
  \<open>WinPct\<close> is the exact quotient where the code has a float64 one.
\<close>

section \<open>Rows\<close>

record game_row =
  g_event :: string
  g_bracket :: string
  g_stage :: string
  g_status :: match_status
  g_score1 :: "int option"
  g_score2 :: "int option"
  g_winner :: int
  g_counts :: bool
  g_roundAt :: string
  g_completedAt :: int
  g_parts :: "(pid \<times> string \<times> int) list"

record standing =
  st_id :: pid
  st_name :: string
  st_gp :: int
  st_wins :: int
  st_losses :: int
  st_pf :: int
  st_pa :: int
  st_diff :: int
  st_pct :: rat

definition pool_games :: "string \<Rightarrow> string \<Rightarrow> game_row list \<Rightarrow> game_row list" where
  "pool_games ev bid = filter (\<lambda>g. g_event g = ev \<and> g_stage g = ''pool'' \<and> g_status g = Completed
    \<and> (bid = [] \<or> g_bracket g = bid))"

definition in_season :: "string \<Rightarrow> game_row \<Rightarrow> bool" where
  "in_season since g \<longleftrightarrow> \<not> (since \<noteq> [] \<and> g_roundAt g < since)"

text \<open>A window is half open; a missing end is open.\<close>

definition in_window :: "int option \<Rightarrow> int option \<Rightarrow> game_row \<Rightarrow> bool" where
  "in_window since until g \<longleftrightarrow> (case since of None \<Rightarrow> True | Some t \<Rightarrow> t \<le> g_completedAt g)
    \<and> (case until of None \<Rightarrow> True | Some t \<Rightarrow> g_completedAt g < t)"

section \<open>The box score\<close>

text \<open>A bye has no scores; a forfeit does not count for the differential.\<close>

definition counted :: "game_row \<Rightarrow> bool" where
  "counted g \<longleftrightarrow> g_score1 g \<noteq> None \<and> g_score2 g \<noteq> None \<and> g_counts g"

definition blank_standing :: "pid \<Rightarrow> string \<Rightarrow> standing" where
  "blank_standing p n = \<lparr>st_id = p, st_name = n, st_gp = 0, st_wins = 0, st_losses = 0, st_pf = 0,
    st_pa = 0, st_diff = 0, st_pct = 0\<rparr>"

definition points_for :: "game_row \<Rightarrow> int \<Rightarrow> int" where
  "points_for g team = (if team = 1 then the (g_score1 g) else the (g_score2 g))"

definition points_against :: "game_row \<Rightarrow> int \<Rightarrow> int" where
  "points_against g team = (if team = 1 then the (g_score2 g) else the (g_score1 g))"

definition add_game :: "game_row \<Rightarrow> int \<Rightarrow> standing \<Rightarrow> standing" where
  "add_game g team st = st\<lparr>st_gp := st_gp st + 1,
    st_pf := st_pf st + points_for g team,
    st_pa := st_pa st + points_against g team,
    st_wins := st_wins st + (if g_winner g = team then 1 else 0),
    st_losses := st_losses st + (if g_winner g \<noteq> team \<and> (g_winner g = 1 \<or> g_winner g = 2) then 1 else 0)\<rparr>"

fun upd_standing :: "pid \<Rightarrow> string \<Rightarrow> (standing \<Rightarrow> standing) \<Rightarrow> standing list \<Rightarrow> standing list" where
  "upd_standing p n f [] = [f (blank_standing p n)]"
| "upd_standing p n f (st # sts) = (if st_id st = p then f st # sts else st # upd_standing p n f sts)"

definition tally_part :: "game_row \<Rightarrow> pid \<times> string \<times> int \<Rightarrow> standing list \<Rightarrow> standing list" where
  "tally_part g q sts = (case q of (p, n, team) \<Rightarrow>
    if p = [] then sts else upd_standing p n (add_game g team) sts)"

definition tally_row :: "game_row \<Rightarrow> standing list \<Rightarrow> standing list" where
  "tally_row g sts = (if counted g then fold (tally_part g) (g_parts g) sts else sts)"

definition box_score :: "game_row list \<Rightarrow> standing list" where
  "box_score gs = map (\<lambda>st. st\<lparr>st_diff := st_pf st - st_pa st\<rparr>) (fold tally_row gs [])"

definition seasonStandingRows :: "string \<Rightarrow> string \<Rightarrow> string \<Rightarrow> game_row list \<Rightarrow> standing list" where
  "seasonStandingRows ev bid since gs = box_score (filter (in_season since) (pool_games ev bid gs))"

definition standingRowsBetween :: "string \<Rightarrow> string \<Rightarrow> int option \<Rightarrow> int option \<Rightarrow> game_row list \<Rightarrow> standing list" where
  "standingRowsBetween ev bid since until gs = box_score (filter (in_window since until) (pool_games ev bid gs))"

section \<open>Head to head\<close>

definition side_ids :: "game_row \<Rightarrow> bool \<Rightarrow> pid list" where
  "side_ids g won = map fst (filter (\<lambda>(p, n, team). p \<noteq> [] \<and> (team = g_winner g) = won) (g_parts g))"

definition meetings :: "game_row \<Rightarrow> (pid \<times> pid) list" where
  "meetings g = (if g_winner g \<noteq> 1 \<and> g_winner g \<noteq> 2 \<or> \<not> g_counts g then []
    else concat (map (\<lambda>w. map (\<lambda>l. (w, l)) (side_ids g False)) (side_ids g True)))"

type_synonym h2h_table = "pid \<Rightarrow> pid \<Rightarrow> nat"

definition h2h_of :: "game_row list \<Rightarrow> h2h_table" where
  "h2h_of gs a b = count_list (concat (map meetings gs)) (a, b)"

definition headToHead :: "string \<Rightarrow> string \<Rightarrow> string \<Rightarrow> game_row list \<Rightarrow> h2h_table" where
  "headToHead ev bid since gs = h2h_of (filter (in_season since) (pool_games ev bid gs))"

definition headToHeadBetween :: "string \<Rightarrow> string \<Rightarrow> int option \<Rightarrow> int option \<Rightarrow> game_row list \<Rightarrow> h2h_table" where
  "headToHeadBetween ev bid since until gs = h2h_of (filter (in_window since until) (pool_games ev bid gs))"

section \<open>Ranking\<close>

definition with_pct :: "standing \<Rightarrow> standing" where
  "with_pct st = st\<lparr>st_pct := (let played = st_wins st + st_losses st in
    if played > 0 then of_int (st_wins st) / of_int played else 0)\<rparr>"

definition h2hCmp :: "h2h_table option \<Rightarrow> standing \<Rightarrow> standing \<Rightarrow> int" where
  "h2hCmp h a b = (case h of None \<Rightarrow> 0 | Some t \<Rightarrow>
    if t (st_id a) (st_id b) > t (st_id b) (st_id a) then 1
    else if t (st_id b) (st_id a) > t (st_id a) (st_id b) then - 1 else 0)"

definition rank_before :: "bool \<Rightarrow> standing \<Rightarrow> standing \<Rightarrow> bool" where
  "rank_before diffFirst a b = (if diffFirst then st_pct a > st_pct b else st_wins a > st_wins b)"

definition sameRank :: "bool \<Rightarrow> standing \<Rightarrow> standing \<Rightarrow> bool" where
  "sameRank diffFirst a b = (if diffFirst then st_pct a = st_pct b else st_wins a = st_wins b)"

text \<open>Head-to-head wins against the others of a tied group.\<close>

definition group_wins :: "h2h_table option \<Rightarrow> standing list \<Rightarrow> standing \<Rightarrow> nat" where
  "group_wins h grp a = sum_list (map (\<lambda>b. if st_id a \<noteq> st_id b
    then (case h of None \<Rightarrow> 0 | Some t \<Rightarrow> t (st_id a) (st_id b)) else 0) grp)"

definition tied_before :: "bool \<Rightarrow> (standing \<Rightarrow> nat) \<Rightarrow> standing \<Rightarrow> standing \<Rightarrow> bool" where
  "tied_before diffFirst gw a b =
    (if diffFirst \<and> st_diff a \<noteq> st_diff b then st_diff a > st_diff b
     else if gw a \<noteq> gw b then gw a > gw b
     else if st_diff a \<noteq> st_diff b then st_diff a > st_diff b
     else if st_pf a \<noteq> st_pf b then st_pf a > st_pf b
     else st_id a < st_id b)"

text \<open>The maximal runs of rows of the same rank as the run's first.\<close>

function rank_groups :: "('a \<Rightarrow> 'a \<Rightarrow> bool) \<Rightarrow> 'a list \<Rightarrow> 'a list list" where
  "rank_groups same [] = []"
| "rank_groups same (x # xs) =
    (x # takeWhile (\<lambda>y. same y x) xs) # rank_groups same (dropWhile (\<lambda>y. same y x) xs)"
  by pat_completeness auto
termination
  by (relation "measure (\<lambda>(same, xs). length xs)") (auto simp: less_Suc_eq_le length_dropWhile_le)

definition sort_group :: "h2h_table option \<Rightarrow> bool \<Rightarrow> standing list \<Rightarrow> standing list" where
  "sort_group h diffFirst grp =
    (if length grp > 1 then sort_by (tied_before diffFirst (group_wins h grp)) grp else grp)"

definition points_before :: "h2h_table option \<Rightarrow> standing \<Rightarrow> standing \<Rightarrow> bool" where
  "points_before h a b =
    (if st_pf a \<noteq> st_pf b then st_pf a > st_pf b
     else if st_wins a \<noteq> st_wins b then st_wins a > st_wins b
     else if st_diff a \<noteq> st_diff b then st_diff a > st_diff b
     else if h2hCmp h a b \<noteq> 0 then h2hCmp h a b > 0
     else st_id a < st_id b)"

definition rankStandingsWith :: "standing list \<Rightarrow> h2h_table option \<Rightarrow> bool \<Rightarrow> bool \<Rightarrow> standing list" where
  "rankStandingsWith rows h byWins diffFirst =
    (let out = map with_pct rows in
     if byWins
     then concat (map (sort_group h diffFirst) (rank_groups (sameRank diffFirst) (sort_by (rank_before diffFirst) out)))
     else sort_by (points_before h) out)"

definition StandingsBetween :: "string \<Rightarrow> string \<Rightarrow> bool \<Rightarrow> int option \<Rightarrow> int option \<Rightarrow> game_row list \<Rightarrow> standing list" where
  "StandingsBetween ev bid byWins since until gs =
    rankStandingsWith (standingRowsBetween ev bid since until gs)
      (Some (headToHeadBetween ev bid since until gs)) byWins False"

text \<open>
  The all-time board; \<open>rpc\<close> is the stored procedure \<open>pmp_standings\<close>, used when no season is
  running.
\<close>

definition board :: "(string \<Rightarrow> string \<Rightarrow> standing list) \<Rightarrow> bool \<Rightarrow> string \<Rightarrow> string \<Rightarrow> string \<Rightarrow> bool
    \<Rightarrow> game_row list \<Rightarrow> standing list" where
  "board rpc leaguePlay since ev bid byWins gs =
    (let rows = (if since = [] then rpc ev bid else seasonStandingRows ev bid since gs)
     in rankStandingsWith rows (Some (headToHead ev bid since gs)) byWins leaguePlay)"

section \<open>The box score is zero-sum\<close>

lemma set_upd_standing:
  "set (map st_id (upd_standing p n f sts)) \<subseteq> insert p (set (map st_id sts))"
  if "\<And>st. st_id (f st) = st_id st"
  using that by (induction sts) (auto simp: blank_standing_def)

lemma distinct_upd_standing:
  assumes "\<And>st. st_id (f st) = st_id st"
  shows "distinct (map st_id sts) \<Longrightarrow> distinct (map st_id (upd_standing p n f sts))"
proof (induction sts)
  case Nil
  then show ?case by simp
next
  case (Cons st sts)
  then show ?case using set_upd_standing [OF assms, of p n sts] assms by auto
qed

lemma add_game_id [simp]: "st_id (add_game g team st) = st_id st"
  by (simp add: add_game_def)

lemma distinct_box: "distinct (map st_id (box_score gs))"
proof -
  have part: "distinct (map st_id (tally_part g q sts))" if "distinct (map st_id sts)" for g q sts
    using distinct_upd_standing [OF add_game_id that] that by (simp add: tally_part_def split: prod.split)
  have parts: "distinct (map st_id (fold (tally_part g) qs sts))" if "distinct (map st_id sts)" for g qs sts
    using that by (induction qs arbitrary: sts) (simp_all add: part)
  have "distinct (map st_id (fold tally_row gs sts))" if "distinct (map st_id sts)" for sts
    using that by (induction gs arbitrary: sts) (simp_all add: parts tally_row_def)
  then show ?thesis by (simp add: box_score_def comp_def)
qed

text \<open>A column the tally adds to: its total is the total of what every appearance adds.\<close>

definition appearances :: "game_row list \<Rightarrow> (game_row \<times> int) list" where
  "appearances gs = concat (map (\<lambda>g. map (\<lambda>q. (g, snd (snd q))) (filter (\<lambda>q. fst q \<noteq> []) (g_parts g)))
    (filter counted gs))"

lemma appearances_simps [simp]:
  "appearances [] = []"
  "appearances (g # gs) = (if counted g then map (\<lambda>q. (g, snd (snd q))) (filter (\<lambda>q. fst q \<noteq> []) (g_parts g)) else [])
    @ appearances gs"
  by (simp_all add: appearances_def)

lemma column_total:
  fixes F :: "standing \<Rightarrow> int"
  assumes add: "\<And>g team st. F (add_game g team st) = F st + delta g team" and blank: "\<And>p n. F (blank_standing p n) = 0"
  shows "sum_list (map F (fold tally_row gs sts)) = sum_list (map F sts) + sum_list (map (\<lambda>(g, t). delta g t) (appearances gs))"
proof -
  have upd: "sum_list (map F (upd_standing p n (add_game g t) sts)) = sum_list (map F sts) + delta g t" for p n g t sts
    by (induction sts) (simp_all add: add blank)
  have parts: "sum_list (map F (fold (tally_part g) qs sts)) = sum_list (map F sts)
      + sum_list (map (\<lambda>q. delta g (snd (snd q))) (filter (\<lambda>q. fst q \<noteq> []) qs))" for g qs sts
    by (induction qs arbitrary: sts) (auto simp: tally_part_def upd split: prod.split)
  show ?thesis
  proof (induction gs arbitrary: sts)
    case Nil
    then show ?case by simp
  next
    case (Cons g gs)
    then show ?case using parts [of g "g_parts g" sts] by (simp add: tally_row_def comp_def)
  qed
qed

text \<open>Both teams of a game have as many players.\<close>

definition balanced :: "game_row \<Rightarrow> bool" where
  "balanced g \<longleftrightarrow> (let teams = map (\<lambda>q. snd (snd q)) (filter (\<lambda>q. fst q \<noteq> []) (g_parts g)) in
    set teams \<subseteq> {1, 2} \<and> count_list teams 1 = count_list teams 2)"

lemma balanced_sum:
  fixes f :: "int \<Rightarrow> int"
  assumes "set ts \<subseteq> {1, 2}" "f 2 = - f 1"
  shows "sum_list (map f ts) = f 1 * (int (count_list ts 1) - int (count_list ts 2))"
  using assms by (induction ts) (auto simp: algebra_simps)

lemma balanced_total:
  assumes "\<forall>g\<in>set gs. balanced g" and "\<And>g. g \<in> set gs \<Longrightarrow> delta g 2 = - delta g (1 :: int)"
  shows "sum_list (map (\<lambda>(g, t). delta g t) (appearances gs)) = (0 :: int)"
  using assms
proof (induction gs)
  case Nil
  then show ?case by simp
next
  case (Cons g gs)
  let ?teams = "map (\<lambda>q. snd (snd q)) (filter (\<lambda>q. fst q \<noteq> []) (g_parts g))"
  have "sum_list (map (delta g) ?teams) = 0"
    using balanced_sum [of ?teams "delta g"] Cons.prems by (simp add: balanced_def Let_def)
  then show ?case using Cons by (simp add: comp_def)
qed


definition demo_game :: game_row where
  "demo_game = \<lparr>g_event = ''e'', g_bracket = ''b'', g_stage = ''pool'', g_status = Completed,
    g_score1 = Some 11, g_score2 = Some 7, g_winner = 1, g_counts = True, g_roundAt = ''t'', g_completedAt = 5,
    g_parts = [(''a'', ''A'', 1), (''b'', ''B'', 2)]\<rparr>"


section \<open>The ranking is a total order\<close>

definition rank_key :: "bool \<Rightarrow> standing \<Rightarrow> rat" where
  "rank_key diffFirst a = (if diffFirst then st_pct a else of_int (st_wins a))"

lemma rank_before_key: "rank_before df a b \<longleftrightarrow> rank_key df b < rank_key df a"
  by (simp add: rank_before_def rank_key_def)

lemma sameRank_key: "sameRank df a b \<longleftrightarrow> rank_key df a = rank_key df b"
  by (simp add: sameRank_def rank_key_def)

interpretation by_rank: strict_weak_less "rank_before df" for df
  by unfold_locales (auto simp: rank_before_key)

interpretation in_group: strict_weak_less "tied_before df gw" for df gw
proof -
  have base: "strict_weak_less (\<lambda>a b. st_id a < st_id b)" by unfold_locales auto
  note level = lex_desc [of _ st_pf, THEN lex_desc [of _ st_diff], THEN lex_desc [of _ gw], OF base]
  show "strict_weak_less (tied_before df gw)"
  proof (cases df)
    case True
    have "tied_before df gw = (\<lambda>a b. if st_diff a \<noteq> st_diff b then st_diff b < st_diff a
        else if gw a \<noteq> gw b then gw b < gw a else if st_diff a \<noteq> st_diff b then st_diff b < st_diff a
        else if st_pf a \<noteq> st_pf b then st_pf b < st_pf a else st_id a < st_id b)"
      using True by (intro ext) (simp only: tied_before_def simp_thms)
    then show ?thesis using lex_desc [OF level, of st_diff] by simp
  next
    case False
    have "tied_before df gw = (\<lambda>a b. if gw a \<noteq> gw b then gw b < gw a
        else if st_diff a \<noteq> st_diff b then st_diff b < st_diff a
        else if st_pf a \<noteq> st_pf b then st_pf b < st_pf a else st_id a < st_id b)"
      using False by (intro ext) (simp only: tied_before_def simp_thms if_False)
    then show ?thesis using level by simp
  qed
qed

text \<open>The runs of a list sorted by a key are its classes of equal key, best key first.\<close>

lemma run_split:
  fixes key :: "'a \<Rightarrow> 'k::linorder"
  assumes "sorted_wrt (\<lambda>a b. key b \<le> key a) (x # xs)"
  shows "takeWhile (\<lambda>y. key y = key x) xs = filter (\<lambda>y. key y = key x) xs"
    and "dropWhile (\<lambda>y. key y = key x) xs = filter (\<lambda>y. key y < key x) xs"
proof -
  have "takeWhile (\<lambda>y. key y = k) xs = filter (\<lambda>y. key y = k) xs
    \<and> dropWhile (\<lambda>y. key y = k) xs = filter (\<lambda>y. key y < k) xs"
    if "sorted_wrt (\<lambda>a b. key b \<le> key a) xs" "\<forall>y\<in>set xs. key y \<le> k" for k
    using that
  proof (induction xs)
    case Nil
    then show ?case by simp
  next
    case (Cons y ys)
    show ?case
    proof (cases "key y = k")
      case True
      then show ?thesis using Cons by simp
    next
      case False
      then have "key y < k" using Cons.prems(2) by (simp add: order.strict_iff_order)
      then have all: "\<forall>z\<in>set (y # ys). key z < k" using Cons.prems(1) by (auto intro: le_less_trans)
      then have "filter (\<lambda>y. key y = k) (y # ys) = []" "filter (\<lambda>y. key y < k) (y # ys) = y # ys"
        by (auto simp: filter_empty_conv filter_id_conv)
      then show ?thesis using False by simp
    qed
  qed
  from this [of "key x"] assms show "takeWhile (\<lambda>y. key y = key x) xs = filter (\<lambda>y. key y = key x) xs"
    "dropWhile (\<lambda>y. key y = key x) xs = filter (\<lambda>y. key y < key x) xs" by auto
qed

lemma rank_groups_sorted:
  fixes key :: "'a \<Rightarrow> 'k::linorder"
  assumes "sorted_wrt (\<lambda>a b. key b \<le> key a) xs" and same: "\<And>a b. same a b \<longleftrightarrow> key a = key b"
  shows "sorted_wrt (\<lambda>g g'. \<forall>a\<in>set g. \<forall>b\<in>set g'. key b < key a) (rank_groups same xs)"
    and "g \<in> set (rank_groups same xs) \<Longrightarrow> \<exists>x\<in>set xs. g = filter (\<lambda>y. key y = key x) xs"
    and "concat (rank_groups same xs) = xs"
proof -
  have "sorted_wrt (\<lambda>g g'. \<forall>a\<in>set g. \<forall>b\<in>set g'. key b < key a) (rank_groups same xs)
    \<and> (\<forall>g\<in>set (rank_groups same xs). \<exists>x\<in>set xs. g = filter (\<lambda>y. key y = key x) xs)
    \<and> concat (rank_groups same xs) = xs"
    using assms(1)
  proof (induction "length xs" arbitrary: xs rule: less_induct)
    case less
    show ?case
    proof (cases xs)
      case Nil
      then show ?thesis by simp
    next
      case (Cons x ys)
      let ?dr = "filter (\<lambda>y. key y < key x) ys"
      note R = run_split [OF less.prems [unfolded Cons]]
      have rg: "rank_groups same xs = (x # filter (\<lambda>y. key y = key x) ys) # rank_groups same ?dr"
        by (simp add: Cons same R)
      have "length ?dr < length xs" by (simp add: Cons less_Suc_eq_le)
      moreover have "sorted_wrt (\<lambda>a b. key b \<le> key a) ?dr"
        using less.prems by (simp add: Cons sorted_wrt_filter)
      ultimately have IH: "sorted_wrt (\<lambda>g g'. \<forall>a\<in>set g. \<forall>b\<in>set g'. key b < key a) (rank_groups same ?dr)"
        "\<forall>g\<in>set (rank_groups same ?dr). \<exists>z\<in>set ?dr. g = filter (\<lambda>y. key y = key z) ?dr"
        "concat (rank_groups same ?dr) = ?dr" using less.hyps by blast+
      have deep: "set g \<subseteq> set ?dr" if "g \<in> set (rank_groups same ?dr)" for g
      proof -
        have "set g \<subseteq> set (concat (rank_groups same ?dr))" using that by auto
        then show ?thesis unfolding IH(3) .
      qed
      have "\<exists>z\<in>set xs. g = filter (\<lambda>y. key y = key z) xs" if "g \<in> set (rank_groups same xs)" for g
      proof (cases "g = x # filter (\<lambda>y. key y = key x) ys")
        case True
        then show ?thesis by (intro bexI [of _ x]) (simp_all add: Cons)
      next
        case False
        then have "g \<in> set (rank_groups same ?dr)" using that rg by simp
        then obtain z where z: "z \<in> set ?dr" "g = filter (\<lambda>y. key y = key z) ?dr" using IH(2) by blast
        have "filter (\<lambda>y. key y = key z) ys = filter (\<lambda>y. key y < key x \<and> key y = key z) ys"
          using z(1) by (intro filter_cong HOL.refl) auto
        moreover have "key x \<noteq> key z" using z(1) by auto
        ultimately have "g = filter (\<lambda>y. key y = key z) xs" unfolding z(2) Cons filter_filter by simp
        then show ?thesis using z(1) by (intro bexI [of _ z]) (simp_all add: Cons)
      qed
      moreover have "sorted_wrt (\<lambda>g g'. \<forall>a\<in>set g. \<forall>b\<in>set g'. key b < key a) (rank_groups same xs)"
        unfolding rg sorted_wrt.simps
      proof (intro conjI ballI IH(1))
        fix g a b assume "g \<in> set (rank_groups same ?dr)" "a \<in> set (x # filter (\<lambda>y. key y = key x) ys)" "b \<in> set g"
        then have "b \<in> set ?dr" "key a = key x" using deep by auto
        then show "key b < key a" by simp
      qed
      moreover have "concat (rank_groups same xs) = xs"
        using takeWhile_dropWhile_id [of "\<lambda>y. key y = key x" ys] R IH(3) unfolding rg by (simp add: Cons)
      ultimately show ?thesis by blast
    qed
  qed
  then show "sorted_wrt (\<lambda>g g'. \<forall>a\<in>set g. \<forall>b\<in>set g'. key b < key a) (rank_groups same xs)"
    "g \<in> set (rank_groups same xs) \<Longrightarrow> \<exists>x\<in>set xs. g = filter (\<lambda>y. key y = key x) xs"
    "concat (rank_groups same xs) = xs" by blast+
qed

text \<open>
  The order the two-stage sort establishes: rank, then the tie-break with the head-to-head wins
  against everybody of that rank.
\<close>

definition tie_wins :: "h2h_table option \<Rightarrow> bool \<Rightarrow> standing list \<Rightarrow> standing \<Rightarrow> nat" where
  "tie_wins h df rows a = group_wins h (filter (\<lambda>b. sameRank df b a) rows) a"

definition ranks_above :: "h2h_table option \<Rightarrow> bool \<Rightarrow> standing list \<Rightarrow> standing \<Rightarrow> standing \<Rightarrow> bool" where
  "ranks_above h df rows a b \<longleftrightarrow> rank_before df a b \<or> sameRank df a b \<and> tied_before df (tie_wins h df rows) a b"

lemma tie_wins_mset: "mset rows = mset rows' \<Longrightarrow> tie_wins h df rows = tie_wins h df rows'"
proof
  fix a assume "mset rows = mset rows'"
  then have "mset (filter (\<lambda>b. sameRank df b a) rows) = mset (filter (\<lambda>b. sameRank df b a) rows')"
    by (simp only: mset_filter)
  then have "mset (map f (filter (\<lambda>b. sameRank df b a) rows)) = mset (map f (filter (\<lambda>b. sameRank df b a) rows'))" for f :: "standing \<Rightarrow> nat"
    by (simp only: mset_map)
  then show "tie_wins h df rows a = tie_wins h df rows' a"
    unfolding tie_wins_def group_wins_def sum_mset_sum_list [symmetric] by (rule arg_cong)
qed

lemma ranks_above_asym: "ranks_above h df rows a b \<Longrightarrow> \<not> ranks_above h df rows b a"
  using in_group.lt_asym [of df "tie_wins h df rows" a b]
  by (auto simp: ranks_above_def rank_before_key sameRank_key)

lemma tied_before_total: "st_id a \<noteq> st_id b \<Longrightarrow> tied_before df gw a b \<or> tied_before df gw b a"
  by (auto simp: tied_before_def)

lemma sort_group_mset: "mset (sort_group h df g) = mset g"
  by (simp add: sort_group_def)

lemma sort_group_sorted:
  assumes "distinct (map st_id g)"
  shows "sorted_wrt (tied_before df (group_wins h g)) (sort_group h df g)"
proof (cases "length g > 1")
  case True
  let ?lt = "tied_before df (group_wins h g)"
  have "distinct (map st_id (sort_by ?lt g))"
  proof -
    have "mset (map st_id (sort_by ?lt g)) = mset (map st_id g)" by (simp only: mset_map mset_sort_by)
    then show ?thesis using assms mset_eq_imp_distinct_iff by blast
  qed
  have "?lt (sort_by ?lt g ! i) (sort_by ?lt g ! j)" if "i < j" "j < length (sort_by ?lt g)" for i j
  proof -
    have "st_id (sort_by ?lt g ! i) \<noteq> st_id (sort_by ?lt g ! j)"
      using nth_eq_iff_index_eq [OF \<open>distinct (map st_id (sort_by ?lt g))\<close>, of i j] that by simp
    moreover have "\<not> ?lt (sort_by ?lt g ! j) (sort_by ?lt g ! i)"
      using in_group.sort_by_nth [of i j g df "group_wins h g"] that by simp
    ultimately show ?thesis using tied_before_total by blast
  qed
  then show ?thesis using True by (simp add: sort_group_def sorted_wrt_iff_nth_less)
next
  case False
  then show ?thesis by (cases g) (auto simp: sort_group_def)
qed

lemma rank_by_wins_sorted:
  fixes rows h df
  defines "out \<equiv> rankStandingsWith rows h True df"
  assumes "distinct (map st_id rows)"
  shows "mset out = mset (map with_pct rows)" and "sorted_wrt (ranks_above h df out) out"
proof -
  let ?in = "map with_pct rows"
  let ?xs = "sort_by (rank_before df) ?in"
  let ?gs = "rank_groups (sameRank df) ?xs"
  have "sorted_wrt (\<lambda>a b. rank_key df b \<le> rank_key df a) ?xs"
    using by_rank.sorted_sort_by [of df ?in] by (simp add: rank_before_key not_less)
  note G = rank_groups_sorted [OF this sameRank_key]
  have out: "out = concat (map (sort_group h df) ?gs)"
    by (simp add: out_def rankStandingsWith_def Let_def)
  have "mset (concat (map (sort_group h df) gs)) = mset (concat gs)" for gs
    by (induction gs) (simp_all add: sort_group_mset)
  then have ms: "mset out = mset ?xs" unfolding out using G(3) by metis
  then show m: "mset out = mset ?in" by simp
  have ids: "distinct (map st_id ?xs)"
  proof -
    have "map st_id ?in = map st_id rows" by (simp add: with_pct_def comp_def)
    then have "mset (map st_id ?xs) = mset (map st_id rows)" by (metis mset_map mset_sort_by)
    then show ?thesis using assms(2) mset_eq_imp_distinct_iff by blast
  qed
  have same_set: "set (sort_group h df g) = set g" for g using sort_group_mset mset_eq_setD by blast
  have grp: "sorted_wrt (ranks_above h df out) (sort_group h df g)" if g: "g \<in> set ?gs" for g
  proof -
    obtain x where x: "x \<in> set ?xs" "g = filter (\<lambda>y. rank_key df y = rank_key df x) ?xs" using G(2) [OF g] by blast
    have "distinct (map st_id g)" unfolding x(2) by (rule distinct_map_filter [OF ids])
    note S = sort_group_sorted [OF this, of df h]
    have eq: "rank_key df a = rank_key df x" if "a \<in> set g" for a using that x(2) by simp
    have "tie_wins h df out a = group_wins h g a" if "a \<in> set g" for a
    proof -
      have "tie_wins h df out a = tie_wins h df ?xs a" by (rule fun_cong [OF tie_wins_mset [OF ms]])
      also have "\<dots> = group_wins h g a" unfolding tie_wins_def sameRank_key eq [OF that] x(2) ..
      finally show ?thesis .
    qed
    then have "ranks_above h df out a b" if "a \<in> set g" "b \<in> set g" "tied_before df (group_wins h g) a b" for a b
      using that eq by (auto simp: ranks_above_def sameRank_key tied_before_def)
    then show ?thesis by (intro sorted_wrt_mono_rel [OF _ S]) (simp only: same_set)
  qed
  have "ranks_above h df out a b" if "rank_key df b < rank_key df a" for a b
    using that by (simp add: ranks_above_def rank_before_key)
  then have "sorted_wrt (\<lambda>g g'. \<forall>a\<in>set g. \<forall>b\<in>set g'. ranks_above h df out a b) (map (sort_group h df) ?gs)"
    unfolding sorted_wrt_map same_set by (intro sorted_wrt_mono_rel [OF _ G(1)]) blast
  then have "sorted_wrt (ranks_above h df out) (concat (map (sort_group h df) ?gs))"
    by (rule sorted_wrt_concat) (use grp in auto)
  then show "sorted_wrt (ranks_above h df out) out" unfolding out [symmetric] .
qed

text \<open>
  C4: The standings by wins are a ranking and nothing else decides it: whatever order the rows arrive
  in, the list has the same rows, each above the next by the documented criteria (matches won, or win
  percentage in a league; then, in the tied group, head-to-head wins against the tied, point
  difference, points scored, in a league the difference first; then the player id), so it never
  reshuffles between two reads.
\<close>

theorem standings_by_wins_ranked:
  assumes "distinct (map st_id rows)" "mset rows' = mset rows"
  shows "mset (rankStandingsWith rows h True df) = mset (map with_pct rows)
    \<and> sorted_wrt (ranks_above h df (map with_pct rows)) (rankStandingsWith rows h True df)
    \<and> rankStandingsWith rows' h True df = rankStandingsWith rows h True df"
proof (intro conjI)
  note R = rank_by_wins_sorted [OF assms(1), of h df]
  have d': "distinct (map st_id rows')"
    using assms mset_eq_imp_distinct_iff [of "map st_id rows'" "map st_id rows"] by simp
  note R' = rank_by_wins_sorted [OF d', of h df]
  have ms: "mset (map with_pct rows') = mset (map with_pct rows)" using assms(2) by simp
  have order: "ranks_above h df xs = ranks_above h df (map with_pct rows)" if "mset xs = mset (map with_pct rows)" for xs
    by (intro ext) (simp only: ranks_above_def tie_wins_mset [OF that, of h df])
  show 1: "mset (rankStandingsWith rows h True df) = mset (map with_pct rows)" by (rule R(1))
  show 2: "sorted_wrt (ranks_above h df (map with_pct rows)) (rankStandingsWith rows h True df)"
    using R(2) unfolding order [OF 1] .
  have 3: "mset (rankStandingsWith rows' h True df) = mset (map with_pct rows)" using R'(1) ms by simp
  have "sorted_wrt (ranks_above h df (map with_pct rows)) (rankStandingsWith rows' h True df)"
    using R'(2) unfolding order [OF 3] .
  then show "rankStandingsWith rows' h True df = rankStandingsWith rows h True df"
    using sorted_perm_eq [OF ranks_above_asym _ 2] 3 1 by metis
qed

definition demo_rows :: "standing list" where
  "demo_rows = [(blank_standing ''a'' ''A'')\<lparr>st_wins := 1, st_losses := 1\<rparr>,
    (blank_standing ''b'' ''B'')\<lparr>st_wins := 1, st_losses := 1, st_diff := 3\<rparr>,
    (blank_standing ''c'' ''C'')\<lparr>st_wins := 2\<rparr>]"

definition demo_h2h :: h2h_table where
  "demo_h2h a b = (if a = ''a'' \<and> b = ''b'' then 1 else 0)"

theorem standings_by_wins_ranked_witness:
  "map st_id (rankStandingsWith (rev demo_rows) (Some demo_h2h) True False) = [''c'', ''a'', ''b'']
    \<and> map st_id (rankStandingsWith (rev demo_rows) (Some demo_h2h) True True) = [''c'', ''b'', ''a'']"
proof -
  have "distinct (map st_id demo_rows)" by (simp add: demo_rows_def blank_standing_def)
  note S = standings_by_wins_ranked [OF this, of "rev demo_rows" "Some demo_h2h", THEN conjunct2, THEN conjunct2]
  have "map st_id (rankStandingsWith demo_rows (Some demo_h2h) True False) = [''c'', ''a'', ''b'']"
    "map st_id (rankStandingsWith demo_rows (Some demo_h2h) True True) = [''c'', ''b'', ''a'']"
    by (code_simp, code_simp)
  then show ?thesis using S by simp
qed

text \<open>
  The points leaderboard's comparator is not an order: three players level on points, wins and
  difference, each of whom beat the next, are each before the next, so the outcome of the sort depends
  on the order the rows arrive in, which its last tie-break is there to prevent.
\<close>

definition cycle_h2h :: h2h_table where
  "cycle_h2h a b = (if (a, b) \<in> {(''a'', ''b''), (''b'', ''c''), (''c'', ''a'')} then 1 else 0)"

lemma points_comparator_cycles:
  "let a = blank_standing ''a'' ''A''; b = blank_standing ''b'' ''B''; c = blank_standing ''c'' ''C'';
       before = points_before (Some cycle_h2h)
   in before a b \<and> before b c \<and> before c a"
  by (simp add: points_before_def h2hCmp_def cycle_h2h_def blank_standing_def)

end
