(* ===== verification/Seeding.thy ===== *)
theory Seeding
  imports Standings Schedule
begin

text \<open>
  Who plays as a side and in which order, \<open>internal/service/service.go\<close>: pairing the registrations
  (\<open>pairsFromRegs\<close>), the players that leaves out, seeding by rating (\<open>seedSides\<close>), snake pools
  (\<open>splitPools\<close>), and seeding a playoff from the standings (\<open>seedTopTeams\<close>, \<open>crossPoolOrder\<close>).
  Ratings are exact rationals where the code has float64.
\<close>

section \<open>Data\<close>

record reg =
  rg_id :: string
  rg_player :: pid
  rg_partner :: pid

text \<open>The fields of an event the scheduler reads.\<close>

record event_setup =
  es_id :: string
  es_singles :: bool
  es_doubles :: bool
  es_fixed :: bool
  es_tournament :: string
  es_courts :: int
  es_minPoolRounds :: int
  es_maxPoolRounds :: int
  es_roundsPerSession :: int
  es_perpetual :: bool
  es_consolation :: bool
  es_playoffSize :: int

section \<open>Sides from registrations\<close>

definition pair_step :: "pid set \<Rightarrow> reg \<Rightarrow> pid list \<times> pid list list \<Rightarrow> pid list \<times> pid list list" where
  "pair_step present r st = (case st of (used, pairs) \<Rightarrow>
    if rg_player r \<in> set used then st
    else if rg_partner r \<noteq> [] \<and> rg_partner r \<in> present \<and> rg_partner r \<notin> set used
      then (rg_player r # rg_partner r # used, pairs @ [[rg_player r, rg_partner r]])
      else st)"

fun two_by_two :: "'a list \<Rightarrow> 'a list list" where
  "two_by_two (a # b # xs) = [a, b] # two_by_two xs"
| "two_by_two xs = []"

definition linked_pairs :: "reg list \<Rightarrow> pid list \<times> pid list list" where
  "linked_pairs regs = fold (pair_step (set (map rg_player regs))) regs ([], [])"

definition pairsFromRegs :: "reg list \<Rightarrow> pid list list" where
  "pairsFromRegs regs =
    (let (used, pairs) = linked_pairs regs;
         leftover = map rg_player (filter (\<lambda>r. rg_player r \<notin> set used) regs)
     in pairs @ two_by_two leftover)"

definition sidesForBracket :: "event_setup \<Rightarrow> reg list \<Rightarrow> pid list list" where
  "sidesForBracket ev regs = (if es_singles ev then map (\<lambda>r. [rg_player r]) regs else pairsFromRegs regs)"

definition droppedDoublesPlayers :: "event_setup \<Rightarrow> reg list \<Rightarrow> pid list" where
  "droppedDoublesPlayers ev regs =
    (if \<not> es_doubles ev then []
     else if \<not> (es_fixed ev \<or> es_tournament ev \<in> {''single_elim'', ''double_elim'', ''compass''}) then []
     else let inTeam = set (concat (pairsFromRegs regs))
          in filter (\<lambda>p. p \<notin> inTeam) (map rg_player regs))"

section \<open>Seeding by rating\<close>

definition side_rate :: "(pid \<Rightarrow> rat) \<Rightarrow> pid list \<Rightarrow> rat" where
  "side_rate skill s = (if s = [] then 0 else sum_list (map skill s) / of_nat (length s))"

definition seed_before :: "(pid \<Rightarrow> rat) \<Rightarrow> pid list \<Rightarrow> pid list \<Rightarrow> bool" where
  "seed_before skill a b =
    (if side_rate skill a \<noteq> side_rate skill b then side_rate skill a > side_rate skill b
     else concat a < concat b)"

definition seedSides :: "pid list list \<Rightarrow> (pid \<Rightarrow> rat) \<Rightarrow> pid list list" where
  "seedSides sides skill = sort_by (seed_before skill) sides"

section \<open>Pools\<close>

definition poolGroupName :: "nat \<Rightarrow> string" where
  "poolGroupName i = (if i < 26 then ''pool_'' @ [char_of (97 + i)] else ''pool_'' @ itoa (i + 1))"

definition snake :: "nat \<Rightarrow> nat \<Rightarrow> nat" where
  "snake numPools i = (let lap = i div numPools; pos = i mod numPools in
    if lap mod 2 = 1 then numPools - 1 - pos else pos)"

definition deal :: "nat \<Rightarrow> nat \<times> 'a \<Rightarrow> 'a list list \<Rightarrow> 'a list list" where
  "deal numPools iu pools = (case iu of (i, u) \<Rightarrow>
    pools[snake numPools i := pools ! snake numPools i @ [u]])"

definition splitPools :: "pid list list \<Rightarrow> (pid \<Rightarrow> rat) \<Rightarrow> pid list list list" where
  "splitPools units skill =
    (let n = length units in
     if n < 8 then [units]
     else
       let ordered = sort_by (\<lambda>a b. side_rate skill a > side_rate skill b) units;
           numPools = (n + 4) div 5
       in fold (deal numPools) (enumerate 0 ordered) (replicate numPools []))"

section \<open>Seeding a playoff\<close>

definition pairScore :: "pid list \<Rightarrow> (pid \<Rightarrow> int) \<Rightarrow> int" where
  "pairScore pair rate = sum_list (map rate pair)"

definition team_rate :: "bool \<Rightarrow> standing list \<Rightarrow> pid \<Rightarrow> int" where
  "team_rate byPoints standings p =
    (case map_of (rev (map (\<lambda>st. (st_id st,
        if byPoints then st_pf st * 1000000 + st_diff st * 1000 + st_wins st
        else st_wins st * 1000000 + st_diff st * 1000 + st_pf st)) standings)) p of
       None \<Rightarrow> 0 | Some x \<Rightarrow> x)"

text \<open>Which pool a player's matches are tagged with; the last match decides.\<close>

definition pool_tags :: "string \<Rightarrow> string \<Rightarrow> db \<Rightarrow> (pid \<times> string) list" where
  "pool_tags ev bid d = concat (map
    (\<lambda>m. map (\<lambda>p. (p_player p, m_group m)) (filter (\<lambda>p. p_match p = m_id m \<and> p_player p \<noteq> []) (db_parts d)))
    (filter (\<lambda>m. m_event m = ev \<and> m_bracket m = bid \<and> m_stage m = ''pool'' \<and> m_group m \<noteq> []) (db_matches d)))"

definition pool_of :: "(pid \<times> string) list \<Rightarrow> pid \<Rightarrow> string" where
  "pool_of tags p = (case map_of (rev tags) p of None \<Rightarrow> [] | Some g \<Rightarrow> g)"

definition sidePool :: "(pid \<times> string) list \<Rightarrow> pid list \<Rightarrow> string" where
  "sidePool tags u = (case u of [] \<Rightarrow> [] | p # _ \<Rightarrow> pool_of tags p)"

definition first_seen :: "'a list \<Rightarrow> 'a list" where
  "first_seen xs = fold (\<lambda>x acc. if x \<in> set acc then acc else acc @ [x]) xs []"

text \<open>One round of the interleave takes the next of every list that still has one.\<close>

function interleave :: "'a list list \<Rightarrow> 'a list" where
  "interleave ls = (if list_all (\<lambda>l. l = []) ls then []
    else map hd (filter (\<lambda>l. l \<noteq> []) ls) @ interleave (map tl ls))"
  by auto
termination
proof (relation "measure (\<lambda>ls. sum_list (map length ls))")
  show "wf (measure (\<lambda>ls. sum_list (map length ls)))" by simp
  fix ls :: "'a list list" assume "\<not> list_all (\<lambda>l. l = []) ls"
  then have "sum_list (map (length \<circ> tl) ls) < sum_list (map length ls)"
  proof (induction ls)
    case Nil
    then show ?case by simp
  next
    case (Cons l ls)
    have "sum_list (map (length \<circ> tl) ls) \<le> sum_list (map length ls)" by (rule sum_list_mono) simp
    then show ?case using Cons by (cases l) (auto simp: comp_def)
  qed
  then show "(map tl ls, ls) \<in> measure (\<lambda>ls. sum_list (map length ls))" by (simp add: comp_def)
qed

declare interleave.simps [simp del]

definition same_pool_semi :: "(pid list \<Rightarrow> string) \<Rightarrow> pid list \<Rightarrow> pid list \<Rightarrow> pid list \<Rightarrow> pid list \<Rightarrow> bool" where
  "same_pool_semi pool a b c e \<longleftrightarrow> pool a = pool e \<or> pool b = pool c"

text \<open>The first two semifinals are 1 against 4 and 2 against 3; swapping 3 and 4 changes both.\<close>

definition avoid_semi :: "(pid list \<Rightarrow> string) \<Rightarrow> pid list list \<Rightarrow> pid list list" where
  "avoid_semi pool out = (case out of
     a # b # c # e # rest' \<Rightarrow>
       if same_pool_semi pool a b c e \<and> \<not> same_pool_semi pool a b e c then a # b # e # c # rest' else out
   | _ \<Rightarrow> out)"

definition tier_order :: "(pid list \<Rightarrow> string) \<Rightarrow> pid list list \<Rightarrow> pid list list" where
  "tier_order pool sides =
    (let tagged = filter (\<lambda>u. pool u \<noteq> []) sides;
         poolOrder = first_seen (map pool tagged)
     in interleave (map (\<lambda>g. filter (\<lambda>u. pool u = g) tagged) poolOrder) @ filter (\<lambda>u. pool u = []) sides)"

definition crossPoolOrder :: "(pid \<times> string) list \<Rightarrow> pid list list \<Rightarrow> pid list list" where
  "crossPoolOrder tags sides =
    (let pool = sidePool tags in
     if tags = [] then sides
     else if length (first_seen (map pool (filter (\<lambda>u. pool u \<noteq> []) sides))) < 2 then sides
     else avoid_semi pool (tier_order pool sides))"

definition seedTopTeams :: "event_setup \<Rightarrow> string \<Rightarrow> (bool \<Rightarrow> standing list) \<Rightarrow> reg list \<Rightarrow> (pid \<times> string) list \<Rightarrow> pid list list" where
  "seedTopTeams ev seeding standings regs tags =
    (let byPoints = (seeding = ''points'');
         st = standings (\<not> byPoints);
         seen = set (map st_id st);
         sides = (if es_singles ev
           then map (\<lambda>s. [st_id s]) st @ map (\<lambda>r. [rg_player r]) (filter (\<lambda>r. rg_player r \<notin> seen) regs)
           else sort_by (\<lambda>a b. pairScore a (team_rate byPoints st) > pairScore b (team_rate byPoints st)) (pairsFromRegs regs))
     in crossPoolOrder tags sides)"

section \<open>Pairing\<close>

definition pairs_ok :: "pid set \<Rightarrow> pid list \<times> pid list list \<Rightarrow> bool" where
  "pairs_ok present st \<longleftrightarrow> (case st of (used, pairs) \<Rightarrow>
    set used = set (concat pairs) \<and> distinct (concat pairs) \<and> set used \<subseteq> present \<and> (\<forall>x\<in>set pairs. length x = 2))"

lemma pair_step_ok:
  assumes "pairs_ok present st" "rg_player r \<in> present" "rg_partner r \<noteq> rg_player r"
  shows "pairs_ok present (pair_step present r st)"
  using assms by (auto simp: pairs_ok_def pair_step_def split: prod.splits)

lemma linked_pairs_ok:
  assumes "\<forall>r\<in>set regs. rg_partner r \<noteq> rg_player r"
  shows "pairs_ok (set (map rg_player regs)) (linked_pairs regs)"
proof -
  have "pairs_ok P (fold (pair_step P) rs st)"
    if "pairs_ok P st" "\<forall>r\<in>set rs. rg_player r \<in> P \<and> rg_partner r \<noteq> rg_player r" for P rs st
    using that
  proof (induction rs arbitrary: st)
    case Nil
    then show ?case by simp
  next
    case (Cons r rs)
    then have "pairs_ok P (pair_step P r st)" by (intro pair_step_ok) simp_all
    then show ?case using Cons by simp
  qed
  moreover have "pairs_ok P ([], [])" for P by (simp add: pairs_ok_def)
  ultimately show ?thesis using assms by (simp add: linked_pairs_def)
qed

lemma two_by_two_props:
  "concat (two_by_two xs) = take (2 * (length xs div 2)) xs" "\<forall>x\<in>set (two_by_two xs). length x = 2"
  by (induction xs rule: two_by_two.induct) auto

definition left_over :: "reg list \<Rightarrow> pid list" where
  "left_over regs = filter (\<lambda>p. p \<notin> set (fst (linked_pairs regs))) (map rg_player regs)"

lemma pairsFromRegs_eq: "pairsFromRegs regs = snd (linked_pairs regs) @ two_by_two (left_over regs)"
  by (simp add: pairsFromRegs_def left_over_def filter_map comp_def split: prod.split)

lemma pairsFromRegs_ok:
  assumes "distinct (map rg_player regs)" "\<forall>r\<in>set regs. rg_partner r \<noteq> rg_player r"
  shows "distinct (concat (pairsFromRegs regs))" "set (concat (pairsFromRegs regs)) \<subseteq> set (map rg_player regs)"
    and "\<forall>x\<in>set (pairsFromRegs regs). length x = 2"
    and "length (filter (\<lambda>p. p \<notin> set (concat (pairsFromRegs regs))) (map rg_player regs)) = length regs mod 2"
proof -
  obtain used pairs where lp: "linked_pairs regs = (used, pairs)" by fastforce
  have ok: "set used = set (concat pairs)" "distinct (concat pairs)" "set used \<subseteq> set (map rg_player regs)"
    "\<forall>x\<in>set pairs. length x = 2"
    using linked_pairs_ok [OF assms(2)] unfolding lp pairs_ok_def by blast+
  have lo: "set (left_over regs) = set (map rg_player regs) - set used" "distinct (left_over regs)"
    using assms(1) by (auto simp: left_over_def lp)
  let ?t = "take (2 * (length (left_over regs) div 2)) (left_over regs)"
  have c: "concat (pairsFromRegs regs) = concat pairs @ ?t"
    by (simp add: pairsFromRegs_eq lp two_by_two_props)
  have sub: "set ?t \<subseteq> set (left_over regs)" by (rule set_take_subset)
  show d: "distinct (concat (pairsFromRegs regs))"
    unfolding c using ok lo sub by (auto intro: distinct_take)
  show s: "set (concat (pairsFromRegs regs)) \<subseteq> set (map rg_player regs)"
    unfolding c using ok lo sub by auto
  show p: "\<forall>x\<in>set (pairsFromRegs regs). length x = 2"
    using ok(4) two_by_two_props(2) [of "left_over regs"] by (auto simp: pairsFromRegs_eq lp)
  let ?in = "set (concat (pairsFromRegs regs))"
  have two: "length (concat xs) = 2 * length xs" if "\<forall>x\<in>set xs. length x = 2" for xs :: "pid list list"
    using that by (induction xs) auto
  have card_in: "card ?in = 2 * length (pairsFromRegs regs)" using distinct_card [OF d] two [OF p] by simp
  have "length (filter (\<lambda>p. p \<notin> ?in) (map rg_player regs)) = card (set (map rg_player regs) - ?in)"
    using distinct_card [OF distinct_filter [OF assms(1)], of "\<lambda>p. p \<notin> ?in"] by (simp add: set_diff_eq)
  also have "\<dots> = length regs - card ?in"
    using card_Diff_subset [OF _ s] distinct_card [OF assms(1)] by simp
  also have "\<dots> = length regs mod 2"
  proof -
    have "length (concat pairs) = 2 * length pairs" by (rule two [OF ok(4)])
    moreover have "length (left_over regs) = length regs - card (set used)"
      using distinct_card [OF lo(2)] lo(1) card_Diff_subset [OF _ ok(3)] distinct_card [OF assms(1)] by simp
    moreover have "card (set used) = length (concat pairs)" using ok(1,2) distinct_card by metis
    moreover have "card (set used) \<le> length regs"
      using card_mono [OF _ ok(3)] distinct_card [OF assms(1)] by simp
    ultimately have L: "length (left_over regs) = length regs - 2 * length pairs" "2 * length pairs \<le> length regs" by simp_all
    have "card ?in = length (concat pairs @ ?t)" unfolding c [symmetric] by (rule distinct_card [OF d])
    then have "card ?in = 2 * length pairs + 2 * (length (left_over regs) div 2)"
      using two [OF ok(4)] by simp
    then show ?thesis using L by presburger
  qed
  finally show "length (filter (\<lambda>p. p \<notin> ?in) (map rg_player regs)) = length regs mod 2" .
qed

text \<open>
  Partners who name each other: at the end of the first pass every registration that a present
  partner was free for is in a pair with that partner.
\<close>

definition mutual :: "reg list \<Rightarrow> bool" where
  "mutual regs \<longleftrightarrow> (\<forall>r\<in>set regs. \<forall>q\<in>set regs. rg_partner r = rg_player q \<longrightarrow> rg_partner q = rg_player r)"

definition together :: "reg \<Rightarrow> pid list list \<Rightarrow> bool" where
  "together r pairs \<longleftrightarrow> [rg_player r, rg_partner r] \<in> set pairs \<or> [rg_partner r, rg_player r] \<in> set pairs"

lemma together_step:
  assumes m: "mutual regs" and d: "distinct (map rg_player regs)" and r: "r \<in> set regs" "rg_player r \<noteq> []"
    and st: "\<forall>q\<in>set regs. rg_player q \<in> set (fst st) \<longrightarrow> together q (snd st)"
    and P: "P = set (map rg_player regs)"
  shows "\<forall>q\<in>set regs. rg_player q \<in> set (fst (pair_step P r st)) \<longrightarrow> together q (snd (pair_step P r st))"
    and "rg_partner r \<noteq> [] \<Longrightarrow> rg_partner r \<in> P \<Longrightarrow> set (fst st) = set (concat (snd st)) \<Longrightarrow> pairs_ok P st \<Longrightarrow>
      rg_player r \<in> set (fst (pair_step P r st))"
proof -
  obtain used pairs where s: "st = (used, pairs)" by fastforce
  have same: "q = q'" if "q \<in> set regs" "q' \<in> set regs" "rg_player q = rg_player q'" for q q'
    using d that by (auto simp: distinct_map inj_on_def)
  show "\<forall>q\<in>set regs. rg_player q \<in> set (fst (pair_step P r st)) \<longrightarrow> together q (snd (pair_step P r st))"
  proof (intro ballI impI)
    fix q assume q: "q \<in> set regs" "rg_player q \<in> set (fst (pair_step P r st))"
    show "together q (snd (pair_step P r st))"
    proof (cases "rg_player q \<in> set used")
      case True
      then have "together q pairs" using st q(1) by (simp add: s)
      then show ?thesis by (auto simp: pair_step_def s together_def)
    next
      case False
      then have st': "pair_step P r st = (rg_player r # rg_partner r # used, pairs @ [[rg_player r, rg_partner r]])"
        and "rg_player q = rg_player r \<or> rg_player q = rg_partner r"
        using q(2) by (auto simp: pair_step_def s split: if_splits)
      then show ?thesis
      proof (elim disjE)
        assume "rg_player q = rg_player r"
        then have "q = r" using same q(1) r(1) by blast
        then show ?thesis by (simp add: st' together_def)
      next
        assume "rg_player q = rg_partner r"
        moreover from this have "rg_partner q = rg_player r" using m q(1) r(1) unfolding mutual_def by metis
        ultimately show ?thesis by (simp add: st' together_def)
      qed
    qed
  qed
  assume a: "rg_partner r \<noteq> []" "rg_partner r \<in> P" "set (fst st) = set (concat (snd st))" "pairs_ok P st"
  show "rg_player r \<in> set (fst (pair_step P r st))"
  proof (cases "rg_partner r \<in> set used")
    case False
    then show ?thesis using a by (simp add: pair_step_def s)
  next
    case True
    obtain q where q: "q \<in> set regs" "rg_player q = rg_partner r" using a(2) P by auto
    then have "rg_partner q = rg_player r" using m r(1) unfolding mutual_def by metis
    moreover have "together q pairs" using st q True by (simp add: s)
    ultimately have "rg_player r \<in> set (concat pairs)" unfolding together_def by force
    then have "rg_player r \<in> set used" using a(3) by (simp add: s)
    then show ?thesis by (simp add: pair_step_def s)
  qed
qed

lemma mutual_together:
  assumes m: "mutual regs" and d: "distinct (map rg_player regs)"
    and ne: "\<forall>r\<in>set regs. rg_player r \<noteq> [] \<and> rg_partner r \<noteq> rg_player r"
    and r: "r \<in> set regs" "rg_partner r \<noteq> []" "rg_partner r \<in> set (map rg_player regs)"
  shows "together r (pairsFromRegs regs)"
proof -
  let ?P = "set (map rg_player regs)"
  define inv where "inv st \<longleftrightarrow> pairs_ok ?P st \<and> (\<forall>q\<in>set regs. rg_player q \<in> set (fst st) \<longrightarrow> together q (snd st))" for st
  have step: "inv (pair_step ?P q st) \<and> (rg_partner q \<noteq> [] \<and> rg_partner q \<in> ?P \<longrightarrow> rg_player q \<in> set (fst (pair_step ?P q st)))
      \<and> set (fst st) \<subseteq> set (fst (pair_step ?P q st))" if "inv st" "q \<in> set regs" for q st
  proof -
    have ok: "pairs_ok ?P st" "set (fst st) = set (concat (snd st))"
      using that(1) by (auto simp: inv_def pairs_ok_def split: prod.splits)
    have st: "\<forall>q\<in>set regs. rg_player q \<in> set (fst st) \<longrightarrow> together q (snd st)" using that(1) inv_def by blast
    have q: "rg_player q \<noteq> []" "rg_partner q \<noteq> rg_player q" "rg_player q \<in> ?P" using ne that(2) by auto
    note T = together_step [OF m d that(2) q(1) st HOL.refl]
    show ?thesis
      using T ok pair_step_ok [OF ok(1) q(3,2)] unfolding inv_def
      by (auto simp: pair_step_def split: prod.splits)
  qed
  have run: "inv (fold (pair_step ?P) rs st) \<and> set (fst st) \<subseteq> set (fst (fold (pair_step ?P) rs st))
      \<and> (\<forall>q\<in>set rs. rg_partner q \<noteq> [] \<and> rg_partner q \<in> ?P \<longrightarrow> rg_player q \<in> set (fst (fold (pair_step ?P) rs st)))"
    if "inv st" "set rs \<subseteq> set regs" for rs st
    using that
  proof (induction rs arbitrary: st)
    case Nil
    then show ?case by simp
  next
    case (Cons q rs)
    have q: "q \<in> set regs" using Cons.prems(2) by simp
    note S = step [OF Cons.prems(1) q]
    have "inv (pair_step ?P q st)" "set rs \<subseteq> set regs" using S Cons.prems(2) by auto
    note IH = Cons.IH [OF this]
    show ?case using S IH by (simp only: fold_simps list.set ball_simps) blast
  qed
  have "inv ([], [])" by (simp add: inv_def pairs_ok_def)
  from run [OF this order.refl] r have "rg_player r \<in> set (fst (linked_pairs regs))" "inv (linked_pairs regs)"
    unfolding linked_pairs_def by blast+
  then have "together r (snd (linked_pairs regs))" using r(1) unfolding inv_def by blast
  then show ?thesis by (auto simp: together_def pairsFromRegs_eq)
qed

text \<open>
  C6: Pairing a division: nobody is in two teams, every team is two registered players, exactly
  the odd player out is dropped (and reported), and where partners name each other, every player
  whose partner is registered plays with that partner.
\<close>

theorem pairs_from_registrations:
  assumes "distinct (map rg_player regs)"
    and "\<forall>r\<in>set regs. rg_player r \<noteq> [] \<and> rg_partner r \<noteq> rg_player r"
    and "es_doubles ev" "es_fixed ev"
  shows "distinct (concat (pairsFromRegs regs)) \<and> (\<forall>x\<in>set (pairsFromRegs regs). length x = 2)
    \<and> mset (concat (pairsFromRegs regs)) + mset (droppedDoublesPlayers ev regs) = mset (map rg_player regs)
    \<and> length (droppedDoublesPlayers ev regs) = length regs mod 2
    \<and> (mutual regs \<longrightarrow> (\<forall>r\<in>set regs. rg_partner r \<in> set (map rg_player regs) \<longrightarrow> together r (pairsFromRegs regs)))"
proof -
  have "\<forall>r\<in>set regs. rg_partner r \<noteq> rg_player r" using assms(2) by blast
  note P = pairsFromRegs_ok [OF assms(1) this]
  let ?in = "concat (pairsFromRegs regs)" and ?ps = "map rg_player regs"
  have drop: "droppedDoublesPlayers ev regs = filter (\<lambda>p. p \<notin> set ?in) ?ps"
    using assms(3,4) by (simp add: droppedDoublesPlayers_def Let_def)
  have "mset ?in = mset (filter (\<lambda>p. p \<in> set ?in) ?ps)"
    using P(1,2) assms(1) by (intro set_eq_iff_mset_eq_distinct [THEN iffD1]) auto
  then have "mset ?in + mset (droppedDoublesPlayers ev regs) = mset ?ps"
    unfolding drop mset_filter by (simp add: multiset_partition [symmetric])
  moreover have "rg_partner r \<noteq> []" if "r \<in> set regs" "rg_partner r \<in> set ?ps" for r using that assms(2) by auto
  then have "mutual regs \<longrightarrow> (\<forall>r\<in>set regs. rg_partner r \<in> set ?ps \<longrightarrow> together r (pairsFromRegs regs))"
    using mutual_together [OF _ assms(1,2)] by blast
  ultimately show ?thesis using P(1,3,4) unfolding drop by blast
qed

definition demo_setup :: event_setup where
  "demo_setup = \<lparr>es_id = ''e'', es_singles = False, es_doubles = True, es_fixed = True, es_tournament = ''pools_playoff'',
    es_courts = 2, es_minPoolRounds = 0, es_maxPoolRounds = 0, es_roundsPerSession = 0, es_perpetual = False,
    es_consolation = False, es_playoffSize = 0\<rparr>"

definition demo_regs :: "reg list" where
  "demo_regs = map (\<lambda>(i, p, q). \<lparr>rg_id = i, rg_player = p, rg_partner = q\<rparr>)
    [(''1'', ''a'', ''c''), (''2'', ''b'', []), (''3'', ''c'', ''a''), (''4'', ''d'', []), (''5'', ''e'', [])]"

theorem pairs_from_registrations_witness:
  "pairsFromRegs demo_regs = [[''a'', ''c''], [''b'', ''d'']] \<and> length (droppedDoublesPlayers demo_setup demo_regs) = 1
    \<and> together (demo_regs ! 2) (pairsFromRegs demo_regs)"
proof -
  have "distinct (map rg_player demo_regs)" "\<forall>r\<in>set demo_regs. rg_player r \<noteq> [] \<and> rg_partner r \<noteq> rg_player r"
    "es_doubles demo_setup" "es_fixed demo_setup" by (simp_all add: demo_regs_def demo_setup_def)
  note P = pairs_from_registrations [OF this]
  have "mutual demo_regs" by (simp add: mutual_def demo_regs_def)
  moreover have "demo_regs ! 2 \<in> set demo_regs" "rg_partner (demo_regs ! 2) \<in> set (map rg_player demo_regs)"
    by (simp_all add: demo_regs_def)
  ultimately have "together (demo_regs ! 2) (pairsFromRegs demo_regs)" using P by blast
  moreover have "length (droppedDoublesPlayers demo_setup demo_regs) = length demo_regs mod 2" using P by blast
  moreover have "pairsFromRegs demo_regs = [[''a'', ''c''], [''b'', ''d'']]" by code_simp
  ultimately show ?thesis by (simp add: demo_regs_def)
qed

section \<open>Snake pools\<close>

text \<open>The seed (from 0) that lap \<open>k\<close> gives pool \<open>p\<close>.\<close>

definition snake_seed :: "nat \<Rightarrow> nat \<Rightarrow> nat \<Rightarrow> nat" where
  "snake_seed P p k = k * P + (if odd k then P - 1 - p else p)"

lemma snake_iff:
  assumes "p < P"
  shows "snake P i = p \<longleftrightarrow> i = snake_seed P p (i div P)"
proof -
  define a r where "a = i div P * P" and "r = i mod P"
  have r: "r < P" and i: "i = a + r" using assms by (simp_all add: a_def r_def)
  have "snake P i = (if odd (i div P) then P - 1 - r else r)"
    by (simp add: snake_def r_def Let_def odd_iff_mod_2_eq_one)
  moreover have "snake_seed P p (i div P) = a + (if odd (i div P) then P - 1 - p else p)"
    by (simp add: snake_seed_def a_def)
  ultimately show ?thesis using i r assms by auto
qed

lemma snake_seed_bounds:
  assumes "p < P"
  shows "k * P \<le> snake_seed P p k" "snake_seed P p k < Suc k * P" "snake_seed P p k div P = k"
proof -
  show 1: "k * P \<le> snake_seed P p k" by (simp add: snake_seed_def)
  show 2: "snake_seed P p k < Suc k * P" using assms by (auto simp: snake_seed_def)
  show "snake_seed P p k div P = k"
    using 1 2 by (metis add.commute div_nat_eqI mult.commute mult_Suc)
qed

text \<open>How many laps have dealt to pool \<open>p\<close> after \<open>m\<close> seeds.\<close>

definition dealt :: "nat \<Rightarrow> nat \<Rightarrow> nat \<Rightarrow> nat" where
  "dealt P p m = m div P + (if snake_seed P p (m div P) < m then 1 else 0)"

lemma snake_seed_less:
  assumes "p < P"
  shows "snake_seed P p k < m \<longleftrightarrow> k < dealt P p m"
proof -
  have m: "m div P * P \<le> m" "m < Suc (m div P) * P"
    using assms dividend_less_div_times [of P m] by auto
  note B = snake_seed_bounds [OF assms]
  consider "k < m div P" | "k = m div P" | "m div P < k" by linarith
  then show ?thesis
  proof cases
    case 1
    then have "Suc k * P \<le> m div P * P" by (intro mult_le_mono1) simp
    then have "snake_seed P p k < m" using B(2) [of k] m(1) by linarith
    then show ?thesis using 1 by (simp add: dealt_def)
  next
    case 2
    then show ?thesis by (simp add: dealt_def)
  next
    case 3
    then have "Suc (m div P) * P \<le> k * P" by (intro mult_le_mono1) simp
    then have "m \<le> snake_seed P p k" using B(1) [of k] m(2) by linarith
    moreover have "dealt P p m \<le> k" using 3 by (simp add: dealt_def)
    ultimately show ?thesis by linarith
  qed
qed

lemma snake_filter:
  assumes "p < P"
  shows "filter (\<lambda>i. snake P i = p) [0..<m] = map (snake_seed P p) [0..<dealt P p m]"
proof (rule sorted_distinct_set_unique)
  have mono: "snake_seed P p j < snake_seed P p k" if "j < k" for j k
    using snake_seed_bounds(1,2) [OF assms, of k] snake_seed_bounds(2) [OF assms, of j] mult_le_mono1 [of "Suc j" k P] that by simp
  show "sorted (filter (\<lambda>i. snake P i = p) [0..<m])" by (simp add: sorted_wrt_filter)
  show "distinct (filter (\<lambda>i. snake P i = p) [0..<m])" by simp
  have "sorted_wrt (<) (map (snake_seed P p) [0..<dealt P p m])"
    unfolding sorted_wrt_map by (rule sorted_wrt_mono_rel [of _ "(<)"]) (auto intro: mono)
  then show "sorted (map (snake_seed P p) [0..<dealt P p m])" "distinct (map (snake_seed P p) [0..<dealt P p m])"
    by (simp_all add: strict_sorted_iff)
  show "set (filter (\<lambda>i. snake P i = p) [0..<m]) = set (map (snake_seed P p) [0..<dealt P p m])"
  proof (intro set_eqI)
    fix i
    have "i \<in> set (filter (\<lambda>i. snake P i = p) [0..<m]) \<longleftrightarrow> i < m \<and> i = snake_seed P p (i div P)"
      by (simp add: snake_iff [OF assms])
    also have "\<dots> \<longleftrightarrow> (\<exists>k. i = snake_seed P p k \<and> snake_seed P p k < m)"
      using snake_seed_bounds(3) [OF assms] by metis
    also have "\<dots> \<longleftrightarrow> i \<in> set (map (snake_seed P p) [0..<dealt P p m])"
      unfolding snake_seed_less [OF assms] by auto
    finally show "i \<in> set (filter (\<lambda>i. snake P i = p) [0..<m]) \<longleftrightarrow> i \<in> set (map (snake_seed P p) [0..<dealt P p m])" .
  qed
qed

lemma deal_prefix:
  assumes "0 < P" "m \<le> length xs"
  shows "fold (deal P) (enumerate 0 (take m xs)) (replicate P [])
    = map (\<lambda>p. map (nth xs) (filter (\<lambda>i. snake P i = p) [0..<m])) [0..<P]"
  using assms(2)
proof (induction m)
  case 0
  then show ?case by (simp add: map_replicate_const)
next
  case (Suc m)
  let ?prev = "map (\<lambda>p. map (nth xs) (filter (\<lambda>i. snake P i = p) [0..<m])) [0..<P]"
  have lt: "snake P m < P" using assms(1) by (auto simp: snake_def Let_def)
  have "enumerate 0 (take (Suc m) xs) = enumerate 0 (take m xs) @ [(m, xs ! m)]"
    using Suc.prems by (simp add: take_Suc_conv_app_nth enumerate_append_eq)
  then have "fold (deal P) (enumerate 0 (take (Suc m) xs)) (replicate P []) = deal P (m, xs ! m) ?prev"
    using Suc by simp
  also have "\<dots> = map (\<lambda>p. map (nth xs) (filter (\<lambda>i. snake P i = p) [0..<Suc m])) [0..<P]"
    using lt by (intro nth_equalityI) (auto simp: deal_def nth_list_update)
  finally show ?case .
qed

lemma splitPools_eq:
  fixes units skill
  defines "n \<equiv> length units" and "xs \<equiv> sort_by (\<lambda>a b. side_rate skill a > side_rate skill b) units"
  defines "P \<equiv> (n + 4) div 5"
  assumes "8 \<le> n"
  shows "splitPools units skill = map (\<lambda>p. map (\<lambda>k. xs ! snake_seed P p k) [0..<dealt P p n]) [0..<P]"
proof -
  have P: "0 < P" using assms(4) by (simp add: P_def)
  have "splitPools units skill = fold (deal P) (enumerate 0 xs) (replicate P [])"
    using assms(4) by (simp add: splitPools_def Let_def n_def xs_def P_def)
  also have "\<dots> = map (\<lambda>p. map (nth xs) (filter (\<lambda>i. snake P i = p) [0..<n])) [0..<P]"
    using deal_prefix [OF P, of n xs] by (simp add: n_def xs_def)
  also have "\<dots> = map (\<lambda>p. map (\<lambda>k. xs ! snake_seed P p k) [0..<dealt P p n]) [0..<P]"
    by (rule map_cong [OF HOL.refl]) (simp add: snake_filter comp_def)
  finally show ?thesis .
qed

lemma mset_concat_append_at:
  "i < length pools \<Longrightarrow> mset (concat (pools[i := pools ! i @ [u]])) = add_mset u (mset (concat pools))"
  by (induction pools arbitrary: i) (auto split: nat.split)

lemma mset_deal:
  "snake P (fst iu) < length pools \<Longrightarrow> mset (concat (deal P iu pools)) = add_mset (snd iu) (mset (concat pools))"
  by (cases iu) (simp only: deal_def prod.case fst_conv snd_conv mset_concat_append_at)

lemma mset_deal_all:
  assumes "0 < P"
  shows "length pools = P \<Longrightarrow> mset (concat (fold (deal P) ius pools)) = mset (concat pools) + mset (map snd ius)"
proof (induction ius arbitrary: pools)
  case Nil
  then show ?case by simp
next
  case (Cons iu ius)
  have "snake P (fst iu) < P" using assms by (auto simp: snake_def Let_def)
  then have "mset (concat (deal P iu pools)) = add_mset (snd iu) (mset (concat pools))"
    using Cons.prems by (intro mset_deal) simp
  moreover have "length (deal P iu pools) = P" using Cons.prems by (simp add: deal_def split: prod.split)
  ultimately show ?case using Cons.IH [of "deal P iu pools"] by simp
qed

text \<open>
  C11: The pools of a division of eight or more are fair: each entrant is in exactly one of the
  \<open>ceil(n / 5)\<close> pools, every pool has three to five entrants and no two sizes differ by more than one,
  and the pools are the snake of the rating order, lap by lap forwards and backwards.
\<close>

theorem pools_are_a_snake:
  assumes "8 \<le> length units"
  shows "mset (concat (splitPools units skill)) = mset units
    \<and> length (splitPools units skill) = (length units + 4) div 5
    \<and> (\<forall>pool \<in> set (splitPools units skill). 3 \<le> length pool \<and> length pool \<le> 5)
    \<and> (\<forall>p < length (splitPools units skill). \<forall>q < length (splitPools units skill).
          length (splitPools units skill ! p) \<le> length (splitPools units skill ! q) + 1)
    \<and> (\<forall>p < length (splitPools units skill). \<forall>k < length (splitPools units skill ! p).
          splitPools units skill ! p ! k
            = sort_by (\<lambda>a b. side_rate skill a > side_rate skill b) units ! snake_seed (length (splitPools units skill)) p k)"
proof -
  let ?n = "length units" and ?xs = "sort_by (\<lambda>a b. side_rate skill a > side_rate skill b) units"
  let ?P = "(length units + 4) div 5"
  note eq = splitPools_eq [OF assms, of skill]
  have P: "0 < ?P" using assms by simp
  have "mset (concat (splitPools units skill)) = mset units"
  proof -
    have "splitPools units skill = fold (deal ?P) (enumerate 0 ?xs) (replicate ?P [])"
      using assms by (simp add: splitPools_def Let_def)
    then show ?thesis using mset_deal_all [OF P, of "replicate ?P []" "enumerate 0 ?xs"] by simp
  qed
  moreover have size: "length (splitPools units skill ! p) = dealt ?P p ?n" if "p < ?P" for p
    unfolding eq using that by simp
  moreover have "3 \<le> dealt ?P p ?n \<and> dealt ?P p ?n \<le> 5" if "p < ?P" for p
  proof -
    have "3 * ?P \<le> ?n" "?n \<le> 5 * ?P" using assms by linarith+
    then have d: "3 \<le> ?n div ?P" "?n div ?P \<le> 5" using P by (auto simp: less_eq_div_iff_mult_less_eq div_le_mono2 intro: div_le_mono [THEN order_trans, of _ "5 * ?P"])
    moreover have "\<not> snake_seed ?P p 5 < ?n" using snake_seed_bounds(1) [OF that, of 5] \<open>?n \<le> 5 * ?P\<close> by simp
    ultimately show ?thesis using snake_seed_less [OF that, of 5 ?n] by (auto simp: dealt_def)
  qed
  moreover have "dealt ?P p ?n \<le> dealt ?P q ?n + 1" for p q by (simp add: dealt_def)
  moreover have "splitPools units skill ! p ! k = ?xs ! snake_seed ?P p k" if "p < ?P" "k < dealt ?P p ?n" for p k
    unfolding eq using that by simp
  moreover have len: "length (splitPools units skill) = ?P" unfolding eq by simp
  ultimately show ?thesis by (simp add: all_set_conv_all_nth)
qed

theorem pools_are_a_snake_witness:
  "length (splitPools (map (\<lambda>c. [[c]]) ''abcdefgh'') (\<lambda>_. 3)) = 2"
proof -
  have "8 \<le> length (map (\<lambda>c. [[c]]) ''abcdefgh'')" by simp
  from pools_are_a_snake [OF this, of "\<lambda>_. 3"] show ?thesis by simp
qed

section \<open>Cross-pool seeding\<close>

lemma first_seen_props: "distinct (first_seen xs)" "set (first_seen xs) = set xs"
proof -
  have "distinct (fold (\<lambda>x acc. if x \<in> set acc then acc else acc @ [x]) xs acc)
    \<and> set (fold (\<lambda>x acc. if x \<in> set acc then acc else acc @ [x]) xs acc) = set acc \<union> set xs"
    if "distinct acc" for acc
    using that by (induction xs arbitrary: acc) auto
  from this [of "[]"] show "distinct (first_seen xs)" "set (first_seen xs) = set xs" by (simp_all add: first_seen_def)
qed

lemma mset_heads_tails: "mset (map hd (filter (\<lambda>l. l \<noteq> []) ls)) + mset (concat (map tl ls)) = mset (concat ls)"
proof (induction ls)
  case Nil
  then show ?case by simp
next
  case (Cons l ls)
  then show ?case by (cases l) simp_all
qed

lemma mset_interleave: "mset (interleave ls) = mset (concat ls)"
proof (induction ls rule: interleave.induct)
  case (1 ls)
  show ?case
  proof (cases "list_all (\<lambda>l. l = []) ls")
    case True
    then have "concat ls = []" by (simp add: list_all_iff)
    then show ?thesis using True by (simp only: interleave.simps [of ls] if_True)
  next
    case False
    then have "mset (interleave ls) = mset (map hd (filter (\<lambda>l. l \<noteq> []) ls)) + mset (concat (map tl ls))"
      using 1 [OF False] by (simp only: interleave.simps [of ls] if_False mset_append)
    then show ?thesis unfolding mset_heads_tails .
  qed
qed

text \<open>With \<open>t\<close> counting up along every list, the interleave goes up in \<open>t\<close>.\<close>

lemma interleave_tiers:
  fixes t :: "'a \<Rightarrow> nat"
  assumes "\<And>l i. l \<in> set ls \<Longrightarrow> i < length l \<Longrightarrow> t (l ! i) = c + i"
  shows "sorted_wrt (\<lambda>u v. t u \<le> t v) (interleave ls)" "\<forall>u\<in>set (interleave ls). c \<le> t u"
proof -
  have "sorted_wrt (\<lambda>u v. t u \<le> t v) (interleave ls) \<and> (\<forall>u\<in>set (interleave ls). c \<le> t u)"
    using assms
  proof (induction ls arbitrary: c rule: interleave.induct)
    case (1 ls)
    show ?case
    proof (cases "list_all (\<lambda>l. l = []) ls")
      case True
      then show ?thesis by (simp add: interleave.simps [of ls])
    next
      case False
      let ?heads = "map hd (filter (\<lambda>l. l \<noteq> []) ls)"
      have "t (l ! i) = Suc c + i" if l: "l \<in> set (map tl ls)" "i < length l" for l i
      proof -
        obtain l' where "l' \<in> set ls" "l = tl l'" using l(1) by auto
        then show ?thesis using l(2) 1(2) [of l' "Suc i"] by (simp add: nth_tl)
      qed
      from 1(1) [OF False this] have IH: "sorted_wrt (\<lambda>u v. t u \<le> t v) (interleave (map tl ls))"
        "\<forall>u\<in>set (interleave (map tl ls)). Suc c \<le> t u" by blast+
      have h: "\<forall>u\<in>set ?heads. t u = c"
      proof
        fix u assume "u \<in> set ?heads"
        then obtain l where "l \<in> set ls" "l \<noteq> []" "u = hd l" by auto
        then show "t u = c" using 1(2) [of l 0] by (simp add: hd_conv_nth)
      qed
      have "sorted_wrt (\<lambda>u v. t u \<le> t v) us" if "\<forall>u\<in>set us. t u = c" for us
        using that by (induction us) auto
      from this [OF h] have "sorted_wrt (\<lambda>u v. t u \<le> t v) ?heads" .
      moreover have "interleave ls = ?heads @ interleave (map tl ls)"
        using False by (simp only: interleave.simps [of ls] if_False)
      ultimately show ?thesis using IH h by (fastforce simp: sorted_wrt_append)
    qed
  qed
  then show "sorted_wrt (\<lambda>u v. t u \<le> t v) (interleave ls)" "\<forall>u\<in>set (interleave ls). c \<le> t u" by blast+
qed

lemma mset_by_class:
  "distinct gs \<Longrightarrow> mset (concat (map (\<lambda>g. filter (\<lambda>u. f u = g) xs) gs)) = mset (filter (\<lambda>u. f u \<in> set gs) xs)"
proof (induction gs)
  case Nil
  then show ?case by simp
next
  case (Cons g gs)
  have "mset (filter (\<lambda>u. f u = g) xs) + mset (filter (\<lambda>u. f u \<in> set gs) xs) = mset (filter (\<lambda>u. f u \<in> set (g # gs)) xs)"
    using Cons.prems by (induction xs) auto
  then show ?case using Cons by simp
qed

text \<open>A side's tier: how many sides of its pool stand before it; untagged sides come last.\<close>

definition seed_tier :: "(pid list \<Rightarrow> string) \<Rightarrow> pid list list \<Rightarrow> pid list \<Rightarrow> nat" where
  "seed_tier pool sides u = (if pool u = [] then length sides
    else length (takeWhile (\<lambda>v. v \<noteq> u) (filter (\<lambda>v. pool v = pool u) sides)))"

lemma takeWhile_index: "distinct xs \<Longrightarrow> i < length xs \<Longrightarrow> length (takeWhile (\<lambda>v. v \<noteq> xs ! i) xs) = i"
proof (induction xs arbitrary: i)
  case Nil
  then show ?case by simp
next
  case (Cons x xs)
  then show ?case by (cases i) auto
qed

lemma tier_order_props:
  assumes "distinct sides"
  shows "mset (tier_order pool sides) = mset sides"
    and "sorted_wrt (\<lambda>u v. seed_tier pool sides u \<le> seed_tier pool sides v) (tier_order pool sides)"
proof -
  let ?tagged = "filter (\<lambda>u. pool u \<noteq> []) sides"
  let ?gs = "first_seen (map pool ?tagged)"
  let ?ls = "map (\<lambda>g. filter (\<lambda>u. pool u = g) ?tagged) ?gs"
  let ?t = "seed_tier pool sides"
  let ?none = "filter (\<lambda>u. pool u = []) sides"
  have ord: "tier_order pool sides = interleave ?ls @ ?none" by (simp add: tier_order_def Let_def)
  have "mset (concat ?ls) = mset (filter (\<lambda>u. pool u \<in> set ?gs) ?tagged)"
    by (rule mset_by_class [OF first_seen_props(1)])
  also have "filter (\<lambda>u. pool u \<in> set ?gs) ?tagged = ?tagged"
    unfolding first_seen_props(2) by (rule filter_True) simp
  finally have cls: "mset (concat ?ls) = mset ?tagged" .
  show ms: "mset (tier_order pool sides) = mset sides"
    unfolding ord mset_append mset_interleave cls mset_filter
    using multiset_partition [of "mset sides" "\<lambda>u. pool u \<noteq> []"] by simp
  have idx: "?t (l ! i) = 0 + i" if "l \<in> set ?ls" "i < length l" for l i
  proof -
    from that(1) obtain g where g: "g \<in> set ?gs" "l = filter (\<lambda>u. pool u = g) ?tagged"
      unfolding set_map by (rule imageE)
    then have "g \<noteq> []" by (auto simp: first_seen_props)
    then have l: "l = filter (\<lambda>v. pool v = g) sides" using g(2) by (auto intro: filter_cong)
    have "pool (l ! i) = g" using nth_mem [OF that(2)] l by simp
    moreover have "distinct l" using l assms by simp
    ultimately show ?thesis using takeWhile_index [of l i] that(2) \<open>g \<noteq> []\<close> l by (simp add: seed_tier_def)
  qed
  note T = interleave_tiers [of ?ls ?t 0, OF idx]
  have "?t u \<le> length sides" for u
    by (simp add: seed_tier_def order_trans [OF length_takeWhile_le length_filter_le])
  moreover have "?t u = length sides" if "u \<in> set ?none" for u using that by (simp add: seed_tier_def)
  moreover have "sorted_wrt (\<lambda>u v. ?t u \<le> ?t v) us" if "\<forall>u\<in>set us. ?t u = length sides" for us
    using that by (induction us) auto
  ultimately show "sorted_wrt (\<lambda>u v. ?t u \<le> ?t v) (tier_order pool sides)"
    unfolding ord sorted_wrt_append using T(1) by simp
qed

text \<open>
  C5: Cross-pool seeding: with two pools or more every side is seeded exactly once, by finishing tier
  (all pool winners, then all runners-up, and so on, players without a pool last) up to one swap of
  the third and fourth seeds, and the semifinals 1-4 and 2-3 pair two sides of one pool only where the
  swap could not avoid it either.
\<close>

theorem cross_pool_seeding:
  fixes tags sides
  defines "pool \<equiv> sidePool tags" and "out \<equiv> crossPoolOrder tags sides"
  assumes "distinct sides" "tags \<noteq> []" "2 \<le> length (first_seen (map pool (filter (\<lambda>u. pool u \<noteq> []) sides)))"
  shows "mset out = mset sides
    \<and> (\<exists>ranked. mset ranked = mset sides \<and> sorted_wrt (\<lambda>u v. seed_tier pool sides u \<le> seed_tier pool sides v) ranked
        \<and> take 2 out = take 2 ranked \<and> mset (take 4 out) = mset (take 4 ranked) \<and> drop 4 out = drop 4 ranked)
    \<and> (4 \<le> length out \<and> same_pool_semi pool (out ! 0) (out ! 1) (out ! 2) (out ! 3)
        \<longrightarrow> same_pool_semi pool (out ! 0) (out ! 1) (out ! 3) (out ! 2))"
proof -
  let ?r = "tier_order pool sides"
  note T = tier_order_props [OF assms(3), of pool]
  have out: "out = avoid_semi pool ?r" using assms(4,5) by (simp add: out_def crossPoolOrder_def pool_def Let_def)
  have swap: "mset out = mset ?r \<and> take 2 out = take 2 ?r \<and> mset (take 4 out) = mset (take 4 ?r) \<and> drop 4 out = drop 4 ?r"
    unfolding out avoid_semi_def by (auto simp: numeral_eq_Suc split: list.splits)
  have "4 \<le> length out \<and> same_pool_semi pool (out ! 0) (out ! 1) (out ! 2) (out ! 3)
        \<longrightarrow> same_pool_semi pool (out ! 0) (out ! 1) (out ! 3) (out ! 2)"
    unfolding out avoid_semi_def by (auto simp: numeral_eq_Suc split: list.splits)
  then show ?thesis using T swap by (intro conjI exI [of _ ?r]) simp_all
qed

theorem cross_pool_seeding_witness:
  "crossPoolOrder [(''a'', ''pool_a''), (''b'', ''pool_a''), (''c'', ''pool_a''), (''x'', ''pool_b''), (''y'', ''pool_b'')]
     [[''a''], [''b''], [''x''], [''c''], [''y''], [''w'']] = [[''a''], [''x''], [''b''], [''y''], [''c''], [''w'']]
   \<and> mset (crossPoolOrder [(''a'', ''pool_a''), (''b'', ''pool_a''), (''c'', ''pool_a''), (''x'', ''pool_b''), (''y'', ''pool_b'')]
     [[''a''], [''b''], [''x''], [''c''], [''y''], [''w'']]) = mset [[''a''], [''b''], [''x''], [''c''], [''y''], [''w'']]"
proof
  let ?tags = "[(''a'', ''pool_a''), (''b'', ''pool_a''), (''c'', ''pool_a''), (''x'', ''pool_b''), (''y'', ''pool_b'')]"
  let ?sides = "[[''a''], [''b''], [''x''], [''c''], [''y''], [''w'']]"
  show "crossPoolOrder ?tags ?sides = [[''a''], [''x''], [''b''], [''y''], [''c''], [''w'']]" by code_simp
  have "2 \<le> length (first_seen (map (sidePool ?tags) (filter (\<lambda>u. sidePool ?tags u \<noteq> []) ?sides)))" by code_simp
  moreover have "distinct ?sides" by simp
  ultimately show "mset (crossPoolOrder ?tags ?sides) = mset ?sides"
    using cross_pool_seeding [of ?sides ?tags] by blast
qed

end
