(* ===== verification/Spread_Courts.thy ===== *)
theory Spread_Courts
  imports Arrange Draw_Correct
begin

text \<open>
  Putting a schedule on courts, \<open>internal/service/service.go\<close>: \<open>spreadCourts\<close> lays the pool matches out
  round by round, \<open>spreadBracketCourts\<close> searches a free court and slot for every elimination match. The
  event's courts are their numbers with their ids, by number. The search has no bound of its own, so it
  is a \<open>partial_function\<close>; that it always ends is proved. Court and slot are written in batches, by the
  update groups of \<open>Draw_Persist\<close>.
\<close>

section \<open>Writing courts and slots\<close>

definition set_court :: "string \<Rightarrow> mrow \<Rightarrow> mrow" where
  "set_court c m = m\<lparr>m_court := c\<rparr>"

definition set_order :: "int \<Rightarrow> mrow \<Rightarrow> mrow" where
  "set_order s m = m\<lparr>m_order := Some s\<rparr>"

text \<open>A placement is a match with its court number and slot.\<close>

type_synonym placement = "mrow \<times> int \<times> int"

definition court_id :: "(int \<times> string) list \<Rightarrow> int \<Rightarrow> string" where
  "court_id courts c = (case map_of courts c of None \<Rightarrow> [] | Some i \<Rightarrow> i)"

definition write_placements :: "(int \<times> string) list \<Rightarrow> placement list \<Rightarrow> db \<Rightarrow> db" where
  "write_placements courts out d =
    (let byCourt = fold feed_add (map (\<lambda>(m, c, s). (m_id m, court_id courts c)) out) [];
         bySlot = fold feed_add (map (\<lambda>(m, c, s). (m_id m, s)) out) []
     in flush_groups set_order bySlot (flush_groups set_court byCourt d))"

section \<open>Pool matches\<close>

definition round_number :: "db \<Rightarrow> mrow \<Rightarrow> int" where
  "round_number d m = (case List.find (\<lambda>r. r_id r = m_roundId m) (db_rounds d) of
    None \<Rightarrow> 0 | Some r \<Rightarrow> r_number r)"

definition pool_before :: "db \<Rightarrow> (string \<Rightarrow> string) \<Rightarrow> mrow \<Rightarrow> mrow \<Rightarrow> bool" where
  "pool_before d created a b =
    (if round_number d a \<noteq> round_number d b then round_number d a < round_number d b
     else if m_bracket a \<noteq> m_bracket b then m_bracket a < m_bracket b
     else created (m_id a) < created (m_id b))"

record pool_spread =
  ps_prev :: int
  ps_idx :: nat
  ps_base :: int
  ps_out :: "placement list"

definition pool_step :: "int list \<Rightarrow> (mrow \<Rightarrow> int) \<Rightarrow> mrow \<Rightarrow> pool_spread \<Rightarrow> pool_spread" where
  "pool_step nums rnd m st =
    (let nc = length nums;
         st1 = (if rnd m \<noteq> ps_prev st
           then st\<lparr>ps_base := (if ps_prev st \<noteq> -1 then ps_base st + int ((ps_idx st + nc - 1) div nc) else ps_base st),
                   ps_prev := rnd m, ps_idx := 0\<rparr>
           else st);
         i = ps_idx st1
     in st1\<lparr>ps_idx := i + 1, ps_out := ps_out st1 @ [(m, nums ! (i mod nc), ps_base st1 + int (i div nc))]\<rparr>)"

definition pool_spread_init :: pool_spread where
  "pool_spread_init = \<lparr>ps_prev = -1, ps_idx = 0, ps_base = 0, ps_out = []\<rparr>"

definition pool_list :: "string \<Rightarrow> (string \<Rightarrow> string) \<Rightarrow> db \<Rightarrow> mrow list" where
  "pool_list ev created d = sort_by (pool_before d created)
    (filter (\<lambda>m. m_event m = ev \<and> m_stage m = ''pool'' \<and> m_status m = Scheduled) (db_matches d))"

definition pool_placements :: "(int \<times> string) list \<Rightarrow> string \<Rightarrow> (string \<Rightarrow> string) \<Rightarrow> db \<Rightarrow> placement list" where
  "pool_placements courts ev created d =
    ps_out (fold (pool_step (sort (map fst courts)) (round_number d)) (pool_list ev created d) pool_spread_init)"

definition spreadCourts :: "(int \<times> string) list \<Rightarrow> string \<Rightarrow> (string \<Rightarrow> string) \<Rightarrow> db \<Rightarrow> db" where
  "spreadCourts courts ev created d =
    (if courts = [] then d else write_placements courts (pool_placements courts ev created d) d)"

section \<open>Elimination matches\<close>

definition bracket_before :: "mrow \<Rightarrow> mrow \<Rightarrow> bool" where
  "bracket_before a b =
    (if m_round a \<noteq> m_round b then m_round a < m_round b
     else if m_tier a \<noteq> m_tier b then m_tier a < m_tier b
     else if m_group a \<noteq> m_group b then m_group a < m_group b
     else m_slot a < m_slot b)"

text \<open>The earliest slot at or after the given one with a free court and no player of the match busy.\<close>

partial_function (option) find_slot ::
  "int list \<Rightarrow> pid list \<Rightarrow> (int \<times> int) list \<Rightarrow> (int \<times> pid) list \<Rightarrow> int \<Rightarrow> (int \<times> int) option" where
  "find_slot courts ps used busy slot =
    (if list_ex (\<lambda>p. (slot, p) \<in> set busy) ps then find_slot courts ps used busy (slot + 1)
     else (case List.find (\<lambda>c. (slot, c) \<notin> set used) courts of
       None \<Rightarrow> find_slot courts ps used busy (slot + 1)
     | Some c \<Rightarrow> Some (c, slot)))"

declare find_slot.simps [code]

record br_spread =
  bs_prev :: int
  bs_base :: int
  bs_max :: int
  bs_used :: "(int \<times> int) list"
  bs_busy :: "(int \<times> pid) list"
  bs_out :: "placement list"

definition match_pids :: "db \<Rightarrow> mrow \<Rightarrow> pid list" where
  "match_pids d m = map p_player (filter (\<lambda>p. p_match p = m_id m) (db_parts d))"

definition new_round :: "mrow \<Rightarrow> br_spread \<Rightarrow> br_spread" where
  "new_round m st = (if m_round m \<noteq> bs_prev st
    then st\<lparr>bs_base := (if bs_prev st \<noteq> -1 then bs_max st + 1 else bs_base st), bs_prev := m_round m\<rparr>
    else st)"

definition br_step :: "(mrow \<Rightarrow> int list) \<Rightarrow> (mrow \<Rightarrow> pid list) \<Rightarrow> mrow \<Rightarrow> br_spread \<Rightarrow> br_spread option" where
  "br_step courtsOf pids m st =
    (let st1 = new_round m st in
     case find_slot (courtsOf m) (pids m) (bs_used st1) (bs_busy st1) (bs_base st1) of
       None \<Rightarrow> None
     | Some (c, slot) \<Rightarrow> Some (st1\<lparr>
         bs_used := (slot, c) # bs_used st1,
         bs_busy := map (Pair slot) (pids m) @ bs_busy st1,
         bs_out := (m, c, slot) # bs_out st1,
         bs_max := (if slot > bs_max st1 then slot else bs_max st1)\<rparr>))"

fun br_steps :: "(mrow \<Rightarrow> int list) \<Rightarrow> (mrow \<Rightarrow> pid list) \<Rightarrow> mrow list \<Rightarrow> br_spread \<Rightarrow> br_spread option" where
  "br_steps courtsOf pids [] st = Some st"
| "br_steps courtsOf pids (m # ms) st =
    (case br_step courtsOf pids m st of None \<Rightarrow> None | Some st' \<Rightarrow> br_steps courtsOf pids ms st')"

text \<open>Slots are shared with pool play: start after its last slot (a match without one counts as slot 0).\<close>

definition first_slot :: "string \<Rightarrow> db \<Rightarrow> int" where
  "first_slot ev d = fold (\<lambda>m f. let po = (case m_order m of None \<Rightarrow> 0 | Some s \<Rightarrow> s) in if po \<ge> f then po + 1 else f)
    (filter (\<lambda>m. m_event m = ev \<and> m_stage m = ''pool'') (db_matches d)) 0"

definition bracket_list :: "string \<Rightarrow> db \<Rightarrow> mrow list" where
  "bracket_list ev d = sort_by bracket_before
    (filter (\<lambda>m. m_event m = ev \<and> m_stage m = ''bracket'' \<and> m_status m = Scheduled) (db_matches d))"

definition division_court_list :: "(division \<times> int list) list \<Rightarrow> int list \<Rightarrow> mrow \<Rightarrow> int list" where
  "division_court_list brackets nums m =
    (case divisionCourtMapFrom brackets (set nums) nums (m_bracket m) of
       None \<Rightarrow> nums | Some cs \<Rightarrow> if cs = [] then nums else cs)"

definition bracket_placements :: "(int \<times> string) list \<Rightarrow> (division \<times> int list) list \<Rightarrow> string \<Rightarrow> db \<Rightarrow> placement list option" where
  "bracket_placements courts brackets ev d =
    (let nums = sort (map fst courts); f = first_slot ev d
     in map_option (\<lambda>st. rev (bs_out st))
       (br_steps (division_court_list brackets nums) (match_pids d) (bracket_list ev d)
         \<lparr>bs_prev = -1, bs_base = f, bs_max = f - 1, bs_used = [], bs_busy = [], bs_out = []\<rparr>))"

definition spreadBracketCourts :: "(int \<times> string) list \<Rightarrow> (division \<times> int list) list \<Rightarrow> string \<Rightarrow> db \<Rightarrow> db option" where
  "spreadBracketCourts courts brackets ev d =
    (if courts = [] then Some d
     else map_option (\<lambda>out. write_placements courts out d) (bracket_placements courts brackets ev d))"

section \<open>The search ends and finds a free place\<close>

lemma find_slot_spec:
  assumes "courts \<noteq> []"
  shows "\<exists>c s. find_slot courts ps used busy slot = Some (c, s) \<and> slot \<le> s \<and> c \<in> set courts
    \<and> (s, c) \<notin> set used \<and> (\<forall>p\<in>set ps. (s, p) \<notin> set busy)"
proof -
  define M where "M = Max (insert slot (fst ` set used \<union> fst ` set busy)) + 1"
  have M: "x < M" if "x \<in> fst ` set used \<union> fst ` set busy" for x
  proof -
    have "x \<le> Max (insert slot (fst ` set used \<union> fst ` set busy))" using that by (intro Max_ge) auto
    then show ?thesis by (simp add: M_def)
  qed
  show ?thesis
  proof (induction "nat (M - slot)" arbitrary: slot)
    case 0
    then have "M \<le> slot" by simp
    then have nu: "(slot, x) \<notin> set used" "(slot, y) \<notin> set busy" for x y using M [of slot] by force+
    obtain c cs where c: "courts = c # cs" using assms by (cases courts) auto
    have "find_slot courts ps used busy slot = Some (c, slot)"
      unfolding c find_slot.simps [of "c # cs" ps used busy slot] using nu by (simp add: list_ex_iff)
    then show ?case using nu c by auto
  next
    case (Suc k)
    then have "k = nat (M - (slot + 1))" by linarith
    from Suc(1) [OF this] obtain c s where IH: "find_slot courts ps used busy (slot + 1) = Some (c, s)" "slot + 1 \<le> s"
      "c \<in> set courts" "(s, c) \<notin> set used" "\<forall>p\<in>set ps. (s, p) \<notin> set busy" by blast
    show ?case
    proof (cases "list_ex (\<lambda>p. (slot, p) \<in> set busy) ps")
      case True
      then have "find_slot courts ps used busy slot = Some (c, s)"
        using IH(1) by (simp add: find_slot.simps [of courts ps used busy slot])
      then show ?thesis using IH by fastforce
    next
      case False
      show ?thesis
      proof (cases "List.find (\<lambda>c. (slot, c) \<notin> set used) courts")
        case None
        then have "find_slot courts ps used busy slot = Some (c, s)"
          using IH(1) False by (simp add: find_slot.simps [of courts ps used busy slot])
        then show ?thesis using IH by fastforce
      next
        case (Some c')
        then have "find_slot courts ps used busy slot = Some (c', slot)"
          using False by (simp add: find_slot.simps [of courts ps used busy slot])
        moreover have "c' \<in> set courts" "(slot, c') \<notin> set used"
          using Some unfolding find_Some_iff by (metis nth_mem, metis)
        ultimately show ?thesis using False by (auto simp: list_ex_iff)
      qed
    qed
  qed
qed

section \<open>Elimination matches never clash\<close>

definition apart_from :: "(mrow \<Rightarrow> pid list) \<Rightarrow> placement \<Rightarrow> placement \<Rightarrow> bool" where
  "apart_from pids x y \<longleftrightarrow> (case (x, y) of ((m, c, s), (n, c', s')) \<Rightarrow>
    (s = s' \<longrightarrow> c \<noteq> c' \<and> set (pids m) \<inter> set (pids n) = {})
    \<and> (m_round m < m_round n \<longrightarrow> s < s') \<and> (m_round n < m_round m \<longrightarrow> s' < s))"

definition placed_ok :: "(mrow \<Rightarrow> int list) \<Rightarrow> (mrow \<Rightarrow> pid list) \<Rightarrow> int \<Rightarrow> br_spread \<Rightarrow> placement \<Rightarrow> bool" where
  "placed_ok courtsOf pids f st x \<longleftrightarrow> (case x of (m, c, s) \<Rightarrow>
    (s, c) \<in> set (bs_used st) \<and> (\<forall>p\<in>set (pids m). (s, p) \<in> set (bs_busy st)) \<and> c \<in> set (courtsOf m)
    \<and> f \<le> s \<and> s \<le> bs_max st \<and> m_round m \<le> bs_prev st
    \<and> (m_round m = bs_prev st \<longrightarrow> bs_base st \<le> s) \<and> (m_round m < bs_prev st \<longrightarrow> s < bs_base st))"

definition br_inv :: "(mrow \<Rightarrow> int list) \<Rightarrow> (mrow \<Rightarrow> pid list) \<Rightarrow> int \<Rightarrow> br_spread \<Rightarrow> bool" where
  "br_inv courtsOf pids f st \<longleftrightarrow> (\<forall>x\<in>set (bs_out st). placed_ok courtsOf pids f st x)
    \<and> sorted_wrt (apart_from pids) (bs_out st) \<and> f \<le> bs_base st \<and> f - 1 \<le> bs_max st
    \<and> (bs_prev st = -1 \<longrightarrow> bs_out st = [] \<and> bs_base st = f)"

lemma new_round_inv:
  assumes "br_inv courtsOf pids f st" "bs_prev st \<le> m_round m" "0 \<le> m_round m"
  shows "br_inv courtsOf pids f (new_round m st)" "bs_prev (new_round m st) = m_round m"
    "bs_out (new_round m st) = bs_out st"
proof -
  show "bs_prev (new_round m st) = m_round m" "bs_out (new_round m st) = bs_out st"
    by (simp_all add: new_round_def)
  show "br_inv courtsOf pids f (new_round m st)"
  proof (cases "m_round m = bs_prev st")
    case True
    then show ?thesis using assms(1) by (simp add: new_round_def)
  next
    case False
    then have lt: "bs_prev st < m_round m" using assms(2) by simp
    have "placed_ok courtsOf pids f (new_round m st) x" if x: "x \<in> set (bs_out st)" for x
    proof -
      have "bs_prev st \<noteq> -1" using assms(1) x by (auto simp: br_inv_def)
      moreover have "placed_ok courtsOf pids f st x" using assms(1) x by (simp add: br_inv_def)
      ultimately show ?thesis using lt False by (auto simp: placed_ok_def new_round_def split: prod.splits)
    qed
    then show ?thesis using assms False by (auto simp: br_inv_def new_round_def)
  qed
qed

lemma br_step_inv:
  assumes inv: "br_inv courtsOf pids f st" and m: "bs_prev st \<le> m_round m" "0 \<le> m_round m" "courtsOf m \<noteq> []"
  obtains st' c s where "br_step courtsOf pids m st = Some st'" "br_inv courtsOf pids f st'"
    "bs_prev st' = m_round m" "bs_out st' = (m, c, s) # bs_out st"
proof -
  let ?st = "new_round m st"
  note N = new_round_inv [OF inv m(1,2)]
  obtain c s where F: "find_slot (courtsOf m) (pids m) (bs_used ?st) (bs_busy ?st) (bs_base ?st) = Some (c, s)"
    "bs_base ?st \<le> s" "c \<in> set (courtsOf m)" "(s, c) \<notin> set (bs_used ?st)" "\<forall>p\<in>set (pids m). (s, p) \<notin> set (bs_busy ?st)"
    using find_slot_spec [OF m(3)] by blast
  let ?new = "?st\<lparr>bs_used := (s, c) # bs_used ?st, bs_busy := map (Pair s) (pids m) @ bs_busy ?st,
    bs_out := (m, c, s) # bs_out ?st, bs_max := (if s > bs_max ?st then s else bs_max ?st)\<rparr>"
  have run: "br_step courtsOf pids m st = Some ?new" by (simp add: br_step_def F(1) Let_def)
  have base: "f \<le> bs_base ?st" "f - 1 \<le> bs_max ?st" using N(1) by (auto simp: br_inv_def)
  have old: "placed_ok courtsOf pids f ?st x" if "x \<in> set (bs_out ?st)" for x using N(1) that by (simp add: br_inv_def)
  have "placed_ok courtsOf pids f ?new (m, c, s)"
    using F base N(2) by (auto simp: placed_ok_def)
  moreover have "placed_ok courtsOf pids f ?new x" if "x \<in> set (bs_out ?st)" for x
    using old [OF that] by (auto simp: placed_ok_def split: prod.splits)
  moreover have "apart_from pids (m, c, s) x" if x: "x \<in> set (bs_out ?st)" for x
  proof -
    obtain n c' s' where xe: "x = (n, c', s')" by (cases x)
    note O = old [OF x, unfolded xe placed_ok_def prod.case]
    show ?thesis
      using O F N(2) by (fastforce simp: apart_from_def xe)
  qed
  ultimately have "br_inv courtsOf pids f ?new"
    using N(1,2) m(2) unfolding br_inv_def by auto
  then show ?thesis using run N(2,3) by (intro that [of ?new c s]) simp_all
qed

lemma br_steps_inv:
  assumes "br_inv courtsOf pids f st" "sorted_wrt (\<lambda>a b. m_round a \<le> m_round b) ms" "\<forall>m\<in>set ms. bs_prev st \<le> m_round m"
    and "\<forall>m\<in>set ms. 0 \<le> m_round m \<and> courtsOf m \<noteq> []"
  shows "\<exists>st'. br_steps courtsOf pids ms st = Some st' \<and> br_inv courtsOf pids f st'
    \<and> map fst (bs_out st') = rev ms @ map fst (bs_out st)"
  using assms
proof (induction ms arbitrary: st)
  case Nil
  then show ?case by simp
next
  case (Cons m ms)
  obtain st1 c s where S: "br_step courtsOf pids m st = Some st1" "br_inv courtsOf pids f st1"
    "bs_prev st1 = m_round m" "bs_out st1 = (m, c, s) # bs_out st"
    using br_step_inv [OF Cons.prems(1), of m] Cons.prems(3,4) by auto
  have "\<forall>n\<in>set ms. bs_prev st1 \<le> m_round n" using Cons.prems(2) S(3) by simp
  from Cons.IH [OF S(2) _ this] Cons.prems(2,4) obtain st' where
    "br_steps courtsOf pids ms st1 = Some st'" "br_inv courtsOf pids f st'"
    "map fst (bs_out st') = rev ms @ map fst (bs_out st1)" by auto
  then show ?case using S(1,4) by simp
qed

interpretation bracket_order: strict_weak_less bracket_before
proof -
  have base: "strict_weak_less (\<lambda>a b. m_slot a < m_slot b)" by unfold_locales auto
  have eq: "bracket_before = (\<lambda>a b. if m_round a \<noteq> m_round b then m_round a < m_round b
     else if m_tier a \<noteq> m_tier b then m_tier a < m_tier b
     else if m_group a \<noteq> m_group b then m_group a < m_group b else m_slot a < m_slot b)"
    by (intro ext) (simp only: bracket_before_def)
  show "strict_weak_less bracket_before" unfolding eq by (intro lex_asc base)
qed

lemma bracket_list_rounds: "sorted_wrt (\<lambda>a b. m_round a \<le> m_round b) (bracket_list ev d)"
proof -
  have "m_round a \<le> m_round b" if "\<not> bracket_before b a" for a b
    using that by (auto simp: bracket_before_def split: if_splits)
  then show ?thesis
    unfolding bracket_list_def by (intro sorted_wrt_mono_rel [OF _ bracket_order.sorted_sort_by]) blast
qed

lemma first_slot_bound:
  assumes "m \<in> set (db_matches d)" "m_event m = ev" "m_stage m = ''pool''"
  shows "(case m_order m of None \<Rightarrow> 0 | Some s \<Rightarrow> s) < first_slot ev d"
proof -
  let ?po = "\<lambda>m. case m_order m of None \<Rightarrow> 0 | Some s \<Rightarrow> s"
  let ?step = "\<lambda>m f. let po = ?po m in if po \<ge> f then po + 1 else f"
  have "f \<le> fold ?step ms f \<and> (\<forall>m\<in>set ms. ?po m < fold ?step ms f)" for ms f
  proof (induction ms arbitrary: f)
    case Nil
    then show ?case by simp
  next
    case (Cons x ms)
    have "f \<le> ?step x f" "?po x < ?step x f" by (auto simp: Let_def)
    with Cons [of "?step x f"] show ?case by fastforce
  qed
  from this [of 0 "filter (\<lambda>x. m_event x = ev \<and> m_stage x = ''pool'') (db_matches d)"]
  have "\<forall>x\<in>set (filter (\<lambda>x. m_event x = ev \<and> m_stage x = ''pool'') (db_matches d)). ?po x < first_slot ev d"
    unfolding first_slot_def by blast
  moreover have "m \<in> set (filter (\<lambda>x. m_event x = ev \<and> m_stage x = ''pool'') (db_matches d))"
    using assms by simp
  ultimately show ?thesis by blast
qed

lemma division_courts_known: "set (division_court_list brackets nums m) \<subseteq> set nums" "nums \<noteq> [] \<Longrightarrow> division_court_list brackets nums m \<noteq> []"
proof -
  have vc: "set (valid_courts known seen cs) \<subseteq> known" for known seen cs
    by (induction known seen cs rule: valid_courts.induct) auto
  have dc: "set (division_courts (set nums) nums cs) \<subseteq> set nums" for cs
    using vc by (auto simp: division_courts_def Let_def)
  have "x \<in> ran (foldl (\<lambda>out b. out(fst b \<mapsto> division_courts (set nums) nums (snd b))) M bs) \<Longrightarrow>
      x \<in> ran M \<or> set x \<subseteq> set nums" for x M bs
  proof (induction bs arbitrary: M)
    case Nil
    then show ?case by simp
  next
    case (Cons b bs)
    let ?M = "M(fst b \<mapsto> division_courts (set nums) nums (snd b))"
    have "x \<in> ran ?M \<Longrightarrow> x \<in> ran M \<or> set x \<subseteq> set nums"
      using dc by (auto simp: ran_def split: if_splits)
    moreover have "x \<in> ran ?M \<or> set x \<subseteq> set nums"
      by (rule Cons.IH) (use Cons.prems in \<open>simp only: foldl.simps\<close>)
    ultimately show ?case by blast
  qed
  from this [of _ Map.empty brackets] show "set (division_court_list brackets nums m) \<subseteq> set nums"
    by (auto simp: division_court_list_def divisionCourtMapFrom_def ran_def split: option.splits if_splits)
  show "nums \<noteq> [] \<Longrightarrow> division_court_list brackets nums m \<noteq> []"
    by (auto simp: division_court_list_def split: option.split)
qed

lemma write_placements_rows:
  assumes "distinct (map (\<lambda>x. m_id (fst x)) out)" "[] \<notin> (\<lambda>x. m_id (fst x)) ` set out"
  shows "write_placements courts out d = on_rows (\<lambda>m. case map_of (map (\<lambda>(n, c, s). (m_id n, c, s)) out) (m_id m) of
    None \<Rightarrow> m | Some (c, s) \<Rightarrow> m\<lparr>m_court := court_id courts c, m_order := Some s\<rparr>) d"
proof -
  let ?c = "map (\<lambda>(m, c, s). (m_id m, court_id courts c)) out" and ?s = "map (\<lambda>(m, c, s). (m_id m, s)) out"
  have ids: "map fst ?c = map (\<lambda>x. m_id (fst x)) out" "map fst ?s = map (\<lambda>x. m_id (fst x)) out" by auto
  have ne: "[] \<notin> fst ` set ?c" "[] \<notin> fst ` set ?s" using assms(2) by force+
  have st: "stable_update set_court" "stable_update set_order"
    by (simp_all add: stable_update_def set_court_def set_order_def)
  have look: "map_of ?c i = map_option (\<lambda>(c, s). court_id courts c) (map_of (map (\<lambda>(n, c, s). (m_id n, c, s)) out) i)"
    "map_of ?s i = map_option snd (map_of (map (\<lambda>(n, c, s). (m_id n, c, s)) out) i)" for i
    by (induction out) auto
  have "write_placements courts out d = flush_groups set_order (fold feed_add ?s []) (flush_groups set_court (fold feed_add ?c []) d)"
    by (simp only: write_placements_def Let_def)
  also have "\<dots> = on_rows ((\<lambda>m. case map_of ?s (m_id m) of None \<Rightarrow> m | Some p \<Rightarrow> set_order p m)
      \<circ> (\<lambda>m. case map_of ?c (m_id m) of None \<Rightarrow> m | Some p \<Rightarrow> set_court p m)) d"
    using flush_groups_one [OF st(1) _ ne(1)] flush_groups_one [OF st(2) _ ne(2)] assms(1)
    by (simp only: ids on_rows_comp)
  also have "(\<lambda>m. case map_of ?s (m_id m) of None \<Rightarrow> m | Some p \<Rightarrow> set_order p m)
      \<circ> (\<lambda>m. case map_of ?c (m_id m) of None \<Rightarrow> m | Some p \<Rightarrow> set_court p m)
    = (\<lambda>m. case map_of (map (\<lambda>(n, c, s). (m_id n, c, s)) out) (m_id m) of
        None \<Rightarrow> m | Some (c, s) \<Rightarrow> m\<lparr>m_court := court_id courts c, m_order := Some s\<rparr>)"
    by (auto simp: fun_eq_iff look set_court_def set_order_def split: option.split)
  finally show ?thesis .
qed

section \<open>The schedule a venue plays\<close>

definition slot_of :: "mrow \<Rightarrow> int" where
  "slot_of m = (case m_order m of None \<Rightarrow> 0 | Some s \<Rightarrow> s)"

definition awaits_court :: "string \<Rightarrow> string \<Rightarrow> mrow \<Rightarrow> bool" where
  "awaits_court stage ev m \<longleftrightarrow> m_event m = ev \<and> m_stage m = stage \<and> m_status m = Scheduled"

lemma write_placements_place:
  assumes ids: "distinct (map m_id (db_matches d))" "[] \<notin> m_id ` set (db_matches d)"
    and sub: "distinct (map fst out)" "set (map fst out) \<subseteq> set (db_matches d)"
  obtains place where "write_placements courts out d = on_rows place d"
    "\<And>m. m \<in> set (db_matches d) \<Longrightarrow> m \<notin> fst ` set out \<Longrightarrow> place m = m"
    "\<And>m c s. (m, c, s) \<in> set out \<Longrightarrow> place m = m\<lparr>m_court := court_id courts c, m_order := Some s\<rparr>"
proof -
  let ?L = "map (\<lambda>(n, c, s). (m_id n, c, s)) out"
  have inj: "inj_on m_id (set (db_matches d))" using ids(1) by (simp add: distinct_map)
  have fstL: "map fst ?L = map m_id (map fst out)" by (induction out) auto
  have dL: "distinct (map fst ?L)"
    unfolding fstL using sub inj_on_subset [OF inj sub(2)] by (simp only: distinct_map [of m_id] set_map simp_thms)
  have d1: "distinct (map (\<lambda>x. m_id (fst x)) out)" using dL unfolding fstL by (simp add: comp_def)
  have d2: "[] \<notin> (\<lambda>x. m_id (fst x)) ` set out" using ids(2) sub(2) by force
  show ?thesis
  proof (rule that [OF write_placements_rows [OF d1 d2]])
    fix m assume m: "m \<in> set (db_matches d)" "m \<notin> fst ` set out"
    have "map_of ?L (m_id m) = None"
    proof (rule ccontr)
      assume "map_of ?L (m_id m) \<noteq> None"
      then obtain y where "map_of ?L (m_id m) = Some y" by blast
      then obtain n c s where n: "(n, c, s) \<in> set out" "m_id n = m_id m" by (auto dest!: map_of_SomeD)
      then have "n \<in> set (db_matches d)" using sub(2) by force
      then have "n = m" using inj n(2) m(1) by (auto dest: inj_onD)
      then show False using n(1) m(2) by force
    qed
    then show "(case map_of ?L (m_id m) of None \<Rightarrow> m
      | Some (c, s) \<Rightarrow> m\<lparr>m_court := court_id courts c, m_order := Some s\<rparr>) = m" by simp
  next
    fix m c s assume "(m, c, s) \<in> set out"
    then have "(m_id m, c, s) \<in> set ?L" by force
    then have "map_of ?L (m_id m) = Some (c, s)" using dL by simp
    then show "(case map_of ?L (m_id m) of None \<Rightarrow> m
      | Some (c, s) \<Rightarrow> m\<lparr>m_court := court_id courts c, m_order := Some s\<rparr>) = m\<lparr>m_court := court_id courts c, m_order := Some s\<rparr>"
      by simp
  qed
qed

lemma court_id_known:
  assumes "distinct (map fst courts)" "c \<in> fst ` set courts"
  shows "(c, court_id courts c) \<in> set courts"
  using assms by (auto simp: court_id_def)

lemma court_id_inj:
  assumes "distinct (map fst courts)" "distinct (map snd courts)" "c \<in> fst ` set courts" "c' \<in> fst ` set courts"
    "court_id courts c = court_id courts c'"
  shows "c = c'"
proof -
  have "inj_on snd (set courts)" using assms(2) by (simp add: distinct_map)
  from inj_onD [OF this _ court_id_known [OF assms(1,3)] court_id_known [OF assms(1,4)]] assms(5) show ?thesis by simp
qed

lemma sorted_wrt_pairs:
  assumes "sorted_wrt P xs" "x \<in> set xs" "y \<in> set xs" "x \<noteq> y" "\<And>a b. P a b \<Longrightarrow> P b a"
  shows "P x y"
  using assms(1-4)
  by (induction xs) (auto intro: assms(5))

text \<open>C3: laying out the knockout (\<open>spreadBracketCourts\<close>) always ends and clashes with nothing: every elimination match
  waiting for its court gets a court of the event and a slot after all of pool play, two matches of one
  slot are on different courts and share no player, every match of an earlier round is played in an
  earlier slot, and no other match or participant is touched.\<close>
theorem elimination_games_never_clash:
  assumes courts: "courts \<noteq> []" "distinct (map fst courts)" "distinct (map snd courts)"
    and ids: "distinct (map m_id (db_matches d))" "[] \<notin> m_id ` set (db_matches d)"
    and rounds: "\<And>m. m \<in> set (db_matches d) \<Longrightarrow> 0 \<le> m_round m"
  shows "\<exists>place. spreadBracketCourts courts brackets ev d = Some (d\<lparr>db_matches := map place (db_matches d)\<rparr>)
    \<and> (\<forall>m\<in>set (db_matches d). if awaits_court ''bracket'' ev m
        then (\<exists>c s. place m = m\<lparr>m_court := c, m_order := Some s\<rparr> \<and> c \<in> snd ` set courts
          \<and> (\<forall>p\<in>set (db_matches d). m_event p = ev \<and> m_stage p = ''pool'' \<longrightarrow> slot_of p < s))
        else place m = m)
    \<and> (\<forall>m\<in>set (db_matches d). \<forall>n\<in>set (db_matches d).
        awaits_court ''bracket'' ev m \<and> awaits_court ''bracket'' ev n \<and> m \<noteq> n \<longrightarrow>
        (slot_of (place m) = slot_of (place n) \<longrightarrow>
           m_court (place m) \<noteq> m_court (place n) \<and> set (match_pids d m) \<inter> set (match_pids d n) = {})
        \<and> (m_round m < m_round n \<longrightarrow> slot_of (place m) < slot_of (place n)))"
proof -
  let ?nums = "sort (map fst courts)" and ?f = "first_slot ev d" and ?ms = "bracket_list ev d"
  let ?co = "division_court_list brackets ?nums" and ?pids = "match_pids d"
  let ?init = "\<lparr>bs_prev = -1, bs_base = ?f, bs_max = ?f - 1, bs_used = [], bs_busy = [], bs_out = []\<rparr>"
  have msin: "x \<in> set ?ms \<longleftrightarrow> x \<in> set (db_matches d) \<and> awaits_court ''bracket'' ev x" for x
    by (auto simp: bracket_list_def awaits_court_def)
  have nums: "?nums \<noteq> []" "set ?nums = fst ` set courts" using courts(1) by (simp_all flip: set_empty)
  have init: "br_inv ?co ?pids ?f ?init" by (simp add: br_inv_def)
  have pos: "0 \<le> m_round m" if "m \<in> set ?ms" for m using rounds msin that by blast
  then have "\<forall>m\<in>set ?ms. bs_prev ?init \<le> m_round m" "\<forall>m\<in>set ?ms. 0 \<le> m_round m \<and> ?co m \<noteq> []"
    using division_courts_known(2) [OF nums(1)] by force+
  from br_steps_inv [OF init bracket_list_rounds this] obtain st where st: "br_steps ?co ?pids ?ms ?init = Some st" "br_inv ?co ?pids ?f st"
    "map fst (bs_out st) = rev ?ms"
    by auto
  let ?out = "rev (bs_out st)"
  have fstout: "map fst ?out = ?ms" using st(3) by (simp flip: rev_map)
  have run: "spreadBracketCourts courts brackets ev d = Some (write_placements courts ?out d)"
    using courts(1) st(1) by (simp add: spreadBracketCourts_def bracket_placements_def Let_def)
  have dm: "distinct (db_matches d)" using ids(1) by (simp add: distinct_map)
  have "distinct (map fst ?out)" "set (map fst ?out) \<subseteq> set (db_matches d)"
    unfolding fstout using dm msin by (auto simp: bracket_list_def)
  from write_placements_place [OF ids this, of courts] obtain place where P:
    "write_placements courts ?out d = on_rows place d"
    "\<And>m. m \<in> set (db_matches d) \<Longrightarrow> m \<notin> fst ` set ?out \<Longrightarrow> place m = m"
    "\<And>m c s. (m, c, s) \<in> set ?out \<Longrightarrow> place m = m\<lparr>m_court := court_id courts c, m_order := Some s\<rparr>" by metis
  have fo: "fst ` set ?out = set ?ms" using fstout by (metis list.set_map)
  have "placed_ok ?co ?pids ?f st x" if "x \<in> set ?out" for x using st(2) that by (simp add: br_inv_def)
  then have ok: "c \<in> fst ` set courts" "?f \<le> s" if "(m, c, s) \<in> set ?out" for m c s
    using that division_courts_known(1) [of brackets ?nums m] nums(2) by (fastforce simp: placed_ok_def)+
  have apart: "apart_from ?pids x y" if "x \<in> set ?out" "y \<in> set ?out" "x \<noteq> y" for x y
  proof (rule sorted_wrt_pairs [of _ "bs_out st"])
    show "sorted_wrt (apart_from ?pids) (bs_out st)" using st(2) by (simp add: br_inv_def)
    show "apart_from ?pids b a" if "apart_from ?pids a b" for a b
      using that unfolding apart_from_def by (simp split: prod.splits) blast
  qed (use that in simp_all)
  have get: "\<exists>c s. (m, c, s) \<in> set ?out" if "m \<in> set ?ms" for m
    using that unfolding fo [symmetric] by force
  have one: "(\<exists>c s. place m = m\<lparr>m_court := c, m_order := Some s\<rparr> \<and> c \<in> snd ` set courts
      \<and> (\<forall>p\<in>set (db_matches d). m_event p = ev \<and> m_stage p = ''pool'' \<longrightarrow> slot_of p < s))" if "m \<in> set ?ms" for m
  proof -
    from get [OF that] obtain c s where cs: "(m, c, s) \<in> set ?out" by blast
    have "court_id courts c \<in> snd ` set courts" using court_id_known [OF courts(2) ok(1) [OF cs]] by force
    moreover have "slot_of p < s" if "p \<in> set (db_matches d)" "m_event p = ev" "m_stage p = ''pool''" for p
      using first_slot_bound [OF that] ok(2) [OF cs] by (simp add: slot_of_def)
    ultimately show ?thesis using P(3) [OF cs] by blast
  qed
  have two: "(slot_of (place m) = slot_of (place n) \<longrightarrow>
      m_court (place m) \<noteq> m_court (place n) \<and> set (?pids m) \<inter> set (?pids n) = {})
      \<and> (m_round m < m_round n \<longrightarrow> slot_of (place m) < slot_of (place n))"
    if mn: "m \<in> set ?ms" "n \<in> set ?ms" "m \<noteq> n" for m n
  proof -
    obtain c s where cs: "(m, c, s) \<in> set ?out" using get [OF mn(1)] by blast
    obtain c' s' where cs': "(n, c', s') \<in> set ?out" using get [OF mn(2)] by blast
    have "apart_from ?pids (m, c, s) (n, c', s')" using apart [OF cs cs'] mn(3) by blast
    moreover have "c \<noteq> c' \<longrightarrow> court_id courts c \<noteq> court_id courts c'"
      using court_id_inj [OF courts(2,3) ok(1) [OF cs] ok(1) [OF cs']] by blast
    ultimately show ?thesis
      by (simp add: P(3) [OF cs] P(3) [OF cs'] apart_from_def slot_of_def)
  qed
  have untouched: "place m = m" if "m \<in> set (db_matches d)" "\<not> awaits_court ''bracket'' ev m" for m
    using P(2) [OF that(1)] that(2) unfolding fo msin by blast
  have "spreadBracketCourts courts brackets ev d = Some (d\<lparr>db_matches := map place (db_matches d)\<rparr>)"
    using run P(1) by (simp only: on_rows_def)
  moreover have "\<forall>m\<in>set (db_matches d). if awaits_court ''bracket'' ev m
      then (\<exists>c s. place m = m\<lparr>m_court := c, m_order := Some s\<rparr> \<and> c \<in> snd ` set courts
        \<and> (\<forall>p\<in>set (db_matches d). m_event p = ev \<and> m_stage p = ''pool'' \<longrightarrow> slot_of p < s))
      else place m = m"
    using one untouched unfolding msin by meson
  ultimately show ?thesis using two unfolding msin by blast
qed

definition demo_bracket_db :: db where
  "demo_bracket_db = demo_db\<lparr>db_matches := [blank_row ''s1'' 1 0, blank_row ''s2'' 1 1, blank_row ''f'' 2 0]\<rparr>"

theorem elimination_games_never_clash_witness:
  "\<exists>place. spreadBracketCourts [(2, ''north''), (1, ''south'')] [] ''e'' demo_bracket_db
     = Some (demo_bracket_db\<lparr>db_matches := map place (db_matches demo_bracket_db)\<rparr>)
    \<and> (slot_of (place (blank_row ''s1'' 1 0)) < slot_of (place (blank_row ''f'' 2 0)))"
proof -
  have in1: "blank_row ''s1'' 1 0 \<in> set (db_matches demo_bracket_db)" "blank_row ''f'' 2 0 \<in> set (db_matches demo_bracket_db)"
    by (simp_all add: demo_bracket_db_def)
  have aw: "awaits_court ''bracket'' ''e'' (blank_row i r s)" for i r s
    by (simp add: awaits_court_def blank_row_def bracket_row_def)
  have df: "blank_row ''s1'' 1 0 \<noteq> blank_row ''f'' 2 0" "m_round (blank_row ''s1'' 1 0) < m_round (blank_row ''f'' 2 0)"
    by (simp_all add: blank_row_def bracket_row_def)
  have hyps: "[(2 :: int, ''north''), (1, ''south'')] \<noteq> []" "distinct (map fst [(2 :: int, ''north''), (1, ''south'')])"
    "distinct (map snd [(2 :: int, ''north''), (1, ''south'')])"
    "distinct (map m_id (db_matches demo_bracket_db))" "[] \<notin> m_id ` set (db_matches demo_bracket_db)"
    "\<And>m. m \<in> set (db_matches demo_bracket_db) \<Longrightarrow> 0 \<le> m_round m"
    by (auto simp: demo_bracket_db_def blank_row_def bracket_row_def)
  from elimination_games_never_clash [OF hyps, of "[]" "''e''"]
  obtain place where "spreadBracketCourts [(2, ''north''), (1, ''south'')] [] ''e'' demo_bracket_db
     = Some (demo_bracket_db\<lparr>db_matches := map place (db_matches demo_bracket_db)\<rparr>)"
    and "\<forall>m\<in>set (db_matches demo_bracket_db). \<forall>n\<in>set (db_matches demo_bracket_db).
        awaits_court ''bracket'' ''e'' m \<and> awaits_court ''bracket'' ''e'' n \<and> m \<noteq> n \<longrightarrow>
        (slot_of (place m) = slot_of (place n) \<longrightarrow>
           m_court (place m) \<noteq> m_court (place n) \<and> set (match_pids demo_bracket_db m) \<inter> set (match_pids demo_bracket_db n) = {})
        \<and> (m_round m < m_round n \<longrightarrow> slot_of (place m) < slot_of (place n))" by blast
  then show ?thesis using in1 aw df by blast
qed

section \<open>Pool play never clashes either\<close>

definition pool_apart :: "(mrow \<Rightarrow> int) \<Rightarrow> placement \<Rightarrow> placement \<Rightarrow> bool" where
  "pool_apart rnd x y \<longleftrightarrow> (case (x, y) of ((m, c, s), (n, c', s')) \<Rightarrow>
    (s = s' \<longrightarrow> c \<noteq> c' \<and> rnd m = rnd n) \<and> (rnd m < rnd n \<longrightarrow> s < s') \<and> (rnd n < rnd m \<longrightarrow> s' < s))"

definition pool_placed :: "int list \<Rightarrow> (mrow \<Rightarrow> int) \<Rightarrow> pool_spread \<Rightarrow> placement \<Rightarrow> bool" where
  "pool_placed nums rnd st x \<longleftrightarrow> (case x of (m, c, s) \<Rightarrow> c \<in> set nums \<and> 0 \<le> s \<and> rnd m \<le> ps_prev st
    \<and> (rnd m < ps_prev st \<longrightarrow> s < ps_base st)
    \<and> (rnd m = ps_prev st \<longrightarrow> (\<exists>j<ps_idx st. s = ps_base st + int (j div length nums) \<and> c = nums ! (j mod length nums))))"

definition pool_inv :: "int list \<Rightarrow> (mrow \<Rightarrow> int) \<Rightarrow> pool_spread \<Rightarrow> bool" where
  "pool_inv nums rnd st \<longleftrightarrow> 0 \<le> ps_base st \<and> (\<forall>x\<in>set (ps_out st). pool_placed nums rnd st x)
    \<and> sorted_wrt (pool_apart rnd) (ps_out st) \<and> (ps_prev st = -1 \<longrightarrow> ps_out st = [])"

definition pool_round :: "int list \<Rightarrow> (mrow \<Rightarrow> int) \<Rightarrow> mrow \<Rightarrow> pool_spread \<Rightarrow> pool_spread" where
  "pool_round nums rnd m st = (if rnd m \<noteq> ps_prev st
     then st\<lparr>ps_base := (if ps_prev st \<noteq> -1 then ps_base st + int ((ps_idx st + length nums - 1) div length nums) else ps_base st),
             ps_prev := rnd m, ps_idx := 0\<rparr>
     else st)"

lemma ceil_div_bound: "j < k \<Longrightarrow> 0 < n \<Longrightarrow> j div n < (k + n - 1) div n" for j k n :: nat
proof -
  assume "j < k" "0 < n"
  then have "(j + n) div n \<le> (k + n - 1) div n" by (intro div_le_mono) simp
  then show ?thesis using \<open>0 < n\<close> by (simp add: div_add_self2)
qed

lemma pool_round_inv:
  assumes inv: "pool_inv nums rnd st" and m: "ps_prev st \<le> rnd m" "0 \<le> rnd m" and nums: "nums \<noteq> []"
  shows "pool_inv nums rnd (pool_round nums rnd m st)" "ps_prev (pool_round nums rnd m st) = rnd m"
    "ps_out (pool_round nums rnd m st) = ps_out st"
proof -
  show prev: "ps_prev (pool_round nums rnd m st) = rnd m" and out: "ps_out (pool_round nums rnd m st) = ps_out st"
    by (simp_all add: pool_round_def)
  show "pool_inv nums rnd (pool_round nums rnd m st)"
  proof (cases "rnd m = ps_prev st")
    case True
    then show ?thesis using inv by (simp add: pool_round_def)
  next
    case False
    let ?st = "pool_round nums rnd m st"
    have old: "pool_placed nums rnd ?st x" if x: "x \<in> set (ps_out st)" for x
    proof -
      obtain n c s where xe: "x = (n, c, s)" by (cases x)
      have np: "ps_prev st \<noteq> -1" using inv x by (auto simp: pool_inv_def)
      have P: "pool_placed nums rnd st (n, c, s)" using inv x by (simp add: pool_inv_def xe)
      have base: "ps_base ?st = ps_base st + int ((ps_idx st + length nums - 1) div length nums)"
        using False np by (simp add: pool_round_def)
      have "s < ps_base ?st"
      proof (cases "rnd n = ps_prev st")
        case True
        then obtain j where "j < ps_idx st" "s = ps_base st + int (j div length nums)"
          using P by (auto simp: pool_placed_def)
        then show ?thesis using ceil_div_bound [of j "ps_idx st" "length nums"] nums unfolding base by simp
      next
        case False
        then show ?thesis using P unfolding base by (auto simp: pool_placed_def)
      qed
      then show ?thesis using P m False by (auto simp: pool_placed_def xe prev)
    qed
    show ?thesis using inv False old m by (auto simp: pool_inv_def out prev) (auto simp: pool_round_def)
  qed
qed

lemma pool_step_inv:
  assumes inv: "pool_inv nums rnd st" and m: "ps_prev st \<le> rnd m" "0 \<le> rnd m" and nums: "nums \<noteq> []" "distinct nums"
  shows "pool_inv nums rnd (pool_step nums rnd m st)" "ps_prev (pool_step nums rnd m st) = rnd m"
    "map fst (ps_out (pool_step nums rnd m st)) = map fst (ps_out st) @ [m]"
proof -
  let ?st = "pool_round nums rnd m st"
  let ?new = "(m, nums ! (ps_idx ?st mod length nums), ps_base ?st + int (ps_idx ?st div length nums))"
  note N = pool_round_inv [OF inv m nums(1)]
  have step: "pool_step nums rnd m st = ?st\<lparr>ps_idx := ps_idx ?st + 1, ps_out := ps_out ?st @ [?new]\<rparr>"
    unfolding pool_step_def pool_round_def Let_def by simp
  show "ps_prev (pool_step nums rnd m st) = rnd m"
    "map fst (ps_out (pool_step nums rnd m st)) = map fst (ps_out st) @ [m]"
    using N by (simp_all add: step)
  have old: "pool_placed nums rnd ?st x" if "x \<in> set (ps_out ?st)" for x using N(1) that by (simp add: pool_inv_def)
  have keep: "pool_placed nums rnd (pool_step nums rnd m st) x" if "x \<in> set (ps_out ?st)" for x
    using old [OF that] unfolding step by (fastforce simp: pool_placed_def less_Suc_eq split: prod.splits)
  have "0 \<le> ps_base ?st" using N(1) by (simp add: pool_inv_def)
  then have new: "pool_placed nums rnd (pool_step nums rnd m st) ?new"
    using N(2) nums(1) unfolding step by (auto simp: pool_placed_def)
  have apart: "pool_apart rnd x ?new" if x: "x \<in> set (ps_out ?st)" for x
  proof -
    obtain n c s where xe: "x = (n, c, s)" by (cases x)
    note P = old [OF x, unfolded xe pool_placed_def prod.case]
    show ?thesis
    proof (cases "rnd n = rnd m")
      case True
      then obtain j where j: "j < ps_idx ?st" "s = ps_base ?st + int (j div length nums)" "c = nums ! (j mod length nums)"
        using P N(2) by auto
      have "c \<noteq> nums ! (ps_idx ?st mod length nums)" if "j div length nums = ps_idx ?st div length nums"
      proof -
        have "j mod length nums \<noteq> ps_idx ?st mod length nums"
          using that j(1) by (metis div_mult_mod_eq less_irrefl)
        then show ?thesis using nums by (simp add: j(3) nth_eq_iff_index_eq)
      qed
      then show ?thesis using True j(2) by (auto simp: pool_apart_def xe)
    next
      case False
      then show ?thesis using P N(2) by (auto simp: pool_apart_def xe)
    qed
  qed
  have "ps_prev (pool_step nums rnd m st) \<noteq> -1" using N(2) m(2) by (simp add: step)
  moreover have "0 \<le> ps_base (pool_step nums rnd m st)" "ps_out (pool_step nums rnd m st) = ps_out ?st @ [?new]"
    using N(1) by (simp_all add: step pool_inv_def)
  ultimately show "pool_inv nums rnd (pool_step nums rnd m st)"
    using keep new apart N(1) unfolding pool_inv_def by (simp add: sorted_wrt_append)
qed

lemma pool_steps_inv:
  assumes "pool_inv nums rnd st" "sorted_wrt (\<lambda>a b. rnd a \<le> rnd b) ms" "\<forall>m\<in>set ms. ps_prev st \<le> rnd m \<and> 0 \<le> rnd m"
    "nums \<noteq> []" "distinct nums"
  shows "pool_inv nums rnd (fold (pool_step nums rnd) ms st)
    \<and> map fst (ps_out (fold (pool_step nums rnd) ms st)) = map fst (ps_out st) @ ms"
  using assms(1-3)
proof (induction ms arbitrary: st)
  case Nil
  then show ?case by simp
next
  case (Cons m ms)
  have m: "ps_prev st \<le> rnd m" "0 \<le> rnd m" using Cons.prems(3) by auto
  note S = pool_step_inv [OF Cons.prems(1) m assms(4,5)]
  have "\<forall>n\<in>set ms. ps_prev (pool_step nums rnd m st) \<le> rnd n \<and> 0 \<le> rnd n"
    using Cons.prems(2,3) S(2) by simp
  from Cons.IH [OF S(1) _ this] Cons.prems(2) S(3) show ?case by simp
qed

interpretation pool_order: strict_weak_less "pool_before d created"
proof -
  have base: "strict_weak_less (\<lambda>a b. created (m_id a) < created (m_id b))" by unfold_locales auto
  have eq: "pool_before d created = (\<lambda>a b. if round_number d a \<noteq> round_number d b then round_number d a < round_number d b
     else if m_bracket a \<noteq> m_bracket b then m_bracket a < m_bracket b else created (m_id a) < created (m_id b))"
    by (intro ext) (simp only: pool_before_def)
  show "strict_weak_less (pool_before d created)" unfolding eq by (intro lex_asc base)
qed

lemma pool_list_rounds: "sorted_wrt (\<lambda>a b. round_number d a \<le> round_number d b) (pool_list ev created d)"
proof -
  have "round_number d a \<le> round_number d b" if "\<not> pool_before d created b a" for a b
    using that by (auto simp: pool_before_def split: if_splits)
  then show ?thesis
    unfolding pool_list_def by (intro sorted_wrt_mono_rel [OF _ pool_order.sorted_sort_by]) blast
qed

text \<open>C12: laying out pool play (\<open>spreadCourts\<close>) gives every waiting pool match a court of the event and a slot;
  two pool matches of one slot are on different courts and belong to the same round, and a match of an
  earlier round is played in an earlier slot. So, as a player is once in a round, no player has two
  matches at a time.\<close>
theorem pool_games_never_clash:
  assumes courts: "courts \<noteq> []" "distinct (map fst courts)" "distinct (map snd courts)"
    and ids: "distinct (map m_id (db_matches d))" "[] \<notin> m_id ` set (db_matches d)"
    and rounds: "\<And>m. m \<in> set (db_matches d) \<Longrightarrow> 0 \<le> round_number d m"
  shows "\<exists>place. spreadCourts courts ev created d = d\<lparr>db_matches := map place (db_matches d)\<rparr>
    \<and> (\<forall>m\<in>set (db_matches d). if awaits_court ''pool'' ev m
        then (\<exists>c s. place m = m\<lparr>m_court := c, m_order := Some s\<rparr> \<and> c \<in> snd ` set courts \<and> 0 \<le> s)
        else place m = m)
    \<and> (\<forall>m\<in>set (db_matches d). \<forall>n\<in>set (db_matches d).
        awaits_court ''pool'' ev m \<and> awaits_court ''pool'' ev n \<and> m \<noteq> n \<longrightarrow>
        (slot_of (place m) = slot_of (place n) \<longrightarrow>
           m_court (place m) \<noteq> m_court (place n) \<and> round_number d m = round_number d n)
        \<and> (round_number d m < round_number d n \<longrightarrow> slot_of (place m) < slot_of (place n)))"
proof -
  let ?nums = "sort (map fst courts)" and ?rnd = "round_number d" and ?ms = "pool_list ev created d"
  let ?st = "fold (pool_step ?nums ?rnd) ?ms pool_spread_init"
  let ?out = "ps_out ?st"
  have msin: "x \<in> set ?ms \<longleftrightarrow> x \<in> set (db_matches d) \<and> awaits_court ''pool'' ev x" for x
    by (auto simp: pool_list_def awaits_court_def)
  have nums: "?nums \<noteq> []" "distinct ?nums" "set ?nums = fst ` set courts"
    using courts(1,2) by (simp_all flip: set_empty)
  have init: "pool_inv ?nums ?rnd pool_spread_init" by (simp add: pool_inv_def pool_spread_init_def)
  have "0 \<le> ?rnd m" if "m \<in> set ?ms" for m using rounds msin that by blast
  then have "\<forall>m\<in>set ?ms. ps_prev pool_spread_init \<le> ?rnd m \<and> 0 \<le> ?rnd m" by (force simp: pool_spread_init_def)
  from pool_steps_inv [OF init pool_list_rounds this nums(1,2)]
  have inv: "pool_inv ?nums ?rnd ?st" and fstout: "map fst ?out = ?ms" by (simp_all add: pool_spread_init_def)
  have dm: "distinct (db_matches d)" using ids(1) by (simp add: distinct_map)
  have "distinct (map fst ?out)" "set (map fst ?out) \<subseteq> set (db_matches d)"
    unfolding fstout using dm msin by (auto simp: pool_list_def)
  from write_placements_place [OF ids this, of courts] obtain place where P:
    "write_placements courts ?out d = on_rows place d"
    "\<And>m. m \<in> set (db_matches d) \<Longrightarrow> m \<notin> fst ` set ?out \<Longrightarrow> place m = m"
    "\<And>m c s. (m, c, s) \<in> set ?out \<Longrightarrow> place m = m\<lparr>m_court := court_id courts c, m_order := Some s\<rparr>" by metis
  have fo: "fst ` set ?out = set ?ms" using fstout by (metis list.set_map)
  have placed: "pool_placed ?nums ?rnd ?st x" if "x \<in> set ?out" for x using inv that by (simp add: pool_inv_def)
  have ok: "c \<in> fst ` set courts" "0 \<le> s" if "(m, c, s) \<in> set ?out" for m c s
    using placed [OF that] nums(3) by (simp_all add: pool_placed_def)
  have apart: "pool_apart ?rnd x y" if "x \<in> set ?out" "y \<in> set ?out" "x \<noteq> y" for x y
  proof (rule sorted_wrt_pairs [of _ ?out])
    show "sorted_wrt (pool_apart ?rnd) ?out" using inv by (simp add: pool_inv_def)
    show "pool_apart ?rnd b a" if "pool_apart ?rnd a b" for a b
      using that unfolding pool_apart_def by (simp split: prod.splits) blast
  qed (use that in simp_all)
  have get: "\<exists>c s. (m, c, s) \<in> set ?out" if "m \<in> set ?ms" for m
    using that unfolding fo [symmetric] by force
  have one: "\<exists>c s. place m = m\<lparr>m_court := c, m_order := Some s\<rparr> \<and> c \<in> snd ` set courts \<and> 0 \<le> s" if "m \<in> set ?ms" for m
  proof -
    from get [OF that] obtain c s where cs: "(m, c, s) \<in> set ?out" by blast
    have "court_id courts c \<in> snd ` set courts" using court_id_known [OF courts(2) ok(1) [OF cs]] by force
    then show ?thesis using P(3) [OF cs] ok(2) [OF cs] by blast
  qed
  have two: "(slot_of (place m) = slot_of (place n) \<longrightarrow> m_court (place m) \<noteq> m_court (place n) \<and> ?rnd m = ?rnd n)
      \<and> (?rnd m < ?rnd n \<longrightarrow> slot_of (place m) < slot_of (place n))"
    if mn: "m \<in> set ?ms" "n \<in> set ?ms" "m \<noteq> n" for m n
  proof -
    obtain c s where cs: "(m, c, s) \<in> set ?out" using get [OF mn(1)] by blast
    obtain c' s' where cs': "(n, c', s') \<in> set ?out" using get [OF mn(2)] by blast
    have "pool_apart ?rnd (m, c, s) (n, c', s')" using apart [OF cs cs'] mn(3) by blast
    moreover have "c \<noteq> c' \<longrightarrow> court_id courts c \<noteq> court_id courts c'"
      using court_id_inj [OF courts(2,3) ok(1) [OF cs] ok(1) [OF cs']] by blast
    ultimately show ?thesis by (simp add: P(3) [OF cs] P(3) [OF cs'] pool_apart_def slot_of_def)
  qed
  have "spreadCourts courts ev created d = d\<lparr>db_matches := map place (db_matches d)\<rparr>"
    using courts(1) P(1) by (simp only: spreadCourts_def pool_placements_def on_rows_def if_False)
  moreover have "place m = m" if "m \<in> set (db_matches d)" "\<not> awaits_court ''pool'' ev m" for m
    using P(2) [OF that(1)] that(2) unfolding fo msin by blast
  with one have "\<forall>m\<in>set (db_matches d). if awaits_court ''pool'' ev m
      then (\<exists>c s. place m = m\<lparr>m_court := c, m_order := Some s\<rparr> \<and> c \<in> snd ` set courts \<and> 0 \<le> s)
      else place m = m" unfolding msin by meson
  ultimately show ?thesis using two unfolding msin by blast
qed

definition demo_pool_row :: "string \<Rightarrow> string \<Rightarrow> mrow" where
  "demo_pool_row i r = (blank_row i 1 0)\<lparr>m_stage := ''pool'', m_roundId := r\<rparr>"

definition demo_pool_db :: db where
  "demo_pool_db = demo_db\<lparr>db_matches := [demo_pool_row ''p1'' ''r1'', demo_pool_row ''p2'' ''r1'', demo_pool_row ''p3'' ''r2''],
    db_rounds := [\<lparr>r_id = ''r1'', r_status = ''scheduled'', r_event = ''e'', r_bracket = ''b'', r_number = 1\<rparr>,
      \<lparr>r_id = ''r2'', r_status = ''scheduled'', r_event = ''e'', r_bracket = ''b'', r_number = 2\<rparr>]\<rparr>"

theorem pool_games_never_clash_witness:
  "\<exists>place. spreadCourts [(1, ''south'')] ''e'' (\<lambda>i. i) demo_pool_db
     = demo_pool_db\<lparr>db_matches := map place (db_matches demo_pool_db)\<rparr>
    \<and> slot_of (place (demo_pool_row ''p1'' ''r1'')) \<noteq> slot_of (place (demo_pool_row ''p2'' ''r1''))"
proof -
  let ?a = "demo_pool_row ''p1'' ''r1''" and ?b = "demo_pool_row ''p2'' ''r1''"
  have hyps: "[(1 :: int, ''south'')] \<noteq> []" "distinct (map fst [(1 :: int, ''south'')])" "distinct (map snd [(1 :: int, ''south'')])"
    "distinct (map m_id (db_matches demo_pool_db))" "[] \<notin> m_id ` set (db_matches demo_pool_db)"
    "\<And>m. m \<in> set (db_matches demo_pool_db) \<Longrightarrow> 0 \<le> round_number demo_pool_db m"
    by (auto simp: demo_pool_db_def demo_pool_row_def blank_row_def bracket_row_def round_number_def)
  have in1: "?a \<in> set (db_matches demo_pool_db)" "?b \<in> set (db_matches demo_pool_db)" by (simp_all add: demo_pool_db_def)
  have aw: "awaits_court ''pool'' ''e'' ?a" "awaits_court ''pool'' ''e'' ?b" "?a \<noteq> ?b"
    by (simp_all add: awaits_court_def demo_pool_row_def blank_row_def bracket_row_def)
  from pool_games_never_clash [OF hyps, of "''e''" "\<lambda>i. i"]
  obtain place where P: "spreadCourts [(1, ''south'')] ''e'' (\<lambda>i. i) demo_pool_db
     = demo_pool_db\<lparr>db_matches := map place (db_matches demo_pool_db)\<rparr>"
    "\<forall>m\<in>set (db_matches demo_pool_db). if awaits_court ''pool'' ''e'' m
        then (\<exists>c s. place m = m\<lparr>m_court := c, m_order := Some s\<rparr> \<and> c \<in> snd ` set [(1 :: int, ''south'')] \<and> 0 \<le> s)
        else place m = m"
    "\<forall>m\<in>set (db_matches demo_pool_db). \<forall>n\<in>set (db_matches demo_pool_db).
        awaits_court ''pool'' ''e'' m \<and> awaits_court ''pool'' ''e'' n \<and> m \<noteq> n \<longrightarrow>
        (slot_of (place m) = slot_of (place n) \<longrightarrow>
           m_court (place m) \<noteq> m_court (place n) \<and> round_number demo_pool_db m = round_number demo_pool_db n)
        \<and> (round_number demo_pool_db m < round_number demo_pool_db n \<longrightarrow> slot_of (place m) < slot_of (place n))" by blast
  have "m_court (place ?a) = ''south''" "m_court (place ?b) = ''south''"
    using bspec [OF P(2) in1(1)] bspec [OF P(2) in1(2)] aw by auto
  then show ?thesis using P(1,3) in1 aw by metis
qed

end
