(* ===== verification/Ladder.thy ===== *)
theory Ladder
  imports Pickle_Prelude
begin

text \<open>
  The challenge ladder, \<open>internal/service/ladder.go\<close> and \<open>ladder_identity.go\<close>: one ranking per league
  division, position 1 on top. The rankings themselves are changed by stored procedures of the database
  (\<open>apply_ladder_result\<close>, \<open>move_ladder_entrant\<close>, \<open>remove_ladder_entrant\<close>), whose text is not part of the
  repository: they are parameters here, and what the properties ask of them is what the comments of
  \<open>ladder.go\<close> document, with \<open>leapfrogReorder\<close> and \<open>swapReorder\<close> as the reordering they mirror.
  Times are seconds, an id column that is null is the empty string.
\<close>

section \<open>Text\<close>

text \<open>\<open>strings.TrimSpace\<close> and \<open>strings.EqualFold\<close> on ASCII text.\<close>

definition space_char :: "char \<Rightarrow> bool" where
  "space_char c \<longleftrightarrow> (of_char c :: nat) = 32 \<or> (9 \<le> (of_char c :: nat) \<and> (of_char c :: nat) \<le> 13)"

definition trim :: "string \<Rightarrow> string" where
  "trim s = rev (dropWhile space_char (rev (dropWhile space_char s)))"

definition lower_char :: "char \<Rightarrow> char" where
  "lower_char c = (if 65 \<le> (of_char c :: nat) \<and> (of_char c :: nat) \<le> 90 then char_of ((of_char c :: nat) + 32) else c)"

definition equalFold :: "string \<Rightarrow> string \<Rightarrow> bool" where
  "equalFold s t \<longleftrightarrow> map lower_char s = map lower_char t"

section \<open>The reordering rules\<close>

fun indexOf :: "string list \<Rightarrow> string \<Rightarrow> int" where
  "indexOf [] v = -1"
| "indexOf (s # ss) v = (if s = v then 0 else (let i = indexOf ss v in if i < 0 then -1 else i + 1))"

definition leapfrogReorder :: "string list \<Rightarrow> string \<Rightarrow> string \<Rightarrow> string list" where
  "leapfrogReorder order w l =
    (if w = l then order
     else let wi = indexOf order w; li = indexOf order l in
       if wi < 0 \<or> li < 0 then order
       else if wi \<le> li then order
       else take (nat li) order @ [order ! nat wi] @ drop (nat li) (take (nat wi) order) @ drop (nat wi + 1) order)"

definition swapReorder :: "string list \<Rightarrow> string \<Rightarrow> string \<Rightarrow> string list" where
  "swapReorder order w l =
    (if w = l then order
     else let wi = indexOf order w; li = indexOf order l in
       if wi < 0 \<or> li < 0 \<or> wi \<le> li then order
       else order[nat wi := order ! nat li, nat li := order ! nat wi])"

section \<open>Tables\<close>

record entrant =
  en_id :: string
  en_div :: string
  en_name :: string
  en_player :: string
  en_team :: bool
  en_pos :: int

record lmatch =
  lm_id :: string
  lm_div :: string
  lm_a :: string
  lm_b :: string
  lm_winner :: string
  lm_score :: string

datatype challenge_status =
  ChPending | ChAccepted | ChDeclined | ChForfeited | ChVoided | ChCancelled | ChCompleted

record challenge =
  ch_id :: string
  ch_div :: string
  ch_challenger :: string
  ch_challenged :: string
  ch_status :: challenge_status
  ch_respondBy :: int
  ch_playBy :: "int option"
  ch_resolvedAt :: "int option"
  ch_remindedRespond :: bool
  ch_remindedPlay :: bool

record league_row =
  lg_id :: string
  lg_owner :: string
  lg_listed :: bool
  lg_model :: string
  lg_range :: int
  lg_responseDays :: int
  lg_playDays :: int

record lreg =
  lr_id :: string
  lr_event :: string
  lr_player :: string
  lr_payment :: string
  lr_approved :: bool

record lplayer =
  pl_id :: string
  pl_user :: string
  pl_name :: string
  pl_phone :: string

record ladder_db =
  ld_entrants :: "entrant list"
  ld_matches :: "lmatch list"
  ld_challenges :: "challenge list"
  ld_session :: "(string \<times> string) list"
  ld_divs :: "(string \<times> string) list"
  ld_leagues :: "league_row list"
  ld_events :: "(string \<times> string \<times> bool) list"
  ld_regs :: "lreg list"
  ld_players :: "lplayer list"

datatype ladder_error =
  LNotFound | LForbidden | LConflict | MissingField | SameEntrant | BadWinner | OtherDivision
| DuplicateName | NotOnLadder | Unlinked | NotAbove | OutOfRange | AlreadyActive | Cooldown
| TooManyOutgoing | TooManyIncoming | NotYetAccepted | WasVoided | BadSide | DifferentLadders
| UniqueViolation | DbError

text \<open>A handler's error or result, with the tables as it leaves them.\<close>

type_synonym 'a lres = "(ladder_error + 'a) \<times> ladder_db"

text \<open>
  The stored procedures and the ids the database gives new rows. \<open>rpc_apply\<close> takes the two entrants, the
  winner (empty for a tie), the reorder model and the score; \<open>rpc_resolve\<close> takes the challenge, the statuses
  it may be claimed from, the status to set, the winning side, the score and the allowed range.
\<close>

record ladder_rpc =
  rpc_apply :: "string \<Rightarrow> string \<Rightarrow> string \<Rightarrow> string \<Rightarrow> string \<Rightarrow> ladder_db \<Rightarrow> (ladder_db \<times> string) option"
  rpc_move :: "string \<Rightarrow> int \<Rightarrow> ladder_db \<Rightarrow> ladder_db option"
  rpc_remove :: "string \<Rightarrow> ladder_db \<Rightarrow> ladder_db option"
  rpc_resolve :: "string \<Rightarrow> challenge_status list \<Rightarrow> challenge_status \<Rightarrow> string \<Rightarrow> string \<Rightarrow> int \<Rightarrow> ladder_db
    \<Rightarrow> (ladder_db \<times> bool \<times> challenge_status) option"
  rpc_newId :: "ladder_db \<Rightarrow> string"

section \<open>Reading\<close>

definition find_entrant :: "string \<Rightarrow> ladder_db \<Rightarrow> entrant option" where
  "find_entrant i d = List.find (\<lambda>e. en_id e = i) (ld_entrants d)"

definition find_challenge :: "string \<Rightarrow> ladder_db \<Rightarrow> challenge option" where
  "find_challenge i d = List.find (\<lambda>c. ch_id c = i) (ld_challenges d)"

definition leagueIDOfDivision :: "ladder_db \<Rightarrow> string \<Rightarrow> string" where
  "leagueIDOfDivision d dv = (case map_of (ld_divs d) dv of None \<Rightarrow> [] | Some l \<Rightarrow> l)"

definition league_of :: "ladder_db \<Rightarrow> string \<Rightarrow> league_row option" where
  "league_of d dv = (case map_of (ld_divs d) dv of None \<Rightarrow> None
     | Some l \<Rightarrow> List.find (\<lambda>r. lg_id r = l) (ld_leagues d))"

definition LadderOwner :: "ladder_db \<Rightarrow> string \<Rightarrow> string option" where
  "LadderOwner d dv = map_option lg_owner (league_of d dv)"

definition divisionOfEntrant :: "string \<Rightarrow> ladder_db \<Rightarrow> string option" where
  "divisionOfEntrant i d = map_option en_div (find_entrant i d)"

definition ladderReorderModel :: "ladder_db \<Rightarrow> string \<Rightarrow> string" where
  "ladderReorderModel d dv = (case league_of d dv of None \<Rightarrow> ''leapfrog''
    | Some lg \<Rightarrow> if trim (lg_model lg) = ''swap'' then ''swap'' else ''leapfrog'')"

definition ladder_rows :: "string \<Rightarrow> ladder_db \<Rightarrow> entrant list" where
  "ladder_rows dv d = sort_by (\<lambda>a b. en_pos a < en_pos b) (filter (\<lambda>e. en_div e = dv) (ld_entrants d))"

text \<open>Wins, losses and ties of an entrant over the division's matches; a null winner is a tie.\<close>

definition match_loser :: "lmatch \<Rightarrow> string" where
  "match_loser m = (if lm_winner m = lm_a m then lm_b m else lm_a m)"

definition add_record :: "lmatch \<Rightarrow> string \<Rightarrow> int \<times> int \<times> int \<Rightarrow> int \<times> int \<times> int" where
  "add_record m i = (\<lambda>(w, l, t).
    if lm_winner m = [] then (w, l, t + (if lm_a m = i then 1 else 0) + (if lm_b m = i then 1 else 0))
    else (w + (if lm_winner m = i then 1 else 0), l + (if match_loser m = i then 1 else 0), t))"

definition ladder_record :: "string \<Rightarrow> ladder_db \<Rightarrow> string \<Rightarrow> int \<times> int \<times> int" where
  "ladder_record dv d i = fold (\<lambda>m. add_record m i) (filter (\<lambda>m. lm_div m = dv) (ld_matches d)) (0, 0, 0)"

definition ListLadder :: "string \<Rightarrow> ladder_db \<Rightarrow> (entrant \<times> int \<times> int \<times> int) list" where
  "ListLadder dv d = map (\<lambda>e. (e, ladder_record dv d (en_id e))) (ladder_rows dv d)"

section \<open>Voiding what a moved entrant has open\<close>

definition active :: "challenge \<Rightarrow> bool" where
  "active c \<longleftrightarrow> ch_status c = ChPending \<or> ch_status c = ChAccepted"

definition voidActiveChallengesForEntrant :: "int \<Rightarrow> string \<Rightarrow> ladder_db \<Rightarrow> ladder_db" where
  "voidActiveChallengesForEntrant now e d = (if e = [] then d
    else d\<lparr>ld_challenges := map (\<lambda>c.
      if (ch_challenger c = e \<or> ch_challenged c = e) \<and> active c
      then c\<lparr>ch_status := ChVoided, ch_resolvedAt := Some now\<rparr> else c) (ld_challenges d)\<rparr>)"

section \<open>Adding, moving, removing\<close>

definition MoveLadderEntrant :: "ladder_rpc \<Rightarrow> int \<Rightarrow> string \<Rightarrow> int \<Rightarrow> ladder_db \<Rightarrow> unit lres" where
  "MoveLadderEntrant R now i p d =
    (if trim i = [] then (Inl MissingField, d)
     else if p < 1 then (Inl MissingField, d)
     else case rpc_move R i p d of
       None \<Rightarrow> (Inl DbError, d)
     | Some d' \<Rightarrow> (Inr (), voidActiveChallengesForEntrant now i d'))"

definition ladderNameTaken :: "string \<Rightarrow> string \<Rightarrow> ladder_db \<Rightarrow> bool" where
  "ladderNameTaken dv name d = (trim name \<noteq> []
    \<and> list_ex (\<lambda>e. en_div e = dv \<and> equalFold (trim (en_name e)) (trim name)) (ld_entrants d))"

record add_request =
  ar_name :: string
  ar_player :: string
  ar_team :: bool
  ar_allowDuplicate :: bool

definition AddLadderEntrant :: "ladder_rpc \<Rightarrow> string \<Rightarrow> add_request \<Rightarrow> ladder_db \<Rightarrow> entrant lres" where
  "AddLadderEntrant R dv req d =
    (if trim (ar_name req) = [] then (Inl MissingField, d)
     else let pid = trim (ar_player req) in
       case (if pid = [] then None else List.find (\<lambda>e. en_div e = dv \<and> en_player e = pid) (ld_entrants d)) of
         Some e \<Rightarrow> (Inr e, d)
       | None \<Rightarrow>
         if \<not> ar_allowDuplicate req \<and> ladderNameTaken dv (ar_name req) d then (Inl DuplicateName, d)
         else let rows = ladder_rows dv d;
                  e = \<lparr>en_id = rpc_newId R d, en_div = dv, en_name = trim (ar_name req), en_player = ar_player req,
                       en_team = ar_team req, en_pos = (if rows = [] then 1 else en_pos (last rows) + 1)\<rparr>
              in (Inr e, d\<lparr>ld_entrants := ld_entrants d @ [e]\<rparr>))"

text \<open>The mirrored registration goes with the entrant, on the perpetual event only, and never a paid one.\<close>

definition lower :: "string \<Rightarrow> string" where
  "lower s = map lower_char s"

definition removeLadderMirrorRegistration :: "string \<Rightarrow> string \<Rightarrow> ladder_db \<Rightarrow> ladder_db" where
  "removeLadderMirrorRegistration dv player d =
    (if dv = [] \<or> player = [] then d
     else let lid = leagueIDOfDivision d dv in
       if lid = [] then d
       else case List.find (\<lambda>(ev, l, perpetual). l = lid \<and> perpetual) (ld_events d) of
         None \<Rightarrow> d
       | Some (ev, _) \<Rightarrow>
         if ev = [] then d
         else case List.find (\<lambda>r. lr_event r = ev \<and> lr_player r = player) (ld_regs d) of
           None \<Rightarrow> d
         | Some r \<Rightarrow> if lower (lr_payment r) = ''paid'' then d
             else d\<lparr>ld_regs := filter (\<lambda>q. lr_id q \<noteq> lr_id r) (ld_regs d)\<rparr>)"

definition RemoveLadderEntrant :: "ladder_rpc \<Rightarrow> int \<Rightarrow> string \<Rightarrow> ladder_db \<Rightarrow> unit lres" where
  "RemoveLadderEntrant R now i d =
    (if trim i = [] then (Inl MissingField, d)
     else let d1 = voidActiveChallengesForEntrant now i d;
              (player, dv) = (case find_entrant i d1 of None \<Rightarrow> ([], []) | Some e \<Rightarrow> (en_player e, en_div e))
          in case rpc_remove R i d1 of
               None \<Rightarrow> (Inl DbError, d1)
             | Some d2 \<Rightarrow> (Inr (), removeLadderMirrorRegistration dv player d2))"

section \<open>Recording a result\<close>

record result_request =
  rq_a :: string
  rq_b :: string
  rq_winner :: string
  rq_tie :: bool
  rq_score :: string

definition apply_result :: "ladder_rpc \<Rightarrow> int \<Rightarrow> string \<Rightarrow> string \<Rightarrow> string \<Rightarrow> string \<Rightarrow> string \<Rightarrow> ladder_db \<Rightarrow> string lres" where
  "apply_result R now a b w md score d =
    (case rpc_apply R a b w md score d of
       None \<Rightarrow> (Inl DbError, d)
     | Some (d1, mid) \<Rightarrow>
       if mid = [] then (Inl DbError, d1)
       else if \<not> list_ex (\<lambda>m. lm_id m = mid) (ld_matches d1) then (Inl LNotFound, d1)
       else (Inr mid, voidActiveChallengesForEntrant now b (voidActiveChallengesForEntrant now a d1)))"

definition RecordLadderResult :: "ladder_rpc \<Rightarrow> int \<Rightarrow> string \<Rightarrow> result_request \<Rightarrow> ladder_db \<Rightarrow> string lres" where
  "RecordLadderResult R now dv req d =
    (let a = trim (rq_a req); b = trim (rq_b req); w = trim (rq_winner req); tie = (rq_tie req \<or> w = []) in
     if a = [] \<or> b = [] then (Inl MissingField, d)
     else if a = b then (Inl SameEntrant, d)
     else if \<not> tie \<and> w \<noteq> a \<and> w \<noteq> b then (Inl BadWinner, d)
     else case divisionOfEntrant a d of
       None \<Rightarrow> (Inl LNotFound, d)
     | Some da \<Rightarrow> if da \<noteq> dv then (Inl OtherDivision, d)
       else case divisionOfEntrant b d of
         None \<Rightarrow> (Inl LNotFound, d)
       | Some db \<Rightarrow> if db \<noteq> dv then (Inl OtherDivision, d)
         else apply_result R now a b (if tie then [] else w) (ladderReorderModel d dv) (trim (rq_score req)) d)"

section \<open>Configuration\<close>

record ladder_config =
  lc_model :: string
  lc_range :: int
  lc_responseDays :: int
  lc_playDays :: int
  lc_inactivityDays :: int
  lc_action :: string

definition nonNeg :: "int \<Rightarrow> int" where "nonNeg n = (if n < 0 then 0 else n)"

definition daysOr :: "int \<Rightarrow> int \<Rightarrow> int" where "daysOr n def = (if n \<le> 0 then def else n)"

definition ladderConfigColumns :: "ladder_config \<Rightarrow> ladder_config" where
  "ladderConfigColumns c = \<lparr>
    lc_model = (if lc_model c = ''swap'' then ''swap'' else ''leapfrog''),
    lc_range = nonNeg (lc_range c),
    lc_responseDays = daysOr (lc_responseDays c) 7,
    lc_playDays = daysOr (lc_playDays c) 14,
    lc_inactivityDays = nonNeg (lc_inactivityDays c),
    lc_action = (if lc_action c = ''drop_one'' \<or> lc_action c = ''drop_bottom'' then lc_action c else ''none'')\<rparr>"

definition SetLadderConfig :: "string \<Rightarrow> ladder_config \<Rightarrow> ladder_db \<Rightarrow> unit lres" where
  "SetLadderConfig lid cfg d =
    (if trim lid = [] then (Inl MissingField, d)
     else let c = ladderConfigColumns cfg in
       (Inr (), d\<lparr>ld_leagues := map (\<lambda>l. if lg_id l = lid
          then l\<lparr>lg_model := lc_model c, lg_range := lc_range c, lg_responseDays := lc_responseDays c,
                 lg_playDays := lc_playDays c\<rparr> else l) (ld_leagues d)\<rparr>))"

section \<open>One person, one entrant\<close>

definition SetLadderEntrantName :: "string \<Rightarrow> string \<Rightarrow> ladder_db \<Rightarrow> unit lres" where
  "SetLadderEntrantName i name d =
    (if trim name = [] then (Inl MissingField, d)
     else if find_entrant i d = None then (Inl LNotFound, d)
     else (Inr (), d\<lparr>ld_entrants := map (\<lambda>e. if en_id e = i then e\<lparr>en_name := trim name\<rparr> else e) (ld_entrants d)\<rparr>))"

text \<open>Every column of \<open>entrantRefs\<close>.\<close>

definition repoint :: "string \<Rightarrow> string \<Rightarrow> ladder_db \<Rightarrow> ladder_db" where
  "repoint keep old d = (let r = (\<lambda>i. if i = old then keep else i) in
    d\<lparr>ld_matches := map (\<lambda>m. m\<lparr>lm_a := r (lm_a m), lm_b := r (lm_b m), lm_winner := r (lm_winner m)\<rparr>) (ld_matches d),
      ld_challenges := map (\<lambda>c. c\<lparr>ch_challenger := r (ch_challenger c), ch_challenged := r (ch_challenged c)\<rparr>) (ld_challenges d),
      ld_session := map (\<lambda>(p, e). (p, r e)) (ld_session d)\<rparr>)"

definition drop_self :: "string \<Rightarrow> ladder_db \<Rightarrow> ladder_db" where
  "drop_self keep d = d\<lparr>ld_matches := filter (\<lambda>m. \<not> (lm_a m = keep \<and> lm_b m = keep)) (ld_matches d),
    ld_challenges := filter (\<lambda>c. \<not> (ch_challenger c = keep \<and> ch_challenged c = keep)) (ld_challenges d)\<rparr>"

text \<open>Writing an entrant's player, under the unique index of (division, player)
  (\<open>migrations/add_ladder_entrant_unique_player.sql\<close>).\<close>

definition set_player :: "string \<Rightarrow> string \<Rightarrow> ladder_db \<Rightarrow> ladder_db option" where
  "set_player i p d = (case find_entrant i d of None \<Rightarrow> Some d
    | Some e \<Rightarrow>
      if p \<noteq> [] \<and> list_ex (\<lambda>e'. en_id e' \<noteq> i \<and> en_div e' = en_div e \<and> en_player e' = p) (ld_entrants d) then None
      else Some (d\<lparr>ld_entrants := map (\<lambda>e. if en_id e = i then e\<lparr>en_player := p\<rparr> else e) (ld_entrants d)\<rparr>))"

definition MergeLadderEntrants :: "ladder_rpc \<Rightarrow> int \<Rightarrow> string \<Rightarrow> string \<Rightarrow> ladder_db \<Rightarrow> unit lres" where
  "MergeLadderEntrants R now keepID mergeID d =
    (let k = trim keepID; m = trim mergeID in
     if k = [] \<or> m = [] then (Inl MissingField, d)
     else if k = m then (Inl SameEntrant, d)
     else case (find_entrant k d, find_entrant m d) of
       (Some keep, Some loser) \<Rightarrow>
         if en_div keep \<noteq> en_div loser then (Inl DifferentLadders, d)
         else let d1 = drop_self k (repoint k m d) in
           if en_player keep = [] \<and> en_player loser \<noteq> [] then
             (case set_player k (en_player loser) d1 of
                None \<Rightarrow> (Inl UniqueViolation, d1)
              | Some d2 \<Rightarrow> (case set_player m [] d2 of
                  None \<Rightarrow> (Inl UniqueViolation, d2)
                | Some d3 \<Rightarrow> RemoveLadderEntrant R now m d3))
           else RemoveLadderEntrant R now m d1
     | _ \<Rightarrow> (Inl LNotFound, d))"

section \<open>What a reorder does to the ranking\<close>

lemma indexOf_absent [simp]: "v \<notin> set ss \<Longrightarrow> indexOf ss v = -1"
  by (induction ss) auto

lemma indexOf_bounds: "v \<in> set ss \<Longrightarrow> 0 \<le> indexOf ss v \<and> indexOf ss v < int (length ss)"
  by (induction ss) (auto simp: Let_def)

lemma indexOf_append [simp]:
  "indexOf (xs @ ys) v = (if v \<in> set xs then indexOf xs v else if v \<in> set ys then int (length xs) + indexOf ys v else -1)"
  by (induction xs) (auto simp: Let_def dest: indexOf_bounds)

lemma indexOf_iff: "0 \<le> indexOf ss v \<longleftrightarrow> v \<in> set ss"
  by (cases "v \<in> set ss") (auto dest: indexOf_bounds)

lemma indexOf_nth: "v \<in> set ss \<Longrightarrow> ss ! nat (indexOf ss v) = v"
proof (induction ss)
  case (Cons s ss)
  show ?case
  proof (cases "s = v")
    case False
    then have "v \<in> set ss" using Cons.prems by simp
    then have "0 \<le> indexOf ss v" "ss ! nat (indexOf ss v) = v" using Cons.IH indexOf_bounds by blast+
    then show ?thesis using False by (simp add: Let_def nat_add_distrib)
  qed simp
qed simp

lemma lower_ranked_split:
  assumes "distinct order" "w \<in> set order" "l \<in> set order" "w \<noteq> l" "indexOf order l < indexOf order w"
  obtains A B C where "order = A @ l # B @ w # C"
proof -
  obtain A R where AR: "order = A @ l # R" using split_list [OF assms(3)] by blast
  have "w \<notin> set A"
  proof
    assume "w \<in> set A"
    then show False using assms(1,5) indexOf_bounds [of w A] by (auto simp: AR)
  qed
  then have "w \<in> set R" using assms(2,4) AR by auto
  then obtain B C where "R = B @ w # C" using split_list by metis
  then show thesis using that AR by simp
qed

lemma reorder_split:
  assumes "distinct (A @ l # B @ w # C)"
  shows "leapfrogReorder (A @ l # B @ w # C) w l = A @ w # l # B @ C"
    and "swapReorder (A @ l # B @ w # C) w l = A @ w # B @ l # C"
proof -
  have ix: "indexOf (A @ l # B @ w # C) l = int (length A)" "indexOf (A @ l # B @ w # C) w = int (length A) + 1 + int (length B)" "w \<noteq> l"
    using assms by auto
  have wi: "nat (int (length A) + 1 + int (length B)) = length A + Suc (length B)" by simp
  show "leapfrogReorder (A @ l # B @ w # C) w l = A @ w # l # B @ C"
    using ix by (simp add: leapfrogReorder_def Let_def wi nth_append)
  show "swapReorder (A @ l # B @ w # C) w l = A @ w # B @ l # C"
    using ix by (simp add: swapReorder_def Let_def wi nth_append list_update_append)
qed

lemma indexOf_one: "indexOf [x] v = (if x = v then 0 else -1)" by simp

text \<open>
  The two reorder rules. On a ladder without repeats a result between two of its entrants keeps
  everybody; when the higher-ranked wins neither rule changes anything; when the lower-ranked wins it
  takes the loser's rung under both rules. Leapfrog keeps the order of all others and lets nobody fall
  more than one rung or rise; swap moves only the two who played.
\<close>
theorem ladder_reorder_rules:
  assumes "distinct order" "w \<in> set order" "l \<in> set order" "w \<noteq> l"
  defines "F \<equiv> leapfrogReorder order w l" and "S \<equiv> swapReorder order w l"
  shows "mset F = mset order \<and> mset S = mset order
    \<and> (if indexOf order w < indexOf order l then F = order \<and> S = order
       else indexOf F w = indexOf order l \<and> indexOf S w = indexOf order l \<and> indexOf S l = indexOf order w
         \<and> remove1 w F = remove1 w order
         \<and> (\<forall>x. x \<noteq> w \<longrightarrow> indexOf order x \<le> indexOf F x \<and> indexOf F x \<le> indexOf order x + 1)
         \<and> (\<forall>x. x \<noteq> w \<and> x \<noteq> l \<longrightarrow> indexOf S x = indexOf order x))"
proof (cases "indexOf order w < indexOf order l")
  case True
  then show ?thesis by (simp add: F_def S_def leapfrogReorder_def swapReorder_def Let_def)
next
  case False
  have "indexOf order w \<noteq> indexOf order l"
    using assms(4) indexOf_nth [OF assms(2)] indexOf_nth [OF assms(3)] by metis
  with False have "indexOf order l < indexOf order w" by simp
  from lower_ranked_split [OF assms(1-4) this] obtain A B C where o: "order = A @ l # B @ w # C" by metis
  note R = reorder_split [OF assms(1) [unfolded o]]
  have F: "F = A @ w # l # B @ C" and S: "S = A @ w # B @ l # C" by (simp_all add: F_def S_def o R)
  have d: "w \<notin> set A" "w \<notin> set B" "w \<notin> set C" "l \<notin> set A" "l \<notin> set B" "l \<notin> set C"
    "set A \<inter> set B = {}" "set A \<inter> set C = {}" "set B \<inter> set C = {}"
    using assms(1) by (auto simp: o)
  have "indexOf order x \<le> indexOf F x \<and> indexOf F x \<le> indexOf order x + 1" if "x \<noteq> w" for x
    using that d by (auto simp: o F Let_def dest: indexOf_bounds)
  moreover have "indexOf S x = indexOf order x" if "x \<noteq> w" "x \<noteq> l" for x
    using that d by (auto simp: o S Let_def dest: indexOf_bounds)
  ultimately show ?thesis
    using False d assms(4) by (simp add: o F S remove1_append)
qed

theorem ladder_reorder_rules_witness:
  "leapfrogReorder [''a'', ''b'', ''c'', ''d''] ''d'' ''b'' = [''a'', ''d'', ''b'', ''c'']
   \<and> mset (leapfrogReorder [''a'', ''b'', ''c'', ''d''] ''d'' ''b'') = mset [''a'', ''b'', ''c'', ''d'']"
proof -
  have "mset (leapfrogReorder [''a'', ''b'', ''c'', ''d''] ''d'' ''b'') = mset [''a'', ''b'', ''c'', ''d'']"
    using ladder_reorder_rules [of "[''a'', ''b'', ''c'', ''d'']" "''d''" "''b''"] by simp
  then show ?thesis by (simp add: leapfrogReorder_def Let_def)
qed

section \<open>Merging two entrants keeps the record\<close>

definition win_of :: "string \<Rightarrow> lmatch \<Rightarrow> int" where
  "win_of i m = (if lm_winner m \<noteq> [] \<and> lm_winner m = i then 1 else 0)"

definition loss_of :: "string \<Rightarrow> lmatch \<Rightarrow> int" where
  "loss_of i m = (if lm_winner m \<noteq> [] \<and> match_loser m = i then 1 else 0)"

definition tie_of :: "string \<Rightarrow> lmatch \<Rightarrow> int" where
  "tie_of i m = (if lm_winner m = [] then (if lm_a m = i then 1 else 0) + (if lm_b m = i then 1 else 0) else 0)"

lemma fold_record:
  "fold (\<lambda>m. add_record m i) ms (w, l, t)
   = (w + sum_list (map (win_of i) ms), l + sum_list (map (loss_of i) ms), t + sum_list (map (tie_of i) ms))"
  by (induction ms arbitrary: w l t) (auto simp: add_record_def win_of_def loss_of_def tie_of_def)

lemma ladder_record_sums:
  "ladder_record dv d i = (let ms = filter (\<lambda>m. lm_div m = dv) (ld_matches d) in
    (sum_list (map (win_of i) ms), sum_list (map (loss_of i) ms), sum_list (map (tie_of i) ms)))"
  by (simp add: ladder_record_def fold_record Let_def)

definition valid_match :: "lmatch \<Rightarrow> bool" where
  "valid_match m \<longleftrightarrow> lm_winner m = [] \<or> lm_winner m = lm_a m \<or> lm_winner m = lm_b m"

text \<open>Both sides of a match are one of the two.\<close>

definition between :: "string \<Rightarrow> string \<Rightarrow> lmatch \<Rightarrow> bool" where
  "between k m x \<longleftrightarrow> lm_a x \<in> {k, m} \<and> lm_b x \<in> {k, m}"

definition repoint_match :: "string \<Rightarrow> string \<Rightarrow> lmatch \<Rightarrow> lmatch" where
  "repoint_match k m x = (let r = (\<lambda>i. if i = m then k else i) in
    x\<lparr>lm_a := r (lm_a x), lm_b := r (lm_b x), lm_winner := r (lm_winner x)\<rparr>)"

text \<open>The documented delete: the entrant and, by the foreign keys, every match of theirs.\<close>

definition remove_cascades :: "ladder_rpc \<Rightarrow> bool" where
  "remove_cascades R \<longleftrightarrow> (\<forall>i d d'. rpc_remove R i d = Some d' \<longrightarrow>
    ld_matches d' = filter (\<lambda>m. lm_a m \<noteq> i \<and> lm_b m \<noteq> i) (ld_matches d)
    \<and> map (\<lambda>e. e\<lparr>en_pos := 0\<rparr>) (ld_entrants d') = map (\<lambda>e. e\<lparr>en_pos := 0\<rparr>) (filter (\<lambda>e. en_id e \<noteq> i) (ld_entrants d)))"

lemma repoint_record:
  assumes "valid_match x" "\<not> between k m x" "k \<noteq> m" "k \<noteq> []" "m \<noteq> []"
  shows "win_of k (repoint_match k m x) = win_of k x + win_of m x"
    "loss_of k (repoint_match k m x) = loss_of k x + loss_of m x"
    "tie_of k (repoint_match k m x) = tie_of k x + tie_of m x"
    "i \<noteq> k \<Longrightarrow> i \<noteq> m \<Longrightarrow> win_of i (repoint_match k m x) = win_of i x"
    "i \<noteq> k \<Longrightarrow> i \<noteq> m \<Longrightarrow> loss_of i (repoint_match k m x) = loss_of i x"
    "i \<noteq> k \<Longrightarrow> i \<noteq> m \<Longrightarrow> tie_of i (repoint_match k m x) = tie_of i x"
  using assms
  by (auto simp: valid_match_def between_def repoint_match_def win_of_def loss_of_def tie_of_def match_loser_def Let_def)

definition add_records :: "int \<times> int \<times> int \<Rightarrow> int \<times> int \<times> int \<Rightarrow> int \<times> int \<times> int" where
  "add_records x y = (case (x, y) of ((a, b, c), (a', b', c')) \<Rightarrow> (a + a', b + b', c + c'))"

lemma record_repointed:
  assumes valid: "list_all valid_match (ld_matches d)" and km: "k \<noteq> m" "k \<noteq> []" "m \<noteq> []"
    and after: "ld_matches d' = map (repoint_match k m) (filter (\<lambda>x. \<not> between k m x) (ld_matches d))"
    and d0: "ld_matches d0 = filter (\<lambda>x. \<not> between k m x) (ld_matches d)"
  shows "ladder_record dv d' k = add_records (ladder_record dv d0 k) (ladder_record dv d0 m)"
    "i \<noteq> k \<Longrightarrow> i \<noteq> m \<Longrightarrow> ladder_record dv d' i = ladder_record dv d0 i"
proof -
  let ?ms = "filter (\<lambda>x. lm_div x = dv) (ld_matches d0)"
  have dv: "filter (\<lambda>x. lm_div x = dv) (ld_matches d') = map (repoint_match k m) ?ms"
    unfolding after d0 filter_map by (simp add: comp_def repoint_match_def Let_def conj_commute)
  have R: "valid_match x" "\<not> between k m x" if "x \<in> set ?ms" for x
    using that valid by (auto simp: d0 list_all_iff)
  note S = repoint_record [OF R km]
  have eqs: "map (\<lambda>x. win_of k (repoint_match k m x)) ?ms = map (\<lambda>x. win_of k x + win_of m x) ?ms"
    "map (\<lambda>x. loss_of k (repoint_match k m x)) ?ms = map (\<lambda>x. loss_of k x + loss_of m x) ?ms"
    "map (\<lambda>x. tie_of k (repoint_match k m x)) ?ms = map (\<lambda>x. tie_of k x + tie_of m x) ?ms"
    using S(1-3) by (auto cong: map_cong)
  show "ladder_record dv d' k = add_records (ladder_record dv d0 k) (ladder_record dv d0 m)"
    unfolding ladder_record_sums Let_def dv map_map comp_def eqs add_records_def
    by (simp add: sum_list_addf)
  assume i: "i \<noteq> k" "i \<noteq> m"
  have eqs': "map (\<lambda>x. win_of i (repoint_match k m x)) ?ms = map (win_of i) ?ms"
    "map (\<lambda>x. loss_of i (repoint_match k m x)) ?ms = map (loss_of i) ?ms"
    "map (\<lambda>x. tie_of i (repoint_match k m x)) ?ms = map (tie_of i) ?ms"
    using S(4-6) [OF _ _ i] by (auto cong: map_cong)
  show "ladder_record dv d' i = ladder_record dv d0 i"
    unfolding ladder_record_sums Let_def dv map_map comp_def eqs' ..
qed

lemma record_without_between:
  assumes "i \<noteq> k" "i \<noteq> m" "list_all valid_match (ld_matches d)"
  shows "ladder_record dv (d\<lparr>ld_matches := filter (\<lambda>x. \<not> between k m x) (ld_matches d)\<rparr>) i = ladder_record dv d i"
proof -
  have "fold (\<lambda>m. add_record m i) (filter (\<lambda>x. lm_div x = dv) (filter (\<lambda>x. \<not> between k m x) ms)) acc
    = fold (\<lambda>m. add_record m i) (filter (\<lambda>x. lm_div x = dv) ms) acc" if "list_all valid_match ms" for ms acc
    using that assms(1,2)
    by (induction ms arbitrary: acc) (auto simp: between_def add_record_def match_loser_def valid_match_def)
  then show ?thesis using assms(3) by (simp add: ladder_record_def)
qed

lemma void_same [simp]:
  "ld_matches (voidActiveChallengesForEntrant now e d) = ld_matches d"
  "ld_entrants (voidActiveChallengesForEntrant now e d) = ld_entrants d"
  by (simp_all add: voidActiveChallengesForEntrant_def)

lemma mirror_same [simp]:
  "ld_matches (removeLadderMirrorRegistration dv p d) = ld_matches d"
  "ld_entrants (removeLadderMirrorRegistration dv p d) = ld_entrants d"
  by (auto simp: removeLadderMirrorRegistration_def Let_def split: option.split)

lemma repointed_matches:
  assumes "k \<noteq> m"
  shows "ld_matches (drop_self k (repoint k m d)) = map (repoint_match k m) (filter (\<lambda>x. \<not> between k m x) (ld_matches d))"
    "list_all (\<lambda>x. lm_a x \<noteq> m \<and> lm_b x \<noteq> m) (ld_matches (drop_self k (repoint k m d)))"
proof -
  have one: "(lm_a (repoint_match k m x) = k \<longrightarrow> lm_b (repoint_match k m x) \<noteq> k) = (\<not> between k m x)" for x
    using assms by (auto simp: repoint_match_def between_def Let_def)
  have "ld_matches (repoint k m d) = map (repoint_match k m) (ld_matches d)"
    by (simp add: repoint_def repoint_match_def Let_def)
  then show "ld_matches (drop_self k (repoint k m d)) = map (repoint_match k m) (filter (\<lambda>x. \<not> between k m x) (ld_matches d))"
    by (simp add: drop_self_def filter_map comp_def one)
  then show "list_all (\<lambda>x. lm_a x \<noteq> m \<and> lm_b x \<noteq> m) (ld_matches (drop_self k (repoint k m d)))"
    using assms by (auto simp: list_all_iff repoint_match_def Let_def)
qed

lemma repoint_entrants [simp]:
  "ld_entrants (drop_self k (repoint k m d)) = ld_entrants d"
  by (simp add: drop_self_def repoint_def Let_def)

lemma find_entrant_SomeD: "find_entrant i d = Some e \<Longrightarrow> e \<in> set (ld_entrants d) \<and> en_id e = i"
  unfolding find_entrant_def find_Some_iff by auto

lemma find_entrant_repointed [simp]: "find_entrant i (drop_self k (repoint k m d)) = find_entrant i d"
  by (simp add: find_entrant_def)

text \<open>A merge whose duplicate alone is linked to an account: the survivor would carry the link while the
  duplicate still has it, which the unique index refuses.\<close>

lemma merge_of_linked_duplicate_fails:
  assumes "trim keepID = k" "trim mergeID = m" "k \<noteq> []" "m \<noteq> []" "k \<noteq> m"
    and "find_entrant k d = Some keep" "find_entrant m d = Some loser" "en_div keep = en_div loser"
    and "en_player keep = []" "en_player loser \<noteq> []"
  shows "MergeLadderEntrants R now keepID mergeID d = (Inl UniqueViolation, drop_self k (repoint k m d))"
proof -
  have "loser \<in> set (ld_entrants d)" "en_id loser = m" using find_entrant_SomeD [OF assms(7)] by auto
  then have "list_ex (\<lambda>e'. en_id e' \<noteq> k \<and> en_div e' = en_div keep \<and> en_player e' = en_player loser) (ld_entrants d)"
    using assms(5,8) by (auto simp: list_ex_iff)
  then have "set_player k (en_player loser) (drop_self k (repoint k m d)) = None"
    using assms(6,10) by (simp add: set_player_def)
  then show ?thesis using assms by (simp add: MergeLadderEntrants_def Let_def)
qed

text \<open>
  C29: Merging a duplicate into its survivor moves the whole record: when the merge succeeds nobody but the
  duplicate leaves the ladder, the survivor's wins, losses and ties are those of both against everyone
  else, games between the two are dropped, the duplicate is in no match any more, and nobody else's
  record changes.
\<close>
theorem merge_keeps_the_record:
  assumes "remove_cascades R" "list_all valid_match (ld_matches d)"
    and "MergeLadderEntrants R now keepID mergeID d = (Inr (), d')"
  defines "k \<equiv> trim keepID" and "m \<equiv> trim mergeID"
  defines "d0 \<equiv> d\<lparr>ld_matches := filter (\<lambda>x. \<not> between k m x) (ld_matches d)\<rparr>"
  shows "ladder_record dv d' k = add_records (ladder_record dv d0 k) (ladder_record dv d0 m)
    \<and> (\<forall>i. i \<noteq> k \<and> i \<noteq> m \<longrightarrow> ladder_record dv d' i = ladder_record dv d i)
    \<and> (\<forall>x\<in>set (ld_matches d'). lm_a x \<noteq> m \<and> lm_b x \<noteq> m)
    \<and> map en_id (ld_entrants d') = filter (\<lambda>i. i \<noteq> m) (map en_id (ld_entrants d))"
proof -
  have ne: "k \<noteq> []" "m \<noteq> []" "k \<noteq> m" using assms(3) by (auto simp: MergeLadderEntrants_def Let_def k_def m_def split: if_splits)
  obtain keep loser where F: "find_entrant k d = Some keep" "find_entrant m d = Some loser" "en_div keep = en_div loser"
    using assms(3) ne by (auto simp: MergeLadderEntrants_def Let_def k_def [symmetric] m_def [symmetric] split: option.splits if_splits)
  have linked: "\<not> (en_player keep = [] \<and> en_player loser \<noteq> [])"
    using merge_of_linked_duplicate_fails [of keepID k mergeID m d keep loser R now] F ne assms(3)
    by (auto simp: k_def [symmetric] m_def [symmetric])
  let ?d1 = "drop_self k (repoint k m d)"
  have "RemoveLadderEntrant R now m ?d1 = (Inr (), d')"
    using assms(3) F ne linked by (auto simp: MergeLadderEntrants_def Let_def k_def [symmetric] m_def [symmetric])
  then obtain d2 dv' p where d2: "rpc_remove R m (voidActiveChallengesForEntrant now m ?d1) = Some d2"
    "d' = removeLadderMirrorRegistration dv' p d2"
    by (auto simp: RemoveLadderEntrant_def Let_def split: if_splits option.splits prod.splits)
  have cas: "ld_matches d2 = filter (\<lambda>x. lm_a x \<noteq> m \<and> lm_b x \<noteq> m) (ld_matches ?d1)"
    "map (\<lambda>e. e\<lparr>en_pos := 0\<rparr>) (ld_entrants d2) = map (\<lambda>e. e\<lparr>en_pos := 0\<rparr>) (filter (\<lambda>e. en_id e \<noteq> m) (ld_entrants ?d1))"
    using assms(1) d2(1) unfolding remove_cascades_def by fastforce+
  have ms: "ld_matches d' = map (repoint_match k m) (filter (\<lambda>x. \<not> between k m x) (ld_matches d))"
    using repointed_matches [OF ne(3), of d] by (simp add: d2(2) cas(1) filter_id_conv list_all_iff)
  have d0: "ld_matches d0 = filter (\<lambda>x. \<not> between k m x) (ld_matches d)" by (simp add: d0_def)
  note rec = record_repointed [OF assms(2) ne(3,1,2) ms d0]
  have "map en_id (ld_entrants d2) = map en_id (map (\<lambda>e. e\<lparr>en_pos := 0\<rparr>) (ld_entrants d2))" by (simp add: comp_def)
  also have "\<dots> = filter (\<lambda>i. i \<noteq> m) (map en_id (ld_entrants d))" unfolding cas(2) by (simp add: comp_def filter_map)
  finally have "map en_id (ld_entrants d') = filter (\<lambda>i. i \<noteq> m) (map en_id (ld_entrants d))" by (simp add: d2(2))
  moreover have "\<forall>x\<in>set (ld_matches d'). lm_a x \<noteq> m \<and> lm_b x \<noteq> m" by (simp add: d2(2) cas(1))
  moreover have "ladder_record dv d' i = ladder_record dv d i" if "i \<noteq> k" "i \<noteq> m" for i
    using rec(2) [OF that] record_without_between [OF that assms(2)] unfolding d0_def by simp
  ultimately show ?thesis using rec(1) by blast
qed

definition sql_remove :: "string \<Rightarrow> ladder_db \<Rightarrow> ladder_db option" where
  "sql_remove i d = Some (d\<lparr>ld_entrants := filter (\<lambda>e. en_id e \<noteq> i) (ld_entrants d),
    ld_matches := filter (\<lambda>m. lm_a m \<noteq> i \<and> lm_b m \<noteq> i) (ld_matches d)\<rparr>)"

definition demo_rpc :: ladder_rpc where
  "demo_rpc = \<lparr>rpc_apply = (\<lambda>_ _ _ _ _ _. None), rpc_move = (\<lambda>_ _ _. None), rpc_remove = sql_remove,
    rpc_resolve = (\<lambda>_ _ _ _ _ _ _. None), rpc_newId = (\<lambda>_. ''new'')\<rparr>"

definition demo_entrant :: "string \<Rightarrow> string \<Rightarrow> int \<Rightarrow> entrant" where
  "demo_entrant i p pos = \<lparr>en_id = i, en_div = ''d'', en_name = i, en_player = p, en_team = False, en_pos = pos\<rparr>"

definition demo_result :: "string \<Rightarrow> string \<Rightarrow> string \<Rightarrow> lmatch" where
  "demo_result a b w = \<lparr>lm_id = a @ b, lm_div = ''d'', lm_a = a, lm_b = b, lm_winner = w, lm_score = []\<rparr>"

definition demo_ladder :: ladder_db where
  "demo_ladder = \<lparr>ld_entrants = [demo_entrant ''jen'' ''p1'' 1, demo_entrant ''bo'' [] 2, demo_entrant ''jenw'' [] 3],
    ld_matches = [demo_result ''jen'' ''bo'' ''jen'', demo_result ''jenw'' ''bo'' ''bo'', demo_result ''jenw'' ''bo'' ''jenw'',
      demo_result ''jen'' ''jenw'' ''jen''],
    ld_challenges = [], ld_session = [], ld_divs = [(''d'', ''l'')], ld_leagues = [], ld_events = [(''ev'', ''l'', True)],
    ld_regs = [\<lparr>lr_id = ''r1'', lr_event = ''ev'', lr_player = ''p1'', lr_payment = [], lr_approved = True\<rparr>,
      \<lparr>lr_id = ''r2'', lr_event = ''ev'', lr_player = ''p2'', lr_payment = [], lr_approved = True\<rparr>],
    ld_players = [\<lparr>pl_id = ''p2'', pl_user = ''u2'', pl_name = ''Ann'', pl_phone = []\<rparr>]\<rparr>"

lemmas demo_ladder_defs = demo_ladder_def demo_entrant_def demo_result_def

theorem merge_keeps_the_record_witness:
  "\<exists>d'. MergeLadderEntrants demo_rpc 0 ''jen'' ''jenw'' demo_ladder = (Inr (), d')
    \<and> ladder_record ''d'' d' ''jen'' = (2, 1, 0)"
proof -
  have casc: "remove_cascades demo_rpc"
    by (auto simp: remove_cascades_def demo_rpc_def sql_remove_def)
  have valid: "list_all valid_match (ld_matches demo_ladder)"
    by (simp add: demo_ladder_defs valid_match_def)
  have tr: "trim ''jen'' = ''jen''" "trim ''jenw'' = ''jenw''" by code_simp+
  obtain d' where run: "MergeLadderEntrants demo_rpc 0 ''jen'' ''jenw'' demo_ladder = (Inr (), d')"
    by (simp add: MergeLadderEntrants_def tr Let_def find_entrant_def demo_ladder_defs RemoveLadderEntrant_def demo_rpc_def
        sql_remove_def split: prod.split option.split)
  let ?d0 = "demo_ladder\<lparr>ld_matches := filter (\<lambda>x. \<not> between ''jen'' ''jenw'' x) (ld_matches demo_ladder)\<rparr>"
  have "ladder_record ''d'' d' ''jen'' = add_records (ladder_record ''d'' ?d0 ''jen'') (ladder_record ''d'' ?d0 ''jenw'')"
    using merge_keeps_the_record [OF casc valid run, of "''d''"] unfolding tr by blast
  also have "\<dots> = (2, 1, 0)"
    by (simp add: ladder_record_sums demo_ladder_defs between_def win_of_def loss_of_def tie_of_def match_loser_def add_records_def)
  finally show ?thesis using run by blast
qed

section \<open>Bringing the registered players onto the ladder\<close>

definition missing_entry :: "ladder_db \<Rightarrow> string \<Rightarrow> (string \<times> string) option" where
  "missing_entry d p = (case List.find (\<lambda>pl. pl_id pl = p) (ld_players d) of
     None \<Rightarrow> None
   | Some pl \<Rightarrow> if take 6 (pl_phone pl) = ''+15553'' then None
       else if trim (pl_name pl) = [] then None else Some (p, trim (pl_name pl)))"

fun missing_loop :: "ladder_db \<Rightarrow> string set \<Rightarrow> string list \<Rightarrow> lreg list \<Rightarrow> (string \<times> string) list" where
  "missing_loop d on seen [] = []"
| "missing_loop d on seen (r # rs) = (let p = lr_player r in
    if p = [] \<or> p \<in> on \<or> p \<in> set seen then missing_loop d on seen rs
    else (case missing_entry d p of None \<Rightarrow> [] | Some e \<Rightarrow> [e]) @ missing_loop d on (p # seen) rs)"

definition on_ladders :: "string \<Rightarrow> ladder_db \<Rightarrow> string set" where
  "on_ladders lid d = set (map en_player (filter (\<lambda>e. en_player e \<noteq> []
    \<and> list_ex (\<lambda>(dv, l). dv \<noteq> [] \<and> l = lid \<and> en_div e = dv) (ld_divs d)) (ld_entrants d)))"

definition league_regs :: "string \<Rightarrow> ladder_db \<Rightarrow> lreg list" where
  "league_regs lid d = take 10000 (filter (\<lambda>r. lr_approved r \<and> lr_event r \<noteq> []
    \<and> list_ex (\<lambda>(ev, l, _). l = lid \<and> ev = lr_event r) (ld_events d)) (ld_regs d))"

definition missingLadderPlayers :: "string \<Rightarrow> ladder_db \<Rightarrow> ladder_error + (string \<times> string) list \<times> nat" where
  "missingLadderPlayers dv d = (case map_of (ld_divs d) dv of
     None \<Rightarrow> Inl LNotFound
   | Some lid \<Rightarrow> if lid = [] then Inr ([], 0)
       else Inr (sort_by (\<lambda>a b. snd a < snd b) (missing_loop d (on_ladders lid d) [] (league_regs lid d)),
         if dv = [] then 0 else length (ladder_rows dv d)))"

definition LadderSync :: "string \<Rightarrow> ladder_db \<Rightarrow> ladder_error + nat \<times> nat" where
  "LadderSync dv d = (case missingLadderPlayers dv d of
     Inl e \<Rightarrow> Inl e | Inr (missing, onLadder) \<Rightarrow> Inr (length missing, onLadder))"

fun add_missing :: "ladder_rpc \<Rightarrow> string \<Rightarrow> (string \<times> string) list \<Rightarrow> nat \<times> ladder_db \<Rightarrow> nat \<times> ladder_db" where
  "add_missing R dv [] st = st"
| "add_missing R dv ((p, name) # ms) (n, d) = add_missing R dv ms
    (case AddLadderEntrant R dv \<lparr>ar_name = name, ar_player = p, ar_team = False, ar_allowDuplicate = False\<rparr> d of
       (Inl e, d') \<Rightarrow> (n, d')
     | (Inr e, d') \<Rightarrow> (n + 1, d'))"

definition AddRegisteredToLadder :: "ladder_rpc \<Rightarrow> string \<Rightarrow> ladder_db \<Rightarrow> nat lres" where
  "AddRegisteredToLadder R dv d = (case missingLadderPlayers dv d of
     Inl e \<Rightarrow> (Inl e, d)
   | Inr (missing, _) \<Rightarrow> (case add_missing R dv missing (0, d) of (n, d') \<Rightarrow> (Inr n, d')))"

text \<open>What adding does to the tables: entrants are appended to the division, nothing else changes.\<close>

definition appended :: "string \<Rightarrow> ladder_db \<Rightarrow> ladder_db \<Rightarrow> bool" where
  "appended dv d d' \<longleftrightarrow> (\<exists>es. d' = d\<lparr>ld_entrants := ld_entrants d @ es\<rparr> \<and> (\<forall>e\<in>set es. en_div e = dv))"

lemma appended_refl: "appended dv d d"
  unfolding appended_def by (rule exI [of _ "[]"]) simp

lemma appended_trans: "appended dv a b \<Longrightarrow> appended dv b c \<Longrightarrow> appended dv a c"
  unfolding appended_def by (elim exE conjE) (rule_tac x = "es @ esa" in exI, auto)

lemma appended_entrants: "appended dv d d' \<Longrightarrow> set (ld_entrants d) \<subseteq> set (ld_entrants d')"
  by (auto simp: appended_def)

lemma name_taken_mono: "appended dv d d' \<Longrightarrow> ladderNameTaken dv n d \<Longrightarrow> ladderNameTaken dv n d'"
  by (auto simp: appended_def ladderNameTaken_def)

definition sync_request :: "string \<Rightarrow> string \<Rightarrow> add_request" where
  "sync_request p name = \<lparr>ar_name = name, ar_player = p, ar_team = False, ar_allowDuplicate = False\<rparr>"

lemma add_entrant_cases:
  assumes "trim p = p" "p \<noteq> []" "trim n \<noteq> []" "\<forall>e\<in>set (ld_entrants d). en_div e = dv \<longrightarrow> en_player e \<noteq> p"
  obtains (taken) "AddLadderEntrant R dv (sync_request p n) d = (Inl DuplicateName, d)" "ladderNameTaken dv n d"
    | (added) e where "AddLadderEntrant R dv (sync_request p n) d = (Inr e, d\<lparr>ld_entrants := ld_entrants d @ [e]\<rparr>)"
      "en_div e = dv" "en_player e = p"
proof -
  have "List.find (\<lambda>e. en_div e = dv \<and> en_player e = p) (ld_entrants d) = None"
    using assms(4) by (auto simp: find_None_iff)
  then show ?thesis
    using assms(1-3) taken added
    by (cases "ladderNameTaken dv n d") (auto simp: AddLadderEntrant_def sync_request_def Let_def)
qed

definition settled :: "string \<Rightarrow> ladder_db \<Rightarrow> string \<times> string \<Rightarrow> bool" where
  "settled dv d e \<longleftrightarrow> (case e of (p, n) \<Rightarrow>
    (\<exists>x\<in>set (ld_entrants d). en_div x = dv \<and> en_player x = p) \<or> ladderNameTaken dv n d)"

lemma settled_mono: "appended dv d d' \<Longrightarrow> settled dv d e \<Longrightarrow> settled dv d' e"
  using appended_entrants [of dv d d'] name_taken_mono [of dv d d']
  by (auto simp: settled_def split: prod.splits)

lemma add_missing_settles:
  assumes "\<forall>(p, n)\<in>set ms. trim p = p \<and> p \<noteq> [] \<and> trim n \<noteq> []" "distinct (map fst ms)"
    and "\<forall>(p, n)\<in>set ms. \<forall>e\<in>set (ld_entrants d). en_div e = dv \<longrightarrow> en_player e \<noteq> p"
  shows "\<exists>k d'. add_missing R dv ms (c, d) = (c + k, d') \<and> appended dv d d'
    \<and> length (ld_entrants d') = length (ld_entrants d) + k \<and> (\<forall>e\<in>set ms. settled dv d' e)"
  using assms
proof (induction ms arbitrary: c d)
  case Nil
  then show ?case using appended_refl by auto
next
  case (Cons e ms)
  obtain p n where e: "e = (p, n)" by (cases e)
  have pn: "trim p = p" "p \<noteq> []" "trim n \<noteq> []" "\<forall>x\<in>set (ld_entrants d). en_div x = dv \<longrightarrow> en_player x \<noteq> p"
    using Cons.prems by (auto simp: e)
  have rest: "\<forall>(p, n)\<in>set ms. trim p = p \<and> p \<noteq> [] \<and> trim n \<noteq> []" "distinct (map fst ms)"
    using Cons.prems(1,2) by auto
  consider (taken) "AddLadderEntrant R dv (sync_request p n) d = (Inl DuplicateName, d)" "ladderNameTaken dv n d"
    | (added) x where "AddLadderEntrant R dv (sync_request p n) d = (Inr x, d\<lparr>ld_entrants := ld_entrants d @ [x]\<rparr>)"
      "en_div x = dv" "en_player x = p"
    using add_entrant_cases [OF pn, of R] by metis
  then show ?case
  proof cases
    case taken
    have "\<exists>k d'. add_missing R dv ms (c, d) = (c + k, d') \<and> appended dv d d'
        \<and> length (ld_entrants d') = length (ld_entrants d) + k \<and> (\<forall>e\<in>set ms. settled dv d' e)"
      by (rule Cons.IH [OF rest]) (use Cons.prems(3) in auto)
    moreover have "settled dv d e" using taken(2) by (simp add: settled_def e)
    ultimately show ?thesis using taken(1) settled_mono by (auto simp: e sync_request_def)
  next
    case (added x)
    let ?d = "d\<lparr>ld_entrants := ld_entrants d @ [x]\<rparr>"
    have ap: "appended dv d ?d" using added(2) by (auto simp: appended_def)
    have "\<forall>(q, n)\<in>set ms. \<forall>y\<in>set (ld_entrants ?d). en_div y = dv \<longrightarrow> en_player y \<noteq> q"
      using Cons.prems(2,3) added(3) by (force simp: e)
    from Cons.IH [OF rest this, of "c + 1"] obtain k d' where
      I: "add_missing R dv ms (c + 1, ?d) = (c + 1 + k, d')" "appended dv ?d d'"
      "length (ld_entrants d') = length (ld_entrants ?d) + k" "\<forall>e\<in>set ms. settled dv d' e" by blast
    have "settled dv ?d e" using added(2,3) by (auto simp: settled_def e)
    then have "settled dv d' e" by (rule settled_mono [OF I(2)])
    then show ?thesis
      using I added(1) appended_trans [OF ap I(2)]
      by (intro exI [of _ "k + 1"] exI [of _ d']) (simp add: e sync_request_def)
  qed
qed

lemma trim_nonempty: "trim s \<noteq> [] \<Longrightarrow> trim (trim s) \<noteq> []"
proof -
  have nil: "trim t = [] \<longleftrightarrow> (\<forall>c\<in>set t. space_char c)" for t
    by (auto simp: trim_def dropWhile_eq_Nil_conv dest: set_dropWhileD)
      (metis dropWhile_eq_Nil_conv list.set_sel(1) hd_dropWhile in_set_conv_decomp set_dropWhileD)
  assume ne: "trim s \<noteq> []"
  then have "dropWhile space_char (rev (dropWhile space_char s)) \<noteq> []" by (simp add: trim_def)
  then have "\<not> space_char (hd (rev (trim s)))" unfolding trim_def rev_rev_ident by (rule hd_dropWhile)
  moreover have "hd (rev (trim s)) \<in> set (trim s)" using ne by (metis hd_in_set rev_is_Nil_conv set_rev)
  ultimately show ?thesis unfolding nil by blast
qed

lemma missing_entry_SomeD: "missing_entry d p = Some (q, n) \<Longrightarrow> q = p \<and> trim n \<noteq> []"
  by (auto simp: missing_entry_def trim_nonempty split: option.splits if_splits)

lemma missing_loop_iff:
  "(p, n) \<in> set (missing_loop d on seen rs) \<longleftrightarrow>
    p \<noteq> [] \<and> p \<notin> on \<and> p \<notin> set seen \<and> (\<exists>r\<in>set rs. lr_player r = p) \<and> missing_entry d p = Some (p, n)"
proof (induction rs arbitrary: seen)
  case Nil
  then show ?case by simp
next
  case (Cons r rs)
  show ?case
  proof (cases "lr_player r = [] \<or> lr_player r \<in> on \<or> lr_player r \<in> set seen")
    case True
    then have "missing_loop d on seen (r # rs) = missing_loop d on seen rs" by (auto simp: Let_def)
    then show ?thesis using Cons True by auto
  next
    case False
    then have un: "missing_loop d on seen (r # rs) = (case missing_entry d (lr_player r) of None \<Rightarrow> [] | Some e \<Rightarrow> [e])
        @ missing_loop d on (lr_player r # seen) rs" by (simp add: Let_def)
    have "(p, n) \<in> set (case missing_entry d (lr_player r) of None \<Rightarrow> [] | Some e \<Rightarrow> [e])
        \<longleftrightarrow> p = lr_player r \<and> missing_entry d p = Some (p, n)"
      by (cases "missing_entry d (lr_player r)") (auto dest: missing_entry_SomeD)
    then show ?thesis unfolding un set_append Un_iff Cons.IH using False by auto
  qed
qed

lemma missing_loop_distinct: "distinct (map fst (missing_loop d on seen rs))"
proof (induction rs arbitrary: seen)
  case Nil
  then show ?case by simp
next
  case (Cons r rs)
  have "fst x \<noteq> lr_player r" if "x \<in> set (missing_loop d on (lr_player r # seen) rs)" for x
    using that missing_loop_iff [of "fst x" "snd x"] by auto
  moreover have "fst e = lr_player r" if "missing_entry d (lr_player r) = Some e" for e
    using that missing_entry_SomeD by (cases e) auto
  ultimately show ?case using Cons by (auto simp: Let_def split: option.split)
qed

lemma add_missing_refused:
  assumes "\<forall>(p, n)\<in>set ms. trim p = p \<and> p \<noteq> [] \<and> trim n \<noteq> [] \<and> ladderNameTaken dv n d
    \<and> (\<forall>e\<in>set (ld_entrants d). en_div e = dv \<longrightarrow> en_player e \<noteq> p)"
  shows "add_missing R dv ms (c, d) = (c, d)"
  using assms
proof (induction ms)
  case Nil
  then show ?case by simp
next
  case (Cons e ms)
  obtain p n where e: "e = (p, n)" by (cases e)
  have pn: "trim p = p" "p \<noteq> []" "trim n \<noteq> []" "\<forall>x\<in>set (ld_entrants d). en_div x = dv \<longrightarrow> en_player x \<noteq> p"
    "ladderNameTaken dv n d"
    using Cons.prems by (auto simp: e)
  have "List.find (\<lambda>e. en_div e = dv \<and> en_player e = p) (ld_entrants d) = None"
    using pn(4) by (auto simp: find_None_iff)
  then have "AddLadderEntrant R dv (sync_request p n) d = (Inl DuplicateName, d)"
    using pn by (simp add: AddLadderEntrant_def sync_request_def Let_def)
  then show ?case using Cons by (simp add: e sync_request_def)
qed

lemma on_ladders_iff:
  assumes "map_of (ld_divs d) dv = Some lid" "dv \<noteq> []" "e \<in> set (ld_entrants d)" "en_div e = dv" "en_player e \<noteq> []"
  shows "en_player e \<in> on_ladders lid d"
proof -
  have "(dv, lid) \<in> set (ld_divs d)" using assms(1) by (rule map_of_SomeD)
  then have "list_ex (\<lambda>(dv, l). dv \<noteq> [] \<and> l = lid \<and> en_div e = dv) (ld_divs d)"
    using assms(2,4) by (auto simp: list_ex_iff)
  then show ?thesis using assms(3,5) unfolding on_ladders_def by auto
qed

text \<open>
  Bringing the registered players onto a ladder (\<open>AddRegisteredToLadder\<close>) is idempotent: it only appends
  entrants to that division, as many as it reports, and pressing it again adds nobody and changes
  nothing, whatever names were refused the first time.
\<close>
theorem adding_registered_is_idempotent:
  assumes "dv \<noteq> []" "\<forall>r\<in>set (ld_regs d). trim (lr_player r) = lr_player r"
    and "AddRegisteredToLadder R dv d = (Inr n, d1)"
  shows "appended dv d d1 \<and> length (ld_entrants d1) = length (ld_entrants d) + n
    \<and> AddRegisteredToLadder R dv d1 = (Inr 0, d1)"
proof -
  obtain lid where lid: "map_of (ld_divs d) dv = Some lid"
    using assms(3) by (auto simp: AddRegisteredToLadder_def missingLadderPlayers_def split: option.splits)
  show ?thesis
  proof (cases "lid = []")
    case True
    then have "missingLadderPlayers dv d = Inr ([], 0)" using lid by (simp add: missingLadderPlayers_def)
    then show ?thesis using assms(3) appended_refl by (auto simp: AddRegisteredToLadder_def)
  next
    case False
    let ?missing = "\<lambda>d. sort_by (\<lambda>a b. snd a < snd b) (missing_loop d (on_ladders lid d) [] (league_regs lid d))"
    have M: "missingLadderPlayers dv x = Inr (?missing x, length (ladder_rows dv x))"
      if "ld_divs x = ld_divs d" for x
      using lid False assms(1) that by (simp add: missingLadderPlayers_def)
    have run: "add_missing R dv (?missing d) (0, d) = (n, d1)"
      using assms(3) M [OF HOL.refl] by (simp add: AddRegisteredToLadder_def split: prod.splits)
    have regs: "lr_player r = trim (lr_player r)" if "r \<in> set (league_regs lid d)" for r
      using that assms(2) by (auto simp: league_regs_def dest: in_set_takeD)
    have in_missing: "(p, m) \<in> set (?missing x) \<longleftrightarrow> p \<noteq> [] \<and> p \<notin> on_ladders lid x
        \<and> (\<exists>r\<in>set (league_regs lid x). lr_player r = p) \<and> missing_entry x p = Some (p, m)" for p m x
      by (simp add: missing_loop_iff)
    have ok: "trim p = p \<and> p \<noteq> [] \<and> trim m \<noteq> []" if "(p, m) \<in> set (?missing d)" for p m
      using that regs missing_entry_SomeD [of d p p m] unfolding in_missing by fastforce
    have apart: "en_player e \<noteq> p"
      if "(p, m) \<in> set (?missing x)" "e \<in> set (ld_entrants x)" "en_div e = dv" "ld_divs x = ld_divs d" for p m e x
      using that on_ladders_iff [of x dv lid e] lid assms(1) unfolding in_missing by auto
    have dist: "distinct (map fst (?missing d))"
    proof -
      have "mset (map fst (?missing d)) = mset (map fst (missing_loop d (on_ladders lid d) [] (league_regs lid d)))"
        by (simp only: mset_map mset_sort_by)
      then show ?thesis using missing_loop_distinct by (metis mset_eq_imp_distinct_iff)
    qed
    from add_missing_settles [OF _ dist, of d dv R 0] ok apart run
    have S: "appended dv d d1" "length (ld_entrants d1) = length (ld_entrants d) + n"
      "\<forall>e\<in>set (?missing d). settled dv d1 e"
      by fastforce+
    obtain es where es: "d1 = d\<lparr>ld_entrants := ld_entrants d @ es\<rparr>" using S(1) by (auto simp: appended_def)
    have same: "league_regs lid d1 = league_regs lid d" "missing_entry d1 = missing_entry d" "ld_divs d1 = ld_divs d"
      by (simp_all add: es league_regs_def missing_entry_def fun_eq_iff)
    have mono: "on_ladders lid d \<subseteq> on_ladders lid d1" by (auto simp: es on_ladders_def)
    have "trim p = p \<and> p \<noteq> [] \<and> trim m \<noteq> [] \<and> ladderNameTaken dv m d1
        \<and> (\<forall>e\<in>set (ld_entrants d1). en_div e = dv \<longrightarrow> en_player e \<noteq> p)" if "(p, m) \<in> set (?missing d1)" for p m
    proof -
      have old: "(p, m) \<in> set (?missing d)"
        using that [unfolded in_missing] mono unfolding in_missing same by blast
      have none: "\<forall>e\<in>set (ld_entrants d1). en_div e = dv \<longrightarrow> en_player e \<noteq> p"
        using apart [OF that _ _ same(3)] by blast
      then have "ladderNameTaken dv m d1" using S(3) old by (auto simp: settled_def)
      then show ?thesis using ok [OF old] none by blast
    qed
    then have "add_missing R dv (?missing d1) (0, d1) = (0, d1)"
      by (intro add_missing_refused) blast
    then show ?thesis using S(1,2) M [OF same(3)] by (simp add: AddRegisteredToLadder_def)
  qed
qed

theorem adding_registered_is_idempotent_witness:
  "\<exists>d1. AddRegisteredToLadder demo_rpc ''d'' demo_ladder = (Inr 1, d1)
    \<and> AddRegisteredToLadder demo_rpc ''d'' d1 = (Inr 0, d1)"
proof -
  have h: "''d'' \<noteq> []" "\<forall>r\<in>set (ld_regs demo_ladder). trim (lr_player r) = lr_player r" by code_simp+
  have "case AddRegisteredToLadder demo_rpc ''d'' demo_ladder of (Inr n, d1) \<Rightarrow> n = 1 | _ \<Rightarrow> False" by code_simp
  then obtain d1 where run: "AddRegisteredToLadder demo_rpc ''d'' demo_ladder = (Inr 1, d1)"
    by (auto split: prod.splits sum.splits)
  then show ?thesis using adding_registered_is_idempotent [OF h run] by blast
qed

end
