(* ===== verification/Ladder_Challenges.thy ===== *)
theory Ladder_Challenges
  imports Ladder
begin

text \<open>
  Player-driven challenges on a ladder, \<open>internal/service/ladder_challenges.go\<close>: issuing, accepting,
  cancelling, voiding, declining and reporting a challenge, the sweep that fires its deadlines, and
  joining a ladder. Every outcome that moves positions goes through the stored procedure
  \<open>resolve_ladder_challenge\<close>, a parameter here (\<open>rpc_resolve\<close>). The challenges table and its columns
  exist; pushes and bell entries are left out; names in messages are not modelled.
\<close>

section \<open>Who acts\<close>

definition playerIDForUser :: "string \<Rightarrow> ladder_db \<Rightarrow> string" where
  "playerIDForUser u d = (case List.find (\<lambda>p. pl_user p = u) (ld_players d) of None \<Rightarrow> [] | Some p \<Rightarrow> pl_id p)"

definition callerEntrantID :: "string \<Rightarrow> string \<Rightarrow> ladder_db \<Rightarrow> string" where
  "callerEntrantID u dv d = (let pid = playerIDForUser u d in
    if pid = [] then []
    else case List.find (\<lambda>e. en_div e = dv \<and> en_player e = pid) (ld_entrants d) of None \<Rightarrow> [] | Some e \<Rightarrow> en_id e)"

definition isLeagueOwner :: "string \<Rightarrow> string \<Rightarrow> ladder_db \<Rightarrow> bool" where
  "isLeagueOwner u dv d \<longleftrightarrow> u \<noteq> [] \<and> LadderOwner d dv = Some u"

datatype party = Challenger | Challenged | Owner | Outsider

definition party_of :: "string \<Rightarrow> challenge \<Rightarrow> ladder_db \<Rightarrow> party" where
  "party_of u c d = (let mine = callerEntrantID u (ch_div c) d in
    if mine \<noteq> [] \<and> mine = ch_challenger c then Challenger
    else if mine \<noteq> [] \<and> mine = ch_challenged c then Challenged
    else if isLeagueOwner u (ch_div c) d then Owner else Outsider)"

definition authorizeChallenge :: "string \<Rightarrow> string \<Rightarrow> ladder_db \<Rightarrow> (challenge \<times> party) option" where
  "authorizeChallenge u i d = map_option (\<lambda>c. (c, party_of u c d)) (find_challenge i d)"

definition ladderRangeForDivision :: "string \<Rightarrow> ladder_db \<Rightarrow> int" where
  "ladderRangeForDivision dv d = (if leagueIDOfDivision d dv = [] then 0
    else case league_of d dv of None \<Rightarrow> 0 | Some lg \<Rightarrow> lg_range lg)"

definition ladderWindowDays :: "string \<Rightarrow> ladder_db \<Rightarrow> int \<times> int" where
  "ladderWindowDays dv d = (if leagueIDOfDivision d dv = [] then (7, 14)
    else case league_of d dv of None \<Rightarrow> (7, 14)
    | Some lg \<Rightarrow> (if lg_responseDays lg > 0 then lg_responseDays lg else 7, if lg_playDays lg > 0 then lg_playDays lg else 14))"

definition day :: int where "day = 86400"

section \<open>Issuing\<close>

definition maxActiveOutgoing :: nat where "maxActiveOutgoing = 3"
definition maxActiveIncoming :: nat where "maxActiveIncoming = 5"

definition openOutgoing :: "string \<Rightarrow> ladder_db \<Rightarrow> challenge list" where
  "openOutgoing e d = filter (\<lambda>c. ch_challenger c = e \<and> active c) (ld_challenges d)"

definition openIncoming :: "string \<Rightarrow> ladder_db \<Rightarrow> challenge list" where
  "openIncoming e d = filter (\<lambda>c. ch_challenged c = e \<and> active c) (ld_challenges d)"

definition cooling :: "int \<Rightarrow> string \<Rightarrow> string \<Rightarrow> challenge \<Rightarrow> bool" where
  "cooling now a b c \<longleftrightarrow> ch_challenger c = a \<and> ch_challenged c = b \<and> ch_status c = ChVoided \<and> ch_playBy c \<noteq> None
    \<and> (case ch_resolvedAt c of None \<Rightarrow> False | Some t \<Rightarrow> t > now - day)"

definition issue_check :: "int \<Rightarrow> string \<Rightarrow> string \<Rightarrow> string \<Rightarrow> ladder_db \<Rightarrow> ladder_error option" where
  "issue_check now me them dv d =
    (if them = [] then Some MissingField
     else if me = [] then Some NotOnLadder
     else if me = them then Some SameEntrant
     else case find_entrant them d of
       None \<Rightarrow> Some OtherDivision
     | Some ce \<Rightarrow>
       if en_div ce \<noteq> dv then Some OtherDivision
       else if en_player ce = [] then Some Unlinked
       else case find_entrant me d of
         None \<Rightarrow> Some DbError
       | Some my \<Rightarrow>
         if en_pos ce \<ge> en_pos my then Some NotAbove
         else let rng = ladderRangeForDivision dv d in
           if rng > 0 \<and> en_pos my - en_pos ce > rng then Some OutOfRange
           else if list_ex (\<lambda>c. ch_challenger c = me \<and> ch_challenged c = them \<and> active c) (ld_challenges d) then Some AlreadyActive
           else if list_ex (cooling now me them) (ld_challenges d) then Some Cooldown
           else if length (openOutgoing me d) \<ge> maxActiveOutgoing then Some TooManyOutgoing
           else if length (openIncoming them d) \<ge> maxActiveIncoming then Some TooManyIncoming
           else None)"

definition IssueChallenge :: "ladder_rpc \<Rightarrow> int \<Rightarrow> string \<Rightarrow> string \<Rightarrow> string \<Rightarrow> ladder_db \<Rightarrow> challenge lres" where
  "IssueChallenge R now u dv target d =
    (let them = trim target; me = callerEntrantID u dv d in
     case issue_check now me them dv d of
       Some e \<Rightarrow> (Inl e, d)
     | None \<Rightarrow>
       let c = \<lparr>ch_id = rpc_newId R d, ch_div = dv, ch_challenger = me, ch_challenged = them, ch_status = ChPending,
                ch_respondBy = now + fst (ladderWindowDays dv d) * day, ch_playBy = None, ch_resolvedAt = None,
                ch_remindedRespond = False, ch_remindedPlay = False\<rparr>
       in (Inr c, d\<lparr>ld_challenges := ld_challenges d @ [c]\<rparr>))"

section \<open>Answering\<close>

text \<open>A guarded update: it applies to the row only in one of the given statuses and reports whether it did.\<close>

definition claim :: "string \<Rightarrow> challenge_status list \<Rightarrow> (challenge \<Rightarrow> challenge) \<Rightarrow> ladder_db \<Rightarrow> unit lres" where
  "claim i sts f d =
    (if list_ex (\<lambda>c. ch_id c = i \<and> ch_status c \<in> set sts) (ld_challenges d)
     then (Inr (), d\<lparr>ld_challenges := map (\<lambda>c. if ch_id c = i \<and> ch_status c \<in> set sts then f c else c) (ld_challenges d)\<rparr>)
     else (Inl LConflict, d))"

definition AcceptChallenge :: "int \<Rightarrow> string \<Rightarrow> string \<Rightarrow> ladder_db \<Rightarrow> unit lres" where
  "AcceptChallenge now u i d = (case authorizeChallenge u i d of
     None \<Rightarrow> (Inl LNotFound, d)
   | Some (c, p) \<Rightarrow> if p \<noteq> Challenged \<and> p \<noteq> Owner then (Inl LForbidden, d)
       else claim i [ChPending] (\<lambda>x. x\<lparr>ch_status := ChAccepted,
         ch_playBy := Some (now + snd (ladderWindowDays (ch_div c) d) * day)\<rparr>) d)"

definition CancelChallenge :: "int \<Rightarrow> string \<Rightarrow> string \<Rightarrow> ladder_db \<Rightarrow> unit lres" where
  "CancelChallenge now u i d = (case authorizeChallenge u i d of
     None \<Rightarrow> (Inl LNotFound, d)
   | Some (c, p) \<Rightarrow> if p \<noteq> Challenger \<and> p \<noteq> Owner then (Inl LForbidden, d)
       else claim i [ChPending] (\<lambda>x. x\<lparr>ch_status := ChCancelled, ch_resolvedAt := Some now\<rparr>) d)"

definition VoidChallenge :: "int \<Rightarrow> string \<Rightarrow> string \<Rightarrow> ladder_db \<Rightarrow> unit lres" where
  "VoidChallenge now u i d = (case authorizeChallenge u i d of
     None \<Rightarrow> (Inl LNotFound, d)
   | Some (c, p) \<Rightarrow> if p \<noteq> Owner then (Inl LForbidden, d)
       else claim i [ChPending, ChAccepted]
         (\<lambda>x. x\<lparr>ch_status := ChVoided, ch_resolvedAt := Some now, ch_playBy := None\<rparr>) d)"

definition resolveChallenge :: "ladder_rpc \<Rightarrow> string \<Rightarrow> challenge_status list \<Rightarrow> challenge_status \<Rightarrow> string \<Rightarrow> string
    \<Rightarrow> int \<Rightarrow> ladder_db \<Rightarrow> challenge_status lres" where
  "resolveChallenge R i expected new side score rng d =
    (case rpc_resolve R i expected new side score rng d of
       None \<Rightarrow> (Inl DbError, d)
     | Some (d', claimed, final) \<Rightarrow> if claimed then (Inr final, d') else (Inl LConflict, d'))"

definition DeclineChallenge :: "ladder_rpc \<Rightarrow> string \<Rightarrow> string \<Rightarrow> ladder_db \<Rightarrow> challenge_status lres" where
  "DeclineChallenge R u i d = (case authorizeChallenge u i d of
     None \<Rightarrow> (Inl LNotFound, d)
   | Some (c, p) \<Rightarrow> if p \<noteq> Challenged \<and> p \<noteq> Owner then (Inl LForbidden, d)
       else resolveChallenge R i [ChPending] ChDeclined ''challenger'' [] (ladderRangeForDivision (ch_div c) d) d)"

definition ReportChallenge :: "ladder_rpc \<Rightarrow> string \<Rightarrow> string \<Rightarrow> string \<Rightarrow> string \<Rightarrow> ladder_db \<Rightarrow> challenge_status lres" where
  "ReportChallenge R u i winner score d = (case authorizeChallenge u i d of
     None \<Rightarrow> (Inl LNotFound, d)
   | Some (c, p) \<Rightarrow>
       if p = Outsider then (Inl LForbidden, d)
       else let side = trim (lower winner) in
         if side \<noteq> ''challenger'' \<and> side \<noteq> ''challenged'' \<and> side \<noteq> ''tie'' then (Inl BadSide, d)
         else if p = Challenger \<and> ch_status c = ChPending then (Inl NotYetAccepted, d)
         else if p = Challenger \<and> ch_status c = ChVoided then (Inl WasVoided, d)
         else resolveChallenge R i [ChPending, ChAccepted, ChVoided] ChCompleted side (trim score)
           (ladderRangeForDivision (ch_div c) d) d)"

section \<open>The sweep\<close>

definition challengeReminderWindow :: int where "challengeReminderWindow = day"

definition late_response :: "int \<Rightarrow> challenge \<Rightarrow> bool" where
  "late_response now c \<longleftrightarrow> ch_status c = ChPending \<and> ch_respondBy c < now"

definition late_play :: "int \<Rightarrow> challenge \<Rightarrow> bool" where
  "late_play now c \<longleftrightarrow> ch_status c = ChAccepted \<and> (case ch_playBy c of None \<Rightarrow> False | Some t \<Rightarrow> t < now)"

definition sweep_select :: "(challenge \<Rightarrow> bool) \<Rightarrow> ladder_db \<Rightarrow> challenge list" where
  "sweep_select P d = take 200 (filter P (ld_challenges d))"

definition forfeit_late :: "ladder_rpc \<Rightarrow> challenge \<Rightarrow> ladder_db \<Rightarrow> ladder_db" where
  "forfeit_late R c d = snd (resolveChallenge R (ch_id c) [ChPending] ChForfeited ''challenger'' []
    (ladderRangeForDivision (ch_div c) d) d)"

definition void_unplayed :: "int \<Rightarrow> challenge \<Rightarrow> ladder_db \<Rightarrow> ladder_db" where
  "void_unplayed now c d = snd (claim (ch_id c) [ChAccepted] (\<lambda>x. x\<lparr>ch_status := ChVoided, ch_resolvedAt := Some now\<rparr>) d)"

definition due_reminder :: "int \<Rightarrow> int \<Rightarrow> bool" where
  "due_reminder now t \<longleftrightarrow> now < t \<and> t < now + challengeReminderWindow"

definition remind_respond :: "int \<Rightarrow> challenge \<Rightarrow> bool" where
  "remind_respond now c \<longleftrightarrow> ch_status c = ChPending \<and> \<not> ch_remindedRespond c \<and> due_reminder now (ch_respondBy c)"

definition remind_play :: "int \<Rightarrow> challenge \<Rightarrow> bool" where
  "remind_play now c \<longleftrightarrow> ch_status c = ChAccepted \<and> \<not> ch_remindedPlay c
    \<and> (case ch_playBy c of None \<Rightarrow> False | Some t \<Rightarrow> due_reminder now t)"

definition mark_reminded :: "challenge_status \<Rightarrow> (challenge \<Rightarrow> bool) \<Rightarrow> (challenge \<Rightarrow> challenge) \<Rightarrow> challenge \<Rightarrow> ladder_db \<Rightarrow> ladder_db" where
  "mark_reminded st reminded f c d = d\<lparr>ld_challenges := map (\<lambda>x. if ch_id x = ch_id c \<and> ch_status x = st \<and> \<not> reminded x
    then f x else x) (ld_challenges d)\<rparr>"

definition SweepLadderChallenges :: "ladder_rpc \<Rightarrow> int \<Rightarrow> ladder_db \<Rightarrow> ladder_db" where
  "SweepLadderChallenges R now d =
    (let d1 = fold (forfeit_late R) (sweep_select (late_response now) d) d;
         d2 = fold (void_unplayed now) (sweep_select (late_play now) d1) d1;
         d3 = fold (mark_reminded ChPending ch_remindedRespond (\<lambda>x. x\<lparr>ch_remindedRespond := True\<rparr>))
                (sweep_select (remind_respond now) d2) d2
     in fold (mark_reminded ChAccepted ch_remindedPlay (\<lambda>x. x\<lparr>ch_remindedPlay := True\<rparr>))
          (sweep_select (remind_play now) d3) d3)"

section \<open>Joining\<close>

text \<open>\<open>member\<close> stands for \<open>IsLeagueParticipant\<close> and \<open>isActiveLeagueMember\<close>, \<open>name\<close> for the profile's name.\<close>

definition displayNameForUser :: "string \<Rightarrow> string" where
  "displayNameForUser name = (if trim name \<noteq> [] then trim name else ''Player'')"

definition ensurePlayerForUser :: "ladder_rpc \<Rightarrow> string \<Rightarrow> string \<Rightarrow> ladder_db \<Rightarrow> string \<times> ladder_db" where
  "ensurePlayerForUser R u name d = (let pid = playerIDForUser u d in
    if pid \<noteq> [] then (pid, d)
    else let i = rpc_newId R d in
      (i, d\<lparr>ld_players := ld_players d @ [\<lparr>pl_id = i, pl_user = u, pl_name = displayNameForUser name, pl_phone = []\<rparr>]\<rparr>))"

definition JoinLadder :: "ladder_rpc \<Rightarrow> (string \<Rightarrow> string \<Rightarrow> bool) \<Rightarrow> string \<Rightarrow> string \<Rightarrow> string \<Rightarrow> ladder_db \<Rightarrow> entrant lres" where
  "JoinLadder R member u name dv d =
    (if trim u = [] then (Inl LForbidden, d)
     else if trim dv = [] then (Inl MissingField, d)
     else if map_of (ld_divs d) dv = None then (Inl LNotFound, d)
     else case league_of d dv of
       None \<Rightarrow> (Inl LNotFound, d)
     | Some lg \<Rightarrow>
       if \<not> lg_listed lg \<and> lg_owner lg \<noteq> u \<and> \<not> member (lg_id lg) u then (Inl LForbidden, d)
       else let (pid, d1) = ensurePlayerForUser R u name d in
         if pid = [] then (Inl DbError, d1)
         else case List.find (\<lambda>e. en_div e = dv \<and> en_player e = pid) (ld_entrants d1) of
           Some e \<Rightarrow> (Inr e, d1)
         | None \<Rightarrow> AddLadderEntrant R dv \<lparr>ar_name = displayNameForUser name, ar_player = pid, ar_team = False,
             ar_allowDuplicate = False\<rparr> d1)"

end
