(* ===== verification/Ladder_Life.thy ===== *)
theory Ladder_Life
  imports Ladder_Challenges
begin

text \<open>
  The life of challenges over any sequence of ladder operations: which status follows which, the limits
  on open challenges, who can move positions, and that the sweep clears what is overdue.
\<close>

section \<open>Operations\<close>

datatype ladder_op =
  Issue string string string
| Accept string string
| CancelCh string string
| VoidCh string string
| Decline string string
| ReportCh string string string string
| Sweep
| Join string string string
| AddEntrant string add_request
| Move string int
| Remove string
| Result string result_request
| SyncRegistered string

definition issues :: "ladder_op \<Rightarrow> bool" where
  "issues x \<longleftrightarrow> (case x of Issue _ _ _ \<Rightarrow> True | _ \<Rightarrow> False)"

definition accepts :: "ladder_op \<Rightarrow> bool" where
  "accepts x \<longleftrightarrow> (case x of Accept _ _ \<Rightarrow> True | _ \<Rightarrow> False)"

definition run_op :: "ladder_rpc \<Rightarrow> (string \<Rightarrow> string \<Rightarrow> bool) \<Rightarrow> int \<Rightarrow> ladder_op \<Rightarrow> ladder_db \<Rightarrow> ladder_db" where
  "run_op R member now x d = (case x of
     Issue u dv target \<Rightarrow> snd (IssueChallenge R now u dv target d)
   | Accept u i \<Rightarrow> snd (AcceptChallenge now u i d)
   | CancelCh u i \<Rightarrow> snd (CancelChallenge now u i d)
   | VoidCh u i \<Rightarrow> snd (VoidChallenge now u i d)
   | Decline u i \<Rightarrow> snd (DeclineChallenge R u i d)
   | ReportCh u i w s \<Rightarrow> snd (ReportChallenge R u i w s d)
   | Sweep \<Rightarrow> SweepLadderChallenges R now d
   | Join u n dv \<Rightarrow> snd (JoinLadder R member u n dv d)
   | AddEntrant dv req \<Rightarrow> snd (AddLadderEntrant R dv req d)
   | Move e p \<Rightarrow> snd (MoveLadderEntrant R now e p d)
   | Remove e \<Rightarrow> snd (RemoveLadderEntrant R now e d)
   | Result dv req \<Rightarrow> snd (RecordLadderResult R now dv req d)
   | SyncRegistered dv \<Rightarrow> snd (AddRegisteredToLadder R dv d))"

text \<open>What the comments of the code promise of the stored procedures: the resolver claims the challenge only
  from the given statuses, sets the given status or voids it, touches no other challenge and moves nobody
  when it voids or does not claim; the others leave challenges alone, but for the cascade of a removal.\<close>

definition same_parties :: "challenge \<Rightarrow> challenge \<Rightarrow> bool" where
  "same_parties c c' \<longleftrightarrow> ch_id c' = ch_id c \<and> ch_div c' = ch_div c \<and> ch_challenger c' = ch_challenger c
    \<and> ch_challenged c' = ch_challenged c"

definition resolver_outcome :: "string \<Rightarrow> challenge_status list \<Rightarrow> challenge_status \<Rightarrow> ladder_db
    \<Rightarrow> ladder_db \<times> bool \<times> challenge_status \<Rightarrow> bool" where
  "resolver_outcome i expected new d r = (case r of (d', claimed, final) \<Rightarrow>
     if claimed then list_ex (\<lambda>c. ch_id c = i \<and> ch_status c \<in> set expected) (ld_challenges d)
        \<and> (final = new \<or> final = ChVoided \<and> ld_entrants d' = ld_entrants d)
        \<and> (\<exists>g. (\<forall>c. same_parties c (g c) \<and> ch_status (g c) = final)
             \<and> ld_challenges d' = map (\<lambda>c. if ch_id c = i then g c else c) (ld_challenges d))
      else d' = d)"

definition resolver_laws :: "ladder_rpc \<Rightarrow> bool" where
  "resolver_laws R \<longleftrightarrow> (\<forall>i expected new side score rng d r.
     rpc_resolve R i expected new side score rng d = Some r \<longrightarrow> resolver_outcome i expected new d r)"

definition rpc_laws :: "ladder_rpc \<Rightarrow> bool" where
  "rpc_laws R \<longleftrightarrow> resolver_laws R
    \<and> (\<forall>d. rpc_newId R d \<notin> ch_id ` set (ld_challenges d))
    \<and> (\<forall>a b w md s d d' i. rpc_apply R a b w md s d = Some (d', i) \<longrightarrow> ld_challenges d' = ld_challenges d)
    \<and> (\<forall>e p d d'. rpc_move R e p d = Some d' \<longrightarrow> ld_challenges d' = ld_challenges d)
    \<and> (\<forall>e d d'. rpc_remove R e d = Some d' \<longrightarrow> ld_challenges d' =
         filter (\<lambda>c. ch_challenger c \<noteq> e \<and> ch_challenged c \<noteq> e) (ld_challenges d))"

section \<open>How a challenge may change\<close>

fun follows :: "challenge_status \<Rightarrow> challenge_status \<Rightarrow> bool" where
  "follows ChPending s = True"
| "follows ChAccepted s = (s \<in> {ChAccepted, ChVoided, ChCompleted})"
| "follows ChVoided s = (s \<in> {ChVoided, ChCompleted})"
| "follows old s = (s = old)"

lemma follows_refl [simp]: "follows s s" by (cases s) auto

lemma follows_trans: "follows a b \<Longrightarrow> follows b c \<Longrightarrow> follows a c"
  by (cases a; cases b; cases c) auto

lemma follows_active: "follows (ch_status c) (ch_status c') \<Longrightarrow> active c' \<Longrightarrow> active c"
  by (cases "ch_status c") (auto simp: active_def)

definition ch_step :: "bool \<Rightarrow> challenge \<Rightarrow> challenge \<Rightarrow> bool" where
  "ch_step acc c c' \<longleftrightarrow> same_parties c c' \<and> follows (ch_status c) (ch_status c')
    \<and> (ch_status c' = ChAccepted \<longrightarrow> acc \<or> ch_status c = ChAccepted)"

lemma ch_step_refl [simp]: "ch_step acc c c" by (simp add: ch_step_def same_parties_def)

lemma ch_step_trans: "ch_step acc a b \<Longrightarrow> ch_step acc b c \<Longrightarrow> ch_step acc a c"
  using follows_trans by (auto simp: ch_step_def same_parties_def)

definition changes :: "bool \<Rightarrow> ladder_db \<Rightarrow> ladder_db \<Rightarrow> bool" where
  "changes acc d d' \<longleftrightarrow> (\<exists>keep f. ld_challenges d' = map f (filter keep (ld_challenges d))
    \<and> (\<forall>c\<in>set (ld_challenges d). ch_step acc c (f c)))"

lemma changesI:
  "ld_challenges d' = map f (filter keep (ld_challenges d)) \<Longrightarrow> (\<And>c. c \<in> set (ld_challenges d) \<Longrightarrow> ch_step acc c (f c)) \<Longrightarrow> changes acc d d'"
  by (auto simp: changes_def)

lemma changes_same: "ld_challenges d' = ld_challenges d \<Longrightarrow> changes acc d d'"
  by (rule changesI [where f = "\<lambda>c. c" and keep = "\<lambda>_. True"]) simp_all

lemma changes_map:
  "ld_challenges d' = map f (ld_challenges d) \<Longrightarrow> (\<And>c. c \<in> set (ld_challenges d) \<Longrightarrow> ch_step acc c (f c)) \<Longrightarrow> changes acc d d'"
  by (rule changesI [where f = f and keep = "\<lambda>_. True"]) auto

lemma changes_trans: "changes acc a b \<Longrightarrow> changes acc b c \<Longrightarrow> changes acc a c"
proof -
  assume "changes acc a b" "changes acc b c"
  then obtain k f k' g where fg: "ld_challenges b = map f (filter k (ld_challenges a))" "\<forall>c\<in>set (ld_challenges a). ch_step acc c (f c)"
    "ld_challenges c = map g (filter k' (ld_challenges b))" "\<forall>c\<in>set (ld_challenges b). ch_step acc c (g c)"
    by (auto simp: changes_def)
  have "ld_challenges c = map g (filter k' (map f (filter k (ld_challenges a))))" by (simp only: fg(1,3))
  also have "\<dots> = map (\<lambda>x. g (f x)) (filter (\<lambda>x. k x \<and> k' (f x)) (ld_challenges a))"
    by (simp add: filter_map comp_def conj_commute)
  finally have eq: "ld_challenges c = map (\<lambda>x. if k x then g (f x) else x) (filter (\<lambda>x. k x \<and> k' (f x)) (ld_challenges a))"
    by simp
  show ?thesis
  proof (rule changesI [OF eq])
    fix x assume x: "x \<in> set (ld_challenges a)"
    show "ch_step acc x (if k x then g (f x) else x)"
      using x fg(2,4) by (cases "k x") (auto simp: fg(1) intro: ch_step_trans)
  qed
qed

lemma changes_fold: "(\<And>x d. changes acc d (f x d)) \<Longrightarrow> changes acc d (fold f xs d)"
  by (induction xs arbitrary: d) (auto intro: changes_same changes_trans)

lemma changes_void: "changes acc d (voidActiveChallengesForEntrant now e d)"
  by (rule changes_map [where f = "\<lambda>c. if e \<noteq> [] \<and> (ch_challenger c = e \<or> ch_challenged c = e) \<and> active c
      then c\<lparr>ch_status := ChVoided, ch_resolvedAt := Some now\<rparr> else c"])
    (auto simp: voidActiveChallengesForEntrant_def ch_step_def same_parties_def active_def)

lemma changes_claim:
  assumes "\<And>c. ch_status c \<in> set sts \<Longrightarrow> ch_step acc c (f c)"
  shows "changes acc d (snd (claim i sts f d))"
proof (cases "list_ex (\<lambda>c. ch_id c = i \<and> ch_status c \<in> set sts) (ld_challenges d)")
  case True
  show ?thesis
    by (rule changes_map [where f = "\<lambda>c. if ch_id c = i \<and> ch_status c \<in> set sts then f c else c"])
      (use True assms in \<open>auto simp: claim_def\<close>)
next
  case False
  then have "snd (claim i sts f d) = d" by (simp add: claim_def)
  then show ?thesis by (simp add: changes_same)
qed

lemma changes_mark:
  assumes "\<And>c. ch_step acc c (f c)"
  shows "changes acc d (mark_reminded st reminded f c d)"
  by (rule changes_map [where f = "\<lambda>x. if ch_id x = ch_id c \<and> ch_status x = st \<and> \<not> reminded x then f x else x"])
    (use assms in \<open>auto simp: mark_reminded_def\<close>)

lemma distinct_ids_status:
  assumes "distinct (map ch_id cs)" "list_ex (\<lambda>c. ch_id c = i \<and> ch_status c \<in> S) cs" "c \<in> set cs" "ch_id c = i"
  shows "ch_status c \<in> S"
proof -
  obtain x where "x \<in> set cs" "ch_id x = i" "ch_status x \<in> S" using assms(2) by (auto simp: list_ex_iff)
  then have "x = c" using assms(1,3,4) by (auto simp: distinct_map dest: inj_onD)
  then show ?thesis using \<open>ch_status x \<in> S\<close> by simp
qed

lemma changes_resolve:
  assumes "resolver_laws R" "distinct (map ch_id (ld_challenges d))"
    and "\<And>s. s \<in> set expected \<Longrightarrow> follows s new \<and> follows s ChVoided" "new \<noteq> ChAccepted"
  shows "changes acc d (snd (resolveChallenge R i expected new side score rng d))"
proof (cases "rpc_resolve R i expected new side score rng d")
  case None
  then show ?thesis by (simp add: resolveChallenge_def changes_same)
next
  case (Some r)
  obtain d' claimed final where r: "r = (d', claimed, final)" by (cases r) auto
  have out: "resolver_outcome i expected new d (d', claimed, final)"
    using assms(1) Some r unfolding resolver_laws_def by blast
  have res: "snd (resolveChallenge R i expected new side score rng d) = d'" by (simp add: resolveChallenge_def Some r)
  show ?thesis
  proof (cases claimed)
    case False
    then show ?thesis using out by (simp add: res resolver_outcome_def changes_same)
  next
    case True
    then obtain g where g: "list_ex (\<lambda>c. ch_id c = i \<and> ch_status c \<in> set expected) (ld_challenges d)"
      "final = new \<or> final = ChVoided" "\<forall>c. same_parties c (g c) \<and> ch_status (g c) = final"
      "ld_challenges d' = map (\<lambda>c. if ch_id c = i then g c else c) (ld_challenges d)"
      using out by (auto simp: resolver_outcome_def)
    show ?thesis
      unfolding res
    proof (rule changes_map [OF g(4)])
      fix c assume c: "c \<in> set (ld_challenges d)"
      show "ch_step acc c (if ch_id c = i then g c else c)"
      proof (cases "ch_id c = i")
        case True
        then have "ch_status c \<in> set expected" using distinct_ids_status [OF assms(2) g(1) c] by simp
        then show ?thesis using True assms(3,4) g(2,3) by (auto simp: ch_step_def)
      qed simp
    qed
  qed
qed


lemma changes_ids:
  assumes "changes acc d d'" "distinct (map ch_id (ld_challenges d))"
  shows "distinct (map ch_id (ld_challenges d'))"
proof -
  obtain keep f where f: "ld_challenges d' = map f (filter keep (ld_challenges d))" "\<forall>c\<in>set (ld_challenges d). ch_step acc c (f c)"
    using assms(1) by (auto simp: changes_def)
  have "map ch_id (ld_challenges d') = map ch_id (filter keep (ld_challenges d))"
    using f(2) by (simp add: f(1) ch_step_def same_parties_def)
  then show ?thesis using assms(2) by (simp add: distinct_map_filter)
qed

lemma changes_fold_ids:
  assumes "\<And>x d. distinct (map ch_id (ld_challenges d)) \<Longrightarrow> changes acc d (f x d)" "distinct (map ch_id (ld_challenges d))"
  shows "changes acc d (fold f xs d)"
  using assms(2)
proof (induction xs arbitrary: d)
  case Nil
  then show ?case by (simp add: changes_same)
next
  case (Cons x xs)
  have "changes acc d (f x d)" by (rule assms(1) [OF Cons.prems])
  then show ?case using Cons.IH [OF changes_ids [OF _ Cons.prems]] changes_trans by auto
qed

lemma changes_sweep:
  assumes "resolver_laws R" "distinct (map ch_id (ld_challenges d))"
  shows "changes acc d (SweepLadderChallenges R now d)"
proof -
  let ?d1 = "fold (forfeit_late R) (sweep_select (late_response now) d) d"
  let ?d2 = "fold (void_unplayed now) (sweep_select (late_play now) ?d1) ?d1"
  let ?f = "\<lambda>x :: challenge. x\<lparr>ch_remindedRespond := True\<rparr>" and ?g = "\<lambda>x :: challenge. x\<lparr>ch_remindedPlay := True\<rparr>"
  let ?d3 = "fold (mark_reminded ChPending ch_remindedRespond ?f) (sweep_select (remind_respond now) ?d2) ?d2"
  have "changes acc d ?d1"
    by (rule changes_fold_ids [OF _ assms(2)]) (auto simp: forfeit_late_def intro!: changes_resolve [OF assms(1)])
  moreover have "changes acc ?d1 ?d2"
    by (rule changes_fold) (auto simp: void_unplayed_def ch_step_def same_parties_def intro!: changes_claim)
  moreover have "changes acc ?d2 ?d3"
    by (rule changes_fold) (auto simp: ch_step_def same_parties_def intro!: changes_mark)
  moreover have "changes acc ?d3 (fold (mark_reminded ChAccepted ch_remindedPlay ?g) (sweep_select (remind_play now) ?d3) ?d3)"
    by (rule changes_fold) (auto simp: ch_step_def same_parties_def intro!: changes_mark)
  ultimately show ?thesis unfolding SweepLadderChallenges_def Let_def by (meson changes_trans)
qed

lemma changes_report:
  assumes "resolver_laws R" "distinct (map ch_id (ld_challenges d))"
  shows "changes acc d (snd (ReportChallenge R u i w s d))" "changes acc d (snd (DeclineChallenge R u i d))"
  by (auto simp: ReportChallenge_def DeclineChallenge_def Let_def changes_same
      intro!: changes_resolve [OF assms] split: option.splits prod.splits)

lemma changes_answer:
  "changes True d (snd (AcceptChallenge now u i d))" "changes acc d (snd (CancelChallenge now u i d))"
  "changes acc d (snd (VoidChallenge now u i d))"
  by (auto simp: AcceptChallenge_def CancelChallenge_def VoidChallenge_def changes_same ch_step_def same_parties_def
      intro!: changes_claim split: option.splits prod.splits)

lemma add_same: "ld_challenges (snd (AddLadderEntrant R dv req d)) = ld_challenges d"
  by (auto simp: AddLadderEntrant_def Let_def split: option.splits)

lemma join_same: "ld_challenges (snd (JoinLadder R member u n dv d)) = ld_challenges d"
  by (auto simp: JoinLadder_def ensurePlayerForUser_def Let_def add_same split: option.splits prod.splits if_splits)

lemma add_missing_same: "ld_challenges (snd (add_missing R dv ms (n, d))) = ld_challenges d"
proof (induction ms arbitrary: n d)
  case Nil
  then show ?case by simp
next
  case (Cons m ms)
  obtain p name where m: "m = (p, name)" by (cases m)
  show ?case
    using Cons add_same [of R dv "\<lparr>ar_name = name, ar_player = p, ar_team = False, ar_allowDuplicate = False\<rparr>" d]
    by (auto simp: m split: prod.split sum.split)
qed

lemma sync_same: "ld_challenges (snd (AddRegisteredToLadder R dv d)) = ld_challenges d"
  using add_missing_same by (auto simp: AddRegisteredToLadder_def split: sum.split prod.splits) (metis snd_conv)

lemma mirror_challenges [simp]: "ld_challenges (removeLadderMirrorRegistration dv p d) = ld_challenges d"
  by (auto simp: removeLadderMirrorRegistration_def Let_def split: option.split)

lemma changes_organiser:
  assumes "rpc_laws R"
  shows "changes acc d (snd (MoveLadderEntrant R now e p d))" "changes acc d (snd (RemoveLadderEntrant R now e d))"
    "changes acc d (snd (RecordLadderResult R now dv req d))"
proof -
  have "changes acc d (voidActiveChallengesForEntrant now e d')" if "rpc_move R e p d = Some d'" for d'
    using assms that changes_void changes_same [of d' d] changes_trans unfolding rpc_laws_def by metis
  then show "changes acc d (snd (MoveLadderEntrant R now e p d))"
    by (auto simp: MoveLadderEntrant_def changes_same split: option.split)
  have cascade: "changes acc x d'" if "rpc_remove R e x = Some d'" for x d'
  proof (rule changesI [where f = "\<lambda>c. c"])
    show "ld_challenges d' = map (\<lambda>c. c) (filter (\<lambda>c. ch_challenger c \<noteq> e \<and> ch_challenged c \<noteq> e) (ld_challenges x))"
      using assms that unfolding rpc_laws_def by simp
  qed simp
  have "changes acc d (removeLadderMirrorRegistration dv' p' d')"
    if "rpc_remove R e (voidActiveChallengesForEntrant now e d) = Some d'" for d' dv' p'
    using changes_trans [OF changes_trans [OF changes_void cascade [OF that]] changes_same] by simp
  then show "changes acc d (snd (RemoveLadderEntrant R now e d))"
    using changes_void by (auto simp: RemoveLadderEntrant_def Let_def changes_same split: option.split prod.split)
  have "changes acc d d'" if "rpc_apply R a b w md s d = Some (d', i)" for a b w md s d' i
    using assms that changes_same unfolding rpc_laws_def by metis
  then show "changes acc d (snd (RecordLadderResult R now dv req d))"
  proof -
    assume got: "\<And>a b w md s d' i. rpc_apply R a b w md s d = Some (d', i) \<Longrightarrow> changes acc d d'"
    have both: "changes acc d (voidActiveChallengesForEntrant now b' (voidActiveChallengesForEntrant now a' d'))"
      if "rpc_apply R a b w md s d = Some (d', i)" for a b w md s d' i a' b'
      using changes_trans [OF changes_trans [OF got [OF that] changes_void] changes_void] .
    have applied: "changes acc d (snd (apply_result R now a b w md s d))" for a b w md s
      unfolding apply_result_def by (auto simp: changes_same intro: got both split: option.split)
    show ?thesis
      by (simp add: RecordLadderResult_def Let_def changes_same applied split: option.split)
  qed
qed

lemma run_op_changes:
  assumes "rpc_laws R" "distinct (map ch_id (ld_challenges d))" "\<not> issues x"
  shows "changes (accepts x) d (run_op R member now x d)"
proof -
  have R: "resolver_laws R" using assms(1) by (simp add: rpc_laws_def)
  show ?thesis
    using assms(3)
    by (cases x) (simp_all add: issues_def accepts_def run_op_def changes_answer changes_report [OF R assms(2)] changes_sweep [OF R assms(2)]
        changes_organiser [OF assms(1)] changes_same add_same join_same sync_same)
qed


section \<open>The limits on open challenges\<close>

definition caps_ok :: "ladder_db \<Rightarrow> bool" where
  "caps_ok d \<longleftrightarrow> distinct (map ch_id (ld_challenges d))
    \<and> (\<forall>e. length (openOutgoing e d) \<le> maxActiveOutgoing \<and> length (openIncoming e d) \<le> maxActiveIncoming)
    \<and> (\<forall>e f. length (filter (\<lambda>c. ch_challenger c = e \<and> ch_challenged c = f \<and> active c) (ld_challenges d)) \<le> 1)"

lemma changes_active:
  assumes "changes acc d d'" "\<And>c c'. same_parties c c' \<Longrightarrow> Q c' = Q c"
  shows "length (filter (\<lambda>c. Q c \<and> active c) (ld_challenges d')) \<le> length (filter (\<lambda>c. Q c \<and> active c) (ld_challenges d))"
proof -
  obtain keep f where f: "ld_challenges d' = map f (filter keep (ld_challenges d))"
    "\<forall>c\<in>set (ld_challenges d). ch_step acc c (f c)"
    using assms(1) by (auto simp: changes_def)
  have "length (filter (\<lambda>c. Q c \<and> active c) (map f (filter keep cs))) \<le> length (filter (\<lambda>c. Q c \<and> active c) cs)"
    if "\<forall>c\<in>set cs. ch_step acc c (f c)" for cs
    using that
  proof (induction cs)
    case (Cons c cs)
    have "Q (f c) \<and> active (f c) \<longrightarrow> Q c \<and> active c"
      using Cons.prems assms(2) [of c "f c"] follows_active [of c "f c"] by (auto simp: ch_step_def)
    then show ?case using Cons by auto
  qed simp
  then show ?thesis using f by simp
qed

lemma changes_caps:
  assumes "changes acc d d'" "caps_ok d"
  shows "caps_ok d'"
proof -
  have le: "length (filter (\<lambda>c. Q c \<and> active c) (ld_challenges d')) \<le> length (filter (\<lambda>c. Q c \<and> active c) (ld_challenges d))"
    if "\<And>c c'. same_parties c c' \<Longrightarrow> Q c' = Q c" for Q
    using changes_active [OF assms(1)] that by blast
  have "length (openOutgoing e d') \<le> length (openOutgoing e d)" "length (openIncoming e d') \<le> length (openIncoming e d)" for e
    using le [of "\<lambda>c. ch_challenger c = e"] le [of "\<lambda>c. ch_challenged c = e"]
    by (simp_all add: openOutgoing_def openIncoming_def same_parties_def)
  moreover have "length (filter (\<lambda>c. ch_challenger c = e \<and> ch_challenged c = f \<and> active c) (ld_challenges d'))
      \<le> length (filter (\<lambda>c. ch_challenger c = e \<and> ch_challenged c = f \<and> active c) (ld_challenges d))" for e f
    using le [of "\<lambda>c. ch_challenger c = e \<and> ch_challenged c = f"] by (simp add: same_parties_def)
  ultimately show ?thesis
    using assms(2) changes_ids [OF assms(1)] unfolding caps_ok_def by (meson order_trans)
qed

lemma issue_cases:
  obtains (refused) "snd (IssueChallenge R now u dv t d) = d"
    | (issued) me them c where "snd (IssueChallenge R now u dv t d) = d\<lparr>ld_challenges := ld_challenges d @ [c]\<rparr>"
      "issue_check now me them dv d = None" "ch_id c = rpc_newId R d" "ch_challenger c = me" "ch_challenged c = them"
      "ch_status c = ChPending" "ch_playBy c = None"
  by (cases "issue_check now (callerEntrantID u dv d) (trim t) dv d") (auto simp: IssueChallenge_def Let_def)

lemma issue_check_passed:
  assumes "issue_check now me them dv d = None"
  shows "me \<noteq> them" "length (openOutgoing me d) < maxActiveOutgoing" "length (openIncoming them d) < maxActiveIncoming"
    "filter (\<lambda>c. ch_challenger c = me \<and> ch_challenged c = them \<and> active c) (ld_challenges d) = []"
  using assms
  by (auto simp: issue_check_def Let_def list_ex_iff filter_empty_conv not_le split: if_splits option.splits)

lemma issue_caps:
  assumes "rpc_laws R" "caps_ok d"
  shows "caps_ok (snd (IssueChallenge R now u dv t d))"
proof (cases rule: issue_cases [of R now u dv t d])
  case refused
  then show ?thesis using assms(2) by simp
next
  case (issued me them c)
  note P = issue_check_passed [OF issued(2)]
  have new: "rpc_newId R d \<notin> ch_id ` set (ld_challenges d)" using assms(1) by (simp add: rpc_laws_def)
  have act: "active c" using issued(6) by (simp add: active_def)
  show ?thesis
    using assms(2) P new unfolding issued(1) caps_ok_def
    by (auto simp: openOutgoing_def openIncoming_def issued(3-5) act)
qed



section \<open>A database that satisfies the laws\<close>

definition reposition :: "string \<Rightarrow> (string list \<Rightarrow> string list) \<Rightarrow> ladder_db \<Rightarrow> ladder_db" where
  "reposition dv f d = (let order = f (map en_id (ladder_rows dv d)) in
    d\<lparr>ld_entrants := map (\<lambda>e. if en_div e = dv then e\<lparr>en_pos := indexOf order (en_id e) + 1\<rparr> else e) (ld_entrants d)\<rparr>)"

definition sql_resolve :: "string \<Rightarrow> challenge_status list \<Rightarrow> challenge_status \<Rightarrow> string \<Rightarrow> string \<Rightarrow> int \<Rightarrow> ladder_db
    \<Rightarrow> (ladder_db \<times> bool \<times> challenge_status) option" where
  "sql_resolve i expected new side score rng d =
    (case List.find (\<lambda>c. ch_id c = i \<and> ch_status c \<in> set expected) (ld_challenges d) of
       None \<Rightarrow> Some (d, False, new)
     | Some c \<Rightarrow>
       let gap = (case (find_entrant (ch_challenger c) d, find_entrant (ch_challenged c) d) of
                    (Some a, Some b) \<Rightarrow> en_pos a - en_pos b | _ \<Rightarrow> 0);
           final = (if 0 < gap \<and> (rng = 0 \<or> gap \<le> rng) then new else ChVoided);
           d1 = d\<lparr>ld_challenges := map (\<lambda>x. if ch_id x = i then x\<lparr>ch_status := final\<rparr> else x) (ld_challenges d)\<rparr>;
           order = (if side = ''challenger'' then (\<lambda>xs. leapfrogReorder xs (ch_challenger c) (ch_challenged c)) else (\<lambda>xs. xs))
       in Some (if final = ChVoided then d1 else reposition (ch_div c) order d1, True, final))"

definition sql_id :: "ladder_db \<Rightarrow> string" where
  "sql_id d = replicate (Suc (sum_list (map (\<lambda>c. length (ch_id c)) (ld_challenges d)))) (CHR ''x'')"

definition sql_rpc :: ladder_rpc where
  "sql_rpc = \<lparr>rpc_apply = (\<lambda>a b w md s d. Some (reposition ''d'' (\<lambda>xs. leapfrogReorder xs w (if w = a then b else a)) d, ''m'')),
    rpc_move = (\<lambda>_ _ d. Some d),
    rpc_remove = (\<lambda>e d. Some (d\<lparr>ld_entrants := filter (\<lambda>x. en_id x \<noteq> e) (ld_entrants d),
      ld_challenges := filter (\<lambda>c. ch_challenger c \<noteq> e \<and> ch_challenged c \<noteq> e) (ld_challenges d)\<rparr>)),
    rpc_resolve = sql_resolve, rpc_newId = sql_id\<rparr>"

lemma reposition_challenges [simp]: "ld_challenges (reposition dv f d) = ld_challenges d"
  by (simp add: reposition_def Let_def)

lemma sql_rpc_laws: "rpc_laws sql_rpc"
proof -
  have "resolver_outcome i expected new d r" if "sql_resolve i expected new side score rng d = Some r"
    for i expected new side score rng d r
  proof (cases "List.find (\<lambda>c. ch_id c = i \<and> ch_status c \<in> set expected) (ld_challenges d)")
    case None
    then show ?thesis using that by (auto simp: sql_resolve_def resolver_outcome_def)
  next
    case (Some c)
    then have "list_ex (\<lambda>c. ch_id c = i \<and> ch_status c \<in> set expected) (ld_challenges d)"
      by (auto simp: find_Some_iff list_ex_iff)
    moreover have "\<exists>g. (\<forall>x. same_parties x (g x) \<and> ch_status (g x) = final)
        \<and> map (\<lambda>x. if ch_id x = i then x\<lparr>ch_status := final\<rparr> else x) cs = map (\<lambda>x. if ch_id x = i then g x else x) cs" for final cs
      by (rule exI [of _ "\<lambda>x. x\<lparr>ch_status := final\<rparr>"]) (simp add: same_parties_def)
    ultimately show ?thesis using that Some
      by (auto simp: sql_resolve_def resolver_outcome_def Let_def split: if_splits)
  qed
  then have "resolver_laws sql_rpc" by (simp add: resolver_laws_def sql_rpc_def)
  moreover have "sql_id d \<notin> ch_id ` set (ld_challenges d)" for d
  proof
    assume "sql_id d \<in> ch_id ` set (ld_challenges d)"
    then obtain c where c: "c \<in> set (ld_challenges d)" "ch_id c = sql_id d" by force
    have "length (ch_id c) \<le> sum_list (map (\<lambda>c. length (ch_id c)) (ld_challenges d))"
      using c(1) by (intro member_le_sum_list) auto
    then show False by (simp add: c(2) sql_id_def)
  qed
  ultimately show ?thesis by (simp add: rpc_laws_def sql_rpc_def)
qed

definition ladder_players :: "lplayer list" where
  "ladder_players = [\<lparr>pl_id = ''p1'', pl_user = ''u1'', pl_name = ''Jen'', pl_phone = []\<rparr>,
    \<lparr>pl_id = ''p2'', pl_user = ''u2'', pl_name = ''Bo'', pl_phone = []\<rparr>]"

definition demo_challenge :: "challenge_status \<Rightarrow> challenge" where
  "demo_challenge s = \<lparr>ch_id = ''c'', ch_div = ''d'', ch_challenger = ''bo'', ch_challenged = ''jen'', ch_status = s,
    ch_respondBy = 100, ch_playBy = None, ch_resolvedAt = None, ch_remindedRespond = False, ch_remindedPlay = False\<rparr>"

definition demo_challenges :: "challenge_status \<Rightarrow> ladder_db" where
  "demo_challenges s = demo_ladder\<lparr>ld_entrants := [demo_entrant ''jen'' ''p1'' 1, demo_entrant ''bo'' ''p2'' 2],
    ld_challenges := [demo_challenge s], ld_players := ladder_players\<rparr>"


section \<open>Which status follows which\<close>

text \<open>
  C28: The life of a challenge: in any operation a challenge keeps its parties and either keeps its status or
  takes one that may follow it - from pending any, from accepted voided or completed, from voided only
  completed, and declined, forfeited, cancelled and completed are final; it becomes accepted only when the
  challenged player or the league's owner accepts it; a challenge that was not there before is pending.
\<close>
theorem challenge_life:
  assumes "rpc_laws R" "distinct (map ch_id (ld_challenges d))" "c' \<in> set (ld_challenges (run_op R member now x d))"
  shows "(\<exists>c\<in>set (ld_challenges d). same_parties c c' \<and> follows (ch_status c) (ch_status c')
      \<and> (ch_status c' = ChAccepted \<and> ch_status c \<noteq> ChAccepted \<longrightarrow>
           (\<exists>u. x = Accept u (ch_id c) \<and> party_of u c d \<in> {Challenged, Owner})))
    \<or> (issues x \<and> ch_status c' = ChPending \<and> ch_id c' \<notin> ch_id ` set (ld_challenges d))"
proof (cases "issues x")
  case True
  then obtain u dv t where x: "x = Issue u dv t" by (auto simp: issues_def split: ladder_op.splits)
  have old: "\<exists>c\<in>set (ld_challenges d). same_parties c c' \<and> follows (ch_status c) (ch_status c')
      \<and> (ch_status c' = ChAccepted \<and> ch_status c \<noteq> ChAccepted \<longrightarrow>
           (\<exists>u. x = Accept u (ch_id c) \<and> party_of u c d \<in> {Challenged, Owner}))" if "c' \<in> set (ld_challenges d)"
    using that by (intro bexI [of _ c']) (auto simp: same_parties_def)
  show ?thesis
  proof (cases rule: issue_cases [of R now u dv t d])
    case refused
    then show ?thesis using assms(3) old by (simp add: x run_op_def)
  next
    case (issued me them c)
    have "rpc_newId R d \<notin> ch_id ` set (ld_challenges d)" using assms(1) by (simp add: rpc_laws_def)
    then have "ch_id c \<notin> ch_id ` set (ld_challenges d)" by (simp add: issued(3))
    moreover have "c' \<in> set (ld_challenges d) \<or> c' = c" using assms(3) issued(1) by (auto simp: x run_op_def)
    ultimately show ?thesis using old issued(6) True by blast
  qed
next
  case False
  from run_op_changes [OF assms(1,2) False, of member now] obtain keep f where f:
    "ld_challenges (run_op R member now x d) = map f (filter keep (ld_challenges d))"
    "\<forall>c\<in>set (ld_challenges d). ch_step (accepts x) c (f c)"
    by (auto simp: changes_def)
  then obtain c where c: "c \<in> set (ld_challenges d)" "ch_step (accepts x) c c'" using assms(3) by auto
  have "\<exists>u. x = Accept u (ch_id c) \<and> party_of u c d \<in> {Challenged, Owner}"
    if acc: "ch_status c' = ChAccepted" "ch_status c \<noteq> ChAccepted"
  proof -
    have "accepts x" using c(2) acc by (simp add: ch_step_def)
    then obtain u i where x: "x = Accept u i" by (auto simp: accepts_def split: ladder_op.splits)
    have id: "ch_id c' = ch_id c" using c(2) by (simp add: ch_step_def same_parties_def)
    have uniq: "a = b" if "a \<in> set (ld_challenges d)" "b \<in> set (ld_challenges d)" "ch_id a = ch_id b" for a b
      using assms(2) that by (auto simp: distinct_map dest: inj_onD)
    have "c' \<notin> set (ld_challenges d)" using uniq [OF _ c(1)] id acc by auto
    then have moved: "run_op R member now x d \<noteq> d" using assms(3) by auto
    then obtain k p where a: "authorizeChallenge u i d = Some (k, p)" "p = Challenged \<or> p = Owner"
      by (auto simp: x run_op_def AcceptChallenge_def split: option.splits prod.splits if_splits)
    then have k: "k \<in> set (ld_challenges d)" "ch_id k = i" "p = party_of u k d"
      by (auto simp: authorizeChallenge_def find_challenge_def find_Some_iff)
    have "ch_id c = i"
    proof (rule ccontr)
      assume "ch_id c \<noteq> i"
      then have "c' \<in> set (ld_challenges d)"
        using assms(3) a id by (auto simp: x run_op_def AcceptChallenge_def claim_def split: if_splits)
      then show False using \<open>c' \<notin> set (ld_challenges d)\<close> by simp
    qed
    then have "k = c" using uniq [OF k(1) c(1)] k(2) by simp
    then show ?thesis using a(2) k(3) \<open>ch_id c = i\<close> x by auto
  qed
  then show ?thesis using c by (intro disjI1 bexI [of _ c]) (auto simp: ch_step_def)
qed

theorem challenge_life_witness:
  "\<exists>c\<in>set (ld_challenges (demo_challenges ChPending)).
     ch_status c = ChPending \<and> party_of ''u1'' c (demo_challenges ChPending) \<in> {Challenged, Owner}"
proof -
  let ?d = "demo_challenges ChPending"
  have d: "distinct (map ch_id (ld_challenges ?d))" by (simp add: demo_challenges_def)
  obtain c' where c': "c' \<in> set (ld_challenges (run_op sql_rpc (\<lambda>_ _. True) 7 (Accept ''u1'' ''c'') ?d))" "ch_status c' = ChAccepted"
    by (simp add: run_op_def AcceptChallenge_def authorizeChallenge_def find_challenge_def party_of_def callerEntrantID_def
        playerIDForUser_def claim_def demo_challenges_def demo_challenge_def demo_entrant_def ladder_players_def demo_ladder_def Let_def)
  have all: "ch_status c = ChPending" if "c \<in> set (ld_challenges ?d)" for c
    using that by (simp add: demo_challenges_def demo_challenge_def)
  from challenge_life [OF sql_rpc_laws d c'(1)] c'(2) all show ?thesis by (auto simp: issues_def)
qed


section \<open>Who can move positions\<close>

definition challenge_op :: "ladder_op \<Rightarrow> bool" where
  "challenge_op x \<longleftrightarrow> (case x of Issue _ _ _ \<Rightarrow> True | Accept _ _ \<Rightarrow> True | CancelCh _ _ \<Rightarrow> True | VoidCh _ _ \<Rightarrow> True
    | Decline _ _ \<Rightarrow> True | ReportCh _ _ _ _ \<Rightarrow> True | Sweep \<Rightarrow> True | _ \<Rightarrow> False)"

text \<open>The challenged player or the owner declined or reported it, or it had been accepted and a party reported,
  or the challenged player let the deadline pass.\<close>

definition consented :: "int \<Rightarrow> ladder_op \<Rightarrow> ladder_db \<Rightarrow> bool" where
  "consented now x d \<longleftrightarrow> (case x of
     Decline u i \<Rightarrow> (\<exists>c. find_challenge i d = Some c \<and> ch_status c = ChPending \<and> party_of u c d \<in> {Challenged, Owner})
   | ReportCh u i w s \<Rightarrow> (\<exists>c. find_challenge i d = Some c
       \<and> (party_of u c d \<in> {Challenged, Owner} \<and> ch_status c \<in> {ChPending, ChAccepted, ChVoided}
          \<or> party_of u c d = Challenger \<and> ch_status c = ChAccepted))
   | Sweep \<Rightarrow> (\<exists>c\<in>set (ld_challenges d). late_response now c)
   | _ \<Rightarrow> False)"

lemma resolve_moves:
  assumes "resolver_laws R" "ld_entrants (snd (resolveChallenge R i expected new side score rng d)) \<noteq> ld_entrants d"
  shows "list_ex (\<lambda>c. ch_id c = i \<and> ch_status c \<in> set expected) (ld_challenges d)"
proof -
  obtain r where r: "rpc_resolve R i expected new side score rng d = Some r"
    using assms(2) by (auto simp: resolveChallenge_def split: option.splits)
  then have "resolver_outcome i expected new d r" using assms(1) unfolding resolver_laws_def by blast
  then show ?thesis
    using assms(2) r by (cases r) (auto simp: resolveChallenge_def resolver_outcome_def split: if_splits)
qed

lemma find_challenge_status:
  assumes "distinct (map ch_id (ld_challenges d))" "find_challenge i d = Some c"
    and "list_ex (\<lambda>c. ch_id c = i \<and> ch_status c \<in> S) (ld_challenges d)"
  shows "ch_status c \<in> S"
proof -
  have "c \<in> set (ld_challenges d)" "ch_id c = i" using assms(2) by (auto simp: find_challenge_def find_Some_iff)
  then show ?thesis using distinct_ids_status [OF assms(1,3)] by blast
qed

lemma fold_entrants: "(\<And>x d. ld_entrants (f x d) = ld_entrants d) \<Longrightarrow> ld_entrants (fold f xs d) = ld_entrants d"
  by (induction xs arbitrary: d) auto

lemma claim_entrants [simp]: "ld_entrants (snd (claim i sts f d)) = ld_entrants d"
  by (simp add: claim_def)

lemma answer_entrants:
  "ld_entrants (snd (AcceptChallenge now u i d)) = ld_entrants d"
  "ld_entrants (snd (CancelChallenge now u i d)) = ld_entrants d"
  "ld_entrants (snd (VoidChallenge now u i d)) = ld_entrants d"
  by (simp_all add: AcceptChallenge_def CancelChallenge_def VoidChallenge_def split: option.split prod.split)

lemma sweep_entrants:
  assumes "\<forall>c\<in>set (ld_challenges d). \<not> late_response now c"
  shows "ld_entrants (SweepLadderChallenges R now d) = ld_entrants d"
proof -
  have "sweep_select (late_response now) d = []" using assms by (simp add: sweep_select_def filter_empty_conv)
  then show ?thesis
    by (simp add: SweepLadderChallenges_def Let_def fold_entrants void_unplayed_def mark_reminded_def)
qed




section \<open>The sweep clears what is overdue\<close>

text \<open>The challenges of the given ids are settled, the others untouched.\<close>

definition settles :: "string set \<Rightarrow> ladder_db \<Rightarrow> ladder_db \<Rightarrow> bool" where
  "settles ids d d' \<longleftrightarrow> (\<exists>h. ld_challenges d' = map h (ld_challenges d) \<and> (\<forall>c\<in>set (ld_challenges d).
    if ch_id c \<in> ids then ch_id (h c) = ch_id c \<and> ch_status (h c) \<in> {ChForfeited, ChVoided} else h c = c))"

definition resolver_answers :: "ladder_rpc \<Rightarrow> bool" where
  "resolver_answers R \<longleftrightarrow> (\<forall>i expected new side score rng d.
     list_ex (\<lambda>c. ch_id c = i \<and> ch_status c \<in> set expected) (ld_challenges d) \<longrightarrow>
     (\<exists>d' s. rpc_resolve R i expected new side score rng d = Some (d', True, s)))"

lemma forfeit_settles:
  assumes "resolver_laws R" "resolver_answers R" "c \<in> set (ld_challenges d)" "ch_status c = ChPending"
  shows "settles {ch_id c} d (forfeit_late R c d)"
proof -
  let ?rng = "ladderRangeForDivision (ch_div c) d"
  have "list_ex (\<lambda>x. ch_id x = ch_id c \<and> ch_status x \<in> set [ChPending]) (ld_challenges d)"
    using assms(3,4) by (auto simp: list_ex_iff)
  then obtain d' s where r: "rpc_resolve R (ch_id c) [ChPending] ChForfeited ''challenger'' [] ?rng d = Some (d', True, s)"
    using assms(2) unfolding resolver_answers_def by blast
  then have "resolver_outcome (ch_id c) [ChPending] ChForfeited d (d', True, s)"
    using assms(1) unfolding resolver_laws_def by blast
  then obtain g where g: "s \<in> {ChForfeited, ChVoided}" "\<forall>x. same_parties x (g x) \<and> ch_status (g x) = s"
    "ld_challenges d' = map (\<lambda>x. if ch_id x = ch_id c then g x else x) (ld_challenges d)"
    by (auto simp: resolver_outcome_def)
  have "forfeit_late R c d = d'" by (simp add: forfeit_late_def resolveChallenge_def r)
  then show ?thesis
    unfolding settles_def
    by (intro exI [of _ "\<lambda>x. if ch_id x = ch_id c then g x else x"]) (use g in \<open>auto simp: same_parties_def\<close>)
qed

lemma void_settles:
  assumes "c \<in> set (ld_challenges d)" "distinct (map ch_id (ld_challenges d))" "ch_status c = ChAccepted"
  shows "settles {ch_id c} d (void_unplayed now c d)"
proof -
  have ex: "list_ex (\<lambda>x. ch_id x = ch_id c \<and> ch_status x \<in> set [ChAccepted]) (ld_challenges d)"
    using assms by (auto simp: list_ex_iff)
  have uniq: "x = c" if "x \<in> set (ld_challenges d)" "ch_id x = ch_id c" for x
    using that assms(1,2) by (auto simp: distinct_map dest: inj_onD)
  show ?thesis
    unfolding settles_def
    by (intro exI [of _ "\<lambda>x. if ch_id x = ch_id c \<and> ch_status x \<in> set [ChAccepted]
        then x\<lparr>ch_status := ChVoided, ch_resolvedAt := Some now\<rparr> else x"])
      (use ex uniq assms(3) in \<open>auto simp: void_unplayed_def claim_def\<close>)
qed

lemma settles_trans:
  assumes "settles A d d'" "settles B d' d''" "A \<inter> B = {}"
  shows "settles (A \<union> B) d d''"
proof -
  obtain g where g: "ld_challenges d' = map g (ld_challenges d)"
    "\<forall>c\<in>set (ld_challenges d). if ch_id c \<in> A then ch_id (g c) = ch_id c \<and> ch_status (g c) \<in> {ChForfeited, ChVoided} else g c = c"
    using assms(1) unfolding settles_def by blast
  obtain h where h: "ld_challenges d'' = map h (ld_challenges d')"
    "\<forall>c\<in>set (ld_challenges d'). if ch_id c \<in> B then ch_id (h c) = ch_id c \<and> ch_status (h c) \<in> {ChForfeited, ChVoided} else h c = c"
    using assms(2) unfolding settles_def by blast
  have "if ch_id c \<in> A \<union> B then ch_id (h (g c)) = ch_id c \<and> ch_status (h (g c)) \<in> {ChForfeited, ChVoided} else h (g c) = c"
    if c: "c \<in> set (ld_challenges d)" for c
  proof -
    have "if ch_id c \<in> A then ch_id (g c) = ch_id c \<and> ch_status (g c) \<in> {ChForfeited, ChVoided} else g c = c"
      using g(2) c by blast
    moreover have "if ch_id (g c) \<in> B then ch_id (h (g c)) = ch_id (g c) \<and> ch_status (h (g c)) \<in> {ChForfeited, ChVoided} else h (g c) = g c"
      using g(1) h(2) c by force
    ultimately show ?thesis using assms(3) by (cases "ch_id c \<in> A"; cases "ch_id c \<in> B") auto
  qed
  then show ?thesis
    unfolding settles_def by (intro exI [of _ "\<lambda>c. h (g c)"] conjI ballI) (simp_all only: g(1) h(1) map_map comp_def)
qed

lemma settles_rest: "settles {ch_id c} d d' \<Longrightarrow> x \<in> set (ld_challenges d) \<Longrightarrow> ch_id x \<noteq> ch_id c \<Longrightarrow> x \<in> set (ld_challenges d')"
  by (auto simp: settles_def) (metis image_eqI)

lemma settles_ids: "settles A d d' \<Longrightarrow> map ch_id (ld_challenges d') = map ch_id (ld_challenges d)"
  by (auto simp: settles_def) metis

lemma fold_settles:
  assumes "\<And>c d. c \<in> set (ld_challenges d) \<Longrightarrow> distinct (map ch_id (ld_challenges d)) \<Longrightarrow> P c \<Longrightarrow> settles {ch_id c} d (f c d)"
    and "distinct (map ch_id cs)" "\<forall>c\<in>set cs. c \<in> set (ld_challenges d) \<and> P c" "distinct (map ch_id (ld_challenges d))"
  shows "settles (ch_id ` set cs) d (fold f cs d)"
  using assms(2-4)
proof (induction cs arbitrary: d)
  case Nil
  then show ?case unfolding settles_def by (intro exI [of _ "\<lambda>c. c"]) simp
next
  case (Cons c cs)
  have S: "settles {ch_id c} d (f c d)" by (rule assms(1)) (use Cons.prems in auto)
  have "distinct (map ch_id (ld_challenges (f c d)))" using Cons.prems(3) settles_ids [OF S] by simp
  moreover have "\<forall>x\<in>set cs. x \<in> set (ld_challenges (f c d)) \<and> P x"
  proof
    fix x assume x: "x \<in> set cs"
    then have "ch_id x \<in> set (map ch_id cs)" by simp
    then have "ch_id x \<noteq> ch_id c" using Cons.prems(1) by auto
    then show "x \<in> set (ld_challenges (f c d)) \<and> P x" using x Cons.prems(2) settles_rest [OF S] by simp
  qed
  ultimately have "settles (ch_id ` set cs) (f c d) (fold f cs (f c d))" using Cons.IH Cons.prems(1) by simp
  moreover have "{ch_id c} \<inter> ch_id ` set cs = {}" using Cons.prems(1) by simp
  ultimately have "settles ({ch_id c} \<union> ch_id ` set cs) d (fold f cs (f c d))" by (rule settles_trans [OF S])
  then show ?case by simp
qed

lemma late_not_settled: "ch_status c \<in> {ChForfeited, ChVoided} \<Longrightarrow> \<not> late_response now c \<and> \<not> late_play now c"
  by (auto simp: late_response_def late_play_def)

lemma settled_selection:
  assumes "settles (ch_id ` set (sweep_select P d)) d d'" "distinct (map ch_id (ld_challenges d))"
    and "\<And>c. ch_status c \<in> {ChForfeited, ChVoided} \<Longrightarrow> \<not> P c \<and> \<not> Q c" "\<And>c. P c \<Longrightarrow> \<not> Q c"
  shows "length (filter P (ld_challenges d')) = length (filter P (ld_challenges d)) - 200"
    "filter Q (ld_challenges d') = filter Q (ld_challenges d)"
proof -
  let ?cs = "ld_challenges d" and ?ids = "ch_id ` set (sweep_select P d)"
  obtain h where h: "ld_challenges d' = map h ?cs"
    "\<forall>c\<in>set ?cs. if ch_id c \<in> ?ids then ch_id (h c) = ch_id c \<and> ch_status (h c) \<in> {ChForfeited, ChVoided} else h c = c"
    using assms(1) by (auto simp: settles_def)
  have inj: "inj_on ch_id (set ?cs)" and ds: "distinct ?cs" using assms(2) by (simp_all add: distinct_map)
  have sel: "set (sweep_select P d) \<subseteq> {c \<in> set ?cs. P c}" by (auto simp: sweep_select_def dest: in_set_takeD)
  have mem: "ch_id c \<in> ?ids \<longleftrightarrow> c \<in> set (sweep_select P d)" if "c \<in> set ?cs" for c
    using inj that sel by (auto dest: inj_onD)
  have hc: "if c \<in> set (sweep_select P d) then \<not> P (h c) \<and> \<not> Q (h c) else h c = c" if "c \<in> set ?cs" for c
    using h(2) that mem [OF that] assms(3) by auto
  have Ph: "P (h c) \<longleftrightarrow> P c \<and> c \<notin> set (sweep_select P d)" "P (h c) \<Longrightarrow> h c = c" if "c \<in> set ?cs" for c
    using hc [OF that] by (auto split: if_splits)
  have Qh: "Q (h c) \<longleftrightarrow> Q c" "Q (h c) \<Longrightarrow> h c = c" if "c \<in> set ?cs" for c
    using hc [OF that] sel assms(4) by (auto split: if_splits)
  have keep: "filter S (map h cs) = filter (\<lambda>c. S (h c)) cs" if "\<forall>c\<in>set cs. S (h c) \<longrightarrow> h c = c" for S cs
    using that by (induction cs) auto
  have "filter P (ld_challenges d') = filter (\<lambda>c. P (h c)) ?cs" unfolding h(1) by (rule keep) (use Ph in blast)
  also have "\<dots> = filter (\<lambda>c. P c \<and> c \<notin> set (sweep_select P d)) ?cs" using Ph(1) by (auto cong: filter_cong)
  also have "\<dots> = filter (\<lambda>c. c \<notin> set (sweep_select P d)) (filter P ?cs)"
    by (simp add: conj_commute)
  also have "filter P ?cs = sweep_select P d @ drop 200 (filter P ?cs)" by (simp add: sweep_select_def)
  also have "filter (\<lambda>c. c \<notin> set (sweep_select P d)) (sweep_select P d @ drop 200 (filter P ?cs)) = drop 200 (filter P ?cs)"
  proof -
    have "distinct (sweep_select P d @ drop 200 (filter P ?cs))" using ds by (simp add: sweep_select_def)
    then show ?thesis by (auto simp: filter_empty_conv filter_id_conv)
  qed
  finally show "length (filter P (ld_challenges d')) = length (filter P ?cs) - 200" by simp
  have "filter Q (ld_challenges d') = filter (\<lambda>c. Q (h c)) ?cs" unfolding h(1) by (rule keep) (use Qh in blast)
  then show "filter Q (ld_challenges d') = filter Q ?cs" using Qh(1) by (auto cong: filter_cong)
qed


lemma mark_late:
  assumes "\<And>c. ch_status (f c) = ch_status c \<and> ch_respondBy (f c) = ch_respondBy c \<and> ch_playBy (f c) = ch_playBy c \<and> ch_id (f c) = ch_id c"
  shows "length (filter (late_response now) (ld_challenges (fold (mark_reminded st rm f) cs d))) = length (filter (late_response now) (ld_challenges d))
    \<and> length (filter (late_play now) (ld_challenges (fold (mark_reminded st rm f) cs d))) = length (filter (late_play now) (ld_challenges d))
    \<and> map ch_id (ld_challenges (fold (mark_reminded st rm f) cs d)) = map ch_id (ld_challenges d)"
proof (induction cs arbitrary: d)
  case Nil
  then show ?case by simp
next
  case (Cons c cs)
  let ?g = "\<lambda>x. if ch_id x = ch_id c \<and> ch_status x = st \<and> \<not> rm x then f x else x"
  have g: "late_response now (?g x) = late_response now x" "late_play now (?g x) = late_play now x" "ch_id (?g x) = ch_id x" for x
    using assms by (auto simp: late_response_def late_play_def)
  have "ld_challenges (mark_reminded st rm f c d) = map ?g (ld_challenges d)" by (simp add: mark_reminded_def)
  then have "length (filter (late_response now) (ld_challenges (mark_reminded st rm f c d))) = length (filter (late_response now) (ld_challenges d))"
    "length (filter (late_play now) (ld_challenges (mark_reminded st rm f c d))) = length (filter (late_play now) (ld_challenges d))"
    "map ch_id (ld_challenges (mark_reminded st rm f c d)) = map ch_id (ld_challenges d)"
    by (simp_all only: filter_map length_map comp_def g map_map)
  then show ?case using Cons.IH [of "mark_reminded st rm f c d"] by simp
qed

lemma sweep_clears:
  assumes "resolver_laws R" "resolver_answers R" "distinct (map ch_id (ld_challenges d))"
  shows "length (filter (late_response now) (ld_challenges (SweepLadderChallenges R now d))) = length (filter (late_response now) (ld_challenges d)) - 200"
    "length (filter (late_play now) (ld_challenges (SweepLadderChallenges R now d))) = length (filter (late_play now) (ld_challenges d)) - 200"
    "map ch_id (ld_challenges (SweepLadderChallenges R now d)) = map ch_id (ld_challenges d)"
proof -
  let ?d1 = "fold (forfeit_late R) (sweep_select (late_response now) d) d"
  let ?d2 = "fold (void_unplayed now) (sweep_select (late_play now) ?d1) ?d1"
  have sel: "\<forall>c\<in>set (sweep_select P x). c \<in> set (ld_challenges x) \<and> P c" for P x
    by (auto simp: sweep_select_def dest: in_set_takeD)
  have dsel: "distinct (map ch_id (sweep_select P x))" if "distinct (map ch_id (ld_challenges x))" for P x
    using that by (simp add: sweep_select_def distinct_map_filter flip: take_map)
  have one: "settles (ch_id ` set (sweep_select (late_response now) d)) d ?d1"
    by (rule fold_settles [OF _ dsel [OF assms(3)] sel assms(3)])
      (auto intro: forfeit_settles [OF assms(1,2)] simp: late_response_def)
  have ids1: "distinct (map ch_id (ld_challenges ?d1))" using assms(3) settles_ids [OF one] by simp
  have two: "settles (ch_id ` set (sweep_select (late_play now) ?d1)) ?d1 ?d2"
    by (rule fold_settles [OF _ dsel [OF ids1] sel ids1]) (auto intro: void_settles simp: late_play_def)
  have ex: "\<not> late_play now c" if "late_response now c" for c using that by (auto simp: late_response_def late_play_def)
  have L: "length (filter (late_response now) (ld_challenges ?d1)) = length (filter (late_response now) (ld_challenges d)) - 200"
    "filter (late_play now) (ld_challenges ?d1) = filter (late_play now) (ld_challenges d)"
    using settled_selection [OF one assms(3), of "late_play now"] late_not_settled ex by blast+
  have P: "length (filter (late_play now) (ld_challenges ?d2)) = length (filter (late_play now) (ld_challenges ?d1)) - 200"
    "filter (late_response now) (ld_challenges ?d2) = filter (late_response now) (ld_challenges ?d1)"
    using settled_selection [OF two ids1, of "late_response now"] late_not_settled ex by blast+
  note M = mark_late [of "\<lambda>x. x\<lparr>ch_remindedRespond := True\<rparr>" now ChPending ch_remindedRespond]
    mark_late [of "\<lambda>x. x\<lparr>ch_remindedPlay := True\<rparr>" now ChAccepted ch_remindedPlay]
  show "length (filter (late_response now) (ld_challenges (SweepLadderChallenges R now d))) = length (filter (late_response now) (ld_challenges d)) - 200"
    "length (filter (late_play now) (ld_challenges (SweepLadderChallenges R now d))) = length (filter (late_play now) (ld_challenges d)) - 200"
    "map ch_id (ld_challenges (SweepLadderChallenges R now d)) = map ch_id (ld_challenges d)"
    unfolding SweepLadderChallenges_def Let_def using L P settles_ids [OF one] settles_ids [OF two] M by simp_all
qed

text \<open>
  C27: No challenge stays overdue: when the resolver answers, one sweep settles up to 200 challenges whose time to
  respond has passed and up to 200 accepted ones whose time to play has passed, so after as many sweeps as
  there are such batches none is left.
\<close>
theorem overdue_challenges_are_cleared:
  assumes "resolver_laws R" "resolver_answers R" "distinct (map ch_id (ld_challenges d))"
    and "length (filter (late_response now) (ld_challenges d)) \<le> 200 * k"
    and "length (filter (late_play now) (ld_challenges d)) \<le> 200 * k"
  shows "\<forall>c\<in>set (ld_challenges ((SweepLadderChallenges R now ^^ k) d)). \<not> late_response now c \<and> \<not> late_play now c"
  using assms(3-5)
proof (induction k arbitrary: d)
  case 0
  then show ?case by (simp add: filter_empty_conv)
next
  case (Suc k)
  note S = sweep_clears [OF assms(1,2) Suc.prems(1), of now]
  have "\<forall>c\<in>set (ld_challenges ((SweepLadderChallenges R now ^^ k) (SweepLadderChallenges R now d))).
      \<not> late_response now c \<and> \<not> late_play now c"
    by (rule Suc.IH) (use Suc.prems S in simp_all)
  then show ?case by (simp add: funpow_swap1)
qed

lemma sql_rpc_answers: "resolver_answers sql_rpc"
proof -
  have "\<exists>d' s. sql_resolve i expected new side score rng d = Some (d', True, s)"
    if "list_ex (\<lambda>c. ch_id c = i \<and> ch_status c \<in> set expected) (ld_challenges d)" for i expected new side score rng d
  proof -
    obtain c where "List.find (\<lambda>c. ch_id c = i \<and> ch_status c \<in> set expected) (ld_challenges d) = Some c"
      using \<open>list_ex _ _\<close> by (cases "List.find (\<lambda>c. ch_id c = i \<and> ch_status c \<in> set expected) (ld_challenges d)")
        (auto simp: find_None_iff list_ex_iff)
    then show ?thesis by (simp add: sql_resolve_def Let_def)
  qed
  then show ?thesis by (simp add: resolver_answers_def sql_rpc_def)
qed

theorem overdue_challenges_are_cleared_witness:
  "list_all (\<lambda>c. \<not> late_response 200 c \<and> \<not> late_play 200 c)
    (ld_challenges (SweepLadderChallenges sql_rpc 200 (demo_challenges ChPending)))"
proof -
  have laws: "resolver_laws sql_rpc" using sql_rpc_laws by (simp add: rpc_laws_def)
  have ids: "distinct (map ch_id (ld_challenges (demo_challenges ChPending)))" by (simp add: demo_challenges_def)
  have "length (filter P (ld_challenges (demo_challenges ChPending))) \<le> 200 * 1" for P by (simp add: demo_challenges_def)
  from overdue_challenges_are_cleared [OF laws sql_rpc_answers ids this this] show ?thesis by (simp add: list_all_iff)
qed

section \<open>A challenge the organizer's actions cancelled\<close>

text \<open>
  The re-challenge block asks for a deadline to play, so as to catch only accepted challenges that were
  left unplayed; a reorder by the organizer voids an accepted challenge without clearing its deadline, and
  blocks the pair for a day as well.
\<close>
lemma reorder_blocks_rechallenge:
  assumes "c \<in> set (ld_challenges d)" "ch_status c = ChAccepted" "ch_playBy c = Some t" "ch_challenger c \<noteq> []" "t' < now + day"
  shows "list_ex (cooling t' (ch_challenger c) (ch_challenged c))
    (ld_challenges (voidActiveChallengesForEntrant now (ch_challenger c) d))"
proof -
  let ?c = "c\<lparr>ch_status := ChVoided, ch_resolvedAt := Some now\<rparr>"
  have "?c \<in> set (ld_challenges (voidActiveChallengesForEntrant now (ch_challenger c) d))"
    using assms(1,2,4) by (auto simp: voidActiveChallengesForEntrant_def active_def image_iff intro!: bexI [of _ c])
  moreover have "cooling t' (ch_challenger c) (ch_challenged c) ?c" using assms(3,5) by (simp add: cooling_def)
  ultimately show ?thesis by (auto simp: list_ex_iff)
qed

end
