(* ===== verification/Rotation_Night.thy ===== *)
theory Rotation_Night
  imports Complex_Main Rotation Ladder_Challenges
begin

text \<open>
  A rotation night, \<open>internal/service/ladder_rotation.go\<close> and \<open>rotation_corrections.go\<close>: a timed session of
  the river run under a ladder division. The movement is the engine's (\<open>Rotation\<close>); this theory holds the
  tables around it and every operation on them. The procedures \<open>start_rotation_session\<close>,
  \<open>advance_rotation_session\<close>, \<open>end_rotation_session\<close> and \<open>rotation_join_bench\<close> are not part of the repository and
  are parameters; \<open>rotation_substitute\<close> is (\<open>migrations/add_rotation_substitute_rpc.sql\<close>) and is modelled.
  Tables are lists in order of creation, times are seconds, a null text is empty, ratings are exact.
  The columns of later migrations exist. Pushes and log lines are left out.
\<close>

section \<open>Tables\<close>

datatype night_status = Setup | Live | Paused | Done

record night =
  ns_id :: string
  ns_div :: string
  ns_status :: night_status
  ns_courts :: int
  ns_minutes :: int
  ns_auto :: bool
  ns_round :: int
  ns_endsAt :: "int option"
  ns_pausedAt :: "int option"
  ns_bench :: "pid list"
  ns_planned :: int
  ns_stopAt :: "int option"

record rplayer =
  rp_id :: pid
  rp_session :: string
  rp_entrant :: string
  rp_name :: string
  rp_rating :: rat
  rp_wins :: int
  rp_games :: int
  rp_active :: bool
  rp_start :: "int option"

record rcourt =
  rc_session :: string
  rc_round :: int
  rc_court :: nat
  rc_a :: "pid \<times> pid"
  rc_b :: "pid \<times> pid"
  rc_winner :: string

record rscore =
  rs_session :: string
  rs_round :: int
  rs_player :: pid
  rs_score :: "int option"

record rsub =
  su_session :: string
  su_round :: int
  su_out :: pid
  su_in :: pid

text \<open>\<open>nd_loser\<close> is the column \<open>ladder_loser_mode\<close> of the leagues.\<close>

record night_db =
  nd_sessions :: "night list"
  nd_players :: "rplayer list"
  nd_courts :: "rcourt list"
  nd_scores :: "rscore list"
  nd_subs :: "rsub list"
  nd_loser :: "(string \<times> string) list"
  nd_ladder :: ladder_db

datatype block_reason = IsPaused | TiedCourts "nat list" | Inconsistent | TooFewPlayers | SetupOnly

datatype night_error =
  NNotFound | RoundBlocked block_reason | Upstream | BadRequest | NotLive | NotPaused | NotDone | NConflict
| NStarted | NEnded | NotLiveRound | NotYourCourt | SubbedOut | NotOnYet | Resting | NotEnoughPlayers
| NameTaken | NotStarted | AlreadyOut | AlreadySubstituted | RoundPlayed | TooManyRounds | NDbError

type_synonym 'a nres = "(night_error + 'a) \<times> night_db"

text \<open>
  The stored procedures. Start and advance take the courts, the bench and the buzzer; each of the three
  answers whether it acted and why not. \<open>nr_newId\<close> is the id the database gives a new roster row.
\<close>

record night_rpc =
  nr_start :: "string \<Rightarrow> RotCourt list \<Rightarrow> pid list \<Rightarrow> int \<Rightarrow> night_db \<Rightarrow> (night_db \<times> bool \<times> string) option"
  nr_advance :: "string \<Rightarrow> int \<Rightarrow> RotCourt list \<Rightarrow> pid list \<Rightarrow> int \<Rightarrow> night_db
    \<Rightarrow> night_error + (night_db \<times> bool \<times> string)"
  nr_end :: "string \<Rightarrow> night_db \<Rightarrow> (night_db \<times> bool \<times> string) option"
  nr_join :: "string \<Rightarrow> pid list \<Rightarrow> night_db \<Rightarrow> night_db"
  nr_newId :: "night_db \<Rightarrow> pid"

text \<open>The reads whose failure the code treats on purpose.\<close>

datatype night_read = ProbeScores | ReadScores | ReadCourts | ReadSubs | ReadInactive | ReadActive | ReadMode | ReadGames | ReadStatus

section \<open>Access\<close>

definition session_of :: "string \<Rightarrow> night_db \<Rightarrow> night option" where
  "session_of sid d = List.find (\<lambda>s. ns_id s = sid) (nd_sessions d)"

definition update_session :: "string \<Rightarrow> (night \<Rightarrow> night) \<Rightarrow> night_db \<Rightarrow> night_db" where
  "update_session sid f d = d\<lparr>nd_sessions := map (\<lambda>s. if ns_id s = sid then f s else s) (nd_sessions d)\<rparr>"

text \<open>A guarded update of the session row, with whether it matched.\<close>

definition claim_session :: "string \<Rightarrow> (night \<Rightarrow> bool) \<Rightarrow> (night \<Rightarrow> night) \<Rightarrow> night_db \<Rightarrow> bool \<times> night_db" where
  "claim_session sid P f d =
    (if list_ex (\<lambda>s. ns_id s = sid \<and> P s) (nd_sessions d)
     then (True, d\<lparr>nd_sessions := map (\<lambda>s. if ns_id s = sid \<and> P s then f s else s) (nd_sessions d)\<rparr>)
     else (False, d))"

definition roster :: "string \<Rightarrow> night_db \<Rightarrow> rplayer list" where
  "roster sid d = filter (\<lambda>p. rp_session p = sid) (nd_players d)"

definition player_of :: "pid \<Rightarrow> night_db \<Rightarrow> rplayer option" where
  "player_of i d = List.find (\<lambda>p. rp_id p = i) (nd_players d)"

definition update_player :: "pid \<Rightarrow> (rplayer \<Rightarrow> rplayer) \<Rightarrow> night_db \<Rightarrow> night_db" where
  "update_player i f d = d\<lparr>nd_players := map (\<lambda>p. if rp_id p = i then f p else p) (nd_players d)\<rparr>"

definition round_rows :: "string \<Rightarrow> int \<Rightarrow> night_db \<Rightarrow> rcourt list" where
  "round_rows sid r d = filter (\<lambda>c. rc_session c = sid \<and> rc_round c = r) (nd_courts d)"

definition row_seats :: "rcourt \<Rightarrow> pid list" where
  "row_seats c = [fst (rc_a c), snd (rc_a c), fst (rc_b c), snd (rc_b c)]"

definition rotationPlayers :: "string \<Rightarrow> night_db \<Rightarrow> rplayer list" where
  "rotationPlayers sid d = sort_by (\<lambda>a b. rp_rating a > rp_rating b) (roster sid d)"

definition rotationSubstitutionsStrict :: "string \<Rightarrow> night_db \<Rightarrow> rsub list" where
  "rotationSubstitutionsStrict sid d = sort_by (\<lambda>a b. su_round a < su_round b) (filter (\<lambda>s. su_session s = sid) (nd_subs d))"

definition DivisionOfRotationSession :: "string \<Rightarrow> night_db \<Rightarrow> string option" where
  "DivisionOfRotationSession sid d = map_option ns_div (session_of sid d)"

definition IsRotationParticipant :: "string \<Rightarrow> string \<Rightarrow> night_db \<Rightarrow> bool" where
  "IsRotationParticipant sid u d = (u \<noteq> [] \<and> (case DivisionOfRotationSession sid d of
     None \<Rightarrow> False
   | Some dv \<Rightarrow> let e = callerEntrantID u dv (nd_ladder d) in
       e \<noteq> [] \<and> list_ex (\<lambda>p. rp_session p = sid \<and> rp_entrant p = e) (nd_players d)))"

text \<open>The losers' rule of the league the session's division belongs to.\<close>

definition rotationLoserMode :: "string \<Rightarrow> night_db \<Rightarrow> LoserMode" where
  "rotationLoserMode sid d = (case DivisionOfRotationSession sid d of
     None \<Rightarrow> LosersDown
   | Some dv \<Rightarrow> if dv = [] then LosersDown
       else let lg = leagueIDOfDivision (nd_ladder d) dv in
         if lg = [] then LosersDown
         else if map_of (nd_loser d) lg = Some ''stay'' then LosersStay else LosersDown)"

section \<open>Scores and winners\<close>

definition maxRotationScore :: int where "maxRotationScore = 99"
definition maxScorecardRounds :: int where "maxScorecardRounds = 60"

definition seat_points :: "(pid \<rightharpoonup> int) \<Rightarrow> pid \<Rightarrow> int \<times> bool" where
  "seat_points m p = (if p = [] then (0, True) else case m p of None \<Rightarrow> (0, False) | Some v \<Rightarrow> (v, True))"

definition teamPoints :: "(pid \<rightharpoonup> int) \<Rightarrow> pid \<times> pid \<Rightarrow> int \<times> bool" where
  "teamPoints m t = (let (p, f) = seat_points m (fst t); (q, g) = seat_points m (snd t) in (p + q, f \<and> g))"

definition score_map :: "string \<Rightarrow> int \<Rightarrow> night_db \<Rightarrow> pid \<rightharpoonup> int" where
  "score_map sid r d = fold (\<lambda>s m. case rs_score s of None \<Rightarrow> m | Some v \<Rightarrow> m(rs_player s \<mapsto> v))
    (filter (\<lambda>s. rs_session s = sid \<and> rs_round s = r) (nd_scores d)) Map.empty"

definition set_winner :: "string \<Rightarrow> int \<Rightarrow> nat \<Rightarrow> string \<Rightarrow> night_db \<Rightarrow> night_db" where
  "set_winner sid r k w d = d\<lparr>nd_courts := map (\<lambda>c. if rc_session c = sid \<and> rc_round c = r \<and> rc_court c = k
    then c\<lparr>rc_winner := w\<rparr> else c) (nd_courts d)\<rparr>"

text \<open>Empty when the scores do not decide the court.\<close>

definition card_winner :: "(pid \<rightharpoonup> int) \<Rightarrow> rcourt \<Rightarrow> string" where
  "card_winner m c = (let (ap, af) = teamPoints m (rc_a c); (bp, bf) = teamPoints m (rc_b c) in
    if \<not> af \<or> \<not> bf \<or> (ap = 0 \<and> bp = 0) \<or> ap = bp then [] else if bp > ap then ''b'' else ''a'')"

definition persistScorecardWinners :: "(night_read \<Rightarrow> bool) \<Rightarrow> string \<Rightarrow> int \<Rightarrow> night_db \<Rightarrow> unit nres" where
  "persistScorecardWinners fails sid r d =
    (if fails ReadScores then (Inl Upstream, d)
     else if \<not> list_ex (\<lambda>s. rs_session s = sid \<and> rs_round s = r) (nd_scores d) then (Inr (), d)
     else if fails ReadCourts then (Inl Upstream, d)
     else let m = score_map sid r d in
       (Inr (), fold (\<lambda>c. if card_winner m c = [] then id else set_winner sid r (rc_court c) (card_winner m c))
         (round_rows sid r d) d))"

text \<open>Wins derived from the stored results.\<close>

definition winning_seats :: "rcourt \<Rightarrow> pid list" where
  "winning_seats c = (let w = trim (rc_winner c) in
    filter (\<lambda>i. i \<noteq> []) (map trim
      (if w = ''a'' then [fst (rc_a c), snd (rc_a c)] else if w = ''b'' then [fst (rc_b c), snd (rc_b c)] else [])))"

definition rotationWinsFromCourts :: "rcourt list \<Rightarrow> pid \<Rightarrow> int" where
  "rotationWinsFromCourts rows i = int (length (filter (\<lambda>j. j = i) (concat (map winning_seats rows))))"

definition retallyRotationWins :: "string \<Rightarrow> night_db \<Rightarrow> night_db" where
  "retallyRotationWins sid d =
    (let wins = rotationWinsFromCourts (filter (\<lambda>c. rc_session c = sid) (nd_courts d)) in
     d\<lparr>nd_players := map (\<lambda>p. if rp_session p = sid \<and> rp_id p \<noteq> [] \<and> rp_wins p \<noteq> wins (rp_id p)
       then p\<lparr>rp_wins := wins (rp_id p)\<rparr> else p) (nd_players d)\<rparr>)"

definition rederivePastRound :: "(night_read \<Rightarrow> bool) \<Rightarrow> string \<Rightarrow> int \<Rightarrow> night_db \<Rightarrow> unit nres" where
  "rederivePastRound fails sid r d = (case session_of sid d of
     None \<Rightarrow> (Inr (), d)
   | Some s \<Rightarrow> if \<not> (r < ns_round s \<or> ns_status s = Done) then (Inr (), d)
       else case persistScorecardWinners fails sid r d of
         (Inl e, d') \<Rightarrow> (Inl e, d')
       | (Inr _, d') \<Rightarrow> (Inr (), retallyRotationWins sid d'))"

definition SetRotationCourtWinner :: "string \<Rightarrow> int \<Rightarrow> nat \<Rightarrow> string \<Rightarrow> night_db \<Rightarrow> unit nres" where
  "SetRotationCourtWinner sid r k winner d =
    (let w = trim winner in
     if w \<noteq> ''a'' \<and> w \<noteq> ''b'' \<and> w \<noteq> [] then (Inl BadRequest, d)
     else if r < 1 \<or> k < 1 then (Inl BadRequest, d)
     else if \<not> list_ex (\<lambda>c. rc_court c = k) (round_rows sid r d) then (Inl NNotFound, d)
     else (Inr (), retallyRotationWins sid (set_winner sid r k w d)))"

section \<open>The scorecard\<close>

definition ClearRotationScorecard :: "string \<Rightarrow> night_db \<Rightarrow> unit nres" where
  "ClearRotationScorecard sid d = (case session_of sid d of
     None \<Rightarrow> (Inl NNotFound, d)
   | Some s \<Rightarrow> if ns_status s \<noteq> Setup then (Inl (RoundBlocked SetupOnly), d)
       else (Inr (), d\<lparr>nd_scores := filter (\<lambda>x. rs_session x \<noteq> sid) (nd_scores d)\<rparr>))"

text \<open>One row per session, round and player: a write replaces the row or adds it.\<close>

definition put_score :: "rscore \<Rightarrow> night_db \<Rightarrow> night_db" where
  "put_score s d = (let same = (\<lambda>x. rs_session x = rs_session s \<and> rs_round x = rs_round s \<and> rs_player x = rs_player s) in
    d\<lparr>nd_scores := (if list_ex same (nd_scores d) then map (\<lambda>x. if same x then s else x) (nd_scores d)
                   else nd_scores d @ [s])\<rparr>)"

definition AddScorecardRound :: "string \<Rightarrow> night_db \<Rightarrow> int nres" where
  "AddScorecardRound sid d = (case session_of sid d of
     None \<Rightarrow> (Inl NNotFound, d)
   | Some s \<Rightarrow>
       let nxt = fold (\<lambda>x n. max n (rs_round x)) (filter (\<lambda>x. rs_session x = sid) (nd_scores d)) (ns_round s) + 1 in
       if nxt > maxScorecardRounds then (Inl TooManyRounds, d)
       else if list_ex (\<lambda>x. rs_session x = sid \<and> rs_round x = nxt) (nd_scores d) then (Inl NConflict, d)
       else if roster sid d = [] then (Inl NotEnoughPlayers, d)
       else (Inr nxt, fold (\<lambda>p. put_score \<lparr>rs_session = sid, rs_round = nxt, rs_player = rp_id p, rs_score = None\<rparr>)
              (rotationPlayers sid d) d))"

definition DeleteScorecardRound :: "string \<Rightarrow> int \<Rightarrow> night_db \<Rightarrow> unit nres" where
  "DeleteScorecardRound sid r d =
    (if r < 1 then (Inl BadRequest, d)
     else case session_of sid d of
       None \<Rightarrow> (Inl NNotFound, d)
     | Some s \<Rightarrow> if r \<le> ns_round s then (Inl RoundPlayed, d)
         else (Inr (), d\<lparr>nd_scores := filter (\<lambda>x. \<not> (rs_session x = sid \<and> rs_round x = r)) (nd_scores d)\<rparr>))"

text \<open>The first substitution that refuses the cell, in the order of the history.\<close>

fun sub_refuses :: "int \<Rightarrow> pid \<Rightarrow> rsub list \<Rightarrow> night_error option" where
  "sub_refuses r i [] = None"
| "sub_refuses r i (s # ss) =
    (if su_out s = i \<and> r \<ge> su_round s then Some SubbedOut
     else if su_in s = i \<and> r < su_round s then Some NotOnYet
     else sub_refuses r i ss)"

definition SetRotationScore :: "string \<Rightarrow> int \<Rightarrow> pid \<Rightarrow> int option \<Rightarrow> night_db \<Rightarrow> unit nres" where
  "SetRotationScore sid r i score d = (case sub_refuses r i (rotationSubstitutionsStrict sid d) of
     Some e \<Rightarrow> (Inl e, d)
   | None \<Rightarrow>
     if r < 1 \<or> r > maxScorecardRounds \<or> trim i = [] then (Inl BadRequest, d)
     else if (case score of None \<Rightarrow> False | Some v \<Rightarrow> v < 0 \<or> v > maxRotationScore) then (Inl BadRequest, d)
     else if score \<noteq> None \<and> round_rows sid r d \<noteq> []
       \<and> \<not> list_ex (\<lambda>c. i \<in> set (row_seats c)) (round_rows sid r d) then (Inl Resting, d)
     else if \<not> list_ex (\<lambda>p. rp_id p = i) (roster sid d) then (Inl NNotFound, d)
     else (Inr (), put_score \<lparr>rs_session = sid, rs_round = r, rs_player = i, rs_score = score\<rparr> d))"

fun set_scores :: "string \<Rightarrow> int \<Rightarrow> (pid \<times> int option) list \<Rightarrow> night_db \<Rightarrow> unit nres" where
  "set_scores sid r [] d = (Inr (), d)"
| "set_scores sid r ((i, v) # es) d = (case SetRotationScore sid r i v d of
     (Inl e, d') \<Rightarrow> (Inl e, d')
   | (Inr _, d') \<Rightarrow> set_scores sid r es d')"

definition SetRotationScores :: "(night_read \<Rightarrow> bool) \<Rightarrow> string \<Rightarrow> int \<Rightarrow> (pid \<times> int option) list \<Rightarrow> night_db \<Rightarrow> unit nres" where
  "SetRotationScores fails sid r es d = (case set_scores sid r es d of
     (Inl e, d') \<Rightarrow> (Inl e, d')
   | (Inr _, d') \<Rightarrow> rederivePastRound fails sid r d')"

section \<open>The session's settings\<close>

definition SetRotationSessionLimits :: "string \<Rightarrow> int \<Rightarrow> int option option \<Rightarrow> night_db \<Rightarrow> unit nres" where
  "SetRotationSessionLimits sid planned stopAt d =
    (let n = (if planned < 0 then 0 else planned) in
     if n > maxScorecardRounds then (Inl TooManyRounds, d)
     else case stopAt of
       Some None \<Rightarrow> (Inl BadRequest, d)
     | Some (Some t) \<Rightarrow> (Inr (), update_session sid (\<lambda>s. s\<lparr>ns_planned := n, ns_stopAt := Some t\<rparr>) d)
     | None \<Rightarrow> (Inr (), update_session sid (\<lambda>s. s\<lparr>ns_planned := n, ns_stopAt := None\<rparr>) d))"

definition rotationShouldStop :: "night \<Rightarrow> int \<Rightarrow> int \<Rightarrow> bool" where
  "rotationShouldStop s closedRound now =
    (if ns_planned s > 0 \<and> closedRound \<ge> ns_planned s then True
     else case ns_stopAt s of
       None \<Rightarrow> False
     | Some stop \<Rightarrow> now + (if ns_minutes s \<le> 0 then 1 else ns_minutes s) * 60 > stop)"

definition SetRotationSessionRoundMinutes :: "string \<Rightarrow> int \<Rightarrow> night_db \<Rightarrow> unit nres" where
  "SetRotationSessionRoundMinutes sid mins d =
    (let m = (if mins < 1 then 1 else mins) in
     if m > 60 then (Inl BadRequest, d)
     else case session_of sid d of
       None \<Rightarrow> (Inl NNotFound, d)
     | Some s \<Rightarrow> if ns_status s \<noteq> Setup then (Inl (RoundBlocked SetupOnly), d)
         else (Inr (), update_session sid (\<lambda>s. s\<lparr>ns_minutes := m\<rparr>) d))"

definition SetRotationSessionCourts :: "string \<Rightarrow> int \<Rightarrow> night_db \<Rightarrow> unit nres" where
  "SetRotationSessionCourts sid k d = (Inr (), update_session sid (\<lambda>s. s\<lparr>ns_courts := (if k < 1 then 1 else k)\<rparr>) d)"

definition SetRotationSessionAutoAdvance :: "string \<Rightarrow> bool \<Rightarrow> night_db \<Rightarrow> unit nres" where
  "SetRotationSessionAutoAdvance sid auto d = (Inr (), update_session sid (\<lambda>s. s\<lparr>ns_auto := auto\<rparr>) d)"

definition roundEndsAt :: "int \<Rightarrow> int \<Rightarrow> int" where
  "roundEndsAt now mins = now + mins * 60"

definition PauseRotationSession :: "int \<Rightarrow> string \<Rightarrow> night_db \<Rightarrow> unit nres" where
  "PauseRotationSession now sid d =
    (case claim_session sid (\<lambda>s. ns_status s = Live) (\<lambda>s. s\<lparr>ns_status := Paused, ns_pausedAt := Some now\<rparr>) d of
       (True, d') \<Rightarrow> (Inr (), d')
     | (False, d') \<Rightarrow> (Inl NotLive, d'))"

definition resumed_end :: "int \<Rightarrow> night \<Rightarrow> int option" where
  "resumed_end now s = (case (ns_pausedAt s, ns_endsAt s) of
     (Some p, Some e) \<Rightarrow> if now - p > 0 then Some (e + (now - p)) else Some e
   | _ \<Rightarrow> ns_endsAt s)"

definition ResumeRotationSession :: "int \<Rightarrow> string \<Rightarrow> night_db \<Rightarrow> unit nres" where
  "ResumeRotationSession now sid d = (case session_of sid d of
     None \<Rightarrow> (Inl NNotFound, d)
   | Some s \<Rightarrow> if ns_status s \<noteq> Paused then (Inl NotPaused, d)
       else case claim_session sid (\<lambda>x. ns_status x = Paused)
              (\<lambda>x. x\<lparr>ns_status := Live, ns_pausedAt := None, ns_endsAt := resumed_end now s\<rparr>) d of
         (True, d') \<Rightarrow> (Inr (), d')
       | (False, d') \<Rightarrow> (Inl NConflict, d'))"

definition ReopenRotationSession :: "int \<Rightarrow> string \<Rightarrow> night_db \<Rightarrow> unit nres" where
  "ReopenRotationSession now sid d = (case session_of sid d of
     None \<Rightarrow> (Inl NNotFound, d)
   | Some s \<Rightarrow> if ns_status s \<noteq> Done then (Inl NotDone, d)
       else case claim_session sid (\<lambda>x. ns_status x = Done)
              (\<lambda>x. x\<lparr>ns_status := Live, ns_pausedAt := None,
                 ns_endsAt := Some (roundEndsAt now (if ns_minutes s \<le> 0 then 12 else ns_minutes s))\<rparr>) d of
         (True, d') \<Rightarrow> (Inr (), d')
       | (False, d') \<Rightarrow> (Inl NConflict, d'))"

section \<open>The roster\<close>

text \<open>A new row with the columns' defaults; an entrant has one row per session.\<close>

definition insert_player :: "pid \<Rightarrow> string \<Rightarrow> string \<Rightarrow> string \<Rightarrow> rat \<Rightarrow> night_db \<Rightarrow> night_db option" where
  "insert_player i sid entrant name rating d =
    (if entrant \<noteq> [] \<and> list_ex (\<lambda>p. rp_entrant p = entrant) (roster sid d) then None
     else Some (d\<lparr>nd_players := nd_players d @ [\<lparr>rp_id = i, rp_session = sid, rp_entrant = entrant, rp_name = name,
       rp_rating = rating, rp_wins = 0, rp_games = 0, rp_active = True, rp_start = None\<rparr>]\<rparr>))"

definition joinBench :: "night_rpc \<Rightarrow> string \<Rightarrow> pid list \<Rightarrow> night_db \<Rightarrow> night_db" where
  "joinBench R sid ids d = (if ids = [] then d else nr_join R sid ids d)"

definition rating_or :: "rat \<Rightarrow> rat \<Rightarrow> rat" where
  "rating_or def r = (if r < 1 \<or> r > 7 then def else r)"

definition AddRotationPlayer :: "night_rpc \<Rightarrow> string \<Rightarrow> string \<Rightarrow> string \<Rightarrow> rat \<Rightarrow> night_db \<Rightarrow> pid nres" where
  "AddRotationPlayer R sid entrant name rating d =
    (let i = nr_newId R d in
     case insert_player i sid entrant name (rating_or 3 rating) d of
       None \<Rightarrow> (Inl NDbError, d)
     | Some d' \<Rightarrow> (Inr i, joinBench R sid [i] d'))"

text \<open>The import loop: the new ids and whether an insert failed.\<close>

fun import_entrants :: "night_rpc \<Rightarrow> string \<Rightarrow> string set \<Rightarrow> entrant list \<Rightarrow> night_db \<Rightarrow> (pid list \<times> bool) \<times> night_db" where
  "import_entrants R sid have [] d = (([], False), d)"
| "import_entrants R sid have (e # es) d =
    (if en_id e = [] \<or> en_id e \<in> have then import_entrants R sid have es d
     else let i = nr_newId R d in
       case insert_player i sid (en_id e) (en_name e) 3 d of
         None \<Rightarrow> (([], True), d)
       | Some d' \<Rightarrow> (case import_entrants R sid have es d' of ((ids, failed), d'') \<Rightarrow> ((i # ids, failed), d'')))"

definition ImportLadderEntrantsToSession :: "night_rpc \<Rightarrow> string \<Rightarrow> night_db \<Rightarrow> nat nres" where
  "ImportLadderEntrantsToSession R sid d = (case DivisionOfRotationSession sid d of
     None \<Rightarrow> (Inl NNotFound, d)
   | Some dv \<Rightarrow>
       (case import_entrants R sid (set (map rp_entrant (roster sid d)) - {[]}) (ladder_rows dv (nd_ladder d)) d of
          ((ids, failed), d') \<Rightarrow> if failed then (Inl NDbError, d') else (Inr (length ids), joinBench R sid ids d')))"

definition rosterEditable :: "pid \<Rightarrow> night_db \<Rightarrow> night_error option" where
  "rosterEditable i d = (case player_of i d of
     None \<Rightarrow> Some NNotFound
   | Some p \<Rightarrow> (case session_of (rp_session p) d of
       None \<Rightarrow> None
     | Some s \<Rightarrow> if ns_status s \<noteq> Setup then Some NStarted else None))"

definition RemoveRotationPlayer :: "pid \<Rightarrow> night_db \<Rightarrow> unit nres" where
  "RemoveRotationPlayer i d = (case rosterEditable i d of
     Some e \<Rightarrow> (Inl e, d)
   | None \<Rightarrow> (Inr (), d\<lparr>nd_players := filter (\<lambda>p. rp_id p \<noteq> i) (nd_players d)\<rparr>))"

definition activeCount :: "string \<Rightarrow> night_db \<Rightarrow> nat" where
  "activeCount sid d = length (filter rp_active (roster sid d))"

definition SetRotationPlayerActive :: "pid \<Rightarrow> bool \<Rightarrow> night_db \<Rightarrow> unit nres" where
  "SetRotationPlayerActive i act d = (case player_of i d of
     None \<Rightarrow> (Inl NNotFound, d)
   | Some p \<Rightarrow>
     let sid = rp_session p;
         running = (case session_of sid d of None \<Rightarrow> False | Some s \<Rightarrow> ns_status s = Live \<or> ns_status s = Paused) in
     if running \<and> \<not> act \<and> activeCount sid d \<le> 4 then (Inl NotEnoughPlayers, d)
     else if running \<and> act \<and> list_ex (\<lambda>s. su_out s = i) (rotationSubstitutionsStrict sid d)
     then (Inl AlreadySubstituted, d)
     else (Inr (), update_player i (\<lambda>p. p\<lparr>rp_active := act\<rparr>) d))"

definition SetRotationPlayerRating :: "pid \<Rightarrow> rat \<Rightarrow> night_db \<Rightarrow> unit nres" where
  "SetRotationPlayerRating i r d = (case rosterEditable i d of
     Some e \<Rightarrow> (Inl e, d)
   | None \<Rightarrow> (Inr (), update_player i (\<lambda>p. p\<lparr>rp_rating := (if r < 1 then 1 else if r > 7 then 7 else r)\<rparr>) d))"

definition SetRotationPlayerStartCourt :: "pid \<Rightarrow> int option \<Rightarrow> night_db \<Rightarrow> unit nres" where
  "SetRotationPlayerStartCourt i court d = (case rosterEditable i d of
     Some e \<Rightarrow> (Inl e, d)
   | None \<Rightarrow> if (case court of None \<Rightarrow> False | Some k \<Rightarrow> k < 1) then (Inl BadRequest, d)
       else (Inr (), update_player i (\<lambda>p. p\<lparr>rp_start := court\<rparr>) d))"

text \<open>\<open>shuffle\<close> is the random permutation drawn.\<close>

definition ShuffleRotationStartCourts :: "(pid list \<Rightarrow> pid list) \<Rightarrow> string \<Rightarrow> night_db \<Rightarrow> nat nres" where
  "ShuffleRotationStartCourts shuffle sid d = (case session_of sid d of
     None \<Rightarrow> (Inl NNotFound, d)
   | Some s \<Rightarrow> if ns_status s \<noteq> Setup then (Inl NStarted, d)
     else let rows = filter (\<lambda>p. rp_id p \<noteq> []) (roster sid d);
              ids = shuffle (map rp_id (filter rp_active rows));
              placed = map_of (zip ids (map (\<lambda>i. int (i div 4) + 1) [0..<length ids]))
          in (Inr (length ids), d\<lparr>nd_players := map (\<lambda>p.
               if rp_session p = sid \<and> rp_id p \<noteq> [] then p\<lparr>rp_start := placed (rp_id p)\<rparr> else p) (nd_players d)\<rparr>))"

definition SetRotationPlayerName :: "pid \<Rightarrow> string \<Rightarrow> night_db \<Rightarrow> unit nres" where
  "SetRotationPlayerName i name d =
    (if trim name = [] then (Inl BadRequest, d)
     else case player_of i d of
       None \<Rightarrow> (Inl NNotFound, d)
     | Some p \<Rightarrow>
       let d1 = update_player i (\<lambda>q. q\<lparr>rp_name := trim name\<rparr>) d in
       if trim (rp_entrant p) = [] then (Inr (), d1)
       else (Inr (), d1\<lparr>nd_ladder := snd (SetLadderEntrantName (trim (rp_entrant p)) (trim name) (nd_ladder d1))\<rparr>))"

fun promote_loop :: "ladder_rpc \<Rightarrow> string \<Rightarrow> string \<Rightarrow> pid list \<Rightarrow> nat \<Rightarrow> night_db \<Rightarrow> nat nres" where
  "promote_loop L sid dv [] n d = (Inr n, d)"
| "promote_loop L sid dv (i # is') n d =
    (if trim i = [] then promote_loop L sid dv is' n d
     else case List.find (\<lambda>p. rp_id p = trim i) (roster sid d) of
       None \<Rightarrow> promote_loop L sid dv is' n d
     | Some p \<Rightarrow>
       if trim (rp_entrant p) \<noteq> [] \<or> trim (rp_name p) = [] then promote_loop L sid dv is' n d
       else case AddLadderEntrant L dv
              \<lparr>ar_name = trim (rp_name p), ar_player = [], ar_team = False, ar_allowDuplicate = True\<rparr> (nd_ladder d) of
         (Inl e, l) \<Rightarrow> (Inl NDbError, d\<lparr>nd_ladder := l\<rparr>)
       | (Inr e, l) \<Rightarrow> promote_loop L sid dv is' (n + 1)
           (update_player (trim i) (\<lambda>q. q\<lparr>rp_entrant := en_id e\<rparr>) (d\<lparr>nd_ladder := l\<rparr>)))"

definition PromoteRotationPlayersToLadder :: "ladder_rpc \<Rightarrow> string \<Rightarrow> pid list \<Rightarrow> night_db \<Rightarrow> nat nres" where
  "PromoteRotationPlayersToLadder L sid ids d =
    (if ids = [] then (Inr 0, d)
     else case DivisionOfRotationSession sid d of
       None \<Rightarrow> (Inl NNotFound, d)
     | Some dv \<Rightarrow> promote_loop L sid dv ids 0 d)"

section \<open>Substitution\<close>

definition swap_seat :: "pid \<Rightarrow> pid \<Rightarrow> pid \<Rightarrow> pid" where
  "swap_seat old new x = (if x = old then new else x)"

definition swap_row :: "pid \<Rightarrow> pid \<Rightarrow> rcourt \<Rightarrow> rcourt" where
  "swap_row old new c = c\<lparr>rc_a := (swap_seat old new (fst (rc_a c)), swap_seat old new (snd (rc_a c))),
    rc_b := (swap_seat old new (fst (rc_b c)), swap_seat old new (snd (rc_b c)))\<rparr>"

text \<open>The round the substitute inherits: the next one when the player who leaves has scored this one.\<close>

definition handover_round :: "string \<Rightarrow> pid \<Rightarrow> night \<Rightarrow> night_db \<Rightarrow> int" where
  "handover_round sid out s d =
    (let r = (if ns_round s < 1 then 1 else ns_round s) in
     if list_ex (\<lambda>x. rs_session x = sid \<and> rs_round x = r \<and> rs_player x = out \<and> rs_score x \<noteq> None) (nd_scores d)
     then r + 1 else r)"

definition rotation_substitute :: "pid \<Rightarrow> string \<Rightarrow> pid \<Rightarrow> string \<Rightarrow> rat \<Rightarrow> string \<Rightarrow> night_db \<Rightarrow> (int \<times> pid) nres" where
  "rotation_substitute new sid out name rating entrant d = (case session_of sid d of
     None \<Rightarrow> (Inl NNotFound, d)
   | Some s \<Rightarrow>
     if ns_status s = Setup then (Inl NotStarted, d)
     else if ns_status s \<noteq> Live \<and> ns_status s \<noteq> Paused then (Inl NEnded, d)
     else if \<not> list_ex (\<lambda>p. rp_id p = out \<and> rp_active p) (roster sid d) then (Inl AlreadyOut, d)
     else if list_ex (\<lambda>x. su_session x = sid \<and> su_out x = out) (nd_subs d) then (Inl AlreadySubstituted, d)
     else case insert_player new sid entrant name rating d of
       None \<Rightarrow> (Inl NDbError, d)
     | Some d1 \<Rightarrow>
       let eff = handover_round sid out s d;
           d2 = d1\<lparr>nd_courts := map (\<lambda>c. if rc_session c = sid \<and> rc_round c \<ge> eff then swap_row out new c else c)
                  (nd_courts d1)\<rparr>;
           d3 = update_session sid (\<lambda>x. x\<lparr>ns_bench := map (swap_seat out new) (ns_bench x)\<rparr>) d2;
           d4 = d3\<lparr>nd_subs := nd_subs d3 @ [\<lparr>su_session = sid, su_round = eff, su_out = out, su_in = new\<rparr>]\<rparr>
       in (Inr (eff, new), update_player out (\<lambda>p. p\<lparr>rp_active := False\<rparr>) d4))"

definition SubstituteRotationPlayer :: "night_rpc \<Rightarrow> string \<Rightarrow> pid \<Rightarrow> string \<Rightarrow> rat \<Rightarrow> string \<Rightarrow> night_db \<Rightarrow> (int \<times> pid) nres" where
  "SubstituteRotationPlayer R sid out rawName rating entrant d =
    (if trim rawName = [] then (Inl BadRequest, d)
     else let name = take 80 (trim rawName) in
       if list_ex (\<lambda>p. rp_active p \<and> equalFold (trim (rp_name p)) name \<and> rp_id p \<noteq> out) (roster sid d)
       then (Inl NameTaken, d)
       else let inherited = (case player_of out d of None \<Rightarrow> 3 | Some p \<Rightarrow> rp_rating p) in
         rotation_substitute (nr_newId R d) sid out name (rating_or inherited rating) entrant d)"

end
