(* ===== verification/Rotation_Advance.thy ===== *)
theory Rotation_Advance
  imports Rotation_Night
begin

text \<open>
  The life of a rotation night, \<open>internal/service/ladder_rotation.go\<close>: starting it, reporting a court,
  advancing to the next round, ending it, and the sweeps of \<open>rotation_sweep.go\<close>. Advancing is split where
  the code hands over to the database: \<open>advance_plan\<close> is everything up to the stored procedure and
  \<open>advance_commit\<close> the last check and the call, so that two racing advances are two plans and two commits.
\<close>

section \<open>Layouts between rounds\<close>

text \<open>
  \<open>settleDepartures\<close>: one pass over the seats, bottom court first, gives vacant seats to the queue and
  reports whether one stayed vacant; the loop drops the bottom court as long as one does.
\<close>

definition vacant :: "pid set \<Rightarrow> pid \<Rightarrow> bool" where
  "vacant left i \<longleftrightarrow> i = [] \<or> i \<in> left"

fun settle_seats :: "pid set \<Rightarrow> pid list \<Rightarrow> pid list \<Rightarrow> pid list \<times> pid list \<times> bool" where
  "settle_seats left [] w = ([], w, False)"
| "settle_seats left (s # ss) w =
    (if \<not> vacant left s then (case settle_seats left ss w of (ss', w', x) \<Rightarrow> (s # ss', w', x))
     else case w of
       [] \<Rightarrow> (case settle_seats left ss [] of (ss', w', x) \<Rightarrow> (s # ss', w', True))
     | p # w1 \<Rightarrow> (case settle_seats left ss w1 of (ss', w', x) \<Rightarrow> (p # ss', w', x)))"

definition with_ids :: "RotCourt \<Rightarrow> pid list \<Rightarrow> RotCourt" where
  "with_ids c ids = c\<lparr>TeamA := (ids ! 0, ids ! 1), TeamB := (ids ! 2, ids ! 3)\<rparr>"

fun settle_pass :: "pid set \<Rightarrow> RotCourt list \<Rightarrow> pid list \<Rightarrow> RotCourt list \<times> pid list \<times> bool" where
  "settle_pass left [] w = ([], w, False)"
| "settle_pass left (c # cs) w =
    (case settle_seats left (court_ids c) w of (ids, w1, x) \<Rightarrow>
       (case settle_pass left cs w1 of (cs', w2, y) \<Rightarrow> (with_ids c ids # cs', w2, x \<or> y)))"

definition survivors :: "pid set \<Rightarrow> RotCourt list \<Rightarrow> pid list" where
  "survivors left cs = filter (\<lambda>i. \<not> vacant left i) (concat (map court_ids cs))"

lemma length_settle_pass: "length (fst (settle_pass left cs w)) = length cs"
  by (induction left cs w rule: settle_pass.induct) (auto split: prod.splits)

function settle_loop :: "pid set \<Rightarrow> RotCourt list \<Rightarrow> pid list \<Rightarrow> layout" where
  "settle_loop left courts w =
    (case settle_pass left (rev courts) w of (rcs, w', stranded) \<Rightarrow>
       if \<not> stranded then (rev rcs, w')
       else case rcs of
         [] \<Rightarrow> ([], w')
       | c # up \<Rightarrow> if up = [] then ([], survivors left [c] @ w')
           else settle_loop left (rev up) (survivors left [c] @ w'))"
  by pat_completeness auto

termination
  apply (relation "measure (\<lambda>(left, courts, w). length courts)")
   apply simp
  subgoal for left courts w x y xa
    using length_settle_pass [of left "rev courts" w] by (cases "settle_pass left (rev courts) w") auto
  done

definition settleDepartures :: "RotCourt list \<Rightarrow> pid list \<Rightarrow> pid set \<Rightarrow> layout" where
  "settleDepartures courts bench left =
    (if left = {} then (courts, bench) else settle_loop left courts (filter (\<lambda>i. i \<notin> left) bench))"

fun growCourts :: "RotCourt list \<Rightarrow> pid list \<Rightarrow> int \<Rightarrow> layout" where
  "growCourts courts (p # q # r # t # bench) cap =
    (if 0 < cap \<and> cap \<le> int (length courts) then (courts, p # q # r # t # bench)
     else growCourts (courts @ [\<lparr>Court = length courts + 1, TeamA = (p, r), TeamB = (q, t)\<rparr>]) bench cap)"
| "growCourts courts bench cap = (courts, bench)"

definition sameLayout :: "RotCourt list \<Rightarrow> RotCourt list \<Rightarrow> bool" where
  "sameLayout a b \<longleftrightarrow> length a = length b \<and> list_all (\<lambda>(x, y). x = y) (zip a b)"

fun dedupe :: "pid set \<Rightarrow> pid list \<Rightarrow> pid list" where
  "dedupe seen [] = []"
| "dedupe seen (i # is') = (if i = [] \<or> i \<in> seen then dedupe seen is' else i # dedupe (insert i seen) is')"

definition dedupeIDs :: "pid list \<Rightarrow> pid list" where
  "dedupeIDs ids = dedupe {} ids"

section \<open>Starting\<close>

definition seat_of_player :: "rplayer \<Rightarrow> Seat" where
  "seat_of_player p = \<lparr>seat_ID = rp_id p, seat_Court = (case rp_start p of None \<Rightarrow> 0 | Some k \<Rightarrow> k)\<rparr>"

definition active_by_rating :: "string \<Rightarrow> night_db \<Rightarrow> rplayer list" where
  "active_by_rating sid d = filter rp_active (rotationPlayers sid d)"

definition StartRotationSession :: "night_rpc \<Rightarrow> (Seat list \<Rightarrow> Seat list) \<Rightarrow> int \<Rightarrow> string \<Rightarrow> night_db \<Rightarrow> unit nres" where
  "StartRotationSession R shuffle now sid d = (case session_of sid d of
     None \<Rightarrow> (Inl NNotFound, d)
   | Some s \<Rightarrow> if ns_status s \<noteq> Setup then (Inl NStarted, d)
     else
       let (rows, d1) = (if active_by_rating sid d \<noteq> [] then (active_by_rating sid d, d)
             else case ImportLadderEntrantsToSession R sid d of
               (Inl e, d') \<Rightarrow> ([], d')
             | (Inr n, d') \<Rightarrow> (active_by_rating sid d', d')) in
       if length rows < 4 then (Inl NotEnoughPlayers, d1)
       else
         let seats = map seat_of_player rows;
             drawn = (if list_ex (\<lambda>p. rp_start p \<noteq> None) rows then seats else shuffle seats);
             (courts, bench) = SeedPlacedCourts drawn (ns_courts s)
         in case nr_start R sid courts bench (roundEndsAt now (ns_minutes s)) d1 of
              None \<Rightarrow> (Inl NDbError, d1)
            | Some (d2, started, reason) \<Rightarrow>
                if \<not> started \<and> reason \<noteq> ''already_started'' then (Inl NDbError, d2) else (Inr (), d2))"

section \<open>Reporting a court\<close>

definition sitsOnCourt :: "string \<Rightarrow> string \<Rightarrow> int \<Rightarrow> nat \<Rightarrow> night_db \<Rightarrow> bool" where
  "sitsOnCourt sid u r k d = (u \<noteq> [] \<and> (case DivisionOfRotationSession sid d of
     None \<Rightarrow> False
   | Some dv \<Rightarrow> let e = callerEntrantID u dv (nd_ladder d);
                    mine = map rp_id (filter (\<lambda>p. rp_entrant p = e) (roster sid d))
       in e \<noteq> [] \<and> (case List.find (\<lambda>c. rc_court c = k) (round_rows sid r d) of
            None \<Rightarrow> False
          | Some c \<Rightarrow> list_ex (\<lambda>i. i \<in> set mine) (row_seats c))))"

definition ReportRotationCourt :: "string \<Rightarrow> string \<Rightarrow> bool \<Rightarrow> int \<Rightarrow> nat \<Rightarrow> string \<Rightarrow> night_db \<Rightarrow> unit nres" where
  "ReportRotationCourt sid caller isOwner r k winner d =
    (if winner \<noteq> ''a'' \<and> winner \<noteq> ''b'' then (Inl BadRequest, d)
     else case session_of sid d of
       None \<Rightarrow> (Inl NNotFound, d)
     | Some s \<Rightarrow>
       if ns_status s = Done then (Inl NEnded, d)
       else if ns_round s \<noteq> r then (Inl NotLiveRound, d)
       else if \<not> isOwner \<and> \<not> sitsOnCourt sid caller r k d then (Inl NotYourCourt, d)
       else if \<not> list_ex (\<lambda>c. rc_court c = k) (round_rows sid r d) then (Inl NNotFound, d)
       else (Inr (), set_winner sid r k winner d))"

section \<open>Ending\<close>

definition EndRotationSession :: "night_rpc \<Rightarrow> (night_read \<Rightarrow> bool) \<Rightarrow> string \<Rightarrow> night_db \<Rightarrow> unit nres" where
  "EndRotationSession R fails sid d =
    (case (case session_of sid d of None \<Rightarrow> (Inr (), d)
           | Some s \<Rightarrow> persistScorecardWinners fails sid (ns_round s) d) of
       (Inl e, d1) \<Rightarrow> (Inl e, d1)
     | (Inr _, d1) \<Rightarrow> (case nr_end R sid d1 of
           None \<Rightarrow> (Inl NDbError, d1)
         | Some (d2, ended, reason) \<Rightarrow>
             if \<not> ended \<and> reason = ''not_found'' then (Inl NNotFound, d2) else (Inr (), d2)))"

section \<open>Closing a round\<close>

definition court_of_row :: "rcourt \<Rightarrow> RotCourt" where
  "court_of_row c = \<lparr>Court = rc_court c, TeamA = rc_a c, TeamB = rc_b c\<rparr>"

definition board_rows :: "string \<Rightarrow> int \<Rightarrow> night_db \<Rightarrow> rcourt list" where
  "board_rows sid r d = sort_by (\<lambda>a b. rc_court a < rc_court b) (round_rows sid r d)"

text \<open>What the scores say of a court: a winner, nothing, or a tie nobody has broken.\<close>

definition close_court :: "(pid \<rightharpoonup> int) \<Rightarrow> rcourt \<Rightarrow> string \<times> bool" where
  "close_court m c = (let (ap, af) = teamPoints m (rc_a c); (bp, bf) = teamPoints m (rc_b c) in
    if af \<and> bf \<and> (ap > 0 \<or> bp > 0) then
      if ap > bp then (''a'', False)
      else if bp > ap then (''b'', False)
      else if rc_winner c = ''a'' \<or> rc_winner c = ''b'' then (rc_winner c, False)
      else ([], True)
    else ([], False))"

definition moves_as :: "(pid \<rightharpoonup> int) \<Rightarrow> rcourt \<Rightarrow> string" where
  "moves_as m c = (let w = fst (close_court m c); w' = (if w = [] then rc_winner c else w) in
    if w' = [] then ''a'' else w')"

definition persist_closed :: "string \<Rightarrow> int \<Rightarrow> (pid \<rightharpoonup> int) \<Rightarrow> rcourt list \<Rightarrow> night_db \<Rightarrow> night_db" where
  "persist_closed sid r m rows d = fold (\<lambda>c. if fst (close_court m c) = [] then id
     else set_winner sid r (rc_court c) (fst (close_court m c))) rows d"

text \<open>Following the handovers of players who have gone, at most one hop more than there are handovers.\<close>

fun resolve_hops :: "nat \<Rightarrow> (pid \<rightharpoonup> pid) \<Rightarrow> pid set \<Rightarrow> pid \<Rightarrow> pid" where
  "resolve_hops 0 takeover gone i = i"
| "resolve_hops (Suc n) takeover gone i =
    (if i \<notin> gone then i else case takeover i of None \<Rightarrow> i | Some j \<Rightarrow> resolve_hops n takeover gone j)"

definition takeover_of :: "rsub list \<Rightarrow> pid \<rightharpoonup> pid" where
  "takeover_of subs = fold (\<lambda>s m. m(su_out s \<mapsto> su_in s)) subs Map.empty"

definition resolve :: "rsub list \<Rightarrow> pid set \<Rightarrow> pid \<Rightarrow> pid" where
  "resolve subs gone i = resolve_hops (card (set (map su_out subs)) + 1) (takeover_of subs) gone i"

definition resolve_court :: "rsub list \<Rightarrow> pid set \<Rightarrow> RotCourt \<Rightarrow> RotCourt" where
  "resolve_court subs gone c = c\<lparr>TeamA := (resolve subs gone (fst (TeamA c)), resolve subs gone (snd (TeamA c))),
    TeamB := (resolve subs gone (fst (TeamB c)), resolve subs gone (snd (TeamB c)))\<rparr>"

definition remap_layout :: "rsub list \<Rightarrow> pid set \<Rightarrow> layout \<Rightarrow> layout" where
  "remap_layout subs gone l = (if subs = [] then l
    else let cur = map (resolve_court subs gone) (fst l) in
      (cur, dedupe (set (seated cur)) (map (resolve subs gone) (snd l))))"

definition inactiveIDs :: "string \<Rightarrow> night_db \<Rightarrow> pid set" where
  "inactiveIDs sid d = set (map rp_id (filter (\<lambda>p. rp_id p \<noteq> [] \<and> \<not> rp_active p) (roster sid d)))"

text \<open>The bench against the live roster: leavers out, unseated arrivals at the back.\<close>

definition reconcile :: "rplayer list \<Rightarrow> RotCourt list \<Rightarrow> pid list \<Rightarrow> pid list" where
  "reconcile players cur bench =
    (let act = filter (\<lambda>i. i \<noteq> []) (map rp_id (filter rp_active players)) in
     filter (\<lambda>i. i \<in> set act) bench
     @ filter (\<lambda>i. i \<notin> set (seated cur) \<and> i \<notin> set bench) act)"

definition played_with :: "(night_read \<Rightarrow> bool) \<Rightarrow> rplayer list \<Rightarrow> RotCourt list \<Rightarrow> pid \<rightharpoonup> int" where
  "played_with fails players cur = (\<lambda>i.
    let g = (if fails ReadGames then 0 else case List.find (\<lambda>p. rp_id p = i) players of None \<Rightarrow> 0 | Some p \<Rightarrow> rp_games p) in
    Some (g + int (length (filter (\<lambda>j. j = i \<and> j \<noteq> []) (seated cur)))))"

datatype plan = Stale | StopNight | NextUp "RotCourt list" "pid list"

text \<open>The next round of a closed one, from the results and who is left.\<close>

definition next_layout :: "RotCourt list \<Rightarrow> RotResult list \<Rightarrow> pid list \<Rightarrow> LoserMode \<Rightarrow> (pid \<rightharpoonup> int) \<Rightarrow> pid set \<Rightarrow> int
    \<Rightarrow> block_reason + layout" where
  "next_layout cur results bench mode played gone cap =
    (let (c1, b1) = NextRoundFair cur results bench mode played in
     if cur \<noteq> [] \<and> sameLayout cur c1 then Inl Inconsistent
     else let (c2, b2) = settleDepartures c1 b1 gone; (c3, b3) = growCourts c2 b2 cap in
       if c3 = [] then Inl TooFewPlayers else Inr (c3, b3))"

text \<open>The layout the next round is computed from: the closed round with the handovers applied, and its queue.\<close>

definition standing_layout :: "(night_read \<Rightarrow> bool) \<Rightarrow> string \<Rightarrow> night \<Rightarrow> rcourt list \<Rightarrow> night_db \<Rightarrow> layout" where
  "standing_layout fails sid s rows d =
    (let (cur, bench) = remap_layout (rotationSubstitutionsStrict sid d) (inactiveIDs sid d)
           (map court_of_row rows, dedupeIDs (ns_bench s))
     in (cur, if fails ReadActive then bench else reconcile (roster sid d) cur bench))"

definition plan_next :: "(night_read \<Rightarrow> bool) \<Rightarrow> int \<Rightarrow> string \<Rightarrow> night \<Rightarrow> (pid \<rightharpoonup> int) \<Rightarrow> rcourt list \<Rightarrow> night_db
    \<Rightarrow> night_error + plan" where
  "plan_next fails now sid s m rows d =
    (if fails ReadSubs \<or> fails ReadInactive then Inl Upstream
     else if fails ReadMode then Inl Upstream
     else
       let (cur, bench) = standing_layout fails sid s rows d;
           results = map (\<lambda>c. \<lparr>rr_Court = rc_court c, rr_Winner = moves_as m c\<rparr>) rows in
       case next_layout cur results bench (rotationLoserMode sid d) (played_with fails (roster sid d) cur)
              (inactiveIDs sid d) (ns_courts s) of
         Inl b \<Rightarrow> Inl (RoundBlocked b)
       | Inr (courts, bench') \<Rightarrow> if rotationShouldStop s (ns_round s) now then Inr StopNight else Inr (NextUp courts bench'))"

definition tied_courts :: "(pid \<rightharpoonup> int) \<Rightarrow> rcourt list \<Rightarrow> nat list" where
  "tied_courts m rows = map rc_court (filter (\<lambda>c. snd (close_court m c)) rows)"

definition advance_plan :: "(night_read \<Rightarrow> bool) \<Rightarrow> int \<Rightarrow> string \<Rightarrow> int \<Rightarrow> night_db \<Rightarrow> plan nres" where
  "advance_plan fails now sid expected d = (case session_of sid d of
     None \<Rightarrow> (Inl NNotFound, d)
   | Some s \<Rightarrow>
     if ns_status s \<noteq> Live \<and> ns_status s \<noteq> Paused then (Inl NotLive, d)
     else if ns_status s = Paused then (Inl (RoundBlocked IsPaused), d)
     else if expected > 0 \<and> expected \<noteq> ns_round s then (Inr Stale, d)
     else
       let rows = board_rows sid (ns_round s) d in
       if fails ReadCourts \<or> rows = [] then (Inl NDbError, d)
       else if fails ProbeScores \<or> fails ReadScores then (Inl Upstream, d)
       else let m = score_map sid (ns_round s) d; d1 = persist_closed sid (ns_round s) m rows d in
         if tied_courts m rows \<noteq> [] then (Inl (RoundBlocked (TiedCourts (tied_courts m rows))), d1)
         else (plan_next fails now sid s m rows d1, d1))"

text \<open>\<open>s\<close> is the session row the advance has read at its start.\<close>

definition advance_commit :: "night_rpc \<Rightarrow> (night_read \<Rightarrow> bool) \<Rightarrow> int \<Rightarrow> night \<Rightarrow> plan \<Rightarrow> night_db \<Rightarrow> unit nres" where
  "advance_commit R fails now s pl d = (case pl of
     Stale \<Rightarrow> (Inr (), d)
   | StopNight \<Rightarrow> EndRotationSession R fails (ns_id s) d
   | NextUp courts bench \<Rightarrow>
       if \<not> fails ReadStatus \<and> (case session_of (ns_id s) d of None \<Rightarrow> False | Some x \<Rightarrow> ns_status x = Paused)
       then (Inl (RoundBlocked IsPaused), d)
       else (case nr_advance R (ns_id s) (ns_round s) courts bench (roundEndsAt now (ns_minutes s)) d of
           Inl e \<Rightarrow> (Inl e, d)
         | Inr (d', advanced, reason) \<Rightarrow>
             if \<not> advanced \<and> reason \<noteq> ''stale'' then (Inl NDbError, d') else (Inr (), d')))"

definition AdvanceRotationSession :: "night_rpc \<Rightarrow> (night_read \<Rightarrow> bool) \<Rightarrow> int \<Rightarrow> string \<Rightarrow> int \<Rightarrow> night_db \<Rightarrow> unit nres" where
  "AdvanceRotationSession R fails now sid expected d = (case advance_plan fails now sid expected d of
     (Inl e, d1) \<Rightarrow> (Inl e, d1)
   | (Inr pl, d1) \<Rightarrow> (case session_of sid d of
       None \<Rightarrow> (Inr (), d1)
     | Some s \<Rightarrow> advance_commit R fails now s pl d1))"

end
