(* ===== verification/Night_Layout.thy ===== *)
theory Night_Layout
  imports Rotation_Advance
begin

text \<open>
  The layout the next round of a rotation night is written with: the movement always moves a sound
  layout, leavers lose their seats, the queue fills them, courts close and open with the room.
\<close>

section \<open>A sound layout always moves\<close>

lemma swap_loop_seats:
  assumes "swap_loop plays ps nxt = (nxt', took, came)"
    and "distinct (map (seat_pos \<circ> fst) ps)" "\<forall>p\<in>set ps. seat_in nxt (fst p)" "k < length nxt" "j < 4"
  shows "court_ids (nxt' ! k) ! j = court_ids (nxt ! k) ! j \<or> court_ids (nxt' ! k) ! j \<in> set (map snd ps)"
  using assms
proof (induction plays ps nxt arbitrary: nxt' took came rule: swap_loop.induct)
  case (1 plays nxt)
  then show ?case by simp
next
  case (2 plays seat waiting others nxt)
  show ?case
  proof (cases "plays waiting \<ge> plays (sr_id seat)")
    case True
    with "2.prems" show ?thesis by simp
  next
    case False
    obtain n1 t1 c1 where r: "swap_loop plays others (setSeat nxt seat waiting) = (n1, t1, c1)"
      by (metis prod_cases3)
    have si: "seat_in nxt seat" using "2.prems"(3) by simp
    have "\<forall>p\<in>set others. seat_in (setSeat nxt seat waiting) (fst p)"
      using "2.prems"(2,3) si seat_in_setSeat by (fastforce simp: image_iff)
    then have "court_ids (n1 ! k) ! j = court_ids (setSeat nxt seat waiting ! k) ! j
        \<or> court_ids (n1 ! k) ! j \<in> set (map snd others)"
      using "2.IH" [OF False r] "2.prems"(2,4,5) by simp
    moreover have "nxt' = n1" using "2.prems"(1) False r by auto
    ultimately show ?thesis
      using "2.prems"(5) by (cases "sr_idx seat = j") (auto simp: court_ids_setSeat [OF si] nth_list_update)
  qed
qed

lemma NextRoundFair_seats:
  assumes "k < length (fst (NextRound cur results bench mode))" "j < 4"
  shows "court_ids (fst (NextRoundFair cur results bench mode played) ! k) ! j
      \<in> insert (court_ids (fst (NextRound cur results bench mode) ! k) ! j) (set (snd (NextRound cur results bench mode)))"
proof -
  obtain nx nb where n: "NextRound cur results bench mode = (nx, nb)" by fastforce
  define plays where "plays = plays_of played"
  define seats where "seats = sort_by (seat_before plays) (all_seats nx)"
  define order where "order = sort_by (\<lambda>a b. plays (nb ! a) < plays (nb ! b)) [0..<length nb]"
  define ps where "ps = take (min2 (length nb)) (zip seats (map ((!) nb) order))"
  obtain nx' took came where sw: "swap_loop plays ps nx = (nx', took, came)" by (metis prod_cases3)
  have ms: "mset seats = mset (all_seats nx)" by (simp add: seats_def)
  have mo: "mset order = mset [0..<length nb]" by (simp add: order_def)
  have "map fst ps = take (length ps) seats"
    by (simp add: ps_def take_map [symmetric] map_fst_zip_take min_def)
  then have pos: "map (seat_pos \<circ> fst) ps = take (length ps) (map seat_pos seats)"
    by (metis map_map take_map)
  have "distinct (map seat_pos seats)"
    using all_seats_distinct [of nx] ms by (metis mset_eq_imp_distinct_iff mset_map)
  then have d: "distinct (map (seat_pos \<circ> fst) ps)" by (simp only: pos distinct_take)
  have si: "\<forall>p\<in>set ps. seat_in nx (fst p)"
  proof
    fix p assume "p \<in> set ps"
    then have "p \<in> set (zip seats (map ((!) nb) order))" unfolding ps_def by (rule in_set_takeD)
    then have "fst p \<in> set seats" by (metis prod.collapse set_zip_leftD)
    then show "seat_in nx (fst p)" using ms all_seats_in by (metis set_mset_mset)
  qed
  have so: "set order = {0..<length nb}"
    using mset_eq_setD [OF mo] by simp
  have nbs: "set (map snd ps) \<subseteq> set nb"
  proof
    fix x assume "x \<in> set (map snd ps)"
    then obtain a where "(a, x) \<in> set ps" by auto
    then have "x \<in> set (map ((!) nb) order)" by (auto simp: ps_def dest!: in_set_takeD set_zip_rightD)
    then show "x \<in> set nb" using so by auto
  qed
  have "court_ids (nx' ! k) ! j \<in> insert (court_ids (nx ! k) ! j) (set nb)"
    using swap_loop_seats [OF sw d si, of k j] assms nbs n by auto
  moreover have "fst (NextRoundFair cur results bench mode played) = nx
      \<or> fst (NextRoundFair cur results bench mode played) = nx'"
    unfolding NextRoundFair_def n using sw by (simp add: Let_def plays_def seats_def order_def ps_def)
  ultimately show ?thesis using n by auto
qed

lemma sound_layout_moves:
  assumes ok: "layoutAndBenchOK cur bench" and ne: "cur \<noteq> []"
  shows "fst (NextRoundFair cur results bench mode played) \<noteq> cur"
proof
  assume same: "fst (NextRoundFair cur results bench mode played) = cur"
  let ?P = "NextRound cur results bench mode" and ?w = "round_winner results (cur ! 0)"
  obtain W stay L nb where
    NR: "?P = (map (\<lambda>i. re_pair (i + 1) (from_below (length cur) W stay (i + 1))
         (from_above mode (length cur) W L (i + 1))) [0..<length cur], nb)"
    and W: "\<forall>i<length cur. W (Suc i) = round_winner results (cur ! i)"
    by (rule NextRound_unfold [OF ok ne, of results mode])
  define lo where "lo = from_below (length cur) W stay 1"
  have len: "0 < length cur" using ne by simp
  have up: "from_above mode (length cur) W L 1 = ?w" using W len by (simp add: from_above_def)
  have c0: "fst ?P ! 0 = re_pair 1 lo ?w" using len up by (simp add: NR lo_def)
  have seats0: "court_ids (fst ?P ! 0) = [fst lo, fst ?w, snd lo, snd ?w]"
    unfolding c0 by (simp add: re_pair_def court_ids_def)
  have "layoutAndBenchOK (fst ?P) (snd ?P)"
    by (rule layout_ok_transfer [OF ok])
      (use ok in \<open>simp_all add: NextRound_people NextRound_contiguous layoutAndBenchOK_iff\<close>)
  then have dist: "distinct (seated (fst ?P) @ snd ?P)" by (simp add: layoutAndBenchOK_iff)
  have "fst ?P = fst ?P ! 0 # tl (fst ?P)"
    using len by (metis Nitpick.size_list_simp(2) length_NextRound less_numeral_extra(3) list.collapse nth_Cons_0)
  then have "seated (fst ?P) = court_ids (fst ?P ! 0) @ seated (tl (fst ?P))"
    by (metis concat.simps(2) list.simps(9) seated_def)
  then have d: "distinct ([fst lo, fst ?w, snd lo, snd ?w] @ snd ?P)"
    using dist by (auto simp: seats0)
  have seat: "court_ids (cur ! 0) ! j \<in> insert ([fst lo, fst ?w, snd lo, snd ?w] ! j) (set (snd ?P))" if "j < 4" for j
    using NextRoundFair_seats [of 0 cur results bench mode j played] len that unfolding same seats0 by simp
  show False
    using seat [of 1] seat [of 2] d
    by (cases "win_map results (Court (cur ! 0)) = Some ''b''")
      (auto simp: round_winner_def court_ids_def numeral_2_eq_2)
qed

section \<open>Leavers and the queue\<close>

definition staying :: "pid set \<Rightarrow> pid list \<Rightarrow> pid multiset" where
  "staying left ids = filter_mset (\<lambda>i. \<not> vacant left i) (mset ids)"

lemma staying_simps [simp]:
  "staying left [] = {#}"
  "staying left (i # is') = (if vacant left i then {#} else {#i#}) + staying left is'"
  "staying left (xs @ ys) = staying left xs + staying left ys"
  by (simp_all add: staying_def)

lemma settle_seats_empty: "fst (snd (settle_seats left ids [])) = []"
  by (induction ids) (auto split: prod.splits)

lemma settle_pass_empty: "fst (snd (settle_pass left cs [])) = []"
proof (induction cs)
  case (Cons c cs)
  then show ?case using settle_seats_empty [of left "court_ids c"] by (auto split: prod.splits)
qed simp

lemma settle_seats_spec:
  assumes "settle_seats left ids w = (ids', w', stranded)" "list_all (\<lambda>i. \<not> vacant left i) w"
  shows "length ids' = length ids \<and> staying left ids' + mset w' = staying left ids + mset w
    \<and> list_all (\<lambda>i. \<not> vacant left i) w'
    \<and> (if stranded then w' = [] \<and> list_ex (vacant left) ids' else list_all (\<lambda>i. \<not> vacant left i) ids')"
  using assms
proof (induction left ids w arbitrary: ids' w' stranded rule: settle_seats.induct)
  case (1 left w)
  then show ?case by simp
next
  case (2 left s ss w)
  show ?case
  proof (cases "vacant left s")
    case False
    obtain a b c where r: "settle_seats left ss w = (a, b, c)" by (metis prod_cases3)
    show ?thesis using "2.IH"(1) [OF False r "2.prems"(2)] "2.prems"(1) False r by (auto split: if_splits)
  next
    case True
    show ?thesis
    proof (cases w)
      case Nil
      obtain a b c where r: "settle_seats left ss [] = (a, b, c)" by (metis prod_cases3)
      have "b = []" using settle_seats_empty [of left ss] r by simp
      then show ?thesis using "2.IH"(2) [OF _ Nil r] "2.prems" True Nil r by (auto split: if_splits)
    next
      case (Cons p w1)
      obtain a b c where r: "settle_seats left ss w1 = (a, b, c)" by (metis prod_cases3)
      show ?thesis using "2.IH"(3) [OF _ Cons r] "2.prems" True Cons r by (auto split: if_splits)
    qed
  qed
qed

lemma court_ids_with_ids [simp]: "length ids = 4 \<Longrightarrow> court_ids (with_ids c ids) = ids"
  by (auto simp: with_ids_def court_ids_def numeral_eq_Suc length_Suc_conv)

lemma Court_with_ids [simp]: "Court (with_ids c ids) = Court c"
  by (simp add: with_ids_def)

lemma seated_simps [simp]: "seated [] = []" "seated (c # cs) = court_ids c @ seated cs" "seated (xs @ ys) = seated xs @ seated ys"
  by (simp_all add: seated_def)

lemma settle_pass_spec:
  assumes "settle_pass left cs w = (cs', w', stranded)" "list_all (\<lambda>i. \<not> vacant left i) w"
  shows "map Court cs' = map Court cs \<and> staying left (seated cs') + mset w' = staying left (seated cs) + mset w
    \<and> list_all (\<lambda>i. \<not> vacant left i) w'
    \<and> (if stranded then w' = [] \<and> list_ex (vacant left) (seated cs') else list_all (\<lambda>i. \<not> vacant left i) (seated cs'))"
  using assms
proof (induction left cs w arbitrary: cs' w' stranded rule: settle_pass.induct)
  case (1 left w)
  then show ?case by simp
next
  case (2 left c cs w)
  obtain ids w1 x where s: "settle_seats left (court_ids c) w = (ids, w1, x)" by (metis prod_cases3)
  obtain cs1 w2 y where p: "settle_pass left cs w1 = (cs1, w2, y)" by (metis prod_cases3)
  have S: "length ids = 4" "staying left ids + mset w1 = staying left (court_ids c) + mset w"
    "list_all (\<lambda>i. \<not> vacant left i) w1"
    "if x then w1 = [] \<and> list_ex (vacant left) ids else list_all (\<lambda>i. \<not> vacant left i) ids"
    using settle_seats_spec [OF s "2.prems"(2)] by auto
  have P: "map Court cs1 = map Court cs \<and> staying left (seated cs1) + mset w2 = staying left (seated cs) + mset w1
    \<and> list_all (\<lambda>i. \<not> vacant left i) w2
    \<and> (if y then w2 = [] \<and> list_ex (vacant left) (seated cs1) else list_all (\<lambda>i. \<not> vacant left i) (seated cs1))"
    using "2.IH" [OF s [symmetric] HOL.refl p S(3)] .
  have r: "cs' = with_ids c ids # cs1" "w' = w2" "stranded = (x \<or> y)" using "2.prems"(1) s p by auto
  have e: "w2 = []" if "w1 = []" using settle_pass_empty [of left cs] p that by simp
  have "staying left (seated cs') + mset w' = staying left (seated (c # cs)) + mset w"
    using S(1,2) P by (simp add: r) (metis (no_types, lifting) add.assoc add.left_commute)
  then show ?case using S P e by (auto simp: r split: if_splits)
qed

lemma mset_survivors: "mset (survivors left cs) = staying left (seated cs)"
  by (simp add: survivors_def staying_def seated_def)

lemma survivors_ok: "list_all (\<lambda>i. \<not> vacant left i) (survivors left cs)"
  by (simp add: survivors_def list_all_iff)

lemma staying_all: "list_all (\<lambda>i. \<not> vacant left i) ids \<Longrightarrow> staying left ids = mset ids"
  by (induction ids) auto

lemma size_staying: "list_ex (vacant left) ids \<Longrightarrow> size (staying left ids) < length ids"
proof (induction ids)
  case (Cons i ids)
  have "size (staying left ids) \<le> length ids"
    unfolding staying_def by (metis size_filter_mset_lesseq size_mset)
  then show ?case using Cons by (auto simp: le_imp_less_Suc)
qed simp

lemma settle_loop_spec:
  assumes "list_all (\<lambda>i. \<not> vacant left i) w" "settle_loop left courts w = (cs, w')"
  shows "(\<exists>n. map Court cs = take n (map Court courts))
    \<and> mset (seated cs) + mset w' = staying left (seated courts) + mset w
    \<and> list_all (\<lambda>i. \<not> vacant left i) (seated cs @ w') \<and> (courts \<noteq> [] \<longrightarrow> cs = [] \<longrightarrow> length w' < 4)"
  using assms
proof (induction left courts w arbitrary: cs w' rule: settle_loop.induct)
  case (1 left courts w)
  obtain rcs q stranded where p: "settle_pass left (rev courts) w = (rcs, q, stranded)" by (metis prod_cases3)
  have sr: "staying left (seated (rev xs)) = staying left (seated xs)" for xs
    by (induction xs) (simp_all add: ac_simps)
  have P: "map Court rcs = rev (map Court courts)" "staying left (seated rcs) + mset q = staying left (seated courts) + mset w"
    "list_all (\<lambda>i. \<not> vacant left i) q"
    "if stranded then q = [] \<and> list_ex (vacant left) (seated rcs) else list_all (\<lambda>i. \<not> vacant left i) (seated rcs)"
    using settle_pass_spec [OF p "1.prems"(1)] by (simp_all add: rev_map sr)
  have len: "length rcs = length courts" using arg_cong [OF P(1), of length] by simp
  have la: "list_all P (seated (rev xs)) \<longleftrightarrow> list_all P (seated xs)" for P xs
    by (induction xs) auto
  show ?case
  proof (cases stranded)
    case False
    then have r: "cs = rev rcs" "w' = q" using "1.prems"(2) p by auto
    have all: "list_all (\<lambda>i. \<not> vacant left i) (seated (rev rcs))" using P(4) False by (simp add: la)
    have "map Court (rev rcs) = take (length courts) (map Court courts)" using P(1) by (simp add: rev_map [symmetric])
    moreover have "mset (seated (rev rcs)) + mset q = staying left (seated courts) + mset w"
      using P(2) staying_all [OF all] by (simp add: sr)
    moreover have "courts \<noteq> [] \<longrightarrow> rev rcs \<noteq> []" using len by auto
    ultimately show ?thesis using all P(3) unfolding r list_all_append by blast
  next
    case True
    then have q: "q = []" and ex: "list_ex (vacant left) (seated rcs)" using P(4) by auto
    obtain c up where rcs: "rcs = c # up" using ex by (cases rcs) auto
    show ?thesis
    proof (cases "up = []")
      case up: True
      have r: "cs = []" "w' = survivors left [c]" using "1.prems"(2) p True rcs up q by auto
      have "length (survivors left [c]) < 4"
        using size_staying [of left "court_ids c"] ex rcs up mset_survivors [of left "[c]"]
        by (metis append_Nil2 length_court_ids seated_simps(1,2) size_mset)
      moreover have "mset (survivors left [c]) = staying left (seated courts) + mset w"
        using P(2) q rcs up by (simp add: mset_survivors)
      ultimately show ?thesis using survivors_ok unfolding r by (auto intro: exI [of _ 0])
    next
      case up: False
      have w1: "list_all (\<lambda>i. \<not> vacant left i) (survivors left [c] @ q)" using survivors_ok q by simp
      have run: "settle_loop left (rev up) (survivors left [c] @ q) = (cs, w')"
        using "1.prems"(2) p True rcs up by simp
      have ih: "(\<exists>n. map Court cs = take n (map Court (rev up)))
          \<and> mset (seated cs) + mset w' = staying left (seated (rev up)) + mset (survivors left [c] @ q)
          \<and> list_all (\<lambda>i. \<not> vacant left i) (seated cs @ w') \<and> (rev up \<noteq> [] \<longrightarrow> cs = [] \<longrightarrow> length w' < 4)"
        by (rule "1.IH" [OF p [symmetric] HOL.refl _ rcs up w1 run]) (simp add: True)
      have "map Court (rev up) = take (length up) (map Court courts)"
        using arg_cong [OF P(1), of "\<lambda>l. take (length up) (rev l)"] rcs by (simp add: rev_map)
      then have "\<exists>n. map Court cs = take n (map Court courts)" using ih by (metis take_take)
      moreover have "staying left (seated (rev up)) + mset (survivors left [c] @ q) = staying left (seated courts) + mset w"
        using P(2) q rcs by (simp add: sr mset_survivors ac_simps)
      ultimately show ?thesis using ih up by simp
    qed
  qed
qed

lemma contiguous_prefix:
  assumes "contiguous 0 courts" "map Court cs = take n (map Court courts)"
  shows "contiguous 0 cs"
  unfolding contiguous_def
proof (rule allI, rule impI)
  fix j assume j: "j < length cs"
  have "length cs = min n (length courts)" using arg_cong [OF assms(2), of length] by (simp add: min.commute)
  moreover have "Court (cs ! j) = map Court cs ! j" using j by simp
  ultimately show "Court (cs ! j) = 0 + j + 1"
    using j assms by (simp add: contiguous_def)
qed

lemma growCourts_spec:
  assumes "growCourts courts bench cap = (cs, b)" "contiguous 0 courts"
  shows "contiguous 0 cs \<and> mset (seated cs) + mset b = mset (seated courts) + mset bench \<and> length courts \<le> length cs
    \<and> (length b < 4 \<or> 0 < cap \<and> cap \<le> int (length cs)) \<and> (cap > 0 \<longrightarrow> int (length cs) \<le> max cap (int (length courts)))"
  using assms
proof (induction courts bench cap arbitrary: cs b rule: growCourts.induct)
  case (1 courts p q r t bench cap)
  let ?c = "\<lparr>Court = length courts + 1, TeamA = (p, r), TeamB = (q, t)\<rparr>"
  show ?case
  proof (cases "0 < cap \<and> cap \<le> int (length courts)")
    case True
    then show ?thesis using "1.prems" by auto
  next
    case False
    have c: "contiguous 0 (courts @ [?c])"
      using "1.prems"(2) by (auto simp: contiguous_def nth_append less_Suc_eq)
    have run: "growCourts (courts @ [?c]) bench cap = (cs, b)" using "1.prems"(1) False by auto
    show ?thesis using "1.IH" [OF False run c] False by (auto simp: court_ids_def)
  qed
qed auto

lemma settleDepartures_spec:
  assumes "settleDepartures courts bench left = (cs, b)" "contiguous 0 courts" "[] \<notin> set (seated courts @ bench)"
  shows "contiguous 0 cs \<and> mset (seated cs) + mset b = filter_mset (\<lambda>i. i \<notin> left) (mset (seated courts @ bench))
    \<and> (courts \<noteq> [] \<longrightarrow> cs = [] \<longrightarrow> length b < 4)"
proof (cases "left = {}")
  case True
  then show ?thesis using assms by (auto simp: settleDepartures_def)
next
  case False
  let ?w = "filter (\<lambda>i. i \<notin> left) bench"
  have run: "settle_loop left courts ?w = (cs, b)" using assms(1) False by (simp add: settleDepartures_def)
  have w: "list_all (\<lambda>i. \<not> vacant left i) ?w" using assms(3) by (auto simp: list_all_iff vacant_def)
  have "staying left (seated courts) = filter_mset (\<lambda>i. i \<notin> left) (mset (seated courts))"
    unfolding staying_def by (rule filter_mset_cong) (use assms(3) in \<open>auto simp: vacant_def\<close>)
  then show ?thesis
    using settle_loop_spec [OF w run] contiguous_prefix [OF assms(2)] by auto
qed

lemma distinct_submset: "mset xs \<subseteq># mset ys \<Longrightarrow> distinct ys \<Longrightarrow> distinct xs"
proof -
  assume sub: "mset xs \<subseteq># mset ys" and d: "distinct ys"
  have "count (mset xs) a = (if a \<in> set xs then 1 else 0)" for a
  proof -
    have "count (mset xs) a \<le> 1"
      using mset_subset_eq_count [OF sub, of a] d unfolding distinct_count_atmost_1
      by (metis le_trans order_refl zero_le_one)
    then show ?thesis using count_greater_zero_iff [of "mset xs" a] by (auto simp del: count_greater_zero_iff)
  qed
  then show "distinct xs" by (simp add: distinct_count_atmost_1)
qed

lemma sameLayout_iff: "sameLayout a b \<longleftrightarrow> a = b"
  by (auto simp: sameLayout_def list_all_iff list_eq_iff_zip_eq)

text \<open>
  C20: A rotation night never bricks and never seats somebody who has left. From a layout the engine accepts, for
  any results, games and either loser mode, computing the next round is never refused as inconsistent: it is
  refused only when fewer than four players remain, and otherwise the layout written is one the engine accepts
  again, holds exactly the players who have not left, each once, on court or waiting, and leaves four or more
  waiting only when the venue has no further court.
\<close>
theorem next_layout_sound:
  assumes "layoutAndBenchOK cur bench" "cur \<noteq> []"
  shows "case next_layout cur results bench mode played gone cap of
      Inl b \<Rightarrow> b = TooFewPlayers \<and> size (filter_mset (\<lambda>i. i \<notin> gone) (people (cur, bench))) < 4
    | Inr (courts, waiting) \<Rightarrow> courts \<noteq> [] \<and> layoutAndBenchOK courts waiting
        \<and> people (courts, waiting) = filter_mset (\<lambda>i. i \<notin> gone) (people (cur, bench))
        \<and> (length waiting < 4 \<or> 0 < cap \<and> cap \<le> int (length courts))"
proof -
  let ?keep = "filter_mset (\<lambda>i. i \<notin> gone)"
  obtain c1 b1 where f: "NextRoundFair cur results bench mode played = (c1, b1)" by fastforce
  obtain c2 b2 where st: "settleDepartures c1 b1 gone = (c2, b2)" by fastforce
  obtain c3 b3 where g: "growCourts c2 b2 cap = (c3, b3)" by fastforce
  have moved: "\<not> sameLayout cur c1"
    using sound_layout_moves [OF assms, of results mode played] f by (simp add: sameLayout_iff)
  have pe: "people (c1, b1) = people (cur, bench)"
    and co: "contiguous 0 c1"
    using NextRoundFair_keeps [of cur results bench mode played] assms(1) f by (simp_all add: layoutAndBenchOK_iff)
  have ok1: "layoutAndBenchOK c1 b1"
    using layout_ok_transfer [OF assms(1), of "(c1, b1)"] pe co by simp
  have ne: "c1 \<noteq> []" using length_NextRoundFair [of cur results bench mode played] assms(2) f by auto
  have S: "contiguous 0 c2" "people (c2, b2) = ?keep (people (cur, bench))" "c2 = [] \<longrightarrow> length b2 < 4"
    using settleDepartures_spec [OF st co] ok1 ne
    unfolding pe [symmetric] by (simp_all add: layoutAndBenchOK_iff people_def)
  have G: "contiguous 0 c3" "people (c3, b3) = ?keep (people (cur, bench))" "length c2 \<le> length c3"
    "length b3 < 4 \<or> 0 < cap \<and> cap \<le> int (length c3)"
    using growCourts_spec [OF g S(1)] S(2) by (simp_all add: people_def)
  have all: "mset (seated c3 @ b3) \<subseteq># mset (seated cur @ bench)"
    using G(2) multiset_filter_subset [of "\<lambda>i. i \<notin> gone" "people (cur, bench)"] by (simp only: people_mset fst_conv snd_conv)
  have ok3: "layoutAndBenchOK c3 b3"
    using assms(1) G(1) distinct_submset [OF all] set_mset_mono [OF all] unfolding layoutAndBenchOK_iff
    by (metis set_append set_mset_mset subsetD)
  show ?thesis
  proof (cases "c3 = []")
    case True
    then have "c2 = []" using G(3) by simp
    then have "?keep (people (cur, bench)) = mset b2" using S(2) by (simp add: people_def)
    then have "size (?keep (people (cur, bench))) < 4" using S(3) \<open>c2 = []\<close> by simp
    then show ?thesis using f st g moved True assms(2) by (simp add: next_layout_def)
  next
    case False
    then show ?thesis using f st g moved G(2,4) ok3 assms(2) by (simp add: next_layout_def)
  qed
qed

lemma next_layout_sound_witness:
  "layoutAndBenchOK two_courts [''i''] \<and> next_layout two_courts [] [''i''] LosersDown Map.empty {''b'', ''f''} 2
      = Inr ([\<lparr>Court = 1, TeamA = (''e'', ''a''), TeamB = (''g'', ''i'')\<rparr>], [''c'', ''h'', ''d''])
    \<and> people ([\<lparr>Court = 1, TeamA = (''e'', ''a''), TeamB = (''g'', ''i'')\<rparr>], [''c'', ''h'', ''d''])
      = filter_mset (\<lambda>i. i \<notin> {''b'', ''f''}) (people (two_courts, [''i'']))"
proof -
  have ok: "layoutAndBenchOK two_courts [''i'']" "two_courts \<noteq> []" by code_simp+
  have "next_layout two_courts [] [''i''] LosersDown Map.empty {''b'', ''f''} 2
      = Inr ([\<lparr>Court = 1, TeamA = (''e'', ''a''), TeamB = (''g'', ''i'')\<rparr>], [''c'', ''h'', ''d''])"
    by code_simp
  with ok next_layout_sound [OF ok, where results = "[]" and mode = LosersDown and played = Map.empty
      and gone = "{''b'', ''f''}" and cap = 2] show ?thesis by simp
qed

end
