(* ===== verification/Rotation_Sweep.thy ===== *)
theory Rotation_Sweep
  imports Rotation_Advance
begin

text \<open>
  What runs a rotation night from outside, \<open>internal/service/rotation_sweep.go\<close>, what opens one, and what the
  boards show of it (\<open>ladder_rotation.go\<close>).
\<close>

section \<open>The sweeps\<close>

definition rotationSweepGrace :: int where "rotationSweepGrace = 75"
definition rotationOvertimeAfter :: int where "rotationOvertimeAfter = rotationSweepGrace + 45"
definition rotationAbandonedAfter :: int where "rotationAbandonedAfter = 12 * 60 * 60"

definition rotationRoundOverdue :: "int option \<Rightarrow> int \<Rightarrow> int \<Rightarrow> bool" where
  "rotationRoundOverdue endsAt now grace = (case endsAt of None \<Rightarrow> False | Some e \<Rightarrow> now > e + grace)"

definition ended_before :: "int \<Rightarrow> night \<Rightarrow> bool" where
  "ended_before cutoff s = (case ns_endsAt s of None \<Rightarrow> False | Some e \<Rightarrow> e < cutoff)"

definition rotationSweepFilter :: "int \<Rightarrow> night \<Rightarrow> bool" where
  "rotationSweepFilter cutoff s \<longleftrightarrow> ns_status s = Live \<and> ns_auto s \<and> ended_before cutoff s"

definition sweep_one :: "night_rpc \<Rightarrow> (night_read \<Rightarrow> bool) \<Rightarrow> int \<Rightarrow> night \<Rightarrow> night_db \<Rightarrow> night_db" where
  "sweep_one R fails now s d =
    (if ns_id s = [] \<or> ns_round s < 1 then d else snd (AdvanceRotationSession R fails now (ns_id s) (ns_round s) d))"

definition SweepOverdueRotationRounds :: "night_rpc \<Rightarrow> (night_read \<Rightarrow> bool) \<Rightarrow> int \<Rightarrow> night_db \<Rightarrow> night_db" where
  "SweepOverdueRotationRounds R fails now d =
    fold (sweep_one R fails now) (take 200 (filter (rotationSweepFilter (now - rotationSweepGrace)) (nd_sessions d))) d"

text \<open>The notices already sent, by session and round, and which are sent on a tick.\<close>

definition claimOvertimeNotice :: "string \<times> int \<Rightarrow> (string \<times> int) list \<Rightarrow> bool \<times> (string \<times> int) list" where
  "claimOvertimeNotice k sent = (if k \<in> set sent then (False, sent)
    else (True, k # filter (\<lambda>p. \<not> (fst p = fst k \<and> snd p < snd k)) sent))"

fun notice_loop :: "(string \<Rightarrow> string) \<Rightarrow> night list \<Rightarrow> (string \<times> int) list \<Rightarrow> (string \<times> int) list \<times> (string \<times> int) list" where
  "notice_loop owner [] sent = ([], sent)"
| "notice_loop owner (s # ss) sent =
    (if ns_id s = [] \<or> ns_round s < 1 then notice_loop owner ss sent
     else case claimOvertimeNotice (ns_id s, ns_round s) sent of
       (False, sent') \<Rightarrow> notice_loop owner ss sent'
     | (True, sent') \<Rightarrow> (case notice_loop owner ss sent' of (out, sent'') \<Rightarrow>
         (if owner (ns_id s) = [] then out else (ns_id s, ns_round s) # out, sent'')))"

definition NotifyOverdueRotationRounds :: "(string \<Rightarrow> string) \<Rightarrow> int \<Rightarrow> night_db \<Rightarrow> (string \<times> int) list
    \<Rightarrow> (string \<times> int) list \<times> (string \<times> int) list" where
  "NotifyOverdueRotationRounds owner now d sent = notice_loop owner
    (take 200 (filter (\<lambda>s. ns_status s = Live \<and> ended_before (now - rotationOvertimeAfter) s) (nd_sessions d))) sent"

definition rotationSessionAbandoned :: "int option \<Rightarrow> int \<Rightarrow> bool" where
  "rotationSessionAbandoned endsAt now = (case endsAt of None \<Rightarrow> False | Some e \<Rightarrow> now - e > rotationAbandonedAfter)"

definition EndAbandonedRotationSessions :: "night_rpc \<Rightarrow> (night_read \<Rightarrow> bool) \<Rightarrow> int \<Rightarrow> night_db \<Rightarrow> night_db" where
  "EndAbandonedRotationSessions R fails now d =
    fold (\<lambda>s e. if ns_id s = [] then e else snd (EndRotationSession R fails (ns_id s) e))
      (take 100 (filter (\<lambda>s. (ns_status s = Live \<or> ns_status s = Paused) \<and> ended_before (now - rotationAbandonedAfter) s)
        (nd_sessions d))) d"

section \<open>Opening a night and finding it\<close>

record night_request =
  nq_courts :: int
  nq_minutes :: int
  nq_auto :: "bool option"

definition CreateRotationSession :: "night_rpc \<Rightarrow> string \<Rightarrow> string \<Rightarrow> night_request \<Rightarrow> night_db \<Rightarrow> night_db" where
  "CreateRotationSession R sid dv q d =
    (let s = \<lparr>ns_id = sid, ns_div = dv, ns_status = Setup, ns_courts = (if nq_courts q < 1 then 1 else nq_courts q),
          ns_minutes = (if nq_minutes q < 1 then 12 else nq_minutes q),
          ns_auto = (case nq_auto q of None \<Rightarrow> True | Some b \<Rightarrow> b), ns_round = 0, ns_endsAt = None, ns_pausedAt = None,
          ns_bench = [], ns_planned = 0, ns_stopAt = None\<rparr>;
         d1 = snd (ImportLadderEntrantsToSession R sid (d\<lparr>nd_sessions := nd_sessions d @ [s]\<rparr>))
     in snd (AddScorecardRound sid d1))"

fun pick_session :: "int \<Rightarrow> night list \<Rightarrow> string \<Rightarrow> string \<Rightarrow> string" where
  "pick_session now [] setup newest = (if setup \<noteq> [] then setup else newest)"
| "pick_session now (s # ss) setup newest =
    (if ns_id s = [] then pick_session now ss setup newest
     else let newest' = (if newest = [] then ns_id s else newest) in
       if (ns_status s = Live \<or> ns_status s = Paused) \<and> \<not> rotationSessionAbandoned (ns_endsAt s) now then ns_id s
       else if ns_status s = Setup \<and> setup = [] then pick_session now ss (ns_id s) newest'
       else pick_session now ss setup newest')"

definition EventRotationSessionID :: "int \<Rightarrow> string \<Rightarrow> night_db \<Rightarrow> string option" where
  "EventRotationSessionID now ev d = (case List.find (\<lambda>(e, _). e = ev) (ld_events (nd_ladder d)) of
     None \<Rightarrow> None
   | Some (_, lg, _) \<Rightarrow>
     if lg = [] then Some []
     else let divs = filter (\<lambda>i. i \<noteq> []) (map fst (filter (\<lambda>(_, l). l = lg) (ld_divs (nd_ladder d)))) in
       Some (pick_session now (take 50 (rev (filter (\<lambda>s. ns_div s \<in> set divs) (nd_sessions d)))) [] []))"

definition DeleteRotationSession :: "string \<Rightarrow> night_db \<Rightarrow> night_db" where
  "DeleteRotationSession sid d = d\<lparr>
    nd_sessions := filter (\<lambda>s. ns_id s \<noteq> sid) (nd_sessions d),
    nd_players := filter (\<lambda>p. rp_session p \<noteq> sid) (nd_players d),
    nd_courts := filter (\<lambda>c. rc_session c \<noteq> sid) (nd_courts d),
    nd_subs := filter (\<lambda>x. su_session x \<noteq> sid) (nd_subs d)\<rparr>"

section \<open>The boards\<close>

text \<open>The scorecard: the columns, each player's cells and totals; off as long as the session has no score rows.\<close>

record scorecard =
  sc_enabled :: bool
  sc_rounds :: "int list"
  sc_cells :: "(pid \<times> int \<times> int) list"
  sc_played :: "int \<Rightarrow> pid list"

definition score_rows :: "string \<Rightarrow> night_db \<Rightarrow> rscore list" where
  "score_rows sid d = filter (\<lambda>x. rs_session x = sid) (nd_scores d)"

definition scored_cells :: "string \<Rightarrow> night_db \<Rightarrow> (pid \<times> int \<times> int) list" where
  "scored_cells sid d = concat (map (\<lambda>x. if rs_player x = [] then [] else case rs_score x of None \<Rightarrow> []
     | Some v \<Rightarrow> [(rs_player x, rs_round x, v)]) (score_rows sid d))"

text \<open>Who was on court in a round.\<close>

definition round_played :: "string \<Rightarrow> night_db \<Rightarrow> int \<Rightarrow> pid list" where
  "round_played sid d r = concat (map (\<lambda>c. filter (\<lambda>i. i \<noteq> []) (row_seats c)) (round_rows sid r d))"

definition rotationScorecard :: "string \<Rightarrow> int \<Rightarrow> night_db \<Rightarrow> scorecard \<times> (pid \<Rightarrow> int)" where
  "rotationScorecard sid current d =
    (if score_rows sid d = [] then (\<lparr>sc_enabled = False, sc_rounds = [], sc_cells = [], sc_played = (\<lambda>_. [])\<rparr>, \<lambda>i. 0)
     else let maxRound = fold (\<lambda>x n. max n (rs_round x)) (score_rows sid d) current in
       (\<lparr>sc_enabled = True, sc_rounds = map int [1..<nat maxRound + 1], sc_cells = scored_cells sid d,
         sc_played = round_played sid d\<rparr>,
        \<lambda>i. sum_list (map (\<lambda>(p, r, v). if p = i then v else 0) (scored_cells sid d))))"

record board_player =
  bp_id :: pid
  bp_session :: string
  bp_entrant :: string
  bp_name :: string
  bp_rating :: rat
  bp_points :: int
  bp_wins :: int
  bp_games :: int
  bp_start :: "int option"

definition board_player_of :: "(pid \<Rightarrow> int) \<Rightarrow> rplayer \<Rightarrow> board_player" where
  "board_player_of pts p = \<lparr>bp_id = rp_id p, bp_session = rp_session p, bp_entrant = rp_entrant p, bp_name = rp_name p,
    bp_rating = rp_rating p, bp_points = pts (rp_id p), bp_wins = rp_wins p, bp_games = rp_games p, bp_start = rp_start p\<rparr>"

record board_court =
  bc_court :: nat
  bc_a :: "(pid \<times> string) list"
  bc_b :: "(pid \<times> string) list"
  bc_winner :: string

record night_board =
  bo_players :: "board_player list"
  bo_courts :: "board_court list"
  bo_standings :: "board_player list"
  bo_byes :: "board_player list"
  bo_card :: scorecard
  bo_subs :: "(int \<times> pid \<times> pid) list"

definition standing_before :: "bool \<Rightarrow> board_player \<Rightarrow> board_player \<Rightarrow> bool" where
  "standing_before enabled a b =
    (if enabled \<and> bp_points a \<noteq> bp_points b then bp_points a > bp_points b
     else if bp_wins a \<noteq> bp_wins b then bp_wins a > bp_wins b
     else bp_games a < bp_games b)"

definition board_pair :: "night_db \<Rightarrow> string \<Rightarrow> pid \<times> pid \<Rightarrow> (pid \<times> string) list" where
  "board_pair d sid t = map (\<lambda>i. (i, case List.find (\<lambda>p. rp_id p = i) (roster sid d) of None \<Rightarrow> [] | Some p \<Rightarrow> rp_name p))
    (filter (\<lambda>i. i \<noteq> []) [fst t, snd t])"

definition rotationCourtsForRound :: "string \<Rightarrow> int \<Rightarrow> night_db \<Rightarrow> board_court list" where
  "rotationCourtsForRound sid r d = (if r < 1 then []
    else map (\<lambda>c. \<lparr>bc_court = rc_court c, bc_a = board_pair d sid (rc_a c), bc_b = board_pair d sid (rc_b c),
      bc_winner = rc_winner c\<rparr>) (board_rows sid r d))"

definition GetRotationBoard :: "string \<Rightarrow> night_db \<Rightarrow> night_board option" where
  "GetRotationBoard sid d = (case session_of sid d of
     None \<Rightarrow> None
   | Some s \<Rightarrow>
     let (card, totals) = rotationScorecard sid (ns_round s) d;
         players = map (board_player_of totals) (rotationPlayers sid d);
         byes = concat (map (\<lambda>i. case List.find (\<lambda>p. rp_id p = i) (rotationPlayers sid d) of
             None \<Rightarrow> [] | Some p \<Rightarrow> [board_player_of (\<lambda>_. 0) p]) (ns_bench s))
     in Some \<lparr>bo_players = players, bo_courts = rotationCourtsForRound sid (ns_round s) d,
          bo_standings = sort_by (standing_before (sc_enabled card)) players, bo_byes = byes, bo_card = card,
          bo_subs = map (\<lambda>x. (su_round x, su_out x, su_in x)) (rotationSubstitutionsStrict sid d)\<rparr>)"

definition strip_player :: "board_player \<Rightarrow> board_player" where
  "strip_player p = p\<lparr>bp_id := [], bp_session := [], bp_entrant := [], bp_rating := 0, bp_start := None\<rparr>"

definition strip_court :: "board_court \<Rightarrow> board_court" where
  "strip_court c = c\<lparr>bc_a := map (\<lambda>(i, n). ([], n)) (bc_a c), bc_b := map (\<lambda>(i, n). ([], n)) (bc_b c)\<rparr>"

definition PublicRotationBoard :: "string \<Rightarrow> night_db \<Rightarrow> night_board option" where
  "PublicRotationBoard sid d = map_option (\<lambda>b. \<lparr>bo_players = map strip_player (bo_players b),
    bo_courts = map strip_court (bo_courts b), bo_standings = map strip_player (bo_standings b),
    bo_byes = map strip_player (bo_byes b),
    bo_card = \<lparr>sc_enabled = sc_enabled (bo_card b), sc_rounds = [], sc_cells = [], sc_played = (\<lambda>_. [])\<rparr>, bo_subs = []\<rparr>) (GetRotationBoard sid d)"

definition RotationRoundCourts :: "string \<Rightarrow> int \<Rightarrow> night_db \<Rightarrow> board_court list" where
  "RotationRoundCourts sid r d = rotationCourtsForRound sid r d"

definition UnlinkedRotationPlayers :: "string \<Rightarrow> night_db \<Rightarrow> rplayer list" where
  "UnlinkedRotationPlayers sid d = filter (\<lambda>p. trim (rp_name p) \<noteq> [] \<and> take 6 (rp_name p) \<noteq> ''+15553'')
    (take 200 (sort_by (\<lambda>a b. rp_name a < rp_name b) (filter (\<lambda>p. rp_entrant p = []) (roster sid d))))"

end
