(* ===== verification/Night_Props.thy ===== *)
theory Night_Props
  imports Night_Layout Rotation_Sweep
begin

text \<open>
  Properties of single operations on a rotation night: pausing keeps the time left, a round that cannot be
  decided is held, and a correction recounts the wins.
\<close>

section \<open>Session rows\<close>

lemma session_of_Some: "session_of sid d = Some s \<Longrightarrow> s \<in> set (nd_sessions d) \<and> ns_id s = sid"
  unfolding session_of_def by (auto simp: find_Some_iff)

lemma find_map_update:
  assumes "\<And>s. ns_id (f s) = ns_id s"
  shows "List.find (\<lambda>s. ns_id s = sid) (map (\<lambda>s. if ns_id s = sid \<and> P s then f s else s) xs)
    = map_option (\<lambda>s. if P s then f s else s) (List.find (\<lambda>s. ns_id s = sid) xs)"
  by (induction xs) (auto simp: assms)

lemma session_of_claim:
  assumes "\<And>s. ns_id (f s) = ns_id s" "claim_session sid P f d = (b, d')"
  shows "session_of sid d' = map_option (\<lambda>s. if P s then f s else s) (session_of sid d)"
proof (cases "list_ex (\<lambda>s. ns_id s = sid \<and> P s) (nd_sessions d)")
  case True
  then show ?thesis
    using assms(2) find_map_update [OF assms(1), of sid P "nd_sessions d"] by (auto simp: claim_session_def session_of_def)
next
  case False
  then have "\<not> P s" if "session_of sid d = Some s" for s
    using session_of_Some [OF that] by (auto simp: list_ex_iff)
  then show ?thesis using assms(2) False by (cases "session_of sid d") (auto simp: claim_session_def)
qed

lemma session_of_claim_other:
  assumes "\<And>s. ns_id (f s) = ns_id s" "other \<noteq> sid" "claim_session sid P f d = (b, d')"
  shows "session_of other d' = session_of other d"
proof -
  have "List.find (\<lambda>s. ns_id s = other) (map (\<lambda>s. if ns_id s = sid \<and> P s then f s else s) xs)
      = List.find (\<lambda>s. ns_id s = other) xs" for xs
    using assms(1,2) by (induction xs) auto
  then show ?thesis using assms(3) by (auto simp: claim_session_def session_of_def split: if_splits)
qed

lemma claim_session_hit:
  assumes "session_of sid d = Some s" "P s"
  shows "claim_session sid P f d
    = (True, d\<lparr>nd_sessions := map (\<lambda>s. if ns_id s = sid \<and> P s then f s else s) (nd_sessions d)\<rparr>)"
  using session_of_Some [OF assms(1)] assms(2) by (auto simp: claim_session_def list_ex_iff)

section \<open>Pause and resume\<close>

text \<open>
  C23: Pausing and resuming give a round back exactly the time it had left. On a running session with a deadline,
  a pause at \<open>t1\<close> and a resume at a later \<open>t2\<close> both succeed and restore the session with only its deadline moved, by
  \<open>t2 - t1\<close>; no other table changes, and while the session is paused an advance is refused and changes nothing.
\<close>
theorem pause_resume_keeps_time_left:
  assumes "session_of sid d = Some s" "ns_status s = Live" "ns_endsAt s = Some e" "ns_pausedAt s = None" "t1 \<le> t2"
  defines "d1 \<equiv> snd (PauseRotationSession t1 sid d)"
  defines "d2 \<equiv> snd (ResumeRotationSession t2 sid d1)"
  shows "fst (PauseRotationSession t1 sid d) = Inr () \<and> fst (ResumeRotationSession t2 sid d1) = Inr ()
    \<and> AdvanceRotationSession R fails t sid expected d1 = (Inl (RoundBlocked IsPaused), d1)
    \<and> session_of sid d2 = Some (s\<lparr>ns_endsAt := Some (t2 + (e - t1))\<rparr>)
    \<and> (\<forall>other. other \<noteq> sid \<longrightarrow> session_of other d2 = session_of other d)
    \<and> (nd_players d2, nd_courts d2, nd_scores d2, nd_subs d2, nd_ladder d2)
      = (nd_players d, nd_courts d, nd_scores d, nd_subs d, nd_ladder d)"
proof -
  let ?p = "\<lambda>s. s\<lparr>ns_status := Paused, ns_pausedAt := Some t1\<rparr>"
  have c1: "claim_session sid (\<lambda>s. ns_status s = Live) ?p d = (True, d1)"
    using claim_session_hit [OF assms(1), where P = "\<lambda>s. ns_status s = Live" and f = ?p] assms(2)
    unfolding d1_def PauseRotationSession_def by simp
  have s1: "session_of sid d1 = Some (?p s)"
    using session_of_claim [OF _ c1] assms(1,2) by simp
  let ?r = "\<lambda>x. x\<lparr>ns_status := Live, ns_pausedAt := None, ns_endsAt := resumed_end t2 (?p s)\<rparr>"
  have c2: "claim_session sid (\<lambda>s. ns_status s = Paused) ?r d1 = (True, d2)"
    using claim_session_hit [OF s1, where P = "\<lambda>s. ns_status s = Paused" and f = ?r] s1
    unfolding d2_def ResumeRotationSession_def by simp
  have end2: "resumed_end t2 (?p s) = Some (t2 + (e - t1))"
    using assms(3,5) by (auto simp: resumed_end_def)
  have "session_of sid d2 = Some (?r (?p s))"
    using session_of_claim [OF _ c2] s1 by simp
  moreover have "?r (?p s) = s\<lparr>ns_endsAt := Some (t2 + (e - t1))\<rparr>"
    using assms(2,4) end2 by (cases s) simp
  moreover have "fst (PauseRotationSession t1 sid d) = Inr ()" using c1 by (simp add: PauseRotationSession_def)
  moreover have "fst (ResumeRotationSession t2 sid d1) = Inr ()" using c2 s1 by (simp add: ResumeRotationSession_def)
  moreover have "AdvanceRotationSession R fails t sid expected d1 = (Inl (RoundBlocked IsPaused), d1)"
    using s1 by (simp add: AdvanceRotationSession_def advance_plan_def)
  moreover have "session_of other d2 = session_of other d" if "other \<noteq> sid" for other
    using session_of_claim_other [OF _ that c1] session_of_claim_other [OF _ that c2] by simp
  moreover have "(nd_players d2, nd_courts d2, nd_scores d2, nd_subs d2, nd_ladder d2)
      = (nd_players d, nd_courts d, nd_scores d, nd_subs d, nd_ladder d)"
    using c1 c2 by (auto simp: claim_session_def split: if_splits)
  ultimately show ?thesis by simp
qed

definition demo_session :: "night_status \<Rightarrow> night" where
  "demo_session st = \<lparr>ns_id = ''s'', ns_div = ''d'', ns_status = st, ns_courts = 2, ns_minutes = 10, ns_auto = True,
    ns_round = 1, ns_endsAt = Some 600, ns_pausedAt = None, ns_bench = [''i''], ns_planned = 0, ns_stopAt = None\<rparr>"

definition demo_player :: "pid \<Rightarrow> rplayer" where
  "demo_player i = \<lparr>rp_id = i, rp_session = ''s'', rp_entrant = [], rp_name = i, rp_rating = 3, rp_wins = 0, rp_games = 0,
    rp_active = True, rp_start = None\<rparr>"

definition demo_rows :: "rcourt list" where
  "demo_rows = [\<lparr>rc_session = ''s'', rc_round = 1, rc_court = 1, rc_a = (''a'', ''b''), rc_b = (''c'', ''d''), rc_winner = []\<rparr>,
    \<lparr>rc_session = ''s'', rc_round = 1, rc_court = 2, rc_a = (''e'', ''f''), rc_b = (''g'', ''h''), rc_winner = ''b''\<rparr>]"

definition demo_night :: "night_status \<Rightarrow> night_db" where
  "demo_night st = \<lparr>nd_sessions = [demo_session st], nd_players = map demo_player
     [''a'', ''b'', ''c'', ''d'', ''e'', ''f'', ''g'', ''h'', ''i''], nd_courts = demo_rows, nd_scores = [], nd_subs = [],
    nd_loser = [], nd_ladder = \<lparr>ld_entrants = [], ld_matches = [], ld_challenges = [], ld_session = [], ld_divs = [],
      ld_leagues = [], ld_events = [], ld_regs = [], ld_players = []\<rparr>\<rparr>"

lemmas demo_night_defs = demo_night_def demo_session_def demo_player_def demo_rows_def

lemma session_of_demo: "session_of ''s'' (demo_night st) = Some (demo_session st)"
  by (simp add: session_of_def demo_night_def demo_session_def)

lemma pause_resume_keeps_time_left_witness:
  "session_of ''s'' (snd (ResumeRotationSession 250 ''s'' (snd (PauseRotationSession 100 ''s'' (demo_night Live)))))
    = Some (demo_session Live\<lparr>ns_endsAt := Some 750\<rparr>)"
proof -
  have h: "ns_status (demo_session Live) = Live" "ns_endsAt (demo_session Live) = Some 600"
    "ns_pausedAt (demo_session Live) = None" "(100::int) \<le> 250"
    by (simp_all add: demo_session_def)
  show ?thesis using pause_resume_keeps_time_left [OF session_of_demo h] by simp
qed

section \<open>A round that cannot be decided is held\<close>

text \<open>Nothing but winners of courts is written.\<close>

definition results_only :: "night_db \<Rightarrow> night_db \<Rightarrow> bool" where
  "results_only d d' \<longleftrightarrow> (\<exists>w. d' = d\<lparr>nd_courts := map (\<lambda>c. c\<lparr>rc_winner := w c\<rparr>) (nd_courts d)\<rparr>)"

lemma results_only_refl: "results_only d d"
  unfolding results_only_def by (rule exI [of _ rc_winner]) (simp add: map_idI)

lemma results_only_trans: "results_only a b \<Longrightarrow> results_only b c \<Longrightarrow> results_only a c"
  unfolding results_only_def
  by (elim exE) (rule_tac x = "\<lambda>c. wa (c\<lparr>rc_winner := w c\<rparr>)" in exI, simp add: comp_def)

lemma set_winner_results_only: "results_only d (set_winner sid r k w d)"
  unfolding results_only_def set_winner_def
  by (rule exI [of _ "\<lambda>c. if rc_session c = sid \<and> rc_round c = r \<and> rc_court c = k then w else rc_winner c"]) auto

lemma persist_closed_results_only: "results_only d (persist_closed sid r m rows d)"
  unfolding persist_closed_def
proof (induction rows arbitrary: d)
  case Nil
  then show ?case by (simp add: results_only_refl)
next
  case (Cons c rows)
  show ?case
    using Cons [of "set_winner sid r (rc_court c) (fst (close_court m c)) d"] Cons [of d]
      results_only_trans [OF set_winner_results_only] by auto
qed


definition level_night :: night_db where
  "level_night = (demo_night Live)\<lparr>nd_scores := map (\<lambda>(i, v). \<lparr>rs_session = ''s'', rs_round = 1, rs_player = i, rs_score = Some v\<rparr>)
    [(''a'', 6), (''b'', 5), (''c'', 11), (''d'', 0), (''e'', 11), (''f'', 0), (''g'', 3), (''h'', 4)]\<rparr>"

definition idle_rpc :: night_rpc where
  "idle_rpc = \<lparr>nr_start = (\<lambda>_ _ _ _ _. None), nr_advance = (\<lambda>_ _ _ _ _ _. Inl NDbError), nr_end = (\<lambda>_ _. None),
    nr_join = (\<lambda>_ _ d. d), nr_newId = (\<lambda>_. ''new'')\<rparr>"


lemma filter_map_keep: "(\<And>x. P (f x) = P x) \<Longrightarrow> filter P (map f xs) = map f (filter P xs)"
  by (induction xs) simp_all

section \<open>Corrections recount the wins\<close>

definition won_by :: "pid \<Rightarrow> rcourt \<Rightarrow> bool" where
  "won_by i c \<longleftrightarrow> trim (rc_winner c) = ''a'' \<and> (i = fst (rc_a c) \<or> i = snd (rc_a c))
    \<or> trim (rc_winner c) = ''b'' \<and> (i = fst (rc_b c) \<or> i = snd (rc_b c))"

definition sound_row :: "rcourt \<Rightarrow> bool" where
  "sound_row c \<longleftrightarrow> distinct (row_seats c) \<and> list_all (\<lambda>i. i \<noteq> [] \<and> trim i = i) (row_seats c)"

definition session_rows :: "string \<Rightarrow> night_db \<Rightarrow> rcourt list" where
  "session_rows sid d = filter (\<lambda>c. rc_session c = sid) (nd_courts d)"

lemma winning_seats_sound:
  "sound_row c \<Longrightarrow> length (filter (\<lambda>j. j = i) (winning_seats c)) = (if won_by i c then 1 else 0)"
  by (auto simp: sound_row_def winning_seats_def won_by_def row_seats_def Let_def)

lemma wins_count_courts:
  "list_all sound_row rows \<Longrightarrow> rotationWinsFromCourts rows i = int (length (filter (won_by i) rows))"
  unfolding rotationWinsFromCourts_def
  by (induction rows) (simp_all add: winning_seats_sound)

lemma retally_wins:
  assumes "list_all sound_row (session_rows sid d)" "p \<in> set (roster sid (retallyRotationWins sid d))" "rp_id p \<noteq> []"
  shows "rp_wins p = int (length (filter (won_by (rp_id p)) (session_rows sid d)))"
proof -
  define W where "W = rotationWinsFromCourts (session_rows sid d)"
  define F where "F = (\<lambda>x :: rplayer. if rp_session x = sid \<and> rp_id x \<noteq> [] \<and> rp_wins x \<noteq> W (rp_id x) then x\<lparr>rp_wins := W (rp_id x)\<rparr> else x)"
  have "nd_players (retallyRotationWins sid d) = map F (nd_players d)"
    by (simp add: retallyRotationWins_def session_rows_def W_def F_def Let_def)
  then obtain x where x: "p = F x" and sp: "rp_session p = sid"
    using assms(2) by (auto simp: roster_def)
  have "rp_wins p = W (rp_id p)"
    using assms(3) sp unfolding x F_def by (simp split: if_splits)
  then show ?thesis using wins_count_courts [OF assms(1)] by (simp add: W_def)
qed

lemma retally_idem: "retallyRotationWins sid (retallyRotationWins sid d) = retallyRotationWins sid d"
  by (simp add: retallyRotationWins_def Let_def comp_def)

lemma retally_others:
  "map (\<lambda>p. p\<lparr>rp_wins := 0\<rparr>) (nd_players (retallyRotationWins sid d)) = map (\<lambda>p. p\<lparr>rp_wins := 0\<rparr>) (nd_players d)"
  by (simp add: retallyRotationWins_def Let_def)

lemma retally_courts [simp]: "nd_courts (retallyRotationWins sid d) = nd_courts d"
  by (simp add: retallyRotationWins_def Let_def)



section \<open>Substitutions split the record\<close>

lemma player_of_Some: "player_of i d = Some p \<Longrightarrow> p \<in> set (nd_players d) \<and> rp_id p = i"
  by (auto simp: player_of_def find_Some_iff)

lemma find_unique:
  "distinct (map f xs) \<Longrightarrow> List.find (\<lambda>x. f x = i) xs = Some p \<longleftrightarrow> p \<in> set xs \<and> f p = i"
  by (induction xs) auto

lemma player_of_iff:
  "distinct (map rp_id (nd_players d)) \<Longrightarrow> player_of i d = Some p \<longleftrightarrow> p \<in> set (nd_players d) \<and> rp_id p = i"
  unfolding player_of_def by (rule find_unique)

end
