(* ===== verification/Night_Life.thy ===== *)
theory Night_Life
  imports Night_Props
begin

text \<open>
  The life of a rotation night: what the stored procedures are documented to do, the operations as steps, and
  the invariant that keeps a night playable - the running round is a layout the engine accepts, and the handovers
  of substituted players never lead back onto somebody who is playing.
\<close>

section \<open>What the stored procedures do\<close>

definition new_row :: "string \<Rightarrow> int \<Rightarrow> RotCourt \<Rightarrow> rcourt" where
  "new_row sid r c = \<lparr>rc_session = sid, rc_round = r, rc_court = Court c, rc_a = TeamA c, rc_b = TeamB c, rc_winner = []\<rparr>"

definition write_round :: "string \<Rightarrow> int \<Rightarrow> RotCourt list \<Rightarrow> pid list \<Rightarrow> int \<Rightarrow> night_db \<Rightarrow> night_db" where
  "write_round sid r courts bench ends d =
    (update_session sid (\<lambda>s. s\<lparr>ns_status := Live, ns_round := r, ns_bench := bench, ns_endsAt := Some ends\<rparr>) d)
      \<lparr>nd_courts := nd_courts d @ map (new_row sid r) courts\<rparr>"

text \<open>A round's tally: a game for all four, a win for a reported team.\<close>

definition tally_round :: "string \<Rightarrow> int \<Rightarrow> night_db \<Rightarrow> night_db" where
  "tally_round sid r d = d\<lparr>nd_players := map (\<lambda>p. if rp_session p = sid
     then p\<lparr>rp_games := rp_games p + int (length (filter (\<lambda>c. rp_id p \<in> set (row_seats c)) (round_rows sid r d))),
            rp_wins := rp_wins p + rotationWinsFromCourts (round_rows sid r d) (rp_id p)\<rparr> else p) (nd_players d)\<rparr>"

definition end_night :: "string \<Rightarrow> night \<Rightarrow> night_db \<Rightarrow> night_db" where
  "end_night sid s d = update_session sid (\<lambda>s. s\<lparr>ns_status := Done, ns_endsAt := None\<rparr>) (tally_round sid (ns_round s) d)"

definition join_law :: "night_rpc \<Rightarrow> bool" where
  "join_law R \<longleftrightarrow> (\<forall>sid ids d. \<exists>f. nr_join R sid ids d = update_session sid (\<lambda>s. s\<lparr>ns_bench := ns_bench s @ f s\<rparr>) d
    \<and> (\<forall>s. (f s = [] \<or> f s = ids) \<and> (ns_status s = Setup \<longrightarrow> f s = [])))"

definition start_law :: "night_rpc \<Rightarrow> bool" where
  "start_law R \<longleftrightarrow> (\<forall>sid courts bench ends d d' b why. nr_start R sid courts bench ends d = Some (d', b, why) \<longrightarrow>
    d' = (if b then write_round sid 1 courts bench ends d else d)
    \<and> (b \<longrightarrow> (\<exists>s. session_of sid d = Some s \<and> ns_status s = Setup)))"

definition advance_law :: "night_rpc \<Rightarrow> bool" where
  "advance_law R \<longleftrightarrow> (\<forall>sid r courts bench ends d d' b why. nr_advance R sid r courts bench ends d = Inr (d', b, why) \<longrightarrow>
    d' = (if b then write_round sid (r + 1) courts bench ends (tally_round sid r d) else d)
    \<and> (b \<longrightarrow> (\<exists>s. session_of sid d = Some s \<and> ns_status s = Live \<and> ns_round s = r)))
    \<and> (\<forall>sid r courts bench ends d e. nr_advance R sid r courts bench ends d = Inl e \<longrightarrow> e = RoundBlocked IsPaused \<or> e = NDbError)"

definition end_law :: "night_rpc \<Rightarrow> bool" where
  "end_law R \<longleftrightarrow> (\<forall>sid d d' b why. nr_end R sid d = Some (d', b, why) \<longrightarrow>
    (if b then \<exists>s. session_of sid d = Some s \<and> (ns_status s = Live \<or> ns_status s = Paused) \<and> d' = end_night sid s d
     else d' = d))"

definition fresh_ids :: "night_rpc \<Rightarrow> bool" where
  "fresh_ids R \<longleftrightarrow> (\<forall>d. nr_newId R d \<noteq> [] \<and> nr_newId R d \<notin> set (map rp_id (nd_players d)))"

definition night_laws :: "night_rpc \<Rightarrow> bool" where
  "night_laws R \<longleftrightarrow> fresh_ids R \<and> join_law R \<and> start_law R \<and> advance_law R \<and> end_law R"

section \<open>The invariant\<close>

definition subs_of :: "string \<Rightarrow> night_db \<Rightarrow> rsub list" where
  "subs_of sid d = filter (\<lambda>x. su_session x = sid) (nd_subs d)"

definition handovers :: "rsub list \<Rightarrow> (pid \<times> pid) set" where
  "handovers subs = set (map (\<lambda>x. (su_out x, su_in x)) subs)"

definition roster_ids :: "string \<Rightarrow> night_db \<Rightarrow> pid set" where
  "roster_ids sid d = set (map rp_id (roster sid d))"

definition live_layout :: "string \<Rightarrow> night \<Rightarrow> night_db \<Rightarrow> layout" where
  "live_layout sid s d = (map court_of_row (board_rows sid (ns_round s) d), ns_bench s)"

definition playing :: "layout \<Rightarrow> pid set" where
  "playing l = set (seated (fst l)) \<union> set (snd l)"

text \<open>Nobody playing is reached by the handovers from somebody playing.\<close>

definition handovers_leave :: "rsub list \<Rightarrow> layout \<Rightarrow> bool" where
  "handovers_leave subs l \<longleftrightarrow> (handovers subs)\<^sup>+ `` playing l \<inter> playing l = {}"

definition roster_ok :: "string \<Rightarrow> night_db \<Rightarrow> bool" where
  "roster_ok sid d \<longleftrightarrow> distinct (map rp_id (nd_players d)) \<and> [] \<notin> set (map rp_id (nd_players d))"

definition subs_ok :: "string \<Rightarrow> night_db \<Rightarrow> bool" where
  "subs_ok sid d \<longleftrightarrow> distinct (map su_out (subs_of sid d)) \<and> distinct (map su_in (subs_of sid d))
    \<and> set (map su_out (subs_of sid d)) \<subseteq> inactiveIDs sid d \<and> set (map su_in (subs_of sid d)) \<subseteq> roster_ids sid d"

definition round_ok :: "string \<Rightarrow> night \<Rightarrow> night_db \<Rightarrow> bool" where
  "round_ok sid s d \<longleftrightarrow> ns_round s \<ge> 1 \<and> (\<forall>c\<in>set (session_rows sid d). rc_round c \<le> ns_round s)
    \<and> fst (live_layout sid s d) \<noteq> [] \<and> layoutAndBenchOK (fst (live_layout sid s d)) (snd (live_layout sid s d))
    \<and> playing (live_layout sid s d) \<subseteq> roster_ids sid d \<and> handovers_leave (subs_of sid d) (live_layout sid s d)"

definition setup_ok :: "string \<Rightarrow> night \<Rightarrow> night_db \<Rightarrow> bool" where
  "setup_ok sid s d \<longleftrightarrow> session_rows sid d = [] \<and> subs_of sid d = []"

definition night_ok :: "string \<Rightarrow> night_db \<Rightarrow> bool" where
  "night_ok sid d \<longleftrightarrow> roster_ok sid d \<and> subs_ok sid d
    \<and> (case session_of sid d of None \<Rightarrow> False
       | Some s \<Rightarrow> if ns_status s = Setup then setup_ok sid s d else round_ok sid s d)"

section \<open>Operations that leave the layout alone\<close>

definition player_key :: "rplayer \<Rightarrow> pid \<times> string \<times> bool" where
  "player_key p = (rp_id p, rp_session p, rp_active p)"

definition row_key :: "rcourt \<Rightarrow> rcourt" where
  "row_key c = c\<lparr>rc_winner := []\<rparr>"

definition session_key :: "night \<Rightarrow> bool \<times> int \<times> pid list" where
  "session_key s = (ns_status s = Setup, ns_round s, ns_bench s)"

definition same_night :: "string \<Rightarrow> night_db \<Rightarrow> night_db \<Rightarrow> bool" where
  "same_night sid d d' \<longleftrightarrow> map player_key (nd_players d') = map player_key (nd_players d)
    \<and> map row_key (nd_courts d') = map row_key (nd_courts d) \<and> nd_subs d' = nd_subs d
    \<and> map_option session_key (session_of sid d') = map_option session_key (session_of sid d)"

lemma same_night_refl [simp]: "same_night sid d d"
  by (simp add: same_night_def)

lemma same_night_trans: "same_night sid a b \<Longrightarrow> same_night sid b c \<Longrightarrow> same_night sid a c"
  by (simp add: same_night_def)

lemma roster_ids_key: "roster_ids sid d = {i. \<exists>b. (i, sid, b) \<in> set (map player_key (nd_players d))}"
  by (auto simp: roster_ids_def roster_def player_key_def image_iff)

lemma inactiveIDs_key: "inactiveIDs sid d = {i. i \<noteq> [] \<and> (i, sid, False) \<in> set (map player_key (nd_players d))}"
  by (auto simp: inactiveIDs_def roster_def player_key_def image_iff)

lemma rp_ids_key: "map rp_id (nd_players d) = map fst (map player_key (nd_players d))"
  by (simp add: player_key_def comp_def)

lemma board_rows_key: "map court_of_row (board_rows sid r d) = map court_of_row
    (sort_by (\<lambda>a b. rc_court a < rc_court b) (filter (\<lambda>c. rc_session c = sid \<and> rc_round c = r) (map row_key (nd_courts d))))"
proof -
  have f: "filter (\<lambda>c. rc_session c = sid \<and> rc_round c = r) (map row_key xs)
      = map row_key (filter (\<lambda>c. rc_session c = sid \<and> rc_round c = r) xs)" for xs
    by (rule filter_map_keep) (simp add: row_key_def)
  have "sort_by (\<lambda>a b. rc_court a < rc_court b) (map row_key xs) = map row_key (sort_by (\<lambda>a b. rc_court a < rc_court b) xs)" for xs
    by (rule sort_by_map) (simp add: row_key_def)
  then show ?thesis by (simp add: f board_rows_def round_rows_def court_of_row_def row_key_def)
qed

lemma session_rows_key: "map rc_round (session_rows sid d) = map rc_round (filter (\<lambda>c. rc_session c = sid) (map row_key (nd_courts d)))"
  unfolding session_rows_def by (subst filter_map_keep) (simp_all add: row_key_def)

lemma same_night_ok:
  assumes "same_night sid d d'" "night_ok sid d"
  shows "night_ok sid d'"
proof -
  note same = assms(1) [unfolded same_night_def]
  have ids: "map rp_id (nd_players d') = map rp_id (nd_players d)" "roster_ids sid d' = roster_ids sid d"
    "inactiveIDs sid d' = inactiveIDs sid d"
    using same by (simp_all only: rp_ids_key roster_ids_key inactiveIDs_key)
  have subs: "subs_of sid d' = subs_of sid d" using same by (simp add: subs_of_def)
  have rows: "map court_of_row (board_rows sid r d') = map court_of_row (board_rows sid r d)" for r
    using same by (simp only: board_rows_key)
  have rr: "map rc_round (session_rows sid d') = map rc_round (session_rows sid d)"
    using same by (simp only: session_rows_key)
  have rounds: "(\<forall>c\<in>set (session_rows sid d'). rc_round c \<le> r) = (\<forall>c\<in>set (session_rows sid d). rc_round c \<le> r)"
    "(session_rows sid d' = []) = (session_rows sid d = [])" for r
  proof -
    have "(\<forall>x\<in>set (map rc_round (session_rows sid d')). x \<le> r) = (\<forall>x\<in>set (map rc_round (session_rows sid d)). x \<le> r)"
      unfolding rr ..
    then show "(\<forall>c\<in>set (session_rows sid d'). rc_round c \<le> r) = (\<forall>c\<in>set (session_rows sid d). rc_round c \<le> r)" by simp
    show "(session_rows sid d' = []) = (session_rows sid d = [])"
      using rr by (metis map_is_Nil_conv)
  qed
  have "if ns_status s' = Setup then setup_ok sid s' d' else round_ok sid s' d'" if s': "session_of sid d' = Some s'" for s'
  proof -
    obtain s where s: "session_of sid d = Some s" "session_key s = session_key s'"
      using same s' by (cases "session_of sid d") auto
    then have k: "(ns_status s = Setup) = (ns_status s' = Setup)" "ns_round s' = ns_round s" "ns_bench s' = ns_bench s"
      by (auto simp: session_key_def)
    have "if ns_status s = Setup then setup_ok sid s d else round_ok sid s d" using assms(2) s(1) by (simp add: night_ok_def)
    then show ?thesis
      unfolding setup_ok_def round_ok_def live_layout_def k rows rounds subs ids by (simp add: k)
  qed
  moreover have "session_of sid d' \<noteq> None"
    using assms(2) same by (cases "session_of sid d") (auto simp: night_ok_def)
  ultimately show ?thesis using assms(2) unfolding night_ok_def roster_ok_def subs_ok_def ids subs by auto
qed

section \<open>Following the handovers\<close>

lemma takeover_of_mem: "takeover_of subs i = Some j \<Longrightarrow> (i, j) \<in> handovers subs"
proof -
  have "fold (\<lambda>s m. m(su_out s \<mapsto> su_in s)) subs m i = Some j \<Longrightarrow> (i, j) \<in> handovers subs \<or> m i = Some j" for m
    by (induction subs arbitrary: m) (fastforce simp: handovers_def split: if_splits)+
  then show "takeover_of subs i = Some j \<Longrightarrow> (i, j) \<in> handovers subs" unfolding takeover_of_def by fastforce
qed

lemma resolve_hops_reach: "\<exists>k. (i, resolve_hops n (takeover_of subs) gone i) \<in> handovers subs ^^ k"
proof (induction n arbitrary: i)
  case 0
  show ?case by (rule exI [of _ 0]) simp
next
  case (Suc n)
  show ?case
  proof (cases "i \<in> gone \<and> takeover_of subs i \<noteq> None")
    case False
    then have "resolve_hops (Suc n) (takeover_of subs) gone i = i" by auto
    then show ?thesis by (metis relpow_0_I)
  next
    case True
    then obtain j where j: "takeover_of subs i = Some j" by auto
    obtain k where k: "(j, resolve_hops n (takeover_of subs) gone j) \<in> handovers subs ^^ k" using Suc by blast
    have "(i, resolve_hops n (takeover_of subs) gone j) \<in> handovers subs ^^ Suc k"
      using takeover_of_mem [OF j] k by (rule relpow_Suc_I2)
    moreover have "resolve_hops (Suc n) (takeover_of subs) gone i = resolve_hops n (takeover_of subs) gone j"
      using True j by simp
    ultimately show ?thesis by metis
  qed
qed

lemma handovers_injective:
  assumes "distinct (map su_in subs)" "(x, z) \<in> handovers subs" "(y, z) \<in> handovers subs"
  shows "x = y"
  using assms by (auto simp: handovers_def distinct_map inj_on_def)

lemma relpow_peel:
  assumes "distinct (map su_in subs)" "(i, z) \<in> handovers subs ^^ k" "(j, z) \<in> handovers subs ^^ (k + m)"
  shows "(j, i) \<in> handovers subs ^^ m"
  using assms(2,3)
proof (induction k arbitrary: z)
  case 0
  then show ?case by simp
next
  case (Suc k)
  obtain y where y: "(i, y) \<in> handovers subs ^^ k" "(y, z) \<in> handovers subs" using Suc.prems(1) by auto
  obtain y' where y': "(j, y') \<in> handovers subs ^^ (k + m)" "(y', z) \<in> handovers subs" using Suc.prems(2) by auto
  have "y = y'" using handovers_injective [OF assms(1) y(2) y'(2)] .
  then show ?case using Suc.IH y(1) y'(1) by simp
qed

lemma resolve_injective:
  assumes sep: "handovers_leave subs l" and d: "distinct (map su_in subs)"
    and i: "i \<in> playing l" and j: "j \<in> playing l" and eq: "resolve subs gone i = resolve subs gone j"
  shows "i = j"
proof -
  have key: "x = y" if x: "x \<in> playing l" and y: "y \<in> playing l" and k: "(x, z) \<in> handovers subs ^^ k" "(y, z) \<in> handovers subs ^^ n"
      and le: "k \<le> n" for x y z k n
  proof -
    obtain m where n: "n = k + m" using le by (metis le_add_diff_inverse)
    have yx: "(y, x) \<in> handovers subs ^^ m" using relpow_peel [OF d k(1)] k(2) unfolding n .
    show "x = y"
    proof (cases m)
      case 0
      then show ?thesis using yx by simp
    next
      case (Suc m')
      then have "(y, x) \<in> (handovers subs)\<^sup>+" using yx unfolding trancl_power by blast
      then show ?thesis using sep x y by (auto simp: handovers_leave_def)
    qed
  qed
  obtain k where k: "(i, resolve subs gone i) \<in> handovers subs ^^ k" using resolve_hops_reach unfolding resolve_def by blast
  have "\<exists>n. (j, resolve subs gone j) \<in> handovers subs ^^ n" using resolve_hops_reach unfolding resolve_def by blast
  then obtain n where n: "(j, resolve subs gone i) \<in> handovers subs ^^ n" using eq by auto
  show ?thesis using key [OF i j k n] key [OF j i n k] by (cases "k \<le> n") auto
qed

lemma resolve_in:
  assumes "set (map su_in subs) \<subseteq> A" "i \<in> A"
  shows "resolve subs gone i \<in> A"
proof -
  obtain k where k: "(i, resolve subs gone i) \<in> handovers subs ^^ k" using resolve_hops_reach unfolding resolve_def by blast
  show ?thesis
  proof (cases k)
    case 0
    then show ?thesis using k assms(2) by simp
  next
    case (Suc m)
    then obtain y where "(y, resolve subs gone i) \<in> handovers subs" using k by auto
    then show ?thesis using assms(1) by (auto simp: handovers_def)
  qed
qed

lemma dedupe_spec: "distinct (dedupe seen ids) \<and> set (dedupe seen ids) = set ids - seen - {[]}"
  by (induction seen ids rule: dedupe.induct) auto

lemma dedupe_sound: "distinct ids \<Longrightarrow> [] \<notin> set ids \<Longrightarrow> set ids \<inter> seen = {} \<Longrightarrow> dedupe seen ids = ids"
  by (induction seen ids rule: dedupe.induct) auto

lemma seated_resolve: "seated (map (resolve_court subs gone) cs) = map (resolve subs gone) (seated cs)"
  by (induction cs) (simp_all add: court_ids_def resolve_court_def)

lemma remap_ok:
  assumes ok: "layoutAndBenchOK cur bench" and sep: "handovers_leave subs (cur, bench)" and d: "distinct (map su_in subs)"
    and sub: "playing (cur, bench) \<subseteq> A" "set (map su_in subs) \<subseteq> A" "[] \<notin> A"
  shows "layoutAndBenchOK (fst (remap_layout subs gone (cur, dedupeIDs bench))) (snd (remap_layout subs gone (cur, dedupeIDs bench)))
    \<and> playing (remap_layout subs gone (cur, dedupeIDs bench)) \<subseteq> A \<and> length (fst (remap_layout subs gone (cur, dedupeIDs bench))) = length cur"
proof -
  have b: "dedupeIDs bench = bench"
    using ok unfolding dedupeIDs_def by (intro dedupe_sound) (auto simp: layoutAndBenchOK_iff)
  show ?thesis
  proof (cases "subs = []")
    case True
    then show ?thesis using ok sub by (simp add: remap_layout_def b)
  next
    case False
    let ?cur = "map (resolve_court subs gone) cur" and ?r = "resolve subs gone"
    let ?bench = "dedupe (set (seated ?cur)) (map ?r bench)"
    have inj: "inj_on ?r (set (seated cur))"
      using resolve_injective [OF sep d] by (auto simp: inj_on_def playing_def)
    have "distinct (seated ?cur)"
      using ok inj by (simp add: seated_resolve distinct_map layoutAndBenchOK_iff)
    moreover have "contiguous 0 ?cur"
      using ok by (simp add: layoutAndBenchOK_iff contiguous_def resolve_court_def)
    moreover have "set (seated ?cur) \<subseteq> A"
      using resolve_in [OF sub(2)] sub(1) by (auto simp: seated_resolve playing_def)
    moreover have "set ?bench \<subseteq> A"
      using resolve_in [OF sub(2)] sub(1) dedupe_spec [of "set (seated ?cur)" "map ?r bench"] by (auto simp: playing_def)
    ultimately have "layoutAndBenchOK ?cur ?bench \<and> playing (?cur, ?bench) \<subseteq> A"
      using sub(3) dedupe_spec [of "set (seated ?cur)" "map ?r bench"] by (auto simp: layoutAndBenchOK_iff playing_def)
    then show ?thesis using False by (simp add: remap_layout_def b Let_def)
  qed
qed

lemma reconcile_ok:
  assumes "layoutAndBenchOK cur bench" "distinct (map rp_id players)"
  shows "layoutAndBenchOK cur (reconcile players cur bench)
    \<and> set (reconcile players cur bench) \<subseteq> set bench \<union> set (map rp_id players)"
proof -
  have "distinct (map rp_id (filter rp_active players))" using assms(2) by (rule distinct_map_filter)
  then show ?thesis using assms(1) by (auto simp: reconcile_def Let_def layoutAndBenchOK_iff)
qed

lemma layout_of_subs: "set (rotationSubstitutionsStrict sid d) = set (subs_of sid d)"
  by (simp add: rotationSubstitutionsStrict_def subs_of_def)

lemma strict_subs:
  "handovers (rotationSubstitutionsStrict sid d) = handovers (subs_of sid d)"
  "distinct (map su_in (rotationSubstitutionsStrict sid d)) = distinct (map su_in (subs_of sid d))"
proof -
  show "handovers (rotationSubstitutionsStrict sid d) = handovers (subs_of sid d)"
    by (simp add: handovers_def layout_of_subs)
  have "mset (map su_in (rotationSubstitutionsStrict sid d)) = mset (map su_in (subs_of sid d))"
    by (simp add: rotationSubstitutionsStrict_def subs_of_def)
  then show "distinct (map su_in (rotationSubstitutionsStrict sid d)) = distinct (map su_in (subs_of sid d))"
    by (rule mset_eq_imp_distinct_iff)
qed

lemma roster_distinct: "roster_ok sid d \<Longrightarrow> distinct (map rp_id (roster sid d)) \<and> [] \<notin> roster_ids sid d"
  by (auto simp: roster_ok_def roster_def roster_ids_def distinct_map_filter)

lemma standing_ok:
  assumes "night_ok sid d" "session_of sid d = Some s" "ns_status s \<noteq> Setup"
    and rows: "map court_of_row rows = map court_of_row (board_rows sid (ns_round s) d)"
    and L_def: "L = standing_layout fails sid s rows d"
  shows "layoutAndBenchOK (fst L) (snd L) \<and> fst L \<noteq> [] \<and> playing L \<subseteq> roster_ids sid d"
proof -
  let ?subs = "rotationSubstitutionsStrict sid d" and ?gone = "inactiveIDs sid d"
  let ?cur = "map court_of_row (board_rows sid (ns_round s) d)"
  have r: "round_ok sid s d" and ro: "roster_ok sid d" and so: "subs_ok sid d" using assms(1-3) by (auto simp: night_ok_def)
  obtain cur bench where m: "remap_layout ?subs ?gone (?cur, dedupeIDs (ns_bench s)) = (cur, bench)" by fastforce
  have "layoutAndBenchOK cur bench \<and> playing (cur, bench) \<subseteq> roster_ids sid d \<and> length cur = length ?cur"
    using remap_ok [of ?cur "ns_bench s" ?subs "roster_ids sid d" ?gone] r so roster_distinct [OF ro]
    by (simp add: m round_ok_def live_layout_def subs_ok_def handovers_leave_def strict_subs layout_of_subs)
  moreover have "?cur \<noteq> []" using r by (simp add: round_ok_def live_layout_def)
  moreover have "L = (cur, if fails ReadActive then bench else reconcile (roster sid d) cur bench)"
    unfolding L_def standing_layout_def rows m by simp
  ultimately show ?thesis
    using reconcile_ok [of cur bench "roster sid d"] roster_distinct [OF ro] by (auto simp: playing_def roster_ids_def)
qed

section \<open>Writing a round\<close>

lemma session_of_update:
  assumes "\<And>s. ns_id (f s) = ns_id s"
  shows "session_of sid (update_session sid f d) = map_option f (session_of sid d)"
  using find_map_update [OF assms, of sid "\<lambda>_. True"] by (simp add: session_of_def update_session_def)

lemma board_rows_new:
  assumes "\<forall>c\<in>set (session_rows sid d). rc_round c \<noteq> r" "contiguous 0 courts"
  shows "map court_of_row (board_rows sid r (write_round sid r courts bench ends d)) = courts"
proof -
  have "round_rows sid r (write_round sid r courts bench ends d) = map (new_row sid r) courts"
    using assms(1) by (auto simp: round_rows_def write_round_def update_session_def new_row_def session_rows_def filter_empty_conv
        intro!: filter_True)
  moreover have "sorted_wrt (\<lambda>a b. \<not> rc_court b < rc_court a) (map (new_row sid r) courts)"
    using assms(2) by (auto simp: sorted_wrt_iff_nth_less contiguous_def new_row_def)
  moreover have "court_of_row (new_row sid r c) = c" for c
    by (cases c) (simp add: court_of_row_def new_row_def)
  ultimately show ?thesis by (simp add: board_rows_def sort_by_id comp_def)
qed

lemma write_round_ok:
  assumes ok: "night_ok sid d" and s: "session_of sid d = Some s"
    and l: "layoutAndBenchOK courts bench" "courts \<noteq> []" "playing (courts, bench) \<subseteq> roster_ids sid d - inactiveIDs sid d"
    and r: "r \<ge> 1" "\<forall>c\<in>set (session_rows sid d). rc_round c < r"
  shows "night_ok sid (write_round sid r courts bench ends d)"
proof -
  let ?d = "write_round sid r courts bench ends d"
  let ?s = "s\<lparr>ns_status := Live, ns_round := r, ns_bench := bench, ns_endsAt := Some ends\<rparr>"
  have tabs: "nd_players ?d = nd_players d" "nd_subs ?d = nd_subs d" "nd_courts ?d = nd_courts d @ map (new_row sid r) courts"
    by (simp_all add: write_round_def update_session_def)
  have s': "session_of sid ?d = Some ?s"
    using session_of_update [of "\<lambda>s. s\<lparr>ns_status := Live, ns_round := r, ns_bench := bench, ns_endsAt := Some ends\<rparr>" sid d] s
    by (simp add: write_round_def session_of_def)
  have ids: "roster_ids sid ?d = roster_ids sid d" "inactiveIDs sid ?d = inactiveIDs sid d" "subs_of sid ?d = subs_of sid d"
    by (simp_all add: roster_ids_def inactiveIDs_def roster_def subs_of_def tabs)
  have live: "live_layout sid ?s ?d = (courts, bench)"
    using board_rows_new [of sid d r courts bench ends] r(2) l(1) by (force simp: live_layout_def layoutAndBenchOK_iff)
  have so: "subs_ok sid d" using ok by (simp add: night_ok_def)
  have "x \<notin> playing (courts, bench)" if "(x, y) \<in> (handovers (subs_of sid d))\<^sup>+" for x y
  proof -
    from that have "\<exists>z. (x, z) \<in> handovers (subs_of sid d)" by (meson tranclD)
    then obtain z where "(x, z) \<in> handovers (subs_of sid d)" by blast
    then have "x \<in> inactiveIDs sid d" using so by (auto simp: handovers_def subs_ok_def)
    then show ?thesis using l(3) by auto
  qed
  then have "handovers_leave (subs_of sid d) (courts, bench)" by (auto simp: handovers_leave_def)
  moreover have "\<forall>c\<in>set (session_rows sid ?d). rc_round c \<le> r"
    using r(2) by (auto simp: session_rows_def tabs new_row_def less_imp_le)
  ultimately have "round_ok sid ?s ?d"
    using l r(1) by (auto simp: round_ok_def live ids)
  then show ?thesis using ok s' by (simp add: night_ok_def roster_ok_def subs_ok_def ids tabs)
qed

section \<open>Every operation keeps the night sound\<close>

lemma same_night_results: "results_only d d' \<Longrightarrow> same_night sid d d'"
  by (auto simp: results_only_def same_night_def session_of_def row_key_def comp_def)

lemma persist_results_only: "persistScorecardWinners fails sid r d = (x, d') \<Longrightarrow> results_only d d'"
proof -
  have "results_only d (fold (\<lambda>c. if card_winner m c = [] then id else set_winner sid r (rc_court c) (card_winner m c)) rows d)"
    for m rows d
  proof (induction rows arbitrary: d)
    case (Cons c rows)
    show ?case
      using Cons [of "set_winner sid r (rc_court c) (card_winner m c) d"] Cons [of d]
        results_only_trans [OF set_winner_results_only] by auto
  qed (simp add: results_only_refl)
  then show "persistScorecardWinners fails sid r d = (x, d') \<Longrightarrow> results_only d d'"
    by (auto simp: persistScorecardWinners_def Let_def results_only_refl split: if_splits)
qed

lemma same_night_players:
  assumes "\<And>p. player_key (f p) = player_key p"
  shows "same_night sid d (d\<lparr>nd_players := map f (nd_players d)\<rparr>)"
  using assms by (simp add: same_night_def session_of_def comp_def)

lemma same_night_retally: "same_night sid d (retallyRotationWins sid' d)"
  unfolding retallyRotationWins_def Let_def by (rule same_night_players) (simp add: player_key_def)

lemma same_night_tally: "same_night sid d (tally_round sid' r d)"
  unfolding tally_round_def by (rule same_night_players) (simp add: player_key_def)

lemma same_night_update_player:
  "(\<And>p. player_key (f p) = player_key p) \<Longrightarrow> same_night sid d (update_player i f d)"
  unfolding update_player_def by (rule same_night_players) simp

lemma same_night_session:
  assumes "\<And>s. ns_id (f s) = ns_id s" "\<And>s. session_key (f s) = session_key s"
  shows "same_night sid d (update_session sid' f d)"
proof -
  have "List.find (\<lambda>s. ns_id s = sid) (map (\<lambda>s. if ns_id s = sid' then f s else s) ss)
      = map_option (\<lambda>s. if ns_id s = sid' then f s else s) (List.find (\<lambda>s. ns_id s = sid) ss)" for ss
    by (induction ss) (simp_all add: assms(1))
  then show ?thesis
    using assms(2) by (cases "session_of sid d") (auto simp: same_night_def update_session_def session_of_def)
qed

lemma same_night_claim:
  assumes "claim_session sid P f d = (b, d')" "\<And>s. ns_id (f s) = ns_id s" "\<And>s. P s \<Longrightarrow> session_key (f s) = session_key s"
  shows "same_night sid d d'"
proof -
  have "map_option session_key (session_of sid d') = map_option session_key (session_of sid d)"
    using session_of_claim [OF assms(2,1)] assms(3) by (cases "session_of sid d") auto
  moreover have "nd_players d' = nd_players d" "nd_courts d' = nd_courts d" "nd_subs d' = nd_subs d"
    using assms(1) by (auto simp: claim_session_def split: if_splits)
  ultimately show ?thesis by (simp add: same_night_def)
qed

lemma same_night_scores [simp]: "same_night sid d (d\<lparr>nd_scores := x\<rparr>)" "same_night sid d (d\<lparr>nd_ladder := l\<rparr>)"
  by (simp_all add: same_night_def session_of_def)

lemma same_night_end:
  assumes "session_of sid d = Some s" "ns_status s \<noteq> Setup"
  shows "same_night sid d (end_night sid s d)"
proof -
  let ?f = "\<lambda>s :: night. s\<lparr>ns_status := Done, ns_endsAt := None\<rparr>"
  have "session_of sid (end_night sid s d) = Some (?f s)"
    using session_of_update [of ?f sid "tally_round sid (ns_round s) d"] assms(1)
    by (simp add: end_night_def tally_round_def session_of_def)
  moreover have "same_night sid d (tally_round sid (ns_round s) d)" by (rule same_night_tally)
  ultimately show ?thesis using assms by (simp add: same_night_def end_night_def update_session_def session_key_def)
qed

lemma night_okE:
  assumes "night_ok sid d"
  obtains s where "session_of sid d = Some s" "if ns_status s = Setup then setup_ok sid s d else round_ok sid s d"
    "roster_ok sid d" "subs_ok sid d"
  using assms by (auto simp: night_ok_def split: option.splits)

text \<open>Seats and handovers of the night, all inside the roster.\<close>

definition involved :: "string \<Rightarrow> night \<Rightarrow> night_db \<Rightarrow> pid set" where
  "involved sid s d = playing (live_layout sid s d) \<union> set (map su_out (subs_of sid d)) \<union> set (map su_in (subs_of sid d))"

lemma inactive_in_roster: "inactiveIDs sid d \<subseteq> roster_ids sid d"
  by (auto simp: inactiveIDs_def roster_ids_def)

lemma roster_in_players: "roster_ids sid d \<subseteq> set (map rp_id (nd_players d))"
  by (auto simp: roster_ids_def roster_def)

lemma involved_in_roster:
  "round_ok sid s d \<Longrightarrow> subs_ok sid d \<Longrightarrow> involved sid s d \<subseteq> roster_ids sid d"
  using inactive_in_roster unfolding involved_def round_ok_def subs_ok_def by blast

lemma insert_player_ok:
  assumes ok: "night_ok sid d" and run: "insert_player i sid' entrant name rating d = Some d'"
    and fresh: "i \<noteq> []" "i \<notin> set (map rp_id (nd_players d))"
  shows "night_ok sid d' \<and> nd_sessions d' = nd_sessions d \<and> nd_courts d' = nd_courts d \<and> nd_subs d' = nd_subs d
    \<and> roster_ids sid d \<subseteq> roster_ids sid d' \<and> i \<in> roster_ids sid' d' \<and> map rp_id (nd_players d') = map rp_id (nd_players d) @ [i]"
proof -
  obtain s where s: "session_of sid d = Some s" "if ns_status s = Setup then setup_ok sid s d else round_ok sid s d"
    "roster_ok sid d" "subs_ok sid d" by (rule night_okE [OF ok])
  define q where "q = \<lparr>rp_id = i, rp_session = sid', rp_entrant = entrant, rp_name = name, rp_rating = rating, rp_wins = 0,
    rp_games = 0, rp_active = True, rp_start = None\<rparr>"
  have d': "d' = d\<lparr>nd_players := nd_players d @ [q]\<rparr>"
    using run by (simp add: insert_player_def q_def split: if_splits)
  have ids: "inactiveIDs sid d' = inactiveIDs sid d" "roster_ids sid d \<subseteq> roster_ids sid d'" "subs_of sid d' = subs_of sid d"
    "i \<in> roster_ids sid' d'"
    by (auto simp: d' q_def inactiveIDs_def roster_ids_def roster_def subs_of_def)
  have same: "session_of sid d' = session_of sid d" "session_rows sid d' = session_rows sid d"
    "live_layout sid s d' = live_layout sid s d"
    by (simp_all add: d' session_of_def session_rows_def live_layout_def board_rows_def round_rows_def)
  have "roster_ok sid d'" using s(3) fresh by (auto simp: roster_ok_def d' q_def)
  moreover have "subs_ok sid d'" using s(4) ids by (auto simp: subs_ok_def)
  moreover have "if ns_status s = Setup then setup_ok sid s d' else round_ok sid s d'"
    using s(2) subset_trans [OF _ ids(2), of "playing (live_layout sid s d)"]
    by (cases "ns_status s = Setup") (simp_all add: setup_ok_def round_ok_def same ids(3))
  ultimately have "night_ok sid d'" using s(1) by (simp add: night_ok_def same(1))
  moreover have "nd_sessions d' = nd_sessions d" "nd_courts d' = nd_courts d" "nd_subs d' = nd_subs d"
    "map rp_id (nd_players d') = map rp_id (nd_players d) @ [i]"
    by (simp_all add: d' q_def)
  ultimately show ?thesis using ids by simp
qed

lemma join_ok:
  assumes ok: "night_ok sid d" and laws: "join_law R" and s: "session_of sid d = Some s"
    and ids: "set ids \<subseteq> roster_ids sid d" "distinct ids" "ns_status s \<noteq> Setup \<longrightarrow> set ids \<inter> involved sid s d = {}"
  shows "night_ok sid (joinBench R sid ids d)"
proof (cases "ids = []")
  case True
  then show ?thesis using ok by (simp add: joinBench_def)
next
  case False
  have inv: "if ns_status s = Setup then setup_ok sid s d else round_ok sid s d" "roster_ok sid d" "subs_ok sid d"
    using ok s by (auto simp: night_ok_def)
  obtain f where f: "nr_join R sid ids d = update_session sid (\<lambda>s. s\<lparr>ns_bench := ns_bench s @ f s\<rparr>) d"
    "f s = [] \<or> f s = ids" "ns_status s = Setup \<longrightarrow> f s = []"
    using laws unfolding join_law_def by blast
  let ?d = "update_session sid (\<lambda>s. s\<lparr>ns_bench := ns_bench s @ f s\<rparr>) d" and ?s = "s\<lparr>ns_bench := ns_bench s @ f s\<rparr>"
  have s': "session_of sid ?d = Some ?s" using session_of_update [of "\<lambda>s. s\<lparr>ns_bench := ns_bench s @ f s\<rparr>" sid d] s by simp
  have tabs: "roster_ids sid ?d = roster_ids sid d" "inactiveIDs sid ?d = inactiveIDs sid d" "subs_of sid ?d = subs_of sid d"
    "session_rows sid ?d = session_rows sid d" "nd_players ?d = nd_players d"
    by (simp_all add: update_session_def roster_ids_def roster_def inactiveIDs_def subs_of_def session_rows_def)
  have live: "live_layout sid ?s ?d = (fst (live_layout sid s d), ns_bench s @ f s)"
    by (simp add: live_layout_def update_session_def board_rows_def round_rows_def)
  have "round_ok sid ?s ?d" if st: "ns_status s \<noteq> Setup"
  proof -
    have r: "round_ok sid s d" and dis: "set ids \<inter> involved sid s d = {}" using inv(1) ids(3) st by auto
    have fs: "set (f s) \<subseteq> set ids" "distinct (f s)" using f(2) ids(2) by auto
    have nb: "[] \<notin> set (f s)" using fs(1) ids(1) roster_distinct [OF inv(2)] by blast
    have ok': "layoutAndBenchOK (fst (live_layout sid s d)) (ns_bench s @ f s)"
      using r dis fs nb by (auto simp: round_ok_def layoutAndBenchOK_iff involved_def playing_def live_layout_def)
    let ?H = "(handovers (subs_of sid d))\<^sup>+"
    have inv': "x \<in> set (map su_out (subs_of sid d)) \<and> y \<in> set (map su_in (subs_of sid d))" if "(x, y) \<in> ?H" for x y
      using that by induction (auto simp: handovers_def)
    have "handovers_leave (subs_of sid d) (fst (live_layout sid s d), ns_bench s @ f s)"
      unfolding handovers_leave_def
    proof (intro equalityI subsetI)
      fix y assume y: "y \<in> ?H `` playing (fst (live_layout sid s d), ns_bench s @ f s) \<inter> playing (fst (live_layout sid s d), ns_bench s @ f s)"
      then obtain x where x: "(x, y) \<in> ?H" "x \<in> playing (live_layout sid s d) \<union> set ids"
        using fs(1) by (auto simp: playing_def live_layout_def)
      have "x \<notin> set ids" "y \<notin> set ids" using inv' [OF x(1)] dis by (auto simp: involved_def)
      then have "y \<in> ?H `` playing (live_layout sid s d) \<inter> playing (live_layout sid s d)"
        using x y fs(1) by (auto simp: playing_def live_layout_def)
      then show "y \<in> {}" using r unfolding round_ok_def handovers_leave_def by blast
    qed simp
    then show ?thesis
      using r ok' fs(1) ids(1) unfolding round_ok_def tabs live by (auto simp: playing_def live_layout_def)
  qed
  moreover have "setup_ok sid ?s ?d" if "ns_status s = Setup" using inv(1) that by (simp add: setup_ok_def tabs)
  ultimately have "night_ok sid ?d" using inv(2,3) s' by (simp add: night_ok_def roster_ok_def subs_ok_def tabs)
  then show ?thesis using False f(1) by (simp add: joinBench_def)
qed

lemma import_ok:
  assumes "night_ok sid d" "fresh_ids R" "import_entrants R sid have es d = ((ids, failed), d')"
  shows "night_ok sid d' \<and> nd_sessions d' = nd_sessions d \<and> nd_courts d' = nd_courts d \<and> nd_subs d' = nd_subs d
    \<and> set ids \<subseteq> roster_ids sid d' \<and> distinct ids \<and> set ids \<inter> set (map rp_id (nd_players d)) = {}
    \<and> roster_ids sid d \<subseteq> roster_ids sid d' \<and> set (map rp_id (nd_players d)) \<subseteq> set (map rp_id (nd_players d'))"
  using assms
proof (induction es arbitrary: d ids failed d')
  case (Cons e es)
  show ?case
  proof (cases "en_id e = [] \<or> en_id e \<in> have")
    case True
    then have "import_entrants R sid have es d = ((ids, failed), d')" using Cons.prems(3) by simp
    then show ?thesis using Cons.IH [OF Cons.prems(1,2)] by blast
  next
    case False
    let ?i = "nr_newId R d"
    have fr: "?i \<noteq> []" "?i \<notin> set (map rp_id (nd_players d))" using Cons.prems(2) by (auto simp: fresh_ids_def)
    show ?thesis
    proof (cases "insert_player ?i sid (en_id e) (en_name e) 3 d")
      case None
      then have "ids = []" "d' = d" using Cons.prems(3) False by (simp_all add: Let_def)
      then show ?thesis using Cons.prems(1) by simp
    next
      case (Some d1)
      obtain ids1 f1 d2 where r: "import_entrants R sid have es d1 = ((ids1, f1), d2)" by (metis prod.exhaust)
      have res: "ids = ?i # ids1" "d' = d2" using Cons.prems(3) False Some r by (auto simp: Let_def)
      note I = insert_player_ok [OF Cons.prems(1) Some fr]
      have "night_ok sid d1" using I by blast
      note IH = Cons.IH [OF this Cons.prems(2) r]
      have sub: "set (map rp_id (nd_players d1)) = insert ?i (set (map rp_id (nd_players d)))" using I by simp
      have "?i \<notin> set ids1" "set ids1 \<inter> set (map rp_id (nd_players d)) = {}" using IH unfolding sub by auto
      moreover have "?i \<in> roster_ids sid d2" using I IH by blast
      moreover have "roster_ids sid d \<subseteq> roster_ids sid d2" using I IH by (meson subset_trans)
      ultimately show ?thesis using I IH fr sub unfolding res by simp
    qed
  qed
qed (auto)

lemma add_player_ok:
  assumes ok: "night_ok sid d" and "night_laws R"
  shows "night_ok sid (snd (AddRotationPlayer R sid entrant name rating d))"
proof (cases "insert_player (nr_newId R d) sid entrant name (rating_or 3 rating) d")
  case None
  then show ?thesis using ok by (simp add: AddRotationPlayer_def)
next
  case (Some d')
  have fr: "nr_newId R d \<noteq> []" "nr_newId R d \<notin> set (map rp_id (nd_players d))"
    using assms(2) by (auto simp: night_laws_def fresh_ids_def)
  note I = insert_player_ok [OF ok Some fr]
  obtain s where s: "session_of sid d = Some s" "if ns_status s = Setup then setup_ok sid s d else round_ok sid s d" "subs_ok sid d"
    by (rule night_okE [OF ok])
  have same: "session_of sid d' = Some s" "involved sid s d' = involved sid s d"
    using s(1) I by (simp_all add: session_of_def involved_def live_layout_def board_rows_def round_rows_def subs_of_def)
  have "night_ok sid (joinBench R sid [nr_newId R d] d')"
  proof (rule join_ok)
    show "ns_status s \<noteq> Setup \<longrightarrow> set [nr_newId R d] \<inter> involved sid s d' = {}"
      using involved_in_roster s roster_in_players fr same(2) by fastforce
  qed (use I assms(2) same in \<open>auto simp: night_laws_def\<close>)
  then show ?thesis using Some by (simp add: AddRotationPlayer_def Let_def)
qed

lemma import_session_ok:
  assumes ok: "night_ok sid d" and laws: "night_laws R"
  shows "night_ok sid (snd (ImportLadderEntrantsToSession R sid d))
    \<and> map_option ns_status (session_of sid (snd (ImportLadderEntrantsToSession R sid d))) = map_option ns_status (session_of sid d)"
proof -
  obtain s where s: "session_of sid d = Some s" "if ns_status s = Setup then setup_ok sid s d else round_ok sid s d" "subs_ok sid d"
    by (rule night_okE [OF ok])
  obtain ids failed d' where run: "import_entrants R sid (set (map rp_entrant (roster sid d)) - {[]})
      (ladder_rows (ns_div s) (nd_ladder d)) d = ((ids, failed), d')" by (metis prod.exhaust)
  note I = import_ok [OF ok _ run]
  have fr: "fresh_ids R" using laws by (simp add: night_laws_def)
  have same: "session_of sid d' = Some s" "involved sid s d' = involved sid s d"
    using s(1) I [OF fr] by (simp_all add: session_of_def involved_def live_layout_def board_rows_def round_rows_def subs_of_def)
  have j: "night_ok sid (joinBench R sid ids d')"
  proof (rule join_ok)
    show "ns_status s \<noteq> Setup \<longrightarrow> set ids \<inter> involved sid s d' = {}"
    proof
      assume "ns_status s \<noteq> Setup"
      then have "involved sid s d \<subseteq> set (map rp_id (nd_players d))"
        using involved_in_roster [of sid s d] s(2,3) roster_in_players [of sid d] by auto
      then show "set ids \<inter> involved sid s d' = {}" using I [OF fr] unfolding same(2) by blast
    qed
  qed (use I [OF fr] laws same in \<open>auto simp: night_laws_def\<close>)
  obtain f where f: "nr_join R sid ids d' = update_session sid (\<lambda>s. s\<lparr>ns_bench := ns_bench s @ f s\<rparr>) d'"
    using laws unfolding night_laws_def join_law_def by blast
  have "map_option ns_status (session_of sid (joinBench R sid ids d')) = Some (ns_status s)"
    using session_of_update [of "\<lambda>s. s\<lparr>ns_bench := ns_bench s @ f s\<rparr>" sid d'] same(1) by (simp add: joinBench_def f)
  then show ?thesis
    using j I [OF fr] run s(1) same(1)
    by (auto simp: ImportLadderEntrantsToSession_def DivisionOfRotationSession_def)
qed

lemma set_active_ok:
  assumes ok: "night_ok sid d" and out: "act \<longrightarrow> i \<notin> set (map su_out (subs_of sid d))"
  shows "night_ok sid (snd (SetRotationPlayerActive i act d))"
proof -
  let ?d = "update_player i (\<lambda>p. p\<lparr>rp_active := act\<rparr>) d"
  obtain s where s: "session_of sid d = Some s" "if ns_status s = Setup then setup_ok sid s d else round_ok sid s d"
    "roster_ok sid d" "subs_ok sid d" by (rule night_okE [OF ok])
  have same: "session_of sid ?d = session_of sid d" "session_rows sid ?d = session_rows sid d" "subs_of sid ?d = subs_of sid d"
    "live_layout sid s ?d = live_layout sid s d" "map rp_id (nd_players ?d) = map rp_id (nd_players d)"
    by (simp_all add: update_player_def session_of_def session_rows_def subs_of_def live_layout_def board_rows_def round_rows_def comp_def
        if_distrib cong: if_cong)
  have r: "roster sid ?d = map (\<lambda>p. if rp_id p = i then p\<lparr>rp_active := act\<rparr> else p) (roster sid d)"
    unfolding roster_def update_player_def by (simp add: filter_map_keep)
  have ros: "roster_ids sid ?d = roster_ids sid d"
    unfolding roster_ids_def r by (simp add: comp_def if_distrib image_image cong: if_cong)
  have ina: "inactiveIDs sid d - (if act then {i} else {}) \<subseteq> inactiveIDs sid ?d"
  proof
    fix x assume "x \<in> inactiveIDs sid d - (if act then {i} else {})"
    then obtain q where q: "q \<in> set (roster sid d)" "x = rp_id q" "rp_id q \<noteq> []" "\<not> rp_active q" "act \<longrightarrow> x \<noteq> i"
      by (auto simp: inactiveIDs_def split: if_splits)
    define q' where "q' = (if rp_id q = i then q\<lparr>rp_active := act\<rparr> else q)"
    have "q' \<in> set (roster sid ?d)" unfolding r q'_def using q(1) by auto
    moreover have "rp_id q' = x" "rp_id q' \<noteq> []" "\<not> rp_active q'" using q by (auto simp: q'_def)
    ultimately show "x \<in> inactiveIDs sid ?d" by (auto simp: inactiveIDs_def)
  qed
  have "subs_ok sid ?d" using s(4) out ina by (auto simp: subs_ok_def same ros split: if_splits)
  moreover have "if ns_status s = Setup then setup_ok sid s ?d else round_ok sid s ?d"
    using s(2) by (cases "ns_status s = Setup") (simp_all add: setup_ok_def round_ok_def same ros)
  moreover have "roster_ok sid ?d" using s(3) unfolding roster_ok_def same .
  ultimately have "night_ok sid ?d" using s(1) by (simp add: night_ok_def same)
  then show ?thesis using ok by (auto simp: SetRotationPlayerActive_def Let_def split: option.splits)
qed

lemma remove_player_ok:
  assumes ok: "night_ok sid d"
  shows "night_ok sid (snd (RemoveRotationPlayer i d))"
proof (cases "rosterEditable i d")
  case (Some e)
  then show ?thesis using ok by (simp add: RemoveRotationPlayer_def)
next
  case None
  let ?d = "d\<lparr>nd_players := filter (\<lambda>p. rp_id p \<noteq> i) (nd_players d)\<rparr>"
  obtain s where s: "session_of sid d = Some s" "if ns_status s = Setup then setup_ok sid s d else round_ok sid s d"
    "roster_ok sid d" "subs_ok sid d" by (rule night_okE [OF ok])
  obtain p where po: "player_of i d = Some p" using None by (auto simp: rosterEditable_def split: option.splits)
  then have p: "p \<in> set (nd_players d)" "rp_id p = i" using player_of_Some by blast+
  have ed: "rp_session p = sid \<longrightarrow> ns_status s = Setup"
    using None po s(1) by (auto simp: rosterEditable_def split: if_splits)
  have same: "session_of sid ?d = session_of sid d" "session_rows sid ?d = session_rows sid d" "subs_of sid ?d = subs_of sid d"
    "live_layout sid s ?d = live_layout sid s d"
    by (simp_all add: session_of_def session_rows_def subs_of_def live_layout_def board_rows_def round_rows_def)
  have ro: "roster_ok sid ?d" using s(3) by (auto simp: roster_ok_def distinct_map_filter)
  have "night_ok sid ?d"
  proof (cases "ns_status s = Setup")
    case True
    then have "subs_of sid d = []" using s(2) by (simp add: setup_ok_def)
    then show ?thesis using s(1,2) True ro by (simp add: night_ok_def subs_ok_def setup_ok_def same)
  next
    case False
    then have other: "rp_session p \<noteq> sid" using ed by blast
    have keep: "q \<in> set (nd_players ?d)" if "q \<in> set (nd_players d)" "rp_session q = sid" for q
      using that other p s(3) by (auto simp: roster_ok_def distinct_map inj_on_def)
    have "roster_ids sid d \<subseteq> roster_ids sid ?d" "inactiveIDs sid d \<subseteq> inactiveIDs sid ?d"
      using keep by (auto simp: roster_ids_def inactiveIDs_def roster_def)
    then show ?thesis using s False ro by (auto simp: night_ok_def subs_ok_def round_ok_def same)
  qed
  then show ?thesis using None by (simp add: RemoveRotationPlayer_def)
qed

lemma set_inactive_ids:
  assumes "distinct (map rp_id (nd_players d))"
  shows "roster_ids sid (update_player i (\<lambda>p. p\<lparr>rp_active := False\<rparr>) d) = roster_ids sid d"
    and "inactiveIDs sid d \<subseteq> inactiveIDs sid (update_player i (\<lambda>p. p\<lparr>rp_active := False\<rparr>) d)"
    and "i \<in> roster_ids sid d \<Longrightarrow> i \<noteq> [] \<Longrightarrow> i \<in> inactiveIDs sid (update_player i (\<lambda>p. p\<lparr>rp_active := False\<rparr>) d)"
proof -
  let ?f = "\<lambda>p. if rp_id p = i then p\<lparr>rp_active := False\<rparr> else p :: rplayer"
  have r: "roster sid (update_player i (\<lambda>p. p\<lparr>rp_active := False\<rparr>) d) = map ?f (roster sid d)"
    unfolding roster_def update_player_def by (simp add: filter_map_keep)
  show "roster_ids sid (update_player i (\<lambda>p. p\<lparr>rp_active := False\<rparr>) d) = roster_ids sid d"
    unfolding roster_ids_def r by (simp add: comp_def if_distrib image_image cong: if_cong)
  have f: "rp_id (?f q) \<in> inactiveIDs sid (update_player i (\<lambda>p. p\<lparr>rp_active := False\<rparr>) d)"
    if "q \<in> set (roster sid d)" "rp_id q \<noteq> []" "\<not> rp_active q \<or> rp_id q = i" for q
    unfolding inactiveIDs_def r list.set_map set_filter
    by (rule image_eqI [of _ _ "?f q"]) (use that in \<open>auto intro!: imageI\<close>)
  have retired: "rp_id q \<in> inactiveIDs sid (update_player i (\<lambda>p. p\<lparr>rp_active := False\<rparr>) d)"
    if "q \<in> set (roster sid d)" "rp_id q \<noteq> []" "\<not> rp_active q \<or> rp_id q = i" for q
  proof -
    have "rp_id (?f q) = rp_id q" by simp
    then show ?thesis using f [OF that] by (simp only:)
  qed
  show "inactiveIDs sid d \<subseteq> inactiveIDs sid (update_player i (\<lambda>p. p\<lparr>rp_active := False\<rparr>) d)"
    using retired unfolding inactiveIDs_def [of sid d] by auto
  show "i \<in> inactiveIDs sid (update_player i (\<lambda>p. p\<lparr>rp_active := False\<rparr>) d)" if "i \<in> roster_ids sid d" "i \<noteq> []"
    using that retired by (auto simp: roster_ids_def)
qed

lemma handovers_snoc: "handovers (subs @ [x]) = insert (su_out x, su_in x) (handovers subs)"
  by (auto simp: handovers_def)

lemma trancl_last:
  assumes "(x, y) \<in> (insert (out, new) T)\<^sup>+" "new \<notin> Domain T"
  shows "(x, y) \<in> T\<^sup>+ \<or> y = new \<and> (x, out) \<in> T\<^sup>*"
proof -
  have "b = new" if "(new, b) \<in> T\<^sup>*" for b
    using that assms(2) by (auto elim: converse_rtranclE)
  then show ?thesis using assms(1) unfolding trancl_insert by auto
qed

lemma swap_leaves:
  assumes leave: "handovers_leave subs l" and sub: "su_out x = out" "su_in x = new" and ne: "new \<noteq> out"
    and fresh: "new \<notin> playing l" "new \<notin> set (map su_out subs)" "new \<notin> set (map su_in subs)"
    and P: "playing l' = swap_seat out new ` playing l \<or> playing l' = playing l"
  shows "handovers_leave (subs @ [x]) l'"
  unfolding handovers_leave_def
proof (rule ccontr)
  let ?T = "handovers subs"
  assume "(handovers (subs @ [x]))\<^sup>+ `` playing l' \<inter> playing l' \<noteq> {}"
  then obtain a b where ab: "(a, b) \<in> (insert (out, new) ?T)\<^sup>+" "a \<in> playing l'" "b \<in> playing l'"
    using sub by (auto simp: handovers_snoc)
  have dom: "new \<notin> Domain ?T" "new \<notin> Range ?T" using fresh by (auto simp: handovers_def)
  have Tb: "b' \<noteq> new \<and> a' \<noteq> new" if "(a', b') \<in> ?T\<^sup>+" for a' b'
    using that dom by (induction) (auto dest: tranclD)
  have no: "(a', b') \<notin> ?T\<^sup>+" if "a' \<in> playing l" "b' \<in> playing l" for a' b'
    using leave that by (auto simp: handovers_leave_def)
  have old: "z \<in> playing l" if "z \<in> playing l'" "z \<noteq> new" for z
    using P that by (auto simp: swap_seat_def split: if_splits)
  have new_out: "out \<in> playing l \<and> out \<notin> playing l'" if "new \<in> playing l'"
    using P that fresh(1) ne by (auto simp: swap_seat_def split: if_splits)
  consider "(a, b) \<in> ?T\<^sup>+" | "b = new" "(a, out) \<in> ?T\<^sup>*" using trancl_last [OF ab(1) dom(1)] by blast
  then show False
  proof cases
    case 1
    then show ?thesis using Tb [OF 1] no old ab by blast
  next
    case 2
    then have o: "out \<in> playing l" "out \<notin> playing l'" using new_out ab(3) by auto
    then have "(a, out) \<in> ?T\<^sup>+" using 2(2) ab(2) by (metis rtranclD)
    then show ?thesis using Tb no old ab(2) o(1) by blast
  qed
qed

definition swap_court :: "pid \<Rightarrow> pid \<Rightarrow> RotCourt \<Rightarrow> RotCourt" where
  "swap_court old new c = c\<lparr>TeamA := (swap_seat old new (fst (TeamA c)), swap_seat old new (snd (TeamA c))),
    TeamB := (swap_seat old new (fst (TeamB c)), swap_seat old new (snd (TeamB c)))\<rparr>"

lemma seated_swap: "seated (map (swap_court old new) cs) = map (swap_seat old new) (seated cs)"
  by (induction cs) (simp_all add: court_ids_def swap_court_def)

lemma swap_seat_absent: "old \<notin> set xs \<Longrightarrow> map (swap_seat old new) xs = xs"
  by (induction xs) (auto simp: swap_seat_def)

lemma swap_layout_ok:
  assumes "layoutAndBenchOK cur bench" "new \<noteq> []" "new \<notin> playing (cur, bench)"
  shows "layoutAndBenchOK (map (swap_court old new) cur) (map (swap_seat old new) bench)"
proof -
  have inj: "inj_on (swap_seat old new) (playing (cur, bench))"
    using assms(3) by (auto simp: inj_on_def swap_seat_def)
  have "distinct (map (swap_seat old new) (seated cur @ bench))"
    using assms(1) inj by (simp only: distinct_map layoutAndBenchOK_iff playing_def set_append fst_conv snd_conv)
  moreover have "[] \<notin> set (map (swap_seat old new) (seated cur @ bench))"
    using assms(1,2) by (auto simp: layoutAndBenchOK_iff swap_seat_def split: if_splits)
  moreover have "contiguous 0 (map (swap_court old new) cur)"
    using assms(1) by (simp add: layoutAndBenchOK_iff contiguous_def swap_court_def)
  ultimately show ?thesis by (simp add: layoutAndBenchOK_iff seated_swap)
qed

text \<open>The rows of the running round after a handover.\<close>

lemma live_after_swap:
  assumes rows: "nd_courts d' = map (\<lambda>c. if rc_session c = sid \<and> rc_round c \<ge> eff then swap_row out new c else c) (nd_courts d)"
  shows "live_layout sid (s\<lparr>ns_bench := map (swap_seat out new) (ns_bench s)\<rparr>) d' = (if eff \<le> ns_round s then map (swap_court out new) (fst (live_layout sid s d)) else fst (live_layout sid s d),
    map (swap_seat out new) (ns_bench s))"
proof -
  let ?g = "\<lambda>c. if rc_session c = sid \<and> rc_round c \<ge> eff then swap_row out new c else c"
  let ?lt = "\<lambda>a b. rc_court a < rc_court b"
  have "round_rows sid (ns_round s) d' = map ?g (round_rows sid (ns_round s) d)"
    unfolding round_rows_def rows by (rule filter_map_keep) (simp add: swap_row_def)
  also have "\<dots> = map (if eff \<le> ns_round s then swap_row out new else id) (round_rows sid (ns_round s) d)"
    by (rule map_cong) (auto simp: round_rows_def)
  finally have "board_rows sid (ns_round s) d' = map (if eff \<le> ns_round s then swap_row out new else id) (board_rows sid (ns_round s) d)"
    unfolding board_rows_def by (simp add: sort_by_map swap_row_def)
  then show ?thesis
    by (auto simp: live_layout_def court_of_row_def swap_row_def swap_court_def)
qed

lemma swapped_layout:
  assumes ok: "layoutAndBenchOK cur bench" and new: "new \<noteq> []" "new \<notin> playing (cur, bench)"
    and cur': "cur' = map (swap_court out new) cur \<or> cur' = cur"
  defines "l \<equiv> (cur', map (swap_seat out new) bench)"
  shows "layoutAndBenchOK (fst l) (snd l) \<and> (playing l = swap_seat out new ` playing (cur, bench) \<or> playing l = playing (cur, bench))"
proof -
  have sw: "layoutAndBenchOK (map (swap_court out new) cur) (map (swap_seat out new) bench)"
    by (rule swap_layout_ok [OF ok new])
  consider "cur' = map (swap_court out new) cur" | "cur' = cur" "out \<in> set bench" | "cur' = cur" "out \<notin> set bench"
    using cur' by blast
  then show ?thesis
  proof cases
    case 1
    then show ?thesis using sw by (simp add: l_def playing_def seated_swap image_Un)
  next
    case 2
    then have "out \<notin> set (seated cur)" using ok by (auto simp: layoutAndBenchOK_iff)
    then have same: "seated (map (swap_court out new) cur) = seated cur" by (simp add: seated_swap swap_seat_absent)
    then have "playing l = swap_seat out new ` playing (cur, bench)"
      using 2(1) by (simp add: l_def playing_def image_Un flip: set_map seated_swap)
    moreover have "layoutAndBenchOK cur (map (swap_seat out new) bench)"
      using sw ok same by (simp add: layoutAndBenchOK_iff)
    ultimately show ?thesis using 2(1) by (simp add: l_def)
  next
    case 3
    then show ?thesis using ok by (simp add: l_def swap_seat_absent)
  qed
qed

lemma session_rows_rounds:
  assumes "nd_courts d' = map f (nd_courts d)" "\<And>c. rc_session (f c) = rc_session c \<and> rc_round (f c) = rc_round c"
  shows "rc_round ` set (session_rows sid d') = rc_round ` set (session_rows sid d)"
  unfolding session_rows_def assms(1) by (simp add: filter_map image_image assms(2) comp_def)

lemma substitute_ok:
  assumes ok: "night_ok sid d" and fr: "new \<noteq> []" "new \<notin> set (map rp_id (nd_players d))"
  shows "night_ok sid (snd (rotation_substitute new sid out name rating entrant d))"
proof -
  obtain s where s: "session_of sid d = Some s" "if ns_status s = Setup then setup_ok sid s d else round_ok sid s d"
    "roster_ok sid d" "subs_ok sid d" by (rule night_okE [OF ok])
  show ?thesis
  proof (cases "fst (rotation_substitute new sid out name rating entrant d)")
    case (Inl e)
    then have "snd (rotation_substitute new sid out name rating entrant d) = d"
      using s(1) by (auto simp: rotation_substitute_def Let_def split: if_splits option.splits)
    then show ?thesis using ok by simp
  next
    case (Inr res)
    define eff where "eff = handover_round sid out s d"
    define x where "x = \<lparr>su_session = sid, su_round = eff, su_out = out, su_in = new\<rparr>"
    obtain d1 where d1: "insert_player new sid entrant name rating d = Some d1"
      using Inr s(1) by (auto simp: rotation_substitute_def Let_def split: if_splits option.splits)
    have guards: "ns_status s \<noteq> Setup" "list_ex (\<lambda>p. rp_id p = out \<and> rp_active p) (roster sid d)"
      "\<not> list_ex (\<lambda>x. su_session x = sid \<and> su_out x = out) (nd_subs d)"
      using Inr s(1) by (auto simp: rotation_substitute_def Let_def split: if_splits)
    note st = guards(1)
    have act: "out \<in> roster_ids sid d" and once: "out \<notin> set (map su_out (subs_of sid d))"
      using guards(2,3) by (auto simp: roster_ids_def subs_of_def list_ex_iff)
    define dd where "dd = (update_session sid (\<lambda>x. x\<lparr>ns_bench := map (swap_seat out new) (ns_bench x)\<rparr>)
      (d1\<lparr>nd_courts := map (\<lambda>c. if rc_session c = sid \<and> rc_round c \<ge> eff then swap_row out new c else c) (nd_courts d1)\<rparr>))
      \<lparr>nd_subs := nd_subs d1 @ [x]\<rparr>"
    have res: "snd (rotation_substitute new sid out name rating entrant d) = update_player out (\<lambda>p. p\<lparr>rp_active := False\<rparr>) dd"
      using Inr s(1) d1 guards
      by (cases "ns_status s") (auto simp: rotation_substitute_def Let_def dd_def x_def eff_def update_session_def)
    let ?d = "update_player out (\<lambda>p. p\<lparr>rp_active := False\<rparr>) dd"
    let ?s = "s\<lparr>ns_bench := map (swap_seat out new) (ns_bench s)\<rparr>"
    note I = insert_player_ok [OF ok d1 fr]
    have pl: "map rp_id (nd_players dd) = map rp_id (nd_players d) @ [new]" "nd_players dd = nd_players d1"
      using I by (simp_all add: dd_def update_session_def)
    have dist: "distinct (map rp_id (nd_players dd))" using s(3) fr by (auto simp: pl(1) roster_ok_def)
    have ids: "roster_ids sid ?d = roster_ids sid d1" "inactiveIDs sid d \<subseteq> inactiveIDs sid ?d" "out \<in> inactiveIDs sid ?d"
    proof -
      have e: "roster_ids sid dd = roster_ids sid d1" "inactiveIDs sid dd = inactiveIDs sid d1"
        by (simp_all add: roster_ids_def inactiveIDs_def roster_def pl(2))
      have "inactiveIDs sid d \<subseteq> inactiveIDs sid d1"
        using d1 by (auto simp: insert_player_def inactiveIDs_def roster_def split: if_splits)
      then show "roster_ids sid ?d = roster_ids sid d1" "inactiveIDs sid d \<subseteq> inactiveIDs sid ?d" "out \<in> inactiveIDs sid ?d"
        using set_inactive_ids [OF dist, where sid = sid and i = out] e I act roster_distinct [OF s(3)] by (auto, blast)
    qed
    have subs: "subs_of sid ?d = subs_of sid d @ [x]"
      using I by (simp add: subs_of_def update_player_def dd_def x_def update_session_def)
    have rows: "nd_courts ?d = map (\<lambda>c. if rc_session c = sid \<and> rc_round c \<ge> eff then swap_row out new c else c) (nd_courts d)"
      using I by (simp add: update_player_def dd_def update_session_def)
    have r: "round_ok sid s d" using s(2) st by simp
    have inv: "involved sid s d \<subseteq> roster_ids sid d" by (rule involved_in_roster [OF r s(4)])
    then have nf: "new \<notin> playing (live_layout sid s d)" "new \<notin> set (map su_out (subs_of sid d))" "new \<notin> set (map su_in (subs_of sid d))"
    proof -
      have "involved sid s d \<subseteq> set (map rp_id (nd_players d))" by (rule subset_trans [OF inv roster_in_players])
      then have "new \<notin> involved sid s d" using fr by blast
      then show "new \<notin> playing (live_layout sid s d)" "new \<notin> set (map su_out (subs_of sid d))"
        "new \<notin> set (map su_in (subs_of sid d))" by (auto simp: involved_def)
    qed
    have ne: "new \<noteq> out" using act fr(2) roster_in_players by auto
    let ?f = "\<lambda>x :: night. x\<lparr>ns_bench := map (swap_seat out new) (ns_bench x)\<rparr>"
    have s1: "session_of sid d1 = Some s" using s(1) I by (simp add: session_of_def)
    have "session_of sid ?d = session_of sid (update_session sid ?f d1)"
      by (simp add: session_of_def dd_def update_player_def update_session_def)
    then have s': "session_of sid ?d = Some ?s" using session_of_update [of ?f sid d1] s1 by simp
    let ?l = "live_layout sid ?s ?d"
    have l: "layoutAndBenchOK (fst ?l) (snd ?l) \<and> (playing ?l = swap_seat out new ` playing (live_layout sid s d)
        \<or> playing ?l = playing (live_layout sid s d)) \<and> fst ?l \<noteq> []"
      using swapped_layout [of "fst (live_layout sid s d)" "ns_bench s" new
          "if eff \<le> ns_round s then map (swap_court out new) (fst (live_layout sid s d)) else fst (live_layout sid s d)" out]
        r fr(1) nf(1) unfolding live_after_swap [OF rows] by (simp add: round_ok_def live_layout_def)
    have "handovers_leave (subs_of sid d @ [x]) ?l"
      using swap_leaves [of "subs_of sid d" "live_layout sid s d" x out new ?l] r nf ne l by (simp add: round_ok_def x_def)
    moreover have "playing ?l \<subseteq> roster_ids sid ?d"
    proof -
      have sub: "playing (live_layout sid s d) \<subseteq> roster_ids sid d" using r by (simp add: round_ok_def)
      have img: "swap_seat out new ` P \<subseteq> insert new P" for P by (auto simp: swap_seat_def)
      have "playing ?l \<subseteq> insert new (playing (live_layout sid s d))"
        using l img [of "playing (live_layout sid s d)"] by (elim conjE disjE) (simp_all, blast)
      moreover have "insert new (roster_ids sid d) \<subseteq> roster_ids sid ?d" using ids(1) I by simp
      ultimately show ?thesis using sub by blast
    qed
    moreover have "\<forall>c\<in>set (session_rows sid ?d). rc_round c \<le> ns_round s"
    proof -
      have "rc_round ` set (session_rows sid ?d) = rc_round ` set (session_rows sid d)"
        by (rule session_rows_rounds [OF rows]) (simp add: swap_row_def)
      then have "\<forall>k\<in>rc_round ` set (session_rows sid ?d). k \<le> ns_round s" using r by (auto simp: round_ok_def)
      then show ?thesis by blast
    qed
    ultimately have "round_ok sid ?s ?d" using r l by (simp add: round_ok_def subs)
    moreover have "subs_ok sid ?d"
      using s(4) ids once nf(3) I by (auto simp: subs_ok_def subs x_def)
    moreover have "roster_ok sid ?d"
    proof -
      have "map rp_id (nd_players ?d) = map rp_id (nd_players dd)"
        by (simp add: update_player_def comp_def if_distrib cong: if_cong)
      then show ?thesis using dist s(3) fr(1) by (simp add: roster_ok_def pl(1))
    qed
    ultimately show ?thesis using s' st by (simp add: night_ok_def res)
  qed
qed

lemma substitute_night_ok:
  assumes "night_ok sid d" "night_laws R"
  shows "night_ok sid (snd (SubstituteRotationPlayer R sid out name rating entrant d))"
  using assms substitute_ok [OF assms(1), of "nr_newId R d"]
  by (auto simp: SubstituteRotationPlayer_def Let_def night_laws_def fresh_ids_def)

lemma results_night_ok: "night_ok sid d \<Longrightarrow> results_only d d' \<Longrightarrow> night_ok sid d'"
  using same_night_ok same_night_results by blast

lemma session_of_results: "results_only d d' \<Longrightarrow> session_of sid d' = session_of sid d"
  by (auto simp: results_only_def session_of_def)

lemma end_session_ok:
  assumes ok: "night_ok sid d" and laws: "night_laws R"
  shows "night_ok sid (snd (EndRotationSession R fails sid d))"
proof -
  obtain s where s: "session_of sid d = Some s" by (rule night_okE [OF ok])
  obtain x d1 where p: "persistScorecardWinners fails sid (ns_round s) d = (x, d1)" by fastforce
  have ok1: "night_ok sid d1" using ok persist_results_only [OF p] results_night_ok by blast
  have "night_ok sid d2" if run: "nr_end R sid d1 = Some (d2, b, why)" for d2 b why
  proof (cases b)
    case False
    then show ?thesis using laws run ok1 unfolding night_laws_def end_law_def by fastforce
  next
    case True
    obtain s1 where "session_of sid d1 = Some s1" "ns_status s1 = Live \<or> ns_status s1 = Paused" "d2 = end_night sid s1 d1"
      using laws run True unfolding night_laws_def end_law_def by fastforce
    then show ?thesis using same_night_end [of sid d1 s1] same_night_ok [OF _ ok1] by auto
  qed
  then show ?thesis
    using ok1 by (auto simp: EndRotationSession_def s p split: sum.splits option.splits prod.splits)
qed

lemma commit_ok:
  assumes ok: "night_ok sid d" and laws: "night_laws R" and s: "session_of sid d = Some s" "ns_status s \<noteq> Setup" "ns_id s = sid"
    and pl: "\<forall>courts bench. pl = NextUp courts bench \<longrightarrow> layoutAndBenchOK courts bench \<and> courts \<noteq> []
      \<and> playing (courts, bench) \<subseteq> roster_ids sid d - inactiveIDs sid d"
  shows "night_ok sid (snd (advance_commit R fails now s pl d))"
proof (cases pl)
  case (NextUp courts bench)
  have r: "round_ok sid s d" using ok s by (simp add: night_ok_def)
  have "night_ok sid d'" if run: "nr_advance R sid (ns_round s) courts bench ends d = Inr (d', b, why)" for d' b why ends
  proof (cases b)
    case False
    then show ?thesis using laws run ok unfolding night_laws_def advance_law_def by fastforce
  next
    case True
    let ?t = "tally_round sid (ns_round s) d"
    have d': "d' = write_round sid (ns_round s + 1) courts bench ends ?t"
      using laws run True unfolding night_laws_def advance_law_def by fastforce
    have same: "same_night sid d ?t" by (rule same_night_tally)
    have "roster_ids sid ?t = roster_ids sid d" "inactiveIDs sid ?t = inactiveIDs sid d"
      using same by (simp_all add: roster_ids_key inactiveIDs_key same_night_def)
    moreover have "session_of sid ?t = Some s" "session_rows sid ?t = session_rows sid d"
      using s by (simp_all add: tally_round_def session_of_def session_rows_def)
    ultimately show ?thesis
      unfolding d' using pl NextUp r same_night_ok [OF same ok]
      by (intro write_round_ok [of sid ?t s]) (auto simp: round_ok_def)
  qed
  then show ?thesis
    using ok s(3) by (auto simp: advance_commit_def NextUp split: sum.splits prod.splits)
qed (use ok end_session_ok [OF ok laws] s(3) in \<open>auto simp: advance_commit_def\<close>)

text \<open>A plan made on a sound night names a sound round of players who are still there.\<close>

lemma set_people: "set_mset (people l) = playing l"
  by (cases l) (simp add: people_def playing_def)

lemma plan_sound:
  assumes ok: "night_ok sid d" and s: "session_of sid d = Some s" "ns_status s \<noteq> Setup"
    and rows: "map court_of_row rows = map court_of_row (board_rows sid (ns_round s) d)"
    and run: "plan_next fails now sid s m rows d = Inr (NextUp courts bench)"
  shows "layoutAndBenchOK courts bench \<and> courts \<noteq> [] \<and> playing (courts, bench) \<subseteq> roster_ids sid d - inactiveIDs sid d"
proof -
  obtain cur q where L: "standing_layout fails sid s rows d = (cur, q)" by fastforce
  have st: "layoutAndBenchOK cur q" "cur \<noteq> []" "playing (cur, q) \<subseteq> roster_ids sid d"
    using standing_ok [OF ok s rows HOL.refl, of fails] L by auto
  have n: "next_layout cur (map (\<lambda>c. \<lparr>rr_Court = rc_court c, rr_Winner = moves_as m c\<rparr>) rows) q (rotationLoserMode sid d)
      (played_with fails (roster sid d) cur) (inactiveIDs sid d) (ns_courts s) = Inr (courts, bench)"
    using run by (auto simp: plan_next_def L split: if_splits sum.splits prod.splits)
  have "courts \<noteq> [] \<and> layoutAndBenchOK courts bench
      \<and> people (courts, bench) = filter_mset (\<lambda>i. i \<notin> inactiveIDs sid d) (people (cur, q))"
    using next_layout_sound [OF st(1,2)] n by (fastforce split: sum.splits)
  then show ?thesis using st(3) by (auto simp flip: set_people)
qed

lemma plan_blocked:
  assumes ok: "night_ok sid d" and s: "session_of sid d = Some s" "ns_status s \<noteq> Setup"
    and rows: "map court_of_row rows = map court_of_row (board_rows sid (ns_round s) d)"
    and run: "plan_next fails now sid s m rows d = Inl e"
  shows "e = Upstream \<or> e = RoundBlocked TooFewPlayers"
proof -
  obtain cur q where L: "standing_layout fails sid s rows d = (cur, q)" by fastforce
  have st: "layoutAndBenchOK cur q" "cur \<noteq> []" using standing_ok [OF ok s rows HOL.refl, of fails] L by auto
  show ?thesis
    using run next_layout_sound [OF st, where results = "map (\<lambda>c. \<lparr>rr_Court = rc_court c, rr_Winner = moves_as m c\<rparr>) rows"
        and mode = "rotationLoserMode sid d" and played = "played_with fails (roster sid d) cur" and gone = "inactiveIDs sid d"
        and cap = "ns_courts s"]
    by (auto simp: plan_next_def L split: if_splits sum.splits prod.splits)
qed

lemma end_error:
  assumes "fst (EndRotationSession R fails sid d) = Inl e"
  shows "e = Upstream \<or> e = NDbError \<or> e = NNotFound"
proof -
  have "e' = Upstream" if "persistScorecardWinners fails sid r d = (Inl e', d')" for r e' d'
    using that by (auto simp: persistScorecardWinners_def Let_def split: if_splits)
  then show ?thesis
    using assms by (auto simp: EndRotationSession_def split: option.splits prod.splits sum.splits if_splits)
qed

lemma advance_errors:
  assumes "night_laws R" "nr_advance R sid r cs bench ends d = Inl e"
  shows "e = RoundBlocked IsPaused \<or> e = NDbError"
  using assms unfolding night_laws_def advance_law_def by blast

lemma commit_error:
  assumes "night_laws R" "fst (advance_commit R fails now s pl d) = Inl e"
  shows "e = Upstream \<or> e = NDbError \<or> e = NNotFound \<or> e = RoundBlocked IsPaused"
proof (cases pl)
  case (NextUp courts bench)
  then show ?thesis
    using assms(2) advance_errors [OF assms(1)] by (fastforce simp: advance_commit_def split: if_splits sum.splits prod.splits)
qed (use assms end_error [of R fails "ns_id s" d e] in \<open>auto simp: advance_commit_def\<close>)

lemma advance_ok:
  assumes ok: "night_ok sid d" and laws: "night_laws R"
  shows "night_ok sid (snd (AdvanceRotationSession R fails now sid expected d))
    \<and> fst (AdvanceRotationSession R fails now sid expected d) \<noteq> Inl (RoundBlocked Inconsistent)"
proof -
  obtain s where s: "session_of sid d = Some s" by (rule night_okE [OF ok])
  have id: "ns_id s = sid" using session_of_Some [OF s] by simp
  obtain x d1 where pl: "advance_plan fails now sid expected d = (x, d1)" by fastforce
  have ro: "results_only d d1"
    using pl persist_closed_results_only results_only_refl by (auto simp: advance_plan_def s Let_def split: if_splits)
  have ok1: "night_ok sid d1" and s1: "session_of sid d1 = Some s"
    using results_night_ok [OF ok ro] session_of_results [OF ro] s by simp_all
  let ?rows = "board_rows sid (ns_round s) d"
  have rows: "map court_of_row ?rows = map court_of_row (board_rows sid (ns_round s) d1)"
    using same_night_results [OF ro] by (simp only: board_rows_key same_night_def)
  show ?thesis
  proof (cases x)
    case (Inl e)
    have "e \<noteq> RoundBlocked Inconsistent"
    proof
      assume e: "e = RoundBlocked Inconsistent"
      then have st: "ns_status s \<noteq> Setup" and p: "plan_next fails now sid s (score_map sid (ns_round s) d) ?rows d1 = Inl e"
        using pl Inl by (auto simp: advance_plan_def s Let_def split: if_splits)
      show False using plan_blocked [OF ok1 s1 st rows p] e by blast
    qed
    then show ?thesis using pl Inl ok1 by (simp add: AdvanceRotationSession_def)
  next
    case (Inr q)
    then have run: "AdvanceRotationSession R fails now sid expected d = advance_commit R fails now s q d1"
      using pl s by (simp add: AdvanceRotationSession_def)
    have q: "q = Stale \<or> ns_status s = Live \<and> plan_next fails now sid s (score_map sid (ns_round s) d) ?rows d1 = Inr q"
      using pl Inr by (auto simp: advance_plan_def s Let_def split: if_splits)
    have "night_ok sid (snd (advance_commit R fails now s q d1))"
    proof (cases "q = Stale")
      case True
      then show ?thesis using ok1 by (simp add: advance_commit_def)
    next
      case False
      then have st: "ns_status s \<noteq> Setup" and p: "plan_next fails now sid s (score_map sid (ns_round s) d) ?rows d1 = Inr q"
        using q by auto
      show ?thesis
        by (rule commit_ok [OF ok1 laws s1 st id]) (use plan_sound [OF ok1 s1 st rows] p in blast)
    qed
    moreover have "fst (advance_commit R fails now s q d1) \<noteq> Inl (RoundBlocked Inconsistent)"
      using commit_error [OF laws, of fails now s q d1] by fastforce
    ultimately show ?thesis by (simp add: run)
  qed
qed

section \<open>Starting the night\<close>

lemma active_by_rating_spec:
  assumes "roster_ok sid d"
  shows "distinct (map rp_id (active_by_rating sid d)) \<and> [] \<notin> set (map rp_id (active_by_rating sid d))
    \<and> set (map rp_id (active_by_rating sid d)) \<subseteq> roster_ids sid d - inactiveIDs sid d"
proof -
  have m: "mset (map rp_id (rotationPlayers sid d)) = mset (map rp_id (roster sid d))"
    by (simp add: rotationPlayers_def)
  have dist: "distinct (map rp_id (rotationPlayers sid d))" and ids: "set (map rp_id (rotationPlayers sid d)) = roster_ids sid d"
    using m roster_distinct [OF assms] mset_eq_setD [OF m] mset_eq_imp_distinct_iff [OF m] by (auto simp: roster_ids_def)
  have rows: "set (rotationPlayers sid d) = set (roster sid d)"
    by (simp add: rotationPlayers_def)
  have "rp_id p \<notin> inactiveIDs sid d" if "p \<in> set (active_by_rating sid d)" for p
  proof
    assume "rp_id p \<in> inactiveIDs sid d"
    then obtain q where "q \<in> set (roster sid d)" "rp_id q = rp_id p" "\<not> rp_active q" by (auto simp: inactiveIDs_def)
    moreover have "p \<in> set (roster sid d)" "rp_active p" using that rows by (auto simp: active_by_rating_def)
    ultimately show False using roster_distinct [OF assms] by (auto simp: distinct_map inj_on_def)
  qed
  then show ?thesis
    using dist ids roster_distinct [OF assms] by (auto simp: active_by_rating_def distinct_map_filter)
qed

lemma start_layout_ok:
  assumes "roster_ok sid d" "length (active_by_rating sid d) \<ge> 4" "mset seats = mset (map seat_of_player (active_by_rating sid d))"
    and run: "SeedPlacedCourts seats cap = (courts, bench)"
  shows "layoutAndBenchOK courts bench \<and> courts \<noteq> [] \<and> playing (courts, bench) \<subseteq> roster_ids sid d - inactiveIDs sid d"
proof -
  have "mset (map seat_ID seats) = mset (map rp_id (active_by_rating sid d))"
    using arg_cong [OF assms(3), of "image_mset seat_ID"] by (simp add: seat_of_player_def multiset.map_comp comp_def)
  then have p: "people (courts, bench) = mset (map rp_id (active_by_rating sid d))"
    using seeding_conserves_players [where seats = seats and maxCourts = cap] run by simp
  have "length seats = length (active_by_rating sid d)" using mset_eq_length [OF assms(3)] by simp
  moreover have "length courts = court_cap (length seats) cap" "contiguous 0 courts"
    using seeding_conserves_players [where seats = seats and maxCourts = cap] run by simp_all
  ultimately have ne: "courts \<noteq> []" "contiguous 0 courts" using assms(2) by (auto simp: court_cap_def Let_def split: if_splits)
  have m: "mset (seated courts @ bench) = mset (map rp_id (active_by_rating sid d))" using p by (simp add: people_def)
  have "playing (courts, bench) = set (map rp_id (active_by_rating sid d))"
    using mset_eq_setD [OF m] by (simp add: playing_def)
  moreover have "distinct (seated courts @ bench)"
    using m active_by_rating_spec [OF assms(1)] mset_eq_imp_distinct_iff by blast
  moreover have "set (seated courts) \<union> set bench = playing (courts, bench)" by (simp add: playing_def)
  ultimately show ?thesis
    using active_by_rating_spec [OF assms(1)] ne unfolding layoutAndBenchOK_iff by auto
qed

lemma start_ok:
  assumes ok: "night_ok sid d" and laws: "night_laws R" and sh: "\<And>xs. mset (shuffle xs) = mset xs"
  shows "night_ok sid (snd (StartRotationSession R shuffle now sid d))"
proof -
  obtain s where s: "session_of sid d = Some s" by (rule night_okE [OF ok])
  show ?thesis
  proof (cases "ns_status s = Setup")
    case False
    then show ?thesis using ok s by (simp add: StartRotationSession_def)
  next
    case True
    define d1 where "d1 = (if active_by_rating sid d \<noteq> [] then d else snd (ImportLadderEntrantsToSession R sid d))"
    have ok1: "night_ok sid d1" and st1: "map_option ns_status (session_of sid d1) = Some Setup"
      using ok s True import_session_ok [OF ok laws] by (simp_all add: d1_def)
    obtain s1 where s1: "session_of sid d1 = Some s1" "ns_status s1 = Setup" using st1 by auto
    have su: "session_rows sid d1 = []" "roster_ok sid d1" using ok1 s1 by (simp_all add: night_ok_def setup_ok_def)
    have "night_ok sid d2" if rows: "rows = active_by_rating sid d1" "\<not> length rows < 4"
      and drawn: "mset drawn = mset (map seat_of_player rows)" and lay: "SeedPlacedCourts drawn cap = (courts, bench)"
      and run: "nr_start R sid courts bench ends d1 = Some (d2, started, why)" for rows drawn cap courts bench ends d2 started why
    proof (cases started)
      case False
      then show ?thesis using laws run ok1 unfolding night_laws_def start_law_def by fastforce
    next
      case True
      then have d2: "d2 = write_round sid 1 courts bench ends d1"
        using laws run unfolding night_laws_def start_law_def by fastforce
      have "layoutAndBenchOK courts bench \<and> courts \<noteq> [] \<and> playing (courts, bench) \<subseteq> roster_ids sid d1 - inactiveIDs sid d1"
        by (rule start_layout_ok [OF su(2) _ _ lay]) (use rows drawn in auto)
      then show ?thesis unfolding d2 by (intro write_round_ok [OF ok1 s1(1)]) (auto simp: su(1))
    qed
    note started = this
    obtain rows where rows: "(if active_by_rating sid d \<noteq> [] then (active_by_rating sid d, d)
        else case ImportLadderEntrantsToSession R sid d of (Inl e, d') \<Rightarrow> ([], d') | (Inr n, d') \<Rightarrow> (active_by_rating sid d', d')) = (rows, d1)"
      "rows = [] \<or> rows = active_by_rating sid d1"
      by (cases "active_by_rating sid d = []"; cases "ImportLadderEntrantsToSession R sid d"; cases "fst (ImportLadderEntrantsToSession R sid d)")
        (simp_all add: d1_def)
    show ?thesis
    proof (cases "length rows < 4")
      case True
      then show ?thesis using s \<open>ns_status s = Setup\<close> ok1 by (simp add: StartRotationSession_def rows(1))
    next
      case False
      then have r: "rows = active_by_rating sid d1" using rows(2) by auto
      define drawn where "drawn = (if list_ex (\<lambda>p. rp_start p \<noteq> None) rows then map seat_of_player rows
        else shuffle (map seat_of_player rows))"
      obtain courts bench where lay: "SeedPlacedCourts drawn (ns_courts s) = (courts, bench)" by fastforce
      have "mset drawn = mset (map seat_of_player rows)" using sh by (simp add: drawn_def)
      note st = started [OF r False this lay]
      have "StartRotationSession R shuffle now sid d
        = (case nr_start R sid courts bench (roundEndsAt now (ns_minutes s)) d1 of
              None \<Rightarrow> (Inl NDbError, d1)
            | Some (d2, started, reason) \<Rightarrow>
                if \<not> started \<and> reason \<noteq> ''already_started'' then (Inl NDbError, d2) else (Inr (), d2))"
        unfolding StartRotationSession_def s rows(1) Let_def option.case prod.case drawn_def [symmetric] lay
        using \<open>ns_status s = Setup\<close> False by simp
      then show ?thesis using ok1 st by (auto split: option.splits prod.splits)
    qed
  qed
qed

section \<open>The operations that touch results, clocks and settings only\<close>

lemma report_same: "same_night sid d (snd (ReportRotationCourt sid' u isOwner r k w d))"
  using same_night_results [OF set_winner_results_only]
  by (auto simp: ReportRotationCourt_def split: option.splits)

lemma court_winner_same: "same_night sid d (snd (SetRotationCourtWinner sid' r k w d))"
  using same_night_trans [OF same_night_results [OF set_winner_results_only] same_night_retally]
  by (auto simp: SetRotationCourtWinner_def Let_def)

lemma rederive_same: "same_night sid d (snd (rederivePastRound fails sid' r d))"
proof -
  have "same_night sid d d'" if "persistScorecardWinners fails sid' r d = (x, d')" for x d'
    by (rule same_night_results [OF persist_results_only [OF that]])
  then show ?thesis
    using same_night_trans [OF _ same_night_retally]
    by (auto simp: rederivePastRound_def split: option.splits sum.splits prod.splits)
qed

lemma put_score_same [simp]: "same_night sid d (put_score x d)"
  by (simp add: put_score_def Let_def)

lemma set_score_same: "same_night sid d (snd (SetRotationScore sid' r i v d))"
  by (auto simp: SetRotationScore_def split: option.splits)

lemma set_scores_same: "same_night sid d (snd (set_scores sid' r es d))"
proof (induction es arbitrary: d)
  case (Cons e es)
  obtain i v where e: "e = (i, v)" by fastforce
  have "same_night sid d d' \<and> same_night sid d' (snd (set_scores sid' r es d'))" if "SetRotationScore sid' r i v d = (x, d')" for x d'
    using set_score_same [of sid d sid' r i v] that Cons [of d'] by simp
  then show ?case using same_night_trans by (fastforce simp: e split: sum.splits prod.splits)
qed simp

lemma scores_same: "same_night sid d (snd (SetRotationScores fails sid' r es d))"
proof -
  obtain x d' where run: "set_scores sid' r es d = (x, d')" by fastforce
  have "same_night sid d d'" using set_scores_same [of sid d sid' r es] run by simp
  then show ?thesis
    using same_night_trans [OF _ rederive_same] by (auto simp: SetRotationScores_def run split: sum.splits)
qed

lemma scorecard_same:
  "same_night sid d (snd (ClearRotationScorecard sid' d))" "same_night sid d (snd (DeleteScorecardRound sid' r d))"
  by (auto simp: ClearRotationScorecard_def DeleteScorecardRound_def split: option.splits)

lemma add_round_same: "same_night sid d (snd (AddScorecardRound sid' d))"
proof -
  have "same_night sid d (fold (\<lambda>p. put_score (f p)) ps e)" if "same_night sid d e" for e ps and f :: "rplayer \<Rightarrow> rscore"
    using that
  proof (induction ps arbitrary: e)
    case (Cons p ps)
    have "same_night sid d (put_score (f p) e)" by (rule same_night_trans [OF Cons(2) put_score_same])
    then show ?case using Cons(1) by simp
  qed simp
  then show ?thesis by (auto simp: AddScorecardRound_def Let_def split: option.splits)
qed

lemma settings_same:
  "same_night sid d (snd (SetRotationSessionLimits sid' n stopAt d))"
  "same_night sid d (snd (SetRotationSessionRoundMinutes sid' k d))"
  "same_night sid d (snd (SetRotationSessionCourts sid' k d))"
  "same_night sid d (snd (SetRotationSessionAutoAdvance sid' b d))"
  by (auto simp: SetRotationSessionLimits_def SetRotationSessionRoundMinutes_def SetRotationSessionCourts_def
    SetRotationSessionAutoAdvance_def Let_def session_key_def intro!: same_night_session split: option.splits)

lemma clock_same: "same_night sid d (snd (PauseRotationSession now sid d))"
  "same_night sid d (snd (ResumeRotationSession now sid d))" "same_night sid d (snd (ReopenRotationSession now sid d))"
  unfolding PauseRotationSession_def ResumeRotationSession_def ReopenRotationSession_def
  by (auto split: prod.splits option.splits bool.splits elim!: same_night_claim simp: session_key_def)

lemma roster_same: "same_night sid d (snd (SetRotationPlayerRating i r d))" "same_night sid d (snd (SetRotationPlayerStartCourt i k d))"
  by (auto simp: SetRotationPlayerRating_def SetRotationPlayerStartCourt_def player_key_def
    intro!: same_night_update_player split: option.splits)

lemma shuffle_same: "same_night sid d (snd (ShuffleRotationStartCourts shuffle sid' d))"
  by (auto simp: ShuffleRotationStartCourts_def Let_def player_key_def intro!: same_night_players split: option.splits)

lemma name_same: "same_night sid d (snd (SetRotationPlayerName i name d))"
proof -
  have "same_night sid d (update_player i (\<lambda>q. q\<lparr>rp_name := trim name\<rparr>) d)"
    by (rule same_night_update_player) (simp add: player_key_def)
  then show ?thesis
    using same_night_trans [OF _ same_night_scores(2)] by (auto simp: SetRotationPlayerName_def Let_def split: option.splits)
qed

lemma promote_same: "same_night sid d (snd (PromoteRotationPlayersToLadder L sid' ids d))"
proof -
  have "same_night sid d (snd (promote_loop L sid' dv ids n d))" for dv n
  proof (induction ids arbitrary: n d)
    case (Cons i ids)
    have step: "same_night sid d (snd (promote_loop L sid' dv ids (n + 1) (update_player (trim i) (\<lambda>q. q\<lparr>rp_entrant := e\<rparr>) (d\<lparr>nd_ladder := l\<rparr>))))" for e l
      by (rule same_night_trans [OF same_night_trans [OF same_night_scores(2) same_night_update_player] Cons])
        (simp add: player_key_def)
    then show ?case
      using Cons [of d n] by (auto split: option.splits sum.splits prod.splits)
  qed simp
  then show ?thesis by (auto simp: PromoteRotationPlayersToLadder_def split: option.splits)
qed

end
