(* ===== verification/Night_Safety.thy ===== *)
theory Night_Safety
  imports Night_Life
begin

text \<open>
  A rotation night as a step relation over the operations of the service, the safety property it has from the
  creation of the session, and concrete nights, among them those that show what the steps leave out.
\<close>

section \<open>A night as steps\<close>

text \<open>
  One call on the session \<open>sid\<close>. A player who has been substituted is not brought back once the night has ended:
  the code refuses that on a running night only.
\<close>

inductive night_step :: "night_rpc \<Rightarrow> ladder_rpc \<Rightarrow> string \<Rightarrow> night_db \<Rightarrow> night_db \<Rightarrow> bool" for R L sid where
  start: "(\<And>xs. mset (shuffle xs) = mset xs) \<Longrightarrow> night_step R L sid d (snd (StartRotationSession R shuffle now sid d))"
| advance: "night_step R L sid d (snd (AdvanceRotationSession R fails now sid expected d))"
| end_night: "night_step R L sid d (snd (EndRotationSession R fails sid d))"
| pause: "night_step R L sid d (snd (PauseRotationSession now sid d))"
| resume: "night_step R L sid d (snd (ResumeRotationSession now sid d))"
| reopen: "night_step R L sid d (snd (ReopenRotationSession now sid d))"
| report: "night_step R L sid d (snd (ReportRotationCourt sid u isOwner r k w d))"
| correct: "night_step R L sid d (snd (SetRotationCourtWinner sid r k w d))"
| score: "night_step R L sid d (snd (SetRotationScore sid r i v d))"
| scores: "night_step R L sid d (snd (SetRotationScores fails sid r es d))"
| add_round: "night_step R L sid d (snd (AddScorecardRound sid d))"
| delete_round: "night_step R L sid d (snd (DeleteScorecardRound sid r d))"
| clear_card: "night_step R L sid d (snd (ClearRotationScorecard sid d))"
| limits: "night_step R L sid d (snd (SetRotationSessionLimits sid n stopAt d))"
| minutes: "night_step R L sid d (snd (SetRotationSessionRoundMinutes sid n d))"
| courts: "night_step R L sid d (snd (SetRotationSessionCourts sid n d))"
| auto_advance: "night_step R L sid d (snd (SetRotationSessionAutoAdvance sid b d))"
| add_player: "night_step R L sid d (snd (AddRotationPlayer R sid entrant name rating d))"
| import_ladder: "night_step R L sid d (snd (ImportLadderEntrantsToSession R sid d))"
| remove_player: "night_step R L sid d (snd (RemoveRotationPlayer i d))"
| rating: "night_step R L sid d (snd (SetRotationPlayerRating i q d))"
| start_court: "night_step R L sid d (snd (SetRotationPlayerStartCourt i c d))"
| shuffle: "night_step R L sid d (snd (ShuffleRotationStartCourts mix sid d))"
| rename: "night_step R L sid d (snd (SetRotationPlayerName i name d))"
| promote: "night_step R L sid d (snd (PromoteRotationPlayersToLadder L sid ids d))"
| substitute: "night_step R L sid d (snd (SubstituteRotationPlayer R sid i name rating entrant d))"
| sit_out: "night_step R L sid d (snd (SetRotationPlayerActive i False d))"
| come_back: "\<not> (i \<in> set (map su_out (subs_of sid d)) \<and> map_option ns_status (session_of sid d) = Some Done)
    \<Longrightarrow> night_step R L sid d (snd (SetRotationPlayerActive i True d))"

lemma roster_session:
  assumes "roster_ok sid d" "i \<in> roster_ids sid d" "player_of i d = Some p"
  shows "rp_session p = sid"
proof -
  obtain q where q: "q \<in> set (nd_players d)" "rp_session q = sid" "rp_id q = i"
    using assms(2) by (auto simp: roster_ids_def roster_def)
  have "p = q" using player_of_Some [OF assms(3)] q assms(1) by (auto simp: roster_ok_def distinct_map inj_on_def)
  then show ?thesis using q by simp
qed

lemma come_back_ok:
  assumes ok: "night_ok sid d" and late: "\<not> (i \<in> set (map su_out (subs_of sid d)) \<and> map_option ns_status (session_of sid d) = Some Done)"
  shows "night_ok sid (snd (SetRotationPlayerActive i True d))"
proof (cases "i \<in> set (map su_out (subs_of sid d))")
  case True
  obtain s where s: "session_of sid d = Some s" "if ns_status s = Setup then setup_ok sid s d else round_ok sid s d"
    "roster_ok sid d" "subs_ok sid d" by (rule night_okE [OF ok])
  have live: "ns_status s = Live \<or> ns_status s = Paused"
    using True late s(1,2) by (cases "ns_status s") (auto simp: setup_ok_def)
  have "i \<in> roster_ids sid d" using True s(4) inactive_in_roster [of sid d] unfolding subs_ok_def by blast
  then have "rp_session p = sid" if "player_of i d = Some p" for p by (rule roster_session [OF s(3) _ that])
  moreover have "list_ex (\<lambda>x. su_out x = i) (rotationSubstitutionsStrict sid d)"
    using True by (auto simp: list_ex_iff layout_of_subs)
  ultimately have "snd (SetRotationPlayerActive i True d) = d"
    using s(1) live by (auto simp: SetRotationPlayerActive_def split: option.splits)
  then show ?thesis using ok by simp
qed (use set_active_ok [OF ok, of True i] in simp)

lemmas night_same_steps = report_same court_winner_same set_score_same scores_same add_round_same scorecard_same
  settings_same clock_same roster_same shuffle_same name_same promote_same

lemma night_step_ok:
  assumes "night_step R L sid d d'" "night_ok sid d" "night_laws R"
  shows "night_ok sid d'"
  using assms(1)
proof cases
  case (start shuffle now)
  then show ?thesis using start_ok [OF assms(2,3)] by simp
next
  case (sit_out i)
  then show ?thesis using set_active_ok [OF assms(2), of False i] by simp
next
  case (come_back i)
  then show ?thesis using come_back_ok [OF assms(2)] by simp
qed (use advance_ok [OF assms(2,3)] end_session_ok [OF assms(2,3)] add_player_ok [OF assms(2,3)] import_session_ok [OF assms(2,3)]
    remove_player_ok [OF assms(2)] substitute_night_ok [OF assms(2,3)] in \<open>auto intro: same_night_ok [OF _ assms(2)] night_same_steps\<close>)

lemma night_steps_ok: "(night_step R L sid)\<^sup>*\<^sup>* d d' \<Longrightarrow> night_ok sid d \<Longrightarrow> night_laws R \<Longrightarrow> night_ok sid d'"
  by (induction rule: rtranclp_induct) (auto intro: night_step_ok)

section \<open>From the creation of the session\<close>

definition unused_session :: "string \<Rightarrow> night_db \<Rightarrow> bool" where
  "unused_session sid d \<longleftrightarrow> session_of sid d = None \<and> roster sid d = [] \<and> session_rows sid d = [] \<and> subs_of sid d = []"

lemma create_ok:
  assumes new: "unused_session sid d" and ids: "roster_ok sid d" and laws: "night_laws R"
  shows "night_ok sid (CreateRotationSession R sid dv q d)"
proof -
  define s where "s = \<lparr>ns_id = sid, ns_div = dv, ns_status = Setup, ns_courts = (if nq_courts q < 1 then 1 else nq_courts q),
    ns_minutes = (if nq_minutes q < 1 then 12 else nq_minutes q), ns_auto = (case nq_auto q of None \<Rightarrow> True | Some b \<Rightarrow> b),
    ns_round = 0, ns_endsAt = None, ns_pausedAt = None, ns_bench = [], ns_planned = 0, ns_stopAt = None\<rparr>"
  let ?d = "d\<lparr>nd_sessions := nd_sessions d @ [s]\<rparr>"
  have "List.find (\<lambda>s. ns_id s = sid) (ss @ [s]) = Some s" if "List.find (\<lambda>s. ns_id s = sid) ss = None" for ss
    using that by (induction ss) (auto simp: s_def split: if_splits)
  then have "session_of sid ?d = Some s" using new by (simp add: unused_session_def session_of_def)
  moreover have "ns_status s = Setup" by (simp add: s_def)
  ultimately have "night_ok sid ?d"
    using new ids by (simp add: night_ok_def unused_session_def setup_ok_def subs_ok_def session_rows_def subs_of_def roster_ok_def)
  then have "night_ok sid (snd (ImportLadderEntrantsToSession R sid ?d))" using import_session_ok laws by blast
  then have "night_ok sid (snd (AddScorecardRound sid (snd (ImportLadderEntrantsToSession R sid ?d))))"
    by (rule same_night_ok [OF add_round_same])
  then show ?thesis by (simp add: CreateRotationSession_def s_def Let_def)
qed


text \<open>Stored procedures that keep the laws, for concrete runs.\<close>

definition model_rpc :: night_rpc where
  "model_rpc = \<lparr>
    nr_start = (\<lambda>sid courts bench ends d. case session_of sid d of
        Some s \<Rightarrow> if ns_status s = Setup then Some (write_round sid 1 courts bench ends d, True, [])
                  else Some (d, False, ''already_started'')
      | None \<Rightarrow> Some (d, False, ''not_found'')),
    nr_advance = (\<lambda>sid r courts bench ends d. case session_of sid d of
        Some s \<Rightarrow> if ns_status s = Live \<and> ns_round s = r
                  then Inr (write_round sid (r + 1) courts bench ends (tally_round sid r d), True, [])
                  else Inr (d, False, ''stale'')
      | None \<Rightarrow> Inr (d, False, ''not_found'')),
    nr_end = (\<lambda>sid d. case session_of sid d of
        Some s \<Rightarrow> if ns_status s = Live \<or> ns_status s = Paused then Some (end_night sid s d, True, []) else Some (d, False, ''not_running'')
      | None \<Rightarrow> Some (d, False, ''not_found'')),
    nr_join = (\<lambda>sid ids. update_session sid (\<lambda>s. s\<lparr>ns_bench := ns_bench s @ (if ns_status s = Setup then [] else ids)\<rparr>)),
    nr_newId = (\<lambda>d. replicate (Suc (Max (insert 0 (set (map (\<lambda>p. length (rp_id p)) (nd_players d)))))) (CHR ''n''))\<rparr>"

lemma model_rpc_laws: "night_laws model_rpc"
proof -
  have "fresh_ids model_rpc"
  proof -
    have False if "replicate (Suc (Max (insert 0 (set (map (\<lambda>p. length (rp_id p)) ps))))) (CHR ''n'') = rp_id p" "p \<in> set ps" for ps p
    proof -
      have "length (rp_id p) \<le> Max (insert 0 (set (map (\<lambda>p. length (rp_id p)) ps)))" using that(2) by (intro Max_ge) auto
      then show False using arg_cong [OF that(1), of length] by simp
    qed
    then show ?thesis unfolding fresh_ids_def model_rpc_def by (auto simp del: replicate_Suc)
  qed
  moreover have "join_law model_rpc"
    unfolding join_law_def
  proof (intro allI)
    fix sid ids d
    show "\<exists>f. nr_join model_rpc sid ids d = update_session sid (\<lambda>s. s\<lparr>ns_bench := ns_bench s @ f s\<rparr>) d
      \<and> (\<forall>s. (f s = [] \<or> f s = ids) \<and> (ns_status s = Setup \<longrightarrow> f s = []))"
      by (rule exI [of _ "\<lambda>s. if ns_status s = Setup then [] else ids"]) (simp add: model_rpc_def)
  qed
  moreover have "start_law model_rpc" "advance_law model_rpc" "end_law model_rpc"
    by (auto simp: start_law_def advance_law_def end_law_def model_rpc_def split: option.splits if_splits)
  ultimately show ?thesis by (simp add: night_laws_def)
qed

section \<open>Concrete nights\<close>

definition empty_night :: night_db where
  "empty_night = \<lparr>nd_sessions = [], nd_players = [], nd_courts = [], nd_scores = [], nd_subs = [], nd_loser = [],
    nd_ladder = \<lparr>ld_entrants = [], ld_matches = [], ld_challenges = [], ld_session = [], ld_divs = [], ld_leagues = [],
      ld_events = [], ld_regs = [], ld_players = []\<rparr>\<rparr>"

definition opened_night :: night_db where
  "opened_night = CreateRotationSession model_rpc ''s'' ''d'' \<lparr>nq_courts = 1, nq_minutes = 10, nq_auto = None\<rparr> empty_night"

definition join_five :: "night_db \<Rightarrow> night_db" where
  "join_five d = fold (\<lambda>n d. snd (AddRotationPlayer model_rpc ''s'' [] n 3 d)) [''a'', ''b'', ''c'', ''d'', ''e''] d"

definition running_night :: night_db where
  "running_night = snd (StartRotationSession model_rpc (\<lambda>x. x) 0 ''s'' (join_five opened_night))"

text \<open>A round is reported, the night ends and is reopened.\<close>

definition ended_night :: night_db where
  "ended_night = snd (EndRotationSession model_rpc (\<lambda>_. False) ''s'' (snd (ReportRotationCourt ''s'' [] True 1 1 ''a'' running_night)))"

definition reopened_night :: night_db where
  "reopened_night = snd (ReopenRotationSession 900 ''s'' ended_night)"

lemma running_night_steps:
  "(night_step model_rpc L ''s'')\<^sup>*\<^sup>* opened_night running_night"
proof -
  have "(night_step model_rpc L ''s'')\<^sup>*\<^sup>* d (fold (\<lambda>n d. snd (AddRotationPlayer model_rpc ''s'' [] n 3 d)) ns d)" for ns d
    by (induction ns arbitrary: d) (auto intro: converse_rtranclp_into_rtranclp night_step.add_player)
  then show ?thesis
    unfolding running_night_def join_five_def
    by (rule rtranclp.rtrancl_into_rtrancl) (rule night_step.start, simp)
qed


text \<open>
  What the code does outside the steps above. A substituted player can be brought back after the end of the night.
  After a reopening they are seated again, and when they then sit out the advance resolves them onto their
  substitute, who is seated too: every later advance is refused.
\<close>

definition brought_back :: night_db where
  "brought_back =
    (let d1 = snd (SubstituteRotationPlayer model_rpc ''s'' ''n'' ''x'' 3 [] running_night);
         d2 = snd (EndRotationSession model_rpc (\<lambda>_. False) ''s'' (snd (ReportRotationCourt ''s'' [] True 1 1 ''a'' d1)));
         d3 = snd (ReopenRotationSession 900 ''s'' (snd (SetRotationPlayerActive ''n'' True d2)));
         d4 = snd (AdvanceRotationSession model_rpc (\<lambda>_. False) 900 ''s'' 1 d3)
     in snd (SetRotationPlayerActive ''n'' False (snd (ReportRotationCourt ''s'' [] True 2 1 ''a'' d4))))"

lemma brought_back_player_blocks_night:
  "fst (AdvanceRotationSession model_rpc (\<lambda>_. False) 900 ''s'' 2 brought_back) = Inl (RoundBlocked Inconsistent)"
  by code_simp

text \<open>
  Ending a night credits its last round; a reopened night resumes on that round, and the next advance credits it again.
\<close>

lemma reopened_round_is_credited_twice:
  "map rp_wins (nd_players ended_night) = [1, 0, 1, 0, 0]
    \<and> map rp_wins (nd_players (snd (AdvanceRotationSession model_rpc (\<lambda>_. False) 900 ''s'' 1 reopened_night))) = [2, 0, 2, 0, 0]
    \<and> map rp_games (nd_players (snd (AdvanceRotationSession model_rpc (\<lambda>_. False) 900 ''s'' 1 reopened_night))) = [2, 2, 2, 2, 0]"
  by code_simp

text \<open>A correction on the round being played counts its wins at once, and the advance counts them again.\<close>

lemma live_correction_is_credited_twice:
  "map rp_wins (nd_players (snd (SetRotationCourtWinner ''s'' 1 1 ''a'' running_night))) = [1, 0, 1, 0, 0]
    \<and> map rp_wins (nd_players (snd (AdvanceRotationSession model_rpc (\<lambda>_. False) 900 ''s'' 1
        (snd (SetRotationCourtWinner ''s'' 1 1 ''a'' running_night))))) = [2, 0, 2, 0, 0]"
  by code_simp

end
