(* ===== verification/Team_Ties.thy ===== *)
theory Team_Ties
  imports Round_Robin Match_Control Ladder
begin

text \<open>
  MLP-style team events, \<open>internal/service/mlp.go\<close>: teams of men and women meet in ties of four lines - women's,
  men's and two mixed doubles - with a fifth line on a 2-2 split, in a round robin per division and a seeded
  playoff. A line is a row of the match tables (\<open>Match_Db\<close>) with its tie and line type, scored by the normal
  scoring path. Tables are lists in order of creation; a null text is empty. The podium post, banners, the contact
  columns of a player and the reversal of DUPR results are left out.
\<close>

section \<open>Tables\<close>

record team_row =
  te_id :: string
  te_event :: string
  te_bracket :: string
  te_name :: string

record member_row =
  tm_id :: string
  tm_team :: string
  tm_player :: pid
  tm_name :: string
  tm_gender :: string
  tm_checkedIn :: bool

datatype tie_status = TieScheduled | TieInProgress | TieCompleted

record tie_row =
  ti_id :: string
  ti_event :: string
  ti_stage :: string
  ti_bracket :: string
  ti_a :: string
  ti_b :: string
  ti_status :: tie_status
  ti_winner :: string
  ti_order :: int

record court_row =
  co_event :: string
  co_number :: int
  co_id :: string

record division_row =
  dv_id :: string
  dv_event :: string
  dv_start :: "int option"

text \<open>\<open>tb_numCourts\<close> is the event's \<open>num_courts\<close>, 0 for a missing event; brackets are in sort order.\<close>

record team_db =
  tb_db :: db
  tb_teams :: "team_row list"
  tb_members :: "member_row list"
  tb_ties :: "tie_row list"
  tb_courts :: "court_row list"
  tb_brackets :: "division_row list"
  tb_numCourts :: "string \<Rightarrow> int"

text \<open>New ids, and the order in which Go walks a map (\<open>byBracket\<close>).\<close>

record team_env =
  tv_matchId :: "db \<Rightarrow> string"
  tv_tieId :: "team_db \<Rightarrow> string"
  tv_teamId :: "team_db \<Rightarrow> string"
  tv_memberId :: "team_db \<Rightarrow> string"
  tv_playerId :: "team_db \<Rightarrow> pid"
  tv_mapOrder :: "string list \<Rightarrow> string list"

datatype team_error =
  NoTeamName | NoMemberName | BadGender | RosterShort nat nat | TooFewTeams | TeamResults | NoPoolSchedule
| PoolIncomplete | PlayoffResults | TeamNotFound | LineScored | NotATieLine | BadLineType string | LineCount nat
| ListedTwice | NotOnTeam | LineNeeds nat nat | DecNeedsFour | TeamIncomplete

type_synonym 'a tres = "(team_error + 'a) \<times> team_db"

section \<open>Teams and rosters\<close>

definition CreateTeam :: "team_env \<Rightarrow> string \<Rightarrow> string \<Rightarrow> string \<Rightarrow> team_db \<Rightarrow> team_row tres" where
  "CreateTeam V ev name bracket d =
    (if name = [] then (Inl NoTeamName, d)
     else let t = \<lparr>te_id = tv_teamId V d, te_event = ev, te_bracket = bracket, te_name = name\<rparr>
          in (Inr t, d\<lparr>tb_teams := tb_teams d @ [t]\<rparr>))"

definition RenameEventTeam :: "string \<Rightarrow> string \<Rightarrow> team_db \<Rightarrow> unit tres" where
  "RenameEventTeam i name d =
    (if name = [] then (Inl NoTeamName, d)
     else (Inr (), d\<lparr>tb_teams := map (\<lambda>t. if te_id t = i then t\<lparr>te_name := name\<rparr> else t) (tb_teams d)\<rparr>))"

text \<open>A member without a linked account gets a new player row; only its id matters here.\<close>

definition AddTeamMember :: "team_env \<Rightarrow> string \<Rightarrow> string \<Rightarrow> string \<Rightarrow> pid \<Rightarrow> team_db \<Rightarrow> member_row tres" where
  "AddTeamMember V team name gender player d =
    (if name = [] then (Inl NoMemberName, d)
     else if gender \<noteq> ''M'' \<and> gender \<noteq> ''F'' then (Inl BadGender, d)
     else let m = \<lparr>tm_id = tv_memberId V d, tm_team = team, tm_player = (if player = [] then tv_playerId V d else player),
                   tm_name = name, tm_gender = gender, tm_checkedIn = False\<rparr>
          in (Inr m, d\<lparr>tb_members := tb_members d @ [m]\<rparr>))"

text \<open>Deleting ties takes their lines and the lines' participants with them.\<close>

definition delete_lines :: "string set \<Rightarrow> db \<Rightarrow> db" where
  "delete_lines ties d =
    (let gone = m_id ` set (filter (\<lambda>m. m_tie m \<noteq> [] \<and> m_tie m \<in> ties) (db_matches d))
     in d\<lparr>db_matches := filter (\<lambda>m. \<not> (m_tie m \<noteq> [] \<and> m_tie m \<in> ties)) (db_matches d),
          db_parts := filter (\<lambda>p. p_match p \<notin> gone) (db_parts d)\<rparr>)"

definition delete_ties :: "string set \<Rightarrow> team_db \<Rightarrow> team_db" where
  "delete_ties ties d = d\<lparr>tb_db := delete_lines ties (tb_db d),
    tb_ties := filter (\<lambda>t. ti_id t \<notin> ties) (tb_ties d)\<rparr>"

definition RemoveEventTeam :: "string \<Rightarrow> team_db \<Rightarrow> team_db" where
  "RemoveEventTeam i d =
    (delete_ties (ti_id ` set (filter (\<lambda>t. ti_a t = i \<or> ti_b t = i) (tb_ties d))) d)
      \<lparr>tb_teams := filter (\<lambda>t. te_id t \<noteq> i) (tb_teams d), tb_members := filter (\<lambda>m. tm_team m \<noteq> i) (tb_members d)\<rparr>"

definition RemoveTeamMember :: "string \<Rightarrow> team_db \<Rightarrow> team_db" where
  "RemoveTeamMember i d = d\<lparr>tb_members := filter (\<lambda>m. tm_id m \<noteq> i) (tb_members d)\<rparr>"

definition SetMemberCheckedIn :: "string \<Rightarrow> bool \<Rightarrow> team_db \<Rightarrow> team_db" where
  "SetMemberCheckedIn i b d =
    d\<lparr>tb_members := map (\<lambda>m. if tm_id m = i then m\<lparr>tm_checkedIn := b\<rparr> else m) (tb_members d)\<rparr>"

definition TeamInEvent :: "string \<Rightarrow> string \<Rightarrow> team_db \<Rightarrow> bool" where
  "TeamInEvent i ev d = (if trim i = [] \<or> trim ev = [] then False
    else list_ex (\<lambda>t. te_id t = i \<and> te_event t = ev) (tb_teams d))"

definition MatchInEvent :: "string \<Rightarrow> string \<Rightarrow> team_db \<Rightarrow> bool" where
  "MatchInEvent i ev d = (if trim i = [] \<or> trim ev = [] then False
    else case find_match i (tb_db d) of
      None \<Rightarrow> False
    | Some m \<Rightarrow> trim (m_tie m) \<noteq> [] \<and> list_ex (\<lambda>t. ti_id t = trim (m_tie m) \<and> ti_event t = ev) (tb_ties d))"

definition TeamMemberInEvent :: "string \<Rightarrow> string \<Rightarrow> team_db \<Rightarrow> bool" where
  "TeamMemberInEvent i ev d = (if trim i = [] \<or> trim ev = [] then False
    else case List.find (\<lambda>m. tm_id m = i) (tb_members d) of
      None \<Rightarrow> False
    | Some m \<Rightarrow> TeamInEvent (tm_team m) ev d)"

text \<open>\<open>ListTeams\<close>: the teams by name, each with its members by gender, then name.\<close>

definition event_teams :: "string \<Rightarrow> team_db \<Rightarrow> team_row list" where
  "event_teams ev d = sort_by (\<lambda>a b. te_name a < te_name b) (filter (\<lambda>t. te_event t = ev) (tb_teams d))"

definition team_members :: "string \<Rightarrow> team_db \<Rightarrow> member_row list" where
  "team_members i d = sort_by (\<lambda>a b. if tm_gender a \<noteq> tm_gender b then tm_gender a < tm_gender b else tm_name a < tm_name b)
    (filter (\<lambda>m. tm_team m = i) (tb_members d))"

definition ListTeams :: "string \<Rightarrow> team_db \<Rightarrow> (team_row \<times> member_row list) list" where
  "ListTeams ev d = map (\<lambda>t. (t, team_members (te_id t) d)) (event_teams ev d)"

section \<open>Line-ups\<close>

definition of_gender :: "string \<Rightarrow> member_row list \<Rightarrow> pid list" where
  "of_gender g ms = map tm_player (filter (\<lambda>m. tm_player m \<noteq> [] \<and> tm_gender m = g) ms)"

definition teamLineup :: "member_row list \<Rightarrow> team_error + (pid list \<times> pid list)" where
  "teamLineup ms = (let men = of_gender ''M'' ms; women = of_gender ''F'' ms in
    if length men < 2 \<or> length women < 2 then Inl (RosterShort (length men) (length women)) else Inr (men, women))"

record lineup =
  lu_wd :: "pid list"
  lu_md :: "pid list"
  lu_mx1 :: "pid list"
  lu_mx2 :: "pid list"

definition lineupSet :: "pid list \<Rightarrow> pid list \<Rightarrow> lineup" where
  "lineupSet men women =
    (let (m1, m2) = (if length men \<ge> 3 then (men ! 2, men ! 0) else (men ! 0, men ! 1));
         (w1, w2) = (if length women \<ge> 3 then (women ! 2, women ! 0) else (women ! 0, women ! 1))
     in \<lparr>lu_wd = [women ! 0, women ! 1], lu_md = [men ! 0, men ! 1], lu_mx1 = [m1, w1], lu_mx2 = [m2, w2]\<rparr>)"

definition lineGenderReq :: "string \<Rightarrow> (nat \<times> nat) option" where
  "lineGenderReq lt = (if lt = ''wd'' then Some (0, 2) else if lt = ''md'' then Some (2, 0)
     else if lt = ''mx1'' \<or> lt = ''mx2'' then Some (1, 1) else None)"

definition teamGenderMap :: "string \<Rightarrow> team_db \<Rightarrow> pid \<rightharpoonup> string" where
  "teamGenderMap i d = map_of (rev (map (\<lambda>m. (tm_player m, tm_gender m))
    (filter (\<lambda>m. tm_team m = i \<and> tm_player m \<noteq> []) (tb_members d))))"

text \<open>The walk over a side's players, with the men and women counted so far.\<close>

fun walk_lineup :: "(pid \<rightharpoonup> string) \<Rightarrow> pid set \<Rightarrow> nat \<Rightarrow> nat \<Rightarrow> pid list \<Rightarrow> team_error + (nat \<times> nat)" where
  "walk_lineup roster seen gotM gotF [] = Inr (gotM, gotF)"
| "walk_lineup roster seen gotM gotF (i # is') =
    (if i \<in> seen then Inl ListedTwice
     else case roster i of
       None \<Rightarrow> Inl NotOnTeam
     | Some g \<Rightarrow> walk_lineup roster (insert i seen) (if g = ''M'' then gotM + 1 else gotM)
         (if g = ''F'' then gotF + 1 else gotF) is')"

definition validateLineup :: "string \<Rightarrow> pid list \<Rightarrow> (pid \<rightharpoonup> string) \<Rightarrow> team_error option" where
  "validateLineup lt ids roster = (case lineGenderReq lt of
     None \<Rightarrow> Some (BadLineType lt)
   | Some (men, women) \<Rightarrow>
       if length ids \<noteq> men + women then Some (LineCount (men + women))
       else case walk_lineup roster {} 0 0 ids of
         Inl e \<Rightarrow> Some e
       | Inr (m, f) \<Rightarrow> if m \<noteq> men \<or> f \<noteq> women then Some (LineNeeds men women) else None)"

definition validateDecLineup :: "pid list \<Rightarrow> (pid \<rightharpoonup> string) \<Rightarrow> team_error option" where
  "validateDecLineup ids roster =
    (if length ids \<noteq> 4 then Some DecNeedsFour
     else case walk_lineup roster {} 0 0 ids of Inl e \<Rightarrow> Some e | Inr _ \<Rightarrow> None)"

definition line_parts :: "string \<Rightarrow> pid list \<Rightarrow> pid list \<Rightarrow> prow list" where
  "line_parts i t1 t2 = map (\<lambda>p. \<lparr>p_match = i, p_player = p, p_team = 1\<rparr>) t1
    @ map (\<lambda>p. \<lparr>p_match = i, p_player = p, p_team = 2\<rparr>) t2"

definition SetLineLineup :: "string \<Rightarrow> pid list \<Rightarrow> pid list \<Rightarrow> team_db \<Rightarrow> unit tres" where
  "SetLineLineup i t1 t2 d = (case find_match i (tb_db d) of
     None \<Rightarrow> (Inl TeamNotFound, d)
   | Some m \<Rightarrow>
     if m_status m = Completed then (Inl LineScored, d)
     else if m_tie m = [] then (Inl NotATieLine, d)
     else case List.find (\<lambda>t. ti_id t = m_tie m) (tb_ties d) of
       None \<Rightarrow> (Inl TeamNotFound, d)
     | Some t \<Rightarrow>
       let a = teamGenderMap (ti_a t) d; b = teamGenderMap (ti_b t) d;
           check = (if m_line m = ''dec'' then validateDecLineup else validateLineup (m_line m))
       in (case check t1 a of
             Some e \<Rightarrow> (Inl e, d)
           | None \<Rightarrow> (case check t2 b of
               Some e \<Rightarrow> (Inl e, d)
             | None \<Rightarrow> (Inr (), d\<lparr>tb_db := (delete_parts i (tb_db d))
                 \<lparr>db_parts := db_parts (delete_parts i (tb_db d)) @ line_parts i t1 t2\<rparr>\<rparr>))))"

section \<open>Writing ties\<close>

definition event_courts :: "string \<Rightarrow> team_db \<Rightarrow> (int \<times> string) list" where
  "event_courts ev d = map (\<lambda>c. (co_number c, co_id c)) (filter (\<lambda>c. co_event c = ev
    \<and> \<not> (tb_numCourts d ev > 0 \<and> co_number c > tb_numCourts d ev)) (tb_courts d))"

definition courtIDsByNumber :: "string \<Rightarrow> team_db \<Rightarrow> int \<rightharpoonup> string" where
  "courtIDsByNumber ev d = map_of (rev (event_courts ev d))"

definition sortedCourtNums :: "string \<Rightarrow> team_db \<Rightarrow> int list" where
  "sortedCourtNums ev d = sort (remdups (map fst (event_courts ev d)))"

text \<open>The court a tie's first (\<open>k = 0\<close>) or second line pair is played on.\<close>

definition tie_court :: "string \<Rightarrow> nat \<Rightarrow> nat \<Rightarrow> team_db \<Rightarrow> string" where
  "tie_court ev ti k d = (let nums = sortedCourtNums ev d in
    if nums = [] then []
    else case courtIDsByNumber ev d (nums ! ((ti * 2 + k) mod length nums)) of None \<Rightarrow> [] | Some c \<Rightarrow> c)"

definition line_row :: "string \<Rightarrow> string \<Rightarrow> string \<Rightarrow> string \<Rightarrow> string \<Rightarrow> int \<Rightarrow> string \<Rightarrow> mrow" where
  "line_row i ev bid tie lt po court = \<lparr>m_id = i, m_event = ev, m_bracket = bid, m_stage = ''pool'', m_tier = [],
    m_group = [], m_round = 0, m_slot = 0, m_status = Scheduled, m_feeds = None, m_loserFeeds = None, m_score1 = None,
    m_score2 = None, m_winner = 0, m_games = None, m_resultType = ''normal'', m_countsForDiff = True, m_tie = tie,
    m_line = lt, m_court = court, m_day = None, m_roundId = [], m_order = Some po\<rparr>"

definition createTieLine :: "team_env \<Rightarrow> string \<Rightarrow> string \<Rightarrow> string \<Rightarrow> string \<Rightarrow> int \<Rightarrow> string \<Rightarrow> pid list \<Rightarrow> pid list \<Rightarrow> db \<Rightarrow> db" where
  "createTieLine V ev bid tie lt po court t1 t2 d =
    (let i = tv_matchId V d in
     upsert_parts (line_parts i (filter (\<lambda>p. p \<noteq> []) t1) (filter (\<lambda>p. p \<noteq> []) t2))
       (d\<lparr>db_matches := db_matches d @ [line_row i ev bid tie lt po court]\<rparr>))"

text \<open>Court A has the men's doubles and the first mixed, court B the women's doubles and the second mixed.\<close>

definition line_specs :: "string \<Rightarrow> string \<Rightarrow> int \<Rightarrow> int \<Rightarrow> lineup \<Rightarrow> lineup \<Rightarrow> (string \<times> int \<times> string \<times> pid list \<times> pid list) list" where
  "line_specs courtA courtB slotA slotB a b =
    [(''md'', slotA, courtA, lu_md a, lu_md b), (''wd'', slotA, courtB, lu_wd a, lu_wd b),
     (''mx1'', slotB, courtA, lu_mx1 a, lu_mx1 b), (''mx2'', slotB, courtB, lu_mx2 a, lu_mx2 b)]"

definition write_lines :: "team_env \<Rightarrow> string \<Rightarrow> string \<Rightarrow> string \<Rightarrow> (string \<times> int \<times> string \<times> pid list \<times> pid list) list \<Rightarrow> team_db \<Rightarrow> team_db" where
  "write_lines V ev bid tie specs d =
    d\<lparr>tb_db := fold (\<lambda>(lt, po, court, t1, t2). createTieLine V ev bid tie lt po court t1 t2) specs (tb_db d)\<rparr>"

definition insert_tie :: "team_env \<Rightarrow> string \<Rightarrow> string \<Rightarrow> string \<Rightarrow> string \<Rightarrow> string \<Rightarrow> int \<Rightarrow> team_db \<Rightarrow> string \<times> team_db" where
  "insert_tie V ev stage bid a b po d = (let i = tv_tieId V d in
    (i, d\<lparr>tb_ties := tb_ties d @ [\<lparr>ti_id = i, ti_event = ev, ti_stage = stage, ti_bracket = bid, ti_a = a, ti_b = b,
       ti_status = TieScheduled, ti_winner = [], ti_order = po\<rparr>]\<rparr>))"

definition createTie :: "team_env \<Rightarrow> string \<Rightarrow> string \<Rightarrow> (string \<times> member_row list) \<Rightarrow> (string \<times> member_row list)
    \<Rightarrow> nat \<Rightarrow> nat \<Rightarrow> nat \<Rightarrow> team_db \<Rightarrow> unit tres" where
  "createTie V ev bid a b r ti slotBase d = (case teamLineup (snd a) of
     Inl e \<Rightarrow> (Inl e, d)
   | Inr (aMen, aWomen) \<Rightarrow> (case teamLineup (snd b) of
       Inl e \<Rightarrow> (Inl e, d)
     | Inr (bMen, bWomen) \<Rightarrow>
       let slotA = int (slotBase + r * 2);
           (tie, d1) = insert_tie V ev ''pool'' bid (fst a) (fst b) slotA d
       in (Inr (), write_lines V ev bid tie (line_specs (tie_court ev ti 0 d) (tie_court ev ti 1 d) slotA (slotA + 1)
            (lineupSet aMen aWomen) (lineupSet bMen bWomen)) d1)))"

section \<open>The round robin of a division\<close>

definition team_round :: "nat \<Rightarrow> nat list \<Rightarrow> (nat \<times> nat) list" where
  "team_round n idx = (let m = length idx in
    [(idx ! i, idx ! (m - 1 - i)). i \<leftarrow> [0..<m div 2], idx ! i \<noteq> n \<and> idx ! (m - 1 - i) \<noteq> n])"

definition team_rotate :: "nat list \<Rightarrow> nat list" where
  "team_rotate idx = (let m = length idx in [idx ! 0, idx ! (m - 1)] @ take (m - 2) (drop 1 idx))"

fun team_rounds :: "nat \<Rightarrow> nat \<Rightarrow> nat list \<Rightarrow> (nat \<times> nat) list list" where
  "team_rounds n 0 idx = []"
| "team_rounds n (Suc k) idx = team_round n idx # team_rounds n k (team_rotate idx)"

text \<open>The phantom of an odd field is the index \<open>n\<close>; an even field has no entry \<open>n\<close>.\<close>

definition roundRobinRounds :: "nat \<Rightarrow> (nat \<times> nat) list list" where
  "roundRobinRounds n = (if n < 2 then []
    else let m = (if n mod 2 = 1 then n + 1 else n) in team_rounds n (m - 1) [0..<m])"

fun emit_round :: "team_env \<Rightarrow> string \<Rightarrow> string \<Rightarrow> (string \<times> member_row list) list \<Rightarrow> nat \<Rightarrow> nat \<Rightarrow> nat
    \<Rightarrow> (nat \<times> nat) list \<Rightarrow> nat \<times> team_db \<Rightarrow> team_error option \<times> nat \<times> team_db" where
  "emit_round V ev bid teams base r ti [] (n, d) = (None, n, d)"
| "emit_round V ev bid teams base r ti ((i, j) # ps) (n, d) =
    (case createTie V ev bid (teams ! i) (teams ! j) r ti base d of
       (Inl e, d') \<Rightarrow> (Some e, n, d')
     | (Inr _, d') \<Rightarrow> emit_round V ev bid teams base r (ti + 1) ps (n + 1, d'))"

fun emit_rounds :: "team_env \<Rightarrow> string \<Rightarrow> string \<Rightarrow> (string \<times> member_row list) list \<Rightarrow> nat \<Rightarrow> nat
    \<Rightarrow> (nat \<times> nat) list list \<Rightarrow> nat \<times> team_db \<Rightarrow> team_error option \<times> nat \<times> team_db" where
  "emit_rounds V ev bid teams base r [] s = (None, s)"
| "emit_rounds V ev bid teams base r (ps # rs) s = (case emit_round V ev bid teams base r 0 ps s of
     (Some e, s') \<Rightarrow> (Some e, s')
   | (None, s') \<Rightarrow> emit_rounds V ev bid teams base (r + 1) rs s')"

text \<open>The waves: each division's round robin on the slots after the last one's.\<close>

fun emit_waves :: "team_env \<Rightarrow> string \<Rightarrow> (string \<Rightarrow> (string \<times> member_row list) list) \<Rightarrow> string list \<Rightarrow> nat
    \<Rightarrow> nat \<times> team_db \<Rightarrow> team_error option \<times> nat \<times> team_db" where
  "emit_waves V ev byBracket [] base s = (None, s)"
| "emit_waves V ev byBracket (b # bs) base s =
    (let teams = byBracket b; rounds = roundRobinRounds (length teams) in
     if length teams < 2 then emit_waves V ev byBracket bs base s
     else case emit_rounds V ev b teams base 0 rounds s of
       (Some e, s') \<Rightarrow> (Some e, s')
     | (None, s') \<Rightarrow> emit_waves V ev byBracket bs (base + length rounds * 2) s')"

definition start_before :: "division_row \<Rightarrow> division_row \<Rightarrow> bool" where
  "start_before a b = (case (dv_start a, dv_start b) of
     (Some x, Some y) \<Rightarrow> x < y | (Some x, None) \<Rightarrow> True | _ \<Rightarrow> False)"

definition GetBrackets :: "string \<Rightarrow> team_db \<Rightarrow> division_row list" where
  "GetBrackets ev d = filter (\<lambda>b. dv_event b = ev) (tb_brackets d)"

definition division_of_team :: "string \<Rightarrow> team_row \<Rightarrow> string" where
  "division_of_team fallback t = (if te_bracket t \<noteq> [] then te_bracket t else fallback)"

definition GenerateTeamTies :: "team_env \<Rightarrow> string \<Rightarrow> team_db \<Rightarrow> nat tres" where
  "GenerateTeamTies V ev d =
    (let teams = ListTeams ev d in
     if length teams < 2 then (Inl TooFewTeams, d)
     else case List.find (\<lambda>t. case teamLineup (snd t) of Inl _ \<Rightarrow> True | Inr _ \<Rightarrow> False) teams of
       Some t \<Rightarrow> (case teamLineup (snd t) of Inl e \<Rightarrow> (Inl e, d) | Inr _ \<Rightarrow> (Inl TeamIncomplete, d))
     | None \<Rightarrow>
       if list_ex (\<lambda>t. ti_event t = ev \<and> ti_winner t \<noteq> []) (tb_ties d) then (Inl TeamResults, d)
       else
         let d1 = delete_ties (ti_id ` set (filter (\<lambda>t. ti_event t = ev \<and> ti_id t \<noteq> []) (tb_ties d))) d;
             bks = GetBrackets ev d;
             fallback = (case bks of [] \<Rightarrow> [] | b # _ \<Rightarrow> dv_id b);
             order = map dv_id (sort_by start_before bks);
             byBracket = (\<lambda>b. map (\<lambda>(t, ms). (te_id t, ms)) (filter (\<lambda>(t, ms). division_of_team fallback t = b) teams));
             others = tv_mapOrder V (filter (\<lambda>b. b \<notin> set order) (remdups (map (division_of_team fallback \<circ> fst) teams)))
         in (case emit_waves V ev byBracket (order @ others) 0 (0, d1) of
               (Some e, n, d') \<Rightarrow> (Inl e, d')
             | (None, n, d') \<Rightarrow> (Inr n, d')))"

end
