(* ===== verification/Team_Playoff.thy ===== *)
theory Team_Playoff
  imports Team_Ties
begin

text \<open>
  The rest of \<open>internal/service/mlp.go\<close>: the standings of a team event, the playoff that grows as its ties are
  won, and the roll-up of a tie from its lines. A playoff tie has the play order 1000 + 100 * round + slot, which
  is where its round is read back from.
\<close>

section \<open>Ties with their lines\<close>

definition order_before :: "mrow \<Rightarrow> mrow \<Rightarrow> bool" where
  "order_before a b = (case (m_order a, m_order b) of (Some x, Some y) \<Rightarrow> x < y | (Some x, None) \<Rightarrow> True | _ \<Rightarrow> False)"

definition tie_lines :: "string \<Rightarrow> team_db \<Rightarrow> mrow list" where
  "tie_lines i d = sort_by order_before (filter (\<lambda>m. m_tie m = i) (db_matches (tb_db d)))"

definition ListTies :: "string \<Rightarrow> team_db \<Rightarrow> (tie_row \<times> mrow list) list" where
  "ListTies ev d = map (\<lambda>t. (t, tie_lines (ti_id t) d))
    (sort_by (\<lambda>a b. ti_order a < ti_order b) (filter (\<lambda>t. ti_event t = ev) (tb_ties d)))"

section \<open>Standings\<close>

record team_standing =
  ts_id :: string
  ts_name :: string
  ts_tiesWon :: int
  ts_tiesLost :: int
  ts_linesWon :: int
  ts_linesLost :: int
  ts_for :: int
  ts_against :: int

definition new_team_standing :: "team_row \<Rightarrow> team_standing" where
  "new_team_standing t = \<lparr>ts_id = te_id t, ts_name = te_name t, ts_tiesWon = 0, ts_tiesLost = 0, ts_linesWon = 0,
    ts_linesLost = 0, ts_for = 0, ts_against = 0\<rparr>"

text \<open>What one line and one tie add to a side; the line's scores are read from that side.\<close>

definition add_line :: "bool \<Rightarrow> mrow \<Rightarrow> team_standing \<Rightarrow> team_standing" where
  "add_line sideA m s =
    (if m_status m \<noteq> Completed \<or> m_line m = ''dec'' then s
     else
       let s1 = (case (m_score1 m, m_score2 m) of
             (Some x, Some y) \<Rightarrow> s\<lparr>ts_for := ts_for s + (if sideA then x else y), ts_against := ts_against s + (if sideA then y else x)\<rparr>
           | _ \<Rightarrow> s)
       in if m_winner m = (if sideA then 1 else 2) then s1\<lparr>ts_linesWon := ts_linesWon s1 + 1\<rparr>
          else if m_winner m = (if sideA then 2 else 1) then s1\<lparr>ts_linesLost := ts_linesLost s1 + 1\<rparr>
          else s1)"

definition add_tie :: "bool \<Rightarrow> tie_row \<Rightarrow> mrow list \<Rightarrow> team_standing \<Rightarrow> team_standing" where
  "add_tie sideA t lines s =
    (let s1 = fold (add_line sideA) lines s;
         won = s1\<lparr>ts_tiesWon := ts_tiesWon s1 + 1\<rparr>; lost = s1\<lparr>ts_tiesLost := ts_tiesLost s1 + 1\<rparr>
     in if ti_winner t = [] then s1
        else if ti_winner t = ti_a t then (if sideA then won else lost)
        else if ti_winner t = ti_b t then (if sideA then lost else won)
        else s1)"

text \<open>Pool ties of two known teams count; \<open>h2h\<close> is the set of (winner, loser) pairs.\<close>

definition counted_ties :: "string \<Rightarrow> team_db \<Rightarrow> (tie_row \<times> mrow list) list" where
  "counted_ties ev d = (let ids = te_id ` set (event_teams ev d) in
    filter (\<lambda>(t, ls). ti_stage t = ''pool'' \<and> ti_a t \<in> ids \<and> ti_b t \<in> ids) (ListTies ev d))"

definition head_to_head :: "(tie_row \<times> mrow list) list \<Rightarrow> (string \<times> string) set" where
  "head_to_head ties = set (concat (map (\<lambda>(t, ls).
    if ti_winner t = [] then [] else if ti_winner t = ti_a t then [(ti_a t, ti_b t)]
    else if ti_winner t = ti_b t then [(ti_b t, ti_a t)] else []) ties))"

definition team_before :: "(int \<Rightarrow> nat) \<Rightarrow> (string \<times> string) set \<Rightarrow> team_standing \<Rightarrow> team_standing \<Rightarrow> bool" where
  "team_before tiedAt h2h a b =
    (if ts_tiesWon a \<noteq> ts_tiesWon b then ts_tiesWon a > ts_tiesWon b
     else
       let ab = (ts_id a, ts_id b) \<in> h2h; ba = (ts_id b, ts_id a) \<in> h2h;
           ldi = ts_linesWon a - ts_linesLost a; ldj = ts_linesWon b - ts_linesLost b;
           pdi = ts_for a - ts_against a; pdj = ts_for b - ts_against b
       in if tiedAt (ts_tiesWon a) = 2 \<and> ab \<noteq> ba then ab
          else if ldi \<noteq> ldj then ldi > ldj
          else if pdi \<noteq> pdj then pdi > pdj
          else if ts_name a \<noteq> ts_name b then ts_name a < ts_name b
          else ts_id a < ts_id b)"

definition tally_tie :: "tie_row \<Rightarrow> mrow list \<Rightarrow> team_standing \<Rightarrow> team_standing" where
  "tally_tie t ls s = (let s1 = (if ts_id s = ti_a t then add_tie True t ls s else s)
    in if ts_id s = ti_b t then add_tie False t ls s1 else s1)"

definition tally_team :: "(tie_row \<times> mrow list) list \<Rightarrow> team_row \<Rightarrow> team_standing" where
  "tally_team ties t = fold (\<lambda>(tie, ls). tally_tie tie ls) ties (new_team_standing t)"

definition TeamEventStandings :: "string \<Rightarrow> team_db \<Rightarrow> team_standing list" where
  "TeamEventStandings ev d =
    (let ties = counted_ties ev d; rows = map (tally_team ties) (event_teams ev d)
     in sort_by (team_before (\<lambda>w. length (filter (\<lambda>r. ts_tiesWon r = w) rows)) (head_to_head ties)) rows)"

section \<open>The playoff\<close>

definition seedPairs :: "nat \<Rightarrow> (nat \<times> nat) list" where
  "seedPairs k = (if k = 8 then [(0, 7), (3, 4), (1, 6), (2, 5)] else if k = 4 then [(0, 3), (1, 2)] else [(0, 1)])"

text \<open>A missing team is the zero value: no id, no members.\<close>

definition team_or_zero :: "string \<Rightarrow> string \<Rightarrow> team_db \<Rightarrow> string \<times> member_row list" where
  "team_or_zero ev i d = (case List.find (\<lambda>t. te_id t = i) (rev (event_teams ev d)) of
     None \<Rightarrow> ([], []) | Some t \<Rightarrow> (te_id t, team_members (te_id t) d))"

definition createTieLinesFor :: "team_env \<Rightarrow> string \<Rightarrow> string \<Rightarrow> string \<Rightarrow> (string \<times> member_row list) \<Rightarrow> (string \<times> member_row list)
    \<Rightarrow> string \<Rightarrow> string \<Rightarrow> int \<Rightarrow> int \<Rightarrow> team_db \<Rightarrow> unit tres" where
  "createTieLinesFor V ev bid tie a b courtA courtB slotA slotB d = (case teamLineup (snd a) of
     Inl e \<Rightarrow> (Inl e, d)
   | Inr (aMen, aWomen) \<Rightarrow> (case teamLineup (snd b) of
       Inl e \<Rightarrow> (Inl e, d)
     | Inr (bMen, bWomen) \<Rightarrow> (Inr (), write_lines V ev bid tie
         (line_specs courtA courtB slotA slotB (lineupSet aMen aWomen) (lineupSet bMen bWomen)) d)))"

definition createPlayoffTie :: "team_env \<Rightarrow> string \<Rightarrow> string \<Rightarrow> (string \<times> member_row list) \<Rightarrow> (string \<times> member_row list)
    \<Rightarrow> int \<Rightarrow> nat \<Rightarrow> team_db \<Rightarrow> unit tres" where
  "createPlayoffTie V ev bid a b po slot d =
    (let (tie, d1) = insert_tie V ev ''playoff'' bid (fst a) (fst b) po d
     in createTieLinesFor V ev bid tie a b (tie_court ev slot 0 d) (tie_court ev slot 1 d) (po * 2) (po * 2 + 1) d1)"

text \<open>A row of playoff ties, one after the other; each pair has its slot.\<close>

fun create_round :: "team_env \<Rightarrow> string \<Rightarrow> string \<Rightarrow> int \<Rightarrow> (nat \<times> string \<times> string) list \<Rightarrow> nat \<Rightarrow> team_db \<Rightarrow> nat tres" where
  "create_round V ev bid rd [] n d = (Inr n, d)"
| "create_round V ev bid rd ((slot, a, b) # ps) n d =
    (case createPlayoffTie V ev bid (team_or_zero ev a d) (team_or_zero ev b d) (1000 + rd * 100 + int slot) slot d of
       (Inl e, d') \<Rightarrow> (Inl e, d')
     | (Inr _, d') \<Rightarrow> create_round V ev bid rd ps (n + 1) d')"

definition GeneratePlayoff :: "team_env \<Rightarrow> string \<Rightarrow> team_db \<Rightarrow> nat tres" where
  "GeneratePlayoff V ev d =
    (let ties = map fst (ListTies ev d);
         playoff = filter (\<lambda>t. ti_stage t = ''playoff'') ties;
         pool = filter (\<lambda>t. ti_stage t \<noteq> ''playoff'') ties
     in if pool = [] then (Inl NoPoolSchedule, d)
        else if list_ex (\<lambda>t. ti_winner t = []) pool then (Inl PoolIncomplete, d)
        else if list_ex (\<lambda>t. ti_winner t \<noteq> []) playoff then (Inl PlayoffResults, d)
        else
          let d1 = delete_ties (ti_id ` set playoff) d;
              seeds = TeamEventStandings ev d1;
              n = length seeds
          in if n < 2 then (Inl TooFewTeams, d1)
             else
               let k = (if n \<ge> 8 then 8 else if n < 4 then 2 else 4);
                   bid = (case GetBrackets ev d1 of [] \<Rightarrow> [] | b # _ \<Rightarrow> dv_id b);
                   pairs = [(slot, ts_id (seeds ! i), ts_id (seeds ! j)). (slot, i, j) \<leftarrow> enumerate 0 (seedPairs k), i < n \<and> j < n]
               in create_round V ev bid 1 pairs 0 d1)"

definition tie_round :: "tie_row \<Rightarrow> int" where
  "tie_round t = (let x = ti_order t - 1000 in if x < 0 then - ((- x) div 100) else x div 100)"

definition playoff_ties :: "string \<Rightarrow> team_db \<Rightarrow> tie_row list" where
  "playoff_ties ev d = sort_by (\<lambda>a b. ti_order a < ti_order b)
    (filter (\<lambda>t. ti_event t = ev \<and> ti_stage t = ''playoff'') (tb_ties d))"

definition ties_of_round :: "int \<Rightarrow> tie_row list \<Rightarrow> tie_row list" where
  "ties_of_round r ts = filter (\<lambda>t. tie_round t = r) ts"

fun pair_up :: "string list \<Rightarrow> (string \<times> string) list" where
  "pair_up (a # b # ws) = (a, b) # pair_up ws"
| "pair_up _ = []"

definition same_pair :: "tie_row \<Rightarrow> string \<times> string \<Rightarrow> bool" where
  "same_pair t p \<longleftrightarrow> (ti_a t = fst p \<and> ti_b t = snd p) \<or> (ti_a t = snd p \<and> ti_b t = fst p)"

definition round_matches :: "tie_row list \<Rightarrow> (string \<times> string) list \<Rightarrow> bool" where
  "round_matches next expected \<longleftrightarrow> length next = length expected \<and> list_all (\<lambda>(t, p). same_pair t p) (zip next expected)"

text \<open>The walk over the rounds, lowest first: the first decided round whose successor is not made of its winners.\<close>

fun stale_after :: "tie_row list \<Rightarrow> int list \<Rightarrow> int option" where
  "stale_after ts [] = None"
| "stale_after ts (r # rs) =
    (let cur = ties_of_round r ts in
     if length cur \<le> 1 then stale_after ts rs
     else if list_ex (\<lambda>t. ti_winner t = []) cur then None
     else if round_matches (ties_of_round (r + 1) ts) (pair_up (map ti_winner cur)) then stale_after ts rs
     else Some r)"

definition playoff_rounds :: "tie_row list \<Rightarrow> int list" where
  "playoff_rounds ts = sort (remdups (map tie_round ts))"

definition maybeAdvancePlayoffRound :: "team_env \<Rightarrow> string \<Rightarrow> team_db \<Rightarrow> unit tres" where
  "maybeAdvancePlayoffRound V ev d =
    (let ts = playoff_ties ev d in
     if ts = [] then (Inr (), d)
     else case stale_after ts (playoff_rounds ts) of
       None \<Rightarrow> (Inr (), d)
     | Some r \<Rightarrow>
       let cur = ties_of_round r ts;
           d1 = delete_ties (ti_id ` set (filter (\<lambda>t. tie_round t > r) ts)) d;
           pairs = enumerate 0 (pair_up (map ti_winner cur))
       in (case create_round V ev (ti_bracket (hd cur)) (r + 1) pairs 0 d1 of
             (Inl e, d2) \<Rightarrow> (Inl e, d2)
           | (Inr _, d2) \<Rightarrow> (Inr (), d2)))"

section \<open>Rolling up a tie\<close>

definition side_lines_won :: "int \<Rightarrow> mrow list \<Rightarrow> nat" where
  "side_lines_won side lines = length (filter (\<lambda>m. m_line m \<noteq> ''dec'' \<and> m_status m = Completed \<and> m_winner m = side) lines)"

definition update_tie :: "string \<Rightarrow> (tie_row \<Rightarrow> tie_row) \<Rightarrow> team_db \<Rightarrow> team_db" where
  "update_tie i f d = d\<lparr>tb_ties := map (\<lambda>t. if ti_id t = i then f t else t) (tb_ties d)\<rparr>"

definition setTieState :: "string \<Rightarrow> bool \<Rightarrow> team_db \<Rightarrow> team_db" where
  "setTieState i started d =
    update_tie i (\<lambda>t. t\<lparr>ti_status := (if started then TieInProgress else TieScheduled), ti_winner := []\<rparr>) d"

definition finishTie :: "team_env \<Rightarrow> tie_row \<Rightarrow> int \<Rightarrow> team_db \<Rightarrow> unit tres" where
  "finishTie V t w d =
    (let d1 = update_tie (ti_id t) (\<lambda>x. x\<lparr>ti_status := TieCompleted, ti_winner := (if w = 2 then ti_b t else ti_a t)\<rparr>) d
     in if ti_stage t = ''playoff'' then maybeAdvancePlayoffRound V (ti_event t) d1 else (Inr (), d1))"

text \<open>The slot after the tie's last line, and the first court with nothing open at that slot.\<close>

definition decider_slot :: "tie_row \<Rightarrow> team_db \<Rightarrow> int" where
  "decider_slot t d = (case concat (map (\<lambda>m. case m_order m of None \<Rightarrow> [] | Some x \<Rightarrow> [x])
      (filter (\<lambda>m. m_tie m = ti_id t) (db_matches (tb_db d)))) of
     [] \<Rightarrow> ti_order t + 100
   | x # xs \<Rightarrow> fold max xs x + 1)"

definition decider_court :: "string \<Rightarrow> int \<Rightarrow> team_db \<Rightarrow> string" where
  "decider_court ev slot d =
    (let nums = sortedCourtNums ev d; cid = (\<lambda>n. case courtIDsByNumber ev d n of None \<Rightarrow> [] | Some c \<Rightarrow> c);
         busy = m_court ` set (filter (\<lambda>m. m_event m = ev \<and> (m_status m = Scheduled \<or> m_status m = InProgress)
           \<and> m_order m = Some slot \<and> m_court m \<noteq> []) (db_matches (tb_db d)))
     in if nums = [] then []
        else case List.find (\<lambda>n. cid n \<notin> busy) nums of None \<Rightarrow> cid (hd nums) | Some n \<Rightarrow> cid n)"

definition roster_of :: "string \<Rightarrow> string \<Rightarrow> team_db \<Rightarrow> member_row list" where
  "roster_of ev i d = snd (team_or_zero ev i d)"

definition spawnDecider :: "team_env \<Rightarrow> tie_row \<Rightarrow> team_db \<Rightarrow> unit tres" where
  "spawnDecider V t d = (case teamLineup (roster_of (ti_event t) (ti_a t) d) of
     Inl e \<Rightarrow> (Inl e, d)
   | Inr (aMen, aWomen) \<Rightarrow> (case teamLineup (roster_of (ti_event t) (ti_b t) d) of
       Inl e \<Rightarrow> (Inl e, d)
     | Inr (bMen, bWomen) \<Rightarrow>
       let slot = decider_slot t d
       in (Inr (), d\<lparr>tb_db := createTieLine V (ti_event t) (ti_bracket t) (ti_id t) ''dec'' slot (decider_court (ti_event t) slot d)
            (take 2 aMen @ take 2 aWomen) (take 2 bMen @ take 2 bWomen) (tb_db d)\<rparr>)))"

definition rollupTie :: "team_env \<Rightarrow> string \<Rightarrow> team_db \<Rightarrow> unit tres" where
  "rollupTie V i d = (case List.find (\<lambda>t. ti_id t = i) (tb_ties d) of
     None \<Rightarrow> (Inr (), d)
   | Some t \<Rightarrow>
     let lines = filter (\<lambda>m. m_tie m = i) (db_matches (tb_db d));
         a = side_lines_won 1 lines; b = side_lines_won 2 lines;
         decs = filter (\<lambda>m. m_line m = ''dec'') lines
     in if a + b < 4 then (Inr (), setTieState i (a + b > 0) d)
        else if a \<noteq> b then finishTie V t (if b > a then 2 else 1) d
        else if decs = [] then (case spawnDecider V t d of
            (Inl e, d') \<Rightarrow> (Inl e, d')
          | (Inr _, d') \<Rightarrow> (Inr (), setTieState i True d'))
        else if m_status (last decs) \<noteq> Completed then (Inr (), setTieState i True d)
        else finishTie V t (m_winner (last decs)) d)"

text \<open>
  Scoring and forfeiting a line: the match handlers end in the roll-up of the line's tie (\<open>env_rollupTie\<close>), which
  works on the larger tables here; it is run on the tables the handlers leave.
\<close>

definition line_env :: "env \<Rightarrow> env" where
  "line_env E = E\<lparr>env_rollupTie := (\<lambda>_ d. Match_Control.ok d)\<rparr>"

definition after_line :: "team_env \<Rightarrow> string \<Rightarrow> outcome \<Rightarrow> team_db \<Rightarrow> (flow_error + team_error) option \<times> team_db" where
  "after_line V i r d = (let d1 = d\<lparr>tb_db := snd r\<rparr> in
    case fst r of
      Some e \<Rightarrow> (Some (Inl e), d1)
    | None \<Rightarrow> (case find_match i (snd r) of
        None \<Rightarrow> (None, d1)
      | Some m \<Rightarrow> if m_tie m = [] then (None, d1)
          else (case rollupTie V (m_tie m) d1 of (Inl e, d2) \<Rightarrow> (Some (Inr e), d2) | (Inr _, d2) \<Rightarrow> (None, d2))))"

definition ScoreLine :: "env \<Rightarrow> team_env \<Rightarrow> string \<Rightarrow> GameScore list \<Rightarrow> team_db \<Rightarrow> (flow_error + team_error) option \<times> team_db" where
  "ScoreLine E V i games d = after_line V i (RecordSeries (line_env E) i games (tb_db d)) d"

end
