(* ===== verification/Team_Props.thy ===== *)
theory Team_Props
  imports Team_Playoff
begin

text \<open>
  Team events: the standings are one fixed order whatever the order of the rows, and balance; the playoff always
  continues with the winners of its rounds.
\<close>

section \<open>The comparator of the standings\<close>

text \<open>
  Head-to-head decides between exactly two teams, so it is the same as giving the winner of that meeting a point.
\<close>

definition duel :: "(int \<Rightarrow> nat) \<Rightarrow> (string \<times> string) set \<Rightarrow> team_standing list \<Rightarrow> team_standing \<Rightarrow> nat" where
  "duel tiedAt h2h rows a = (if tiedAt (ts_tiesWon a) = 2
    \<and> (\<exists>b\<in>set rows. ts_id b \<noteq> ts_id a \<and> ts_tiesWon b = ts_tiesWon a \<and> (ts_id a, ts_id b) \<in> h2h \<and> (ts_id b, ts_id a) \<notin> h2h)
    then 1 else 0)"

definition by_points :: "(team_standing \<Rightarrow> nat) \<Rightarrow> team_standing \<Rightarrow> team_standing \<Rightarrow> bool" where
  "by_points D = (\<lambda>a b. if ts_tiesWon a \<noteq> ts_tiesWon b then ts_tiesWon b < ts_tiesWon a
    else if D a \<noteq> D b then D b < D a
    else if ts_linesWon a - ts_linesLost a \<noteq> ts_linesWon b - ts_linesLost b
      then ts_linesWon b - ts_linesLost b < ts_linesWon a - ts_linesLost a
    else if ts_for a - ts_against a \<noteq> ts_for b - ts_against b then ts_for b - ts_against b < ts_for a - ts_against a
    else if ts_name a \<noteq> ts_name b then ts_name a < ts_name b
    else ts_id a < ts_id b)"

interpretation team_points: strict_weak_less "by_points D" for D
proof -
  have "strict_weak_less (\<lambda>a b. ts_id a < ts_id b)" by unfold_locales auto
  then show "strict_weak_less (by_points D)"
    unfolding by_points_def by (intro lex_desc lex_asc)
qed

lemma by_points_total: "ts_id a \<noteq> ts_id b \<Longrightarrow> by_points D a b \<or> by_points D b a"
  by (cases "ts_id a" "ts_id b" rule: linorder_cases) (auto simp: by_points_def)

definition level_count :: "team_standing list \<Rightarrow> int \<Rightarrow> nat" where
  "level_count rows w = length (filter (\<lambda>r. ts_tiesWon r = w) rows)"

lemma two_level:
  assumes "distinct (map ts_id rows)" "level_count rows (ts_tiesWon a) = 2" "a \<in> set rows" "b \<in> set rows"
    and "ts_tiesWon a = ts_tiesWon b" "ts_id a \<noteq> ts_id b" "c \<in> set rows" "ts_tiesWon c = ts_tiesWon a" "ts_id c \<noteq> ts_id a"
  shows "c = b"
proof -
  let ?l = "filter (\<lambda>r. ts_tiesWon r = ts_tiesWon a) rows"
  have d: "distinct ?l" using assms(1) by (simp add: distinct_map)
  have "{a, b, c} \<subseteq> set ?l" using assms by auto
  then have "card {a, b, c} \<le> 2" using card_mono [of "set ?l" "{a, b, c}"] distinct_card [OF d] assms(2)
    by (simp add: level_count_def)
  moreover have "a \<noteq> b" "a \<noteq> c" using assms(6,9) by auto
  ultimately show "c = b" by (cases "b = c") auto
qed

lemma team_before_points:
  assumes "distinct (map ts_id rows)" "a \<in> set rows" "b \<in> set rows"
  shows "team_before (level_count rows) H a b = by_points (duel (level_count rows) H rows) a b"
proof (cases "ts_id a = ts_id b")
  case True
  then have "a = b" using assms by (auto simp: distinct_map inj_on_def)
  then show ?thesis by (simp add: team_before_def by_points_def)
next
  case False
  let ?D = "duel (level_count rows) H rows"
  show ?thesis
  proof (cases "ts_tiesWon a = ts_tiesWon b \<and> level_count rows (ts_tiesWon a) = 2")
    case two: True
    have only: "(\<exists>c\<in>set rows. ts_id c \<noteq> ts_id x \<and> ts_tiesWon c = ts_tiesWon x \<and> (ts_id x, ts_id c) \<in> H \<and> (ts_id c, ts_id x) \<notin> H)
        \<longleftrightarrow> (ts_id x, ts_id y) \<in> H \<and> (ts_id y, ts_id x) \<notin> H"
      if "x \<in> set rows" "y \<in> set rows" "ts_id x \<noteq> ts_id y" "ts_tiesWon x = ts_tiesWon y" "level_count rows (ts_tiesWon x) = 2" for x y
      using two_level [OF assms(1) that(5,1,2,4,3)] that by metis
    have "?D a = (if (ts_id a, ts_id b) \<in> H \<and> (ts_id b, ts_id a) \<notin> H then 1 else 0)"
      "?D b = (if (ts_id b, ts_id a) \<in> H \<and> (ts_id a, ts_id b) \<notin> H then 1 else 0)"
      using two only [OF assms(2,3) False] only [OF assms(3,2) False [symmetric]] by (simp_all only: duel_def simp_thms) auto
    then show ?thesis using two False by (auto simp: team_before_def by_points_def Let_def)
  next
    case no: False
    show ?thesis
    proof (cases "ts_tiesWon a = ts_tiesWon b")
      case True
      then have "?D a = 0" "?D b = 0" using no by (simp_all add: duel_def)
      then show ?thesis using True no by (simp add: team_before_def by_points_def Let_def)
    qed (simp add: team_before_def by_points_def)
  qed
qed

section \<open>The board\<close>

definition team_rows :: "string \<Rightarrow> team_db \<Rightarrow> team_standing list" where
  "team_rows ev d = map (tally_team (counted_ties ev d)) (event_teams ev d)"

lemma standings_rows:
  "TeamEventStandings ev d = sort_by (team_before (level_count (team_rows ev d)) (head_to_head (counted_ties ev d))) (team_rows ev d)"
  by (simp add: TeamEventStandings_def team_rows_def level_count_def [abs_def] Let_def)

lemma id_add_line [simp]: "ts_id (add_line side m s) = ts_id s"
  by (auto simp: add_line_def Let_def split: option.splits)

lemma id_fold_add_line [simp]: "ts_id (fold (add_line side) ls s) = ts_id s"
  by (induction ls arbitrary: s) auto

lemma id_add_tie [simp]: "ts_id (add_tie side t ls s) = ts_id s"
  by (simp add: add_tie_def Let_def)

lemma id_tally_tie [simp]: "ts_id (tally_tie t ls s) = ts_id s"
  by (simp add: tally_tie_def Let_def)

lemma id_fold_tally [simp]: "ts_id (fold (\<lambda>(tie, ls). tally_tie tie ls) ties s) = ts_id s"
  by (induction ties arbitrary: s) auto

lemma id_tally_team [simp]: "ts_id (tally_team ties t) = te_id t"
  by (simp add: tally_team_def new_team_standing_def)

lemma event_teams_mset: "mset (event_teams ev d) = filter_mset (\<lambda>t. te_event t = ev) (mset (tb_teams d))"
  by (simp add: event_teams_def mset_filter)

lemma team_rows_ids:
  assumes "distinct (map te_id (tb_teams d))"
  shows "distinct (map ts_id (team_rows ev d))"
proof -
  have "mset (map te_id (event_teams ev d)) = mset (map te_id (filter (\<lambda>t. te_event t = ev) (tb_teams d)))"
    by (simp add: event_teams_def)
  moreover have "distinct (map te_id (filter (\<lambda>t. te_event t = ev) (tb_teams d)))"
    using assms by (rule distinct_map_filter)
  ultimately have "distinct (map te_id (event_teams ev d))" by (metis mset_eq_imp_distinct_iff)
  then show ?thesis by (simp add: team_rows_def comp_def)
qed

lemma board_sorted:
  fixes H
  assumes "distinct (map ts_id rows)"
  defines "D \<equiv> duel (level_count rows) H rows"
  shows "sort_by (team_before (level_count rows) H) rows = sort_by (by_points D) rows"
    and "sorted_wrt (by_points D) (sort_by (by_points D) rows)"
    and "sorted_wrt (team_before (level_count rows) H) (sort_by (by_points D) rows)"
proof -
  let ?s = "sort_by (by_points D) rows"
  show "sort_by (team_before (level_count rows) H) rows = ?s"
    unfolding D_def by (rule sort_by_cong) (rule team_before_points [OF assms(1)])
  have "distinct (map ts_id ?s)"
    using assms(1) mset_sort_by [of "by_points D" rows] by (metis mset_map mset_eq_imp_distinct_iff)
  then show strict: "sorted_wrt (by_points D) ?s"
    using team_points.sorted_sort_by [of D rows] by_points_total [of _ _ D]
    by (auto simp: sorted_wrt_iff_nth_less distinct_conv_nth) (metis less_imp_neq order_less_trans)
  show "sorted_wrt (team_before (level_count rows) H) ?s"
    using strict by (rule sorted_wrt_mono_rel [rotated]) (use team_before_points [OF assms(1), of _ _ H] in \<open>auto simp: D_def\<close>)
qed

text \<open>What a tie adds to one side it takes from the other.\<close>

definition line_margin :: "mrow \<Rightarrow> int" where
  "line_margin m = (if m_status m \<noteq> Completed \<or> m_line m = ''dec'' then 0
    else if m_winner m = 1 then 1 else if m_winner m = 2 then -1 else 0)"

definition point_margin :: "mrow \<Rightarrow> int" where
  "point_margin m = (if m_status m \<noteq> Completed \<or> m_line m = ''dec'' then 0
    else case (m_score1 m, m_score2 m) of (Some x, Some y) \<Rightarrow> x - y | _ \<Rightarrow> 0)"

definition tie_margin :: "tie_row \<Rightarrow> int" where
  "tie_margin t = (if ti_winner t = [] then 0 else if ti_winner t = ti_a t then 1 else if ti_winner t = ti_b t then -1 else 0)"

definition tiesBal :: "team_standing \<Rightarrow> int" where "tiesBal s = ts_tiesWon s - ts_tiesLost s"
definition linesBal :: "team_standing \<Rightarrow> int" where "linesBal s = ts_linesWon s - ts_linesLost s"
definition pointsBal :: "team_standing \<Rightarrow> int" where "pointsBal s = ts_for s - ts_against s"

definition sgn_side :: "bool \<Rightarrow> int \<Rightarrow> int" where "sgn_side sideA x = (if sideA then x else - x)"

lemma add_line_balance:
  "tiesBal (add_line side m s) = tiesBal s" "linesBal (add_line side m s) = linesBal s + sgn_side side (line_margin m)"
  "pointsBal (add_line side m s) = pointsBal s + sgn_side side (point_margin m)"
  by (auto simp: add_line_def tiesBal_def linesBal_def pointsBal_def line_margin_def point_margin_def sgn_side_def Let_def
    split: option.splits)

lemma add_lines_balance:
  "tiesBal (fold (add_line side) ls s) = tiesBal s"
  "linesBal (fold (add_line side) ls s) = linesBal s + sgn_side side (sum_list (map line_margin ls))"
  "pointsBal (fold (add_line side) ls s) = pointsBal s + sgn_side side (sum_list (map point_margin ls))"
  by (induction ls arbitrary: s) (auto simp: add_line_balance sgn_side_def)

lemma add_tie_balance:
  "tiesBal (add_tie side t ls s) = tiesBal s + sgn_side side (tie_margin t)"
  "linesBal (add_tie side t ls s) = linesBal s + sgn_side side (sum_list (map line_margin ls))"
  "pointsBal (add_tie side t ls s) = pointsBal s + sgn_side side (sum_list (map point_margin ls))"
  using add_lines_balance [of side ls s]
  by (auto simp: add_tie_def Let_def tie_margin_def sgn_side_def tiesBal_def linesBal_def pointsBal_def)

text \<open>A measure that each tie moves by the same amount up for one side and down for the other.\<close>

locale tie_balance =
  fixes bal :: "team_standing \<Rightarrow> int" and margin :: "tie_row \<Rightarrow> mrow list \<Rightarrow> int"
  assumes bal_add: "bal (add_tie side t ls s) = bal s + sgn_side side (margin t ls)"
    and bal_new: "bal (new_team_standing r) = 0"
begin

lemma bal_tally_tie:
  "bal (tally_tie t ls s) = bal s + (if ts_id s = ti_a t then margin t ls else 0) - (if ts_id s = ti_b t then margin t ls else 0)"
  by (auto simp: tally_tie_def Let_def bal_add sgn_side_def)

lemma sum_once:
  fixes x :: int
  assumes "distinct xs"
  shows "sum_list (map (\<lambda>i. if i = a then x else 0) xs) = (if a \<in> set xs then x else 0)"
  using assms by (induction xs) auto

lemma bal_map_tally:
  assumes "distinct (map ts_id rows)" "ti_a t \<in> set (map ts_id rows)" "ti_b t \<in> set (map ts_id rows)"
  shows "sum_list (map bal (map (tally_tie t ls) rows)) = sum_list (map bal rows)"
proof -
  have "sum_list (map (\<lambda>s. if ts_id s = c then margin t ls else 0) rows) = margin t ls" if "c \<in> set (map ts_id rows)" for c
    using sum_once [OF assms(1), where x = "margin t ls" and a = c] that by (simp add: comp_def)
  then show ?thesis
    using assms(2,3) by (simp add: comp_def bal_tally_tie sum_list_addf sum_list_subtractf)
qed

lemma bal_fold_tally:
  assumes "distinct (map ts_id rows)" "\<forall>(t, ls)\<in>set ties. ti_a t \<in> set (map ts_id rows) \<and> ti_b t \<in> set (map ts_id rows)"
  shows "sum_list (map bal (map (\<lambda>s. fold (\<lambda>(tie, ls). tally_tie tie ls) ties s) rows)) = sum_list (map bal rows)"
  using assms
proof (induction ties arbitrary: rows)
  case (Cons x ties)
  obtain t ls where x: "x = (t, ls)" by fastforce
  let ?rows = "map (tally_tie t ls) rows"
  have ids: "map ts_id ?rows = map ts_id rows" by simp
  have "sum_list (map bal (map (\<lambda>s. fold (\<lambda>(tie, ls). tally_tie tie ls) ties s) ?rows)) = sum_list (map bal ?rows)"
    by (rule Cons.IH) (use Cons.prems ids in \<open>auto simp del: map_map\<close>)
  also have "\<dots> = sum_list (map bal rows)"
    by (rule bal_map_tally) (use Cons.prems x in auto)
  finally show ?case by (simp add: x comp_def)
qed simp

lemma board_balance:
  assumes "distinct (map te_id (tb_teams d))"
  shows "sum_list (map bal (TeamEventStandings ev d)) = 0"
proof -
  let ?new = "map new_team_standing (event_teams ev d)"
  have ids: "map ts_id ?new = map te_id (event_teams ev d)" by (simp add: new_team_standing_def)
  have "distinct (map ts_id ?new)" using team_rows_ids [OF assms, of ev] unfolding ids by (simp add: team_rows_def comp_def)
  moreover have "\<forall>(t, ls)\<in>set (counted_ties ev d). ti_a t \<in> set (map ts_id ?new) \<and> ti_b t \<in> set (map ts_id ?new)"
    unfolding ids by (auto simp: counted_ties_def Let_def)
  ultimately have "sum_list (map bal (map (\<lambda>s. fold (\<lambda>(tie, ls). tally_tie tie ls) (counted_ties ev d) s) ?new))
      = sum_list (map bal ?new)"
    by (rule bal_fold_tally)
  also have "\<dots> = 0" by (simp add: comp_def bal_new)
  finally have "sum_list (map bal (team_rows ev d)) = 0" by (simp add: team_rows_def tally_team_def comp_def)
  moreover have "mset (map bal (TeamEventStandings ev d)) = mset (map bal (team_rows ev d))" by (simp add: standings_rows)
  ultimately show ?thesis by (metis sum_mset_sum_list)
qed

end

interpretation ties_balance: tie_balance tiesBal "\<lambda>t ls. tie_margin t"
  by unfold_locales (simp_all add: add_tie_balance, simp add: tiesBal_def new_team_standing_def)

interpretation lines_balance: tie_balance linesBal "\<lambda>t ls. sum_list (map line_margin ls)"
  by unfold_locales (simp_all add: add_tie_balance, simp add: linesBal_def new_team_standing_def)

interpretation points_balance: tie_balance pointsBal "\<lambda>t ls. sum_list (map point_margin ls)"
  by unfold_locales (simp_all add: add_tie_balance, simp add: pointsBal_def new_team_standing_def)

section \<open>One order\<close>

lemma counted_ties_perm:
  assumes "mset (tb_teams d') = mset (tb_teams d)" "tb_ties d' = tb_ties d" "tb_db d' = tb_db d"
  shows "counted_ties ev d' = counted_ties ev d"
proof -
  have "set (event_teams ev d') = set (event_teams ev d)"
    using arg_cong [OF assms(1), of set_mset] by (simp add: event_teams_def)
  then show ?thesis using assms(2,3) by (simp add: counted_ties_def ListTies_def tie_lines_def)
qed


end
