(* ===== verification/Team_Bracket.thy ===== *)
theory Team_Bracket
  imports Team_Props
begin

text \<open>
  The playoff of a team event over any sequence of results: every decided round is followed by the ties of its winners,
  also after a result was corrected and the wrong team had already gone on.
\<close>

section \<open>The order of playoff ties\<close>

interpretation by_order: strict_weak_less "\<lambda>a b. ti_order a < ti_order b"
  by unfold_locales auto

text \<open>The keys in use, with the empty text no tie may have.\<close>

abbreviation tie_keys :: "team_db \<Rightarrow> string list" where
  "tie_keys d \<equiv> [] # map ti_id (tb_ties d)"

lemma delete_ties_of: "tb_ties (delete_ties ids d) = filter (\<lambda>t. ti_id t \<notin> ids) (tb_ties d)"
  by (simp add: delete_ties_def)

lemma keys_delete: "distinct (tie_keys d) \<Longrightarrow> distinct (tie_keys (delete_ties ids d))"
  by (auto simp: delete_ties_of distinct_map_filter)

definition is_playoff :: "string \<Rightarrow> tie_row \<Rightarrow> bool" where
  "is_playoff ev t \<longleftrightarrow> ti_event t = ev \<and> ti_stage t = ''playoff''"

lemma playoff_ties_eq: "playoff_ties ev d = sort_by (\<lambda>a b. ti_order a < ti_order b) (filter (is_playoff ev) (tb_ties d))"
  by (simp add: playoff_ties_def is_playoff_def [abs_def])

lemma ties_of_round_eq: "ties_of_round r (playoff_ties ev d)
    = sort_by (\<lambda>a b. ti_order a < ti_order b) (filter (\<lambda>t. is_playoff ev t \<and> tie_round t = r) (tb_ties d))"
  by (simp add: ties_of_round_def playoff_ties_eq by_order.filter_sort_by conj_commute)

lemma tie_round_new: "0 \<le> r \<Longrightarrow> i < 100 \<Longrightarrow> ti_order t = 1000 + r * 100 + int i \<Longrightarrow> tie_round t = r"
  by (simp add: tie_round_def Let_def)

lemma in_rounds: "r \<in> set (playoff_rounds ts) \<longleftrightarrow> ties_of_round r ts \<noteq> []"
  by (auto simp: playoff_rounds_def ties_of_round_def filter_empty_conv)

definition decided :: "tie_row list \<Rightarrow> bool" where
  "decided ts \<longleftrightarrow> list_all (\<lambda>t. ti_winner t \<noteq> []) ts"

text \<open>Every round that is decided, with all rounds before it, is followed by the ties of its winners.\<close>

definition playoff_follows :: "tie_row list \<Rightarrow> bool" where
  "playoff_follows ts \<longleftrightarrow> (\<forall>r. length (ties_of_round r ts) > 1 \<and> (\<forall>q\<le>r. decided (ties_of_round q ts))
    \<longrightarrow> round_matches (ties_of_round (r + 1) ts) (pair_up (map ti_winner (ties_of_round r ts))))"

definition playoff_wf :: "tie_row list \<Rightarrow> bool" where
  "playoff_wf ts \<longleftrightarrow> (\<forall>t\<in>set ts. 1000 \<le> ti_order t) \<and> (\<forall>r. length (ties_of_round r ts) \<le> 100)"

section \<open>What the walk over the rounds finds\<close>

lemma undecided_iff: "list_ex (\<lambda>t. ti_winner t = []) ts \<longleftrightarrow> \<not> decided ts"
  by (induction ts) (auto simp: decided_def)

lemma stale_after_none:
  assumes "stale_after ts rs = None" "sorted rs" "r \<in> set rs" "length (ties_of_round r ts) > 1"
    and "\<forall>q\<in>set rs. q \<le> r \<longrightarrow> decided (ties_of_round q ts)"
  shows "round_matches (ties_of_round (r + 1) ts) (pair_up (map ti_winner (ties_of_round r ts)))"
  using assms
proof (induction rs)
  case (Cons x rs)
  show ?case
  proof (cases "r = x")
    case True
    then show ?thesis using Cons.prems by (auto simp: Let_def undecided_iff split: if_splits)
  next
    case False
    then have "r \<in> set rs" "x \<le> r" "decided (ties_of_round x ts)" using Cons.prems by auto
    then show ?thesis using Cons by (auto simp: Let_def undecided_iff split: if_splits)
  qed
qed simp

lemma follows_if_fresh:
  assumes "stale_after ts (playoff_rounds ts) = None"
  shows "playoff_follows ts"
  unfolding playoff_follows_def
proof (intro allI impI)
  fix r assume r: "length (ties_of_round r ts) > 1 \<and> (\<forall>q\<le>r. decided (ties_of_round q ts))"
  then have "r \<in> set (playoff_rounds ts)" by (auto simp: in_rounds)
  then show "round_matches (ties_of_round (r + 1) ts) (pair_up (map ti_winner (ties_of_round r ts)))"
    using stale_after_none [OF assms, of r] r by (simp add: playoff_rounds_def)
qed

lemma stale_after_some:
  assumes "stale_after ts rs = Some r" "sorted rs"
  shows "r \<in> set rs \<and> length (ties_of_round r ts) > 1 \<and> decided (ties_of_round r ts)
    \<and> (\<forall>q\<in>set rs. q < r \<longrightarrow> length (ties_of_round q ts) > 1
        \<longrightarrow> round_matches (ties_of_round (q + 1) ts) (pair_up (map ti_winner (ties_of_round q ts))))"
  using assms
proof (induction rs)
  case (Cons x rs)
  show ?case
  proof (cases "stale_after ts (x # rs) = stale_after ts rs")
    case True
    then have IH: "r \<in> set rs" "length (ties_of_round r ts) > 1" "decided (ties_of_round r ts)"
      "\<forall>q\<in>set rs. q < r \<longrightarrow> length (ties_of_round q ts) > 1
        \<longrightarrow> round_matches (ties_of_round (q + 1) ts) (pair_up (map ti_winner (ties_of_round q ts)))"
      using Cons by auto
    have "length (ties_of_round x ts) > 1 \<longrightarrow> round_matches (ties_of_round (x + 1) ts) (pair_up (map ti_winner (ties_of_round x ts)))"
      if "x \<noteq> r"
      using Cons.prems(1) that by (auto simp: Let_def split: if_splits)
    then show ?thesis using IH by auto
  next
    case False
    then show ?thesis using Cons.prems by (auto simp: Let_def undecided_iff split: if_splits)
  qed
qed simp

section \<open>Writing a round\<close>

definition fresh_ties :: "team_env \<Rightarrow> bool" where
  "fresh_ties V \<longleftrightarrow> (\<forall>d. tv_tieId V d \<noteq> [] \<and> tv_tieId V d \<notin> ti_id ` set (tb_ties d))"

definition new_tie :: "string \<Rightarrow> int \<Rightarrow> nat \<times> string \<times> string \<Rightarrow> tie_row \<Rightarrow> bool" where
  "new_tie ev r p t \<longleftrightarrow> is_playoff ev t \<and> ti_order t = 1000 + r * 100 + int (fst p) \<and> ti_a t = fst (snd p) \<and> ti_b t = snd (snd p)
    \<and> ti_winner t = []"

lemma team_or_zero_lineup:
  assumes "teamLineup (snd (team_or_zero ev i d)) = Inr x"
  shows "fst (team_or_zero ev i d) = i"
proof (cases "List.find (\<lambda>t. te_id t = i) (rev (event_teams ev d))")
  case None
  then show ?thesis using assms by (simp add: team_or_zero_def teamLineup_def of_gender_def)
next
  case (Some t)
  then have "te_id t = i" by (auto simp: find_Some_iff)
  then show ?thesis using Some by (simp add: team_or_zero_def)
qed

lemma create_tie_effect:
  assumes "createPlayoffTie V ev bid (team_or_zero ev a d) (team_or_zero ev b d) (1000 + r * 100 + int slot) slot d = (x, d')"
  shows "\<exists>t. tb_ties d' = tb_ties d @ [t] \<and> ti_id t = tv_tieId V d \<and> is_playoff ev t \<and> ti_order t = 1000 + r * 100 + int slot
    \<and> ti_winner t = [] \<and> (x = Inr () \<longrightarrow> ti_a t = a \<and> ti_b t = b)"
proof -
  define t where "t = \<lparr>ti_id = tv_tieId V d, ti_event = ev, ti_stage = ''playoff'', ti_bracket = bid, ti_a = fst (team_or_zero ev a d),
    ti_b = fst (team_or_zero ev b d), ti_status = TieScheduled, ti_winner = [], ti_order = 1000 + r * 100 + int slot\<rparr>"
  have "tb_ties d' = tb_ties d @ [t]"
    using assms by (auto simp: createPlayoffTie_def insert_tie_def createTieLinesFor_def write_lines_def t_def Let_def
        split: sum.splits prod.splits)
  moreover have "x = Inr () \<longrightarrow> fst (team_or_zero ev a d) = a \<and> fst (team_or_zero ev b d) = b"
    using assms team_or_zero_lineup [of ev a d] team_or_zero_lineup [of ev b d]
    by (auto simp: createPlayoffTie_def insert_tie_def createTieLinesFor_def Let_def split: sum.splits prod.splits)
  ultimately show ?thesis by (auto simp: t_def is_playoff_def)
qed

lemma create_round_effect:
  assumes "create_round V ev bid r ps n d = (x, d')" "fresh_ties V" "distinct (tie_keys d)"
  shows "\<exists>new. tb_ties d' = tb_ties d @ new \<and> distinct (tie_keys d')
    \<and> (\<forall>t\<in>set new. is_playoff ev t \<and> ti_winner t = [] \<and> (\<exists>p\<in>set ps. ti_order t = 1000 + r * 100 + int (fst p)))
    \<and> length new \<le> length ps \<and> (\<forall>m. x = Inr m \<longrightarrow> list_all2 (new_tie ev r) ps new)"
  using assms(1,3)
proof (induction ps arbitrary: n d)
  case Nil
  then show ?case by (intro exI [of _ "[]"]) auto
next
  case (Cons p ps)
  obtain slot a b where p: "p = (slot, a, b)" by (cases p)
  obtain y d1 where c: "createPlayoffTie V ev bid (team_or_zero ev a d) (team_or_zero ev b d) (1000 + r * 100 + int slot) slot d = (y, d1)"
    by fastforce
  obtain t where t: "tb_ties d1 = tb_ties d @ [t]" "ti_id t = tv_tieId V d" "is_playoff ev t"
    "ti_order t = 1000 + r * 100 + int slot" "ti_winner t = []" "y = Inr () \<longrightarrow> ti_a t = a \<and> ti_b t = b"
    using create_tie_effect [OF c] by blast
  have ids: "distinct (tie_keys d1)" using t(1,2) Cons.prems(2) assms(2) by (auto simp: fresh_ties_def) metis
  show ?case
  proof (cases y)
    case (Inl e)
    then have "d' = d1" "x = Inl e" using Cons.prems(1) c by (auto simp: p)
    then show ?thesis using t ids by (intro exI [of _ "[t]"]) (auto simp: p)
  next
    case (Inr u)
    then have run: "create_round V ev bid r ps (n + 1) d1 = (x, d')" using Cons.prems(1) c by (auto simp: p)
    obtain new where new: "tb_ties d' = tb_ties d1 @ new" "distinct (tie_keys d')"
      "\<forall>t\<in>set new. is_playoff ev t \<and> ti_winner t = [] \<and> (\<exists>p\<in>set ps. ti_order t = 1000 + r * 100 + int (fst p))"
      "length new \<le> length ps" "\<forall>m. x = Inr m \<longrightarrow> list_all2 (new_tie ev r) ps new"
      using Cons.IH [OF run ids] by blast
    have "new_tie ev r p t" using t Inr by (simp add: new_tie_def p)
    then show ?thesis using new t by (intro exI [of _ "t # new"]) (auto simp: p)
  qed
qed

section \<open>The next round after a result\<close>

lemma pair_up_length: "length (pair_up ws) = length ws div 2"
  by (induction ws rule: pair_up.induct) auto

lemma new_round_sorted:
  assumes "list_all2 (new_tie ev r) (enumerate n ps) new"
  shows "sorted_wrt (\<lambda>a b. ti_order a < ti_order b) new \<and> (\<forall>t\<in>set new. 1000 + r * 100 + int n \<le> ti_order t)"
  using assms
proof (induction ps arbitrary: n new)
  case (Cons p ps)
  then obtain t new' where new: "new = t # new'" "new_tie ev r (n, p) t" "list_all2 (new_tie ev r) (enumerate (Suc n) ps) new'"
    by (auto simp: list_all2_Cons1)
  show ?case using Cons.IH [OF new(3)] new(1,2) by (force simp: new_tie_def)
qed simp

lemma new_round_matches:
  assumes "list_all2 (new_tie ev r) (enumerate n ps) new"
  shows "round_matches new ps"
  using assms
proof (induction ps arbitrary: n new)
  case (Cons p ps)
  then obtain t new' where new: "new = t # new'" "new_tie ev r (n, p) t" "list_all2 (new_tie ev r) (enumerate (Suc n) ps) new'"
    by (auto simp: list_all2_Cons1)
  show ?case using Cons.IH [OF new(3)] new(1,2) by (auto simp: new_tie_def round_matches_def same_pair_def)
qed (simp add: round_matches_def)

text \<open>The tables after rebuilding the round after \<open>r\<close>.\<close>

lemma rebuilt_follows:
  fixes ev d
  defines "ts \<equiv> playoff_ties ev d"
  assumes wf: "playoff_wf ts" and ids: "distinct (tie_keys d)" and V: "fresh_ties V"
    and stale: "stale_after ts (playoff_rounds ts) = Some r"
    and run: "create_round V ev bid (r + 1) (enumerate 0 (pair_up (map ti_winner (ties_of_round r ts)))) 0
      (delete_ties (ti_id ` set (filter (\<lambda>t. tie_round t > r) ts)) d) = (x, d')"
  shows "playoff_wf (playoff_ties ev d') \<and> distinct (tie_keys d')
    \<and> (\<forall>m. x = Inr m \<longrightarrow> playoff_follows (playoff_ties ev d'))"
proof -
  let ?d1 = "delete_ties (ti_id ` set (filter (\<lambda>t. tie_round t > r) ts)) d"
  let ?win = "pair_up (map ti_winner (ties_of_round r ts))"
  note S = stale_after_some [OF stale]
  have r: "r \<in> set (playoff_rounds ts)" "decided (ties_of_round r ts)"
    and below: "\<And>q. q \<in> set (playoff_rounds ts) \<Longrightarrow> q < r \<Longrightarrow> length (ties_of_round q ts) > 1
        \<Longrightarrow> round_matches (ties_of_round (q + 1) ts) (pair_up (map ti_winner (ties_of_round q ts)))"
    using S by (auto simp: playoff_rounds_def)
  have r0: "0 \<le> r"
  proof -
    obtain t where "t \<in> set ts" "tie_round t = r" using r(1) by (auto simp: playoff_rounds_def)
    then show ?thesis using wf by (auto simp: playoff_wf_def tie_round_def Let_def)
  qed
  have ts: "set ts = {t \<in> set (tb_ties d). is_playoff ev t}" by (auto simp: ts_def playoff_ties_eq)
  have kept: "filter (is_playoff ev) (tb_ties ?d1) = filter (\<lambda>t. is_playoff ev t \<and> tie_round t \<le> r) (tb_ties d)"
  proof -
    have "ti_id t \<in> ti_id ` set (filter (\<lambda>t. tie_round t > r) ts) \<longleftrightarrow> tie_round t > r"
      if "t \<in> set (tb_ties d)" "is_playoff ev t" for t
      using that ids ts by (auto simp: distinct_map inj_on_def)
    then show ?thesis unfolding delete_ties_of filter_filter by (intro filter_cong [OF HOL.refl]) (metis not_less)
  qed
  have ids1: "distinct (tie_keys ?d1)" using ids by (rule keys_delete)
  obtain new where new: "tb_ties d' = tb_ties ?d1 @ new" "distinct (tie_keys d')"
    "\<forall>t\<in>set new. is_playoff ev t \<and> ti_winner t = [] \<and> (\<exists>p\<in>set (enumerate 0 ?win). ti_order t = 1000 + (r + 1) * 100 + int (fst p))"
    "length new \<le> length (enumerate 0 ?win)" "\<forall>m. x = Inr m \<longrightarrow> list_all2 (new_tie ev (r + 1)) (enumerate 0 ?win) new"
    using create_round_effect [OF run V ids1] by blast
  have "length (ties_of_round r ts) \<le> 100" using wf by (simp add: playoff_wf_def)
  then have cap: "length ?win \<le> 50" by (simp add: pair_up_length)
  have newr: "tie_round t = r + 1" "is_playoff ev t" "ti_winner t = []" "1000 \<le> ti_order t" if tn: "t \<in> set new" for t
  proof -
    obtain p where p: "p \<in> set (enumerate 0 ?win)" "ti_order t = 1000 + (r + 1) * 100 + int (fst p)"
      "is_playoff ev t" "ti_winner t = []" using new(3) tn by blast
    have "fst p < length ?win" using p(1) by (auto simp: in_set_enumerate_eq)
    then have i: "fst p < 100" using cap by linarith
    show "tie_round t = r + 1" using tie_round_new [OF _ i p(2)] r0 by simp
    show "is_playoff ev t" "ti_winner t = []" by (fact p)+
    show "1000 \<le> ti_order t" using p(2) r0 by simp
  qed
  let ?ts' = "playoff_ties ev d'"
  have rounds: "ties_of_round q ?ts' = (if q \<le> r then ties_of_round q ts
      else sort_by (\<lambda>a b. ti_order a < ti_order b) (filter (\<lambda>t. tie_round t = q) new))" for q
  proof -
    have "filter (\<lambda>t. is_playoff ev t \<and> tie_round t = q) (tb_ties ?d1)
        = (if q \<le> r then filter (\<lambda>t. is_playoff ev t \<and> tie_round t = q) (tb_ties d) else [])"
    proof -
      have "filter (\<lambda>t. is_playoff ev t \<and> tie_round t = q) (tb_ties ?d1) = filter (\<lambda>t. tie_round t = q) (filter (is_playoff ev) (tb_ties ?d1))"
        by (simp add: conj_commute)
      also have "\<dots> = filter (\<lambda>t. is_playoff ev t \<and> tie_round t \<le> r \<and> tie_round t = q) (tb_ties d)"
        unfolding kept by (simp add: conj_ac)
      also have "\<dots> = (if q \<le> r then filter (\<lambda>t. is_playoff ev t \<and> tie_round t = q) (tb_ties d) else [])"
        by (auto simp: filter_empty_conv intro!: filter_cong)
      finally show ?thesis .
    qed
    moreover have "filter (\<lambda>t. is_playoff ev t \<and> tie_round t = q) new = filter (\<lambda>t. tie_round t = q) new"
      using newr(2) by (auto intro!: filter_cong)
    moreover have "filter (\<lambda>t. tie_round t = q) new = []" if "q \<le> r"
      using newr(1) that by (auto simp: filter_empty_conv)
    ultimately show ?thesis unfolding ties_of_round_eq new(1) ts_def by auto
  qed
  have rn: "filter (\<lambda>t. tie_round t = r + 1) new = new" using newr(1) by simp
  have wf': "playoff_wf ?ts'"
    unfolding playoff_wf_def
  proof (intro conjI ballI allI)
    fix t assume "t \<in> set ?ts'"
    then have "t \<in> set (filter (is_playoff ev) (tb_ties ?d1)) \<or> t \<in> set new" by (auto simp: playoff_ties_eq new(1))
    then show "1000 \<le> ti_order t" using newr(4) wf ts unfolding kept playoff_wf_def by auto
  next
    fix q
    have "length (filter (\<lambda>t. tie_round t = q) new) \<le> 100"
      using order_trans [OF length_filter_le [of "\<lambda>t. tie_round t = q" new] new(4)] cap by simp
    then show "length (ties_of_round q ?ts') \<le> 100" using wf by (simp add: rounds playoff_wf_def)
  qed
  have "playoff_follows ?ts'" if "x = Inr m" for m
    unfolding playoff_follows_def
  proof (intro allI impI)
    have l: "list_all2 (new_tie ev (r + 1)) (enumerate 0 ?win) new" using new(5) that by blast
    have "sorted_wrt (\<lambda>a b. \<not> ti_order b < ti_order a) new"
      by (rule sorted_wrt_mono_rel [OF _ conjunct1 [OF new_round_sorted [OF l]]]) simp
    then have nr: "ties_of_round (r + 1) ?ts' = new" using sort_by_id [of "\<lambda>a b. ti_order a < ti_order b"] by (simp add: rounds rn)
    fix q assume q: "length (ties_of_round q ?ts') > 1 \<and> (\<forall>p\<le>q. decided (ties_of_round p ?ts'))"
    consider "q < r" | "q = r" | "q = r + 1" | "q > r + 1" by linarith
    then show "round_matches (ties_of_round (q + 1) ?ts') (pair_up (map ti_winner (ties_of_round q ?ts')))"
    proof cases
      case 1
      then have "q \<in> set (playoff_rounds ts)" using q by (auto simp: in_rounds rounds)
      then show ?thesis using below [of q] q 1 by (simp add: rounds)
    next
      case 2
      then show ?thesis using new_round_matches [OF l] nr by (simp add: rounds)
    next
      case 3
      then have "new \<noteq> []" "decided new" using q nr by auto
      then show ?thesis using newr(3) by (cases new) (auto simp: decided_def)
    next
      case 4
      then have "filter (\<lambda>t. tie_round t = q) new = []" using newr(1) by (auto simp: filter_empty_conv)
      then show ?thesis using q 4 by (simp add: rounds)
    qed
  qed
  then show ?thesis using wf' new(2) by simp
qed

section \<open>The operations\<close>

definition playoff_inv :: "string \<Rightarrow> team_db \<Rightarrow> bool" where
  "playoff_inv ev d \<longleftrightarrow> distinct (tie_keys d) \<and> playoff_wf (playoff_ties ev d) \<and> playoff_follows (playoff_ties ev d)"

lemma playoff_ties_cong:
  "filter (is_playoff ev) (tb_ties d') = filter (is_playoff ev) (tb_ties d) \<Longrightarrow> playoff_ties ev d' = playoff_ties ev d"
  by (simp add: playoff_ties_eq)

lemma round_tables:
  assumes "create_round V e bid r ps n (delete_ties (ti_id ` set gone) d) = (x, d')" "fresh_ties V"
    and "distinct (tie_keys d)" "set gone \<subseteq> {t \<in> set (tb_ties d). is_playoff e t}" "e \<noteq> ev"
  shows "distinct (tie_keys d') \<and> playoff_ties ev d' = playoff_ties ev d"
proof -
  let ?d1 = "delete_ties (ti_id ` set gone) d"
  have ids1: "distinct (tie_keys ?d1)" using assms(3) by (rule keys_delete)
  obtain new where new: "tb_ties d' = tb_ties ?d1 @ new" "distinct (tie_keys d')" "\<forall>t\<in>set new. is_playoff e t"
    using create_round_effect [OF assms(1,2) ids1] by blast
  have "ti_id t \<notin> ti_id ` set gone" if t: "t \<in> set (tb_ties d)" "is_playoff ev t" for t
  proof
    assume "ti_id t \<in> ti_id ` set gone"
    then obtain s where s: "s \<in> set gone" "ti_id t = ti_id s" by blast
    then have "s \<in> set (tb_ties d)" "is_playoff e s" using assms(4) by auto
    then have "t = s" using s(2) t(1) assms(3) by (simp add: distinct_map inj_on_def)
    then show False using t(2) \<open>is_playoff e s\<close> assms(5) by (simp add: is_playoff_def)
  qed
  note kept = this
  have "filter (is_playoff ev) (tb_ties ?d1) = filter (is_playoff ev) (tb_ties d)"
    unfolding delete_ties_of filter_filter
  proof (rule filter_cong [OF HOL.refl])
    fix t assume "t \<in> set (tb_ties d)"
    then show "(ti_id t \<notin> ti_id ` set gone \<and> is_playoff ev t) = is_playoff ev t" using kept [of t] by blast
  qed
  moreover have "\<not> is_playoff ev t" if "t \<in> set new" for t
    using bspec [OF new(3) that] assms(5) by (simp add: is_playoff_def)
  then have "filter (is_playoff ev) new = []" by (simp add: filter_empty_conv)
  ultimately have "filter (is_playoff ev) (tb_ties d') = filter (is_playoff ev) (tb_ties d)" unfolding new(1) by simp
  then show ?thesis using new(2) playoff_ties_cong by blast
qed

lemma advance_inv:
  assumes V: "fresh_ties V" and run: "maybeAdvancePlayoffRound V e d = (x, d')" and ids: "distinct (tie_keys d)"
    and wf: "playoff_wf (playoff_ties ev d)" and other: "e \<noteq> ev \<Longrightarrow> playoff_follows (playoff_ties ev d)"
  shows "x = Inr () \<Longrightarrow> playoff_inv ev d'"
proof -
  assume ok: "x = Inr ()"
  let ?ts = "playoff_ties e d"
  show "playoff_inv ev d'"
  proof (cases "?ts = [] \<or> stale_after ?ts (playoff_rounds ?ts) = None")
    case True
    then have d': "d' = d" using run by (auto simp: maybeAdvancePlayoffRound_def Let_def split: if_splits)
    have "playoff_follows (playoff_ties ev d)" if "e = ev"
      using True that follows_if_fresh by (auto simp: playoff_follows_def ties_of_round_def)
    then show ?thesis using ids wf other d' by (auto simp: playoff_inv_def)
  next
    case False
    then obtain r where r: "stale_after ?ts (playoff_rounds ?ts) = Some r" by auto
    let ?gone = "filter (\<lambda>t. tie_round t > r) ?ts"
    obtain y where c: "create_round V e (ti_bracket (hd (ties_of_round r ?ts))) (r + 1)
        (enumerate 0 (pair_up (map ti_winner (ties_of_round r ?ts)))) 0 (delete_ties (ti_id ` set ?gone) d) = (y, d')"
      "\<exists>m. y = Inr m"
      using run r False ok by (auto simp: maybeAdvancePlayoffRound_def Let_def split: sum.splits prod.splits)
    show ?thesis
    proof (cases "e = ev")
      case True
      then show ?thesis using rebuilt_follows [OF wf ids V] r c by (auto simp: playoff_inv_def)
    next
      case e: False
      have "set ?gone \<subseteq> {t \<in> set (tb_ties d). is_playoff e t}" by (auto simp: playoff_ties_eq)
      from round_tables [OF c(1) V ids this e] show ?thesis using wf other [OF e] by (simp add: playoff_inv_def)
    qed
  qed
qed

text \<open>Setting the winner of one tie.\<close>

lemma update_tie_rounds:
  assumes "\<And>t. ti_id (f t) = ti_id t" "\<And>t. ti_order (f t) = ti_order t" "\<And>t. ti_event (f t) = ti_event t"
    "\<And>t. ti_stage (f t) = ti_stage t"
  shows "playoff_ties ev (update_tie i f d) = map (\<lambda>t. if ti_id t = i then f t else t) (playoff_ties ev d)"
    and "ties_of_round r (playoff_ties ev (update_tie i f d))
      = map (\<lambda>t. if ti_id t = i then f t else t) (ties_of_round r (playoff_ties ev d))"
    and "map ti_id (tb_ties (update_tie i f d)) = map ti_id (tb_ties d)"
proof -
  let ?g = "\<lambda>t. if ti_id t = i then f t else t"
  have keep: "is_playoff ev (?g t) = is_playoff ev t" "ti_order (?g t) = ti_order t" "tie_round (?g t) = tie_round t" for t
    using assms by (simp_all add: is_playoff_def tie_round_def)
  show pt: "playoff_ties ev (update_tie i f d) = map ?g (playoff_ties ev d)"
    by (simp add: playoff_ties_eq update_tie_def filter_map comp_def keep sort_by_map [where f = ?g, symmetric])
  show "ties_of_round r (playoff_ties ev (update_tie i f d)) = map ?g (ties_of_round r (playoff_ties ev d))"
    unfolding pt by (simp add: ties_of_round_def filter_map comp_def keep)
  show "map ti_id (tb_ties (update_tie i f d)) = map ti_id (tb_ties d)" by (simp add: update_tie_def assms(1))
qed

lemma update_tie_wf:
  assumes "\<And>t. ti_id (f t) = ti_id t" "\<And>t. ti_order (f t) = ti_order t" "\<And>t. ti_event (f t) = ti_event t"
    "\<And>t. ti_stage (f t) = ti_stage t" "playoff_wf (playoff_ties ev d)"
  shows "playoff_wf (playoff_ties ev (update_tie i f d))"
  using assms(5) unfolding playoff_wf_def update_tie_rounds(2) [OF assms(1-4)]
  by (auto simp: update_tie_rounds(1) [OF assms(1-4)] assms(2))

lemma clear_inv:
  assumes "playoff_inv ev d"
  shows "playoff_inv ev (setTieState i b d)"
proof -
  let ?f = "\<lambda>t. t\<lparr>ti_status := (if b then TieInProgress else TieScheduled), ti_winner := []\<rparr>"
  let ?g = "\<lambda>t. if ti_id t = i then ?f t else t"
  have R: "ties_of_round r (playoff_ties ev (update_tie i ?f d)) = map ?g (ties_of_round r (playoff_ties ev d))" for r
    by (rule update_tie_rounds(2)) simp_all
  have "playoff_follows (playoff_ties ev (update_tie i ?f d))"
    unfolding playoff_follows_def R
  proof (intro allI impI)
    fix r
    assume r: "length (map ?g (ties_of_round r (playoff_ties ev d))) > 1 \<and> (\<forall>q\<le>r. decided (map ?g (ties_of_round q (playoff_ties ev d))))"
    have same: "map ?g (ties_of_round q (playoff_ties ev d)) = ties_of_round q (playoff_ties ev d)" if "q \<le> r" for q
    proof -
      have "decided (map ?g (ties_of_round q (playoff_ties ev d)))" using r that by blast
      then have "ti_winner (?g x) \<noteq> []" if "x \<in> set (ties_of_round q (playoff_ties ev d))" for x
        unfolding decided_def list_all_iff using that by fastforce
      then have "?g x = x" if "x \<in> set (ties_of_round q (playoff_ties ev d))" for x using that by (force split: if_splits)
      then show ?thesis by (rule map_idI)
    qed
    have "round_matches (ties_of_round (r + 1) (playoff_ties ev d)) (pair_up (map ti_winner (ties_of_round r (playoff_ties ev d))))"
      using assms r same by (simp add: playoff_inv_def playoff_follows_def)
    moreover have "round_matches (map ?g ts) ps = round_matches ts ps" for ts ps
      by (auto simp: round_matches_def list_all_iff same_pair_def zip_map1 split: if_splits)
    ultimately show "round_matches (map ?g (ties_of_round (r + 1) (playoff_ties ev d)))
        (pair_up (map ti_winner (map ?g (ties_of_round r (playoff_ties ev d)))))"
      using same [of r] by simp
  qed
  moreover have "playoff_wf (playoff_ties ev (update_tie i ?f d))"
    using assms by (intro update_tie_wf) (simp_all add: playoff_inv_def)
  moreover have "map ti_id (tb_ties (update_tie i ?f d)) = map ti_id (tb_ties d)" by (rule update_tie_rounds(3)) simp_all
  ultimately show ?thesis using assms by (simp add: playoff_inv_def setTieState_def)
qed

lemma finish_inv:
  assumes inv: "playoff_inv ev d" and V: "fresh_ties V" and t: "t \<in> set (tb_ties d)" and run: "finishTie V t w d = (Inr (), d')"
  shows "playoff_inv ev d'"
proof -
  let ?f = "\<lambda>x. x\<lparr>ti_status := TieCompleted, ti_winner := (if w = 2 then ti_b t else ti_a t)\<rparr>"
  let ?d1 = "update_tie (ti_id t) ?f d"
  have wf: "playoff_wf (playoff_ties ev ?d1)" using inv by (intro update_tie_wf) (simp_all add: playoff_inv_def)
  have ids: "distinct (tie_keys ?d1)"
    using inv update_tie_rounds(3) [where f = ?f and i = "ti_id t" and d = d] by (simp add: playoff_inv_def)
  have other: "playoff_follows (playoff_ties ev ?d1)" if "\<not> is_playoff ev t"
  proof -
    have "x = t" if "x \<in> set (tb_ties d)" "ti_id x = ti_id t" for x
      using inv t that by (auto simp: playoff_inv_def distinct_map inj_on_def)
    then have "(if ti_id x = ti_id t then ?f x else x) = x" if "x \<in> set (playoff_ties ev d)" for x
      using that \<open>\<not> is_playoff ev t\<close> by (auto simp: playoff_ties_eq)
    then have "playoff_ties ev ?d1 = playoff_ties ev d"
      using update_tie_rounds(1) [where f = ?f and i = "ti_id t" and ev = ev and d = d] by (simp add: map_idI)
    then show ?thesis using inv by (simp add: playoff_inv_def)
  qed
  show ?thesis
  proof (cases "ti_stage t = ''playoff''")
    case True
    then have "maybeAdvancePlayoffRound V (ti_event t) ?d1 = (Inr (), d')" using run by (simp add: finishTie_def Let_def)
    from advance_inv [OF V this ids wf] show ?thesis using other True by (auto simp: is_playoff_def)
  next
    case False
    then have "d' = ?d1" using run by (simp add: finishTie_def Let_def)
    then show ?thesis using wf ids other False by (simp add: playoff_inv_def is_playoff_def)
  qed
qed

lemma tables_only_inv: "playoff_inv ev d \<Longrightarrow> tb_ties d' = tb_ties d \<Longrightarrow> playoff_inv ev d'"
  using playoff_ties_cong [of ev d' d] by (simp add: playoff_inv_def)

lemma spawn_ties: "spawnDecider V t d = (x, d') \<Longrightarrow> tb_ties d' = tb_ties d"
  by (auto simp: spawnDecider_def Let_def split: sum.splits prod.splits)

lemma rollup_inv:
  assumes inv: "playoff_inv ev d" and V: "fresh_ties V" and run: "rollupTie V i d = (Inr (), d')"
  shows "playoff_inv ev d'"
proof (cases "List.find (\<lambda>t. ti_id t = i) (tb_ties d)")
  case None
  then show ?thesis using inv run by (simp add: rollupTie_def)
next
  case (Some t)
  have t: "t \<in> set (tb_ties d)" using Some by (auto simp: find_Some_iff)
  note fin = finish_inv [OF inv V t]
  show ?thesis
    using run clear_inv [OF inv] fin
    by (auto simp: rollupTie_def Some Let_def intro: clear_inv tables_only_inv [OF inv spawn_ties]
        split: if_splits sum.splits prod.splits)
qed

lemma generate_inv:
  assumes inv: "playoff_inv ev d" and V: "fresh_ties V" and run: "GeneratePlayoff V e d = (Inr n, d')"
  shows "playoff_inv ev d'"
proof -
  let ?old = "filter (\<lambda>t. ti_stage t = ''playoff'') (map fst (ListTies e d))"
  let ?d1 = "delete_ties (ti_id ` set ?old) d"
  obtain bid ps where c: "create_round V e bid 1 ps 0 ?d1 = (Inr n, d')" "\<forall>p\<in>set ps. fst p < 4" "length ps \<le> 4"
  proof -
    define k where "k = (if length (TeamEventStandings e ?d1) \<ge> 8 then 8 else if length (TeamEventStandings e ?d1) < 4 then 2 else 4 :: nat)"
    define ps where "ps = [(slot, ts_id (TeamEventStandings e ?d1 ! i), ts_id (TeamEventStandings e ?d1 ! j)).
      (slot, i, j) \<leftarrow> enumerate 0 (seedPairs k), i < length (TeamEventStandings e ?d1) \<and> j < length (TeamEventStandings e ?d1)]"
    have "length [(slot, f i, f j). (slot, i, j) \<leftarrow> xs, i < m \<and> j < m] \<le> length xs" for f m and xs :: "(nat \<times> nat \<times> nat) list"
      by (induction xs) auto
    then have "length ps \<le> length (enumerate 0 (seedPairs k))" unfolding ps_def .
    moreover have k: "length (seedPairs k) \<le> 4" by (simp add: seedPairs_def)
    ultimately have "length ps \<le> 4" by simp
    moreover have "\<forall>p\<in>set ps. fst p < 4" using k by (auto simp: ps_def in_set_enumerate_eq)
    moreover obtain bid where "create_round V e bid 1 ps 0 ?d1 = (Inr n, d')"
      using run unfolding GeneratePlayoff_def Let_def ps_def k_def by (auto split: if_splits)
    ultimately show ?thesis using that by blast
  qed
  have old: "set ?old = {t \<in> set (tb_ties d). is_playoff e t}" by (auto simp: ListTies_def is_playoff_def)
  have ids: "distinct (tie_keys d)" using inv by (simp add: playoff_inv_def)
  show ?thesis
  proof (cases "e = ev")
    case False
    from round_tables [OF c(1) V ids _ False] old show ?thesis using inv by (simp add: playoff_inv_def)
  next
    case True
    have ids1: "distinct (tie_keys ?d1)" using ids by (rule keys_delete)
    obtain new where new: "tb_ties d' = tb_ties ?d1 @ new" "distinct (tie_keys d')"
      "\<forall>t\<in>set new. is_playoff e t \<and> ti_winner t = [] \<and> (\<exists>p\<in>set ps. ti_order t = 1000 + 1 * 100 + int (fst p))"
      "length new \<le> length ps"
      using create_round_effect [OF c(1) V ids1] by blast
    have "filter (is_playoff e) (tb_ties ?d1) = []" using old by (auto simp: delete_ties_of filter_empty_conv)
    moreover have "filter (is_playoff e) new = new" using new(3) by simp
    ultimately have pt: "playoff_ties ev d' = sort_by (\<lambda>a b. ti_order a < ti_order b) new"
      using True by (simp add: playoff_ties_eq new(1))
    have "playoff_wf (playoff_ties ev d')"
      unfolding playoff_wf_def
    proof (intro conjI ballI allI)
      fix r
      have "length (ties_of_round r (playoff_ties ev d')) \<le> length (playoff_ties ev d')" by (simp add: ties_of_round_def)
      then show "length (ties_of_round r (playoff_ties ev d')) \<le> 100" using pt new(4) c(3) by simp
    qed (use pt new(3) in force)
    moreover have "playoff_follows (playoff_ties ev d')"
      unfolding playoff_follows_def
    proof (intro allI impI)
      fix r assume r: "length (ties_of_round r (playoff_ties ev d')) > 1 \<and> (\<forall>q\<le>r. decided (ties_of_round q (playoff_ties ev d')))"
      then obtain t where t: "t \<in> set (ties_of_round r (playoff_ties ev d'))"
        by (cases "ties_of_round r (playoff_ties ev d')") auto
      have "decided (ties_of_round r (playoff_ties ev d'))" using r by blast
      then have "ti_winner t \<noteq> []" using t by (simp add: decided_def list_all_iff)
      moreover have "t \<in> set new" using t pt by (auto simp: ties_of_round_def)
      ultimately show "round_matches (ties_of_round (r + 1) (playoff_ties ev d'))
          (pair_up (map ti_winner (ties_of_round r (playoff_ties ev d'))))" using new(3) by blast
    qed
    ultimately show ?thesis using new(2) by (simp add: playoff_inv_def)
  qed
qed

end
