(* ===== verification/Team_Schedule.thy ===== *)
theory Team_Schedule
  imports Team_Bracket
begin

text \<open>
  The schedule of a team event: the ties that are written are a round robin of every division, in waves, and every
  line of them has a legal line-up.
\<close>

section \<open>The rounds are the circle method of the engine\<close>

definition entry_id :: "string list \<Rightarrow> nat \<Rightarrow> pid" where
  "entry_id ids i = (if i < length ids then ids ! i else bye)"

definition named :: "string list \<Rightarrow> nat \<times> nat \<Rightarrow> raw_match" where
  "named ids p = \<lparr>rt1 = [entry_id ids (fst p)], rt2 = [entry_id ids (snd p)]\<rparr>"

lemma rotate_map: "2 \<le> length idx \<Longrightarrow> rr_rotate (map f idx) = map f (team_rotate idx)"
proof -
  assume "2 \<le> length idx"
  then have "map f idx ! 0 = f (idx ! 0)" "map f idx ! (length idx - 1) = f (idx ! (length idx - 1))" by (auto intro!: nth_map)
  then show ?thesis by (simp add: rr_rotate_def team_rotate_def Let_def drop_map take_map)
qed

lemma set_team_rotate: "2 \<le> length idx \<Longrightarrow> set (team_rotate idx) \<subseteq> set idx \<and> length (team_rotate idx) = length idx"
  by (auto simp: team_rotate_def Let_def intro!: nth_mem dest: in_set_takeD in_set_dropD)

lemma entry_bye:
  assumes "bye \<notin> set ids" "i \<le> length ids"
  shows "entry_id ids i = bye \<longleftrightarrow> i = length ids"
  using assms by (auto simp: entry_id_def dest: nth_mem)

lemma round_map:
  assumes "bye \<notin> set ids" "set idx \<subseteq> {..length ids}"
  shows "rr_round (map (entry_id ids) idx) = map (named ids) (team_round (length ids) idx)"
proof -
  have "entry_id ids (idx ! i) = bye \<longleftrightarrow> idx ! i = length ids" if "i < length idx" for i
  proof (rule entry_bye [OF assms(1)])
    show "idx ! i \<le> length ids" using assms(2) nth_mem [OF that] by blast
  qed
  then have "filter (\<lambda>i. entry_id ids (idx ! i) \<noteq> bye \<and> entry_id ids (idx ! (length idx - 1 - i)) \<noteq> bye) [0..<length idx div 2]
      = filter (\<lambda>i. idx ! i \<noteq> length ids \<and> idx ! (length idx - 1 - i) \<noteq> length ids) [0..<length idx div 2]"
    by (intro filter_cong) auto
  moreover have "rr_round (map (entry_id ids) idx) = map (\<lambda>i. \<lparr>rt1 = [entry_id ids (idx ! i)], rt2 = [entry_id ids (idx ! (length idx - 1 - i))]\<rparr>)
      (filter (\<lambda>i. entry_id ids (idx ! i) \<noteq> bye \<and> entry_id ids (idx ! (length idx - 1 - i)) \<noteq> bye) [0..<length idx div 2])"
    unfolding rr_round_def Let_def concat_map_if by (auto intro!: map_cong filter_cong)
  ultimately show ?thesis
    unfolding team_round_def Let_def concat_map_if by (simp add: named_def comp_def)
qed

lemma rounds_map:
  assumes "bye \<notin> set ids" "set idx \<subseteq> {..length ids}" "2 \<le> length idx"
  shows "rr_loop k (map (entry_id ids) idx) = map (map (named ids)) (team_rounds (length ids) k idx)"
  using assms(2,3)
proof (induction k arbitrary: idx)
  case (Suc k)
  have "set (team_rotate idx) \<subseteq> {..length ids}" "2 \<le> length (team_rotate idx)"
    using set_team_rotate [of idx] Suc.prems by auto
  then show ?case using Suc by (simp add: round_map [OF assms(1)] rotate_map)
qed simp

lemma rounds_are_singles:
  assumes "bye \<notin> set ids" "2 \<le> length ids"
  shows "map (map (named ids)) (roundRobinRounds (length ids)) = singlesRoundRobin ids"
proof -
  let ?m = "if length ids mod 2 = 1 then length ids + 1 else length ids"
  have p: "map (entry_id ids) [0..<?m] = (if length ids mod 2 = 1 then ids @ [bye] else ids)"
    by (auto simp: entry_id_def intro!: nth_equalityI simp: nth_append)
  have "rr_loop (?m - 1) (map (entry_id ids) [0..<?m]) = map (map (named ids)) (team_rounds (length ids) (?m - 1) [0..<?m])"
    by (rule rounds_map [OF assms(1)]) (use assms(2) in auto)
  then show ?thesis
    using assms(2) unfolding p roundRobinRounds_def singlesRoundRobin_def Let_def by (auto split: if_splits)
qed

lemma rounds_below:
  assumes "ps \<in> set (roundRobinRounds n)" "(i, j) \<in> set ps"
  shows "i < n \<and> j < n"
proof -
  have "i < n \<and> j < n" if "ps \<in> set (team_rounds n k idx)" "set idx \<subseteq> {..n}" "2 \<le> length idx" for k idx
    using that
  proof (induction k arbitrary: idx)
    case (Suc k)
    have R: "set (team_rotate idx) \<subseteq> {..n}" "2 \<le> length (team_rotate idx)" using set_team_rotate [of idx] Suc.prems by auto
    show ?case
    proof (cases "ps = team_round n idx")
      case True
      then obtain k where "k < length idx div 2" "i = idx ! k" "j = idx ! (length idx - 1 - k)" "i \<noteq> n" "j \<noteq> n"
        using assms(2) by (auto simp: team_round_def Let_def split: if_splits)
      moreover have "idx ! k \<in> set idx" "idx ! (length idx - 1 - k) \<in> set idx"
        using \<open>k < length idx div 2\<close> Suc.prems(3) by (auto intro!: nth_mem)
      ultimately show ?thesis using Suc.prems(2) by (metis atMost_iff le_neq_implies_less subsetD)
    next
      case False
      then show ?thesis using Suc.IH [OF _ R] Suc.prems(1) by simp
    qed
  qed simp
  note below = this
  let ?m = "if n mod 2 = 1 then n + 1 else n"
  have "ps \<in> set (team_rounds n (?m - 1) [0..<?m])" "2 \<le> n"
    using assms(1) by (auto simp: roundRobinRounds_def Let_def split: if_splits)
  then show ?thesis by (intro below) (auto split: if_splits)
qed

section \<open>The ties that are written\<close>

text \<open>Division, the two teams, and the slot of a tie.\<close>

type_synonym tie_plan = "string \<times> string \<times> string \<times> int"

definition plan_of :: "tie_row \<Rightarrow> tie_plan" where
  "plan_of t = (ti_bracket t, ti_a t, ti_b t, ti_order t)"

definition round_plan :: "string \<Rightarrow> string list \<Rightarrow> nat \<Rightarrow> nat \<Rightarrow> (nat \<times> nat) list \<Rightarrow> tie_plan list" where
  "round_plan bid ids base r ps = map (\<lambda>(i, j). (bid, ids ! i, ids ! j, int (base + r * 2))) ps"

definition division_plan :: "string \<Rightarrow> string list \<Rightarrow> nat \<Rightarrow> tie_plan list" where
  "division_plan bid ids base = concat (map (\<lambda>(r, ps). round_plan bid ids base r ps) (enumerate 0 (roundRobinRounds (length ids))))"

fun wave_plan :: "(string \<Rightarrow> string list) \<Rightarrow> string list \<Rightarrow> nat \<Rightarrow> tie_plan list" where
  "wave_plan ids [] base = []"
| "wave_plan ids (b # bs) base = (if length (ids b) < 2 then wave_plan ids bs base
    else division_plan b (ids b) base @ wave_plan ids bs (base + length (roundRobinRounds (length (ids b))) * 2))"

text \<open>What a stretch of the generation appends.\<close>

definition appends :: "team_env \<Rightarrow> string \<Rightarrow> tie_plan list \<Rightarrow> nat \<times> team_db \<Rightarrow> nat \<times> team_db \<Rightarrow> bool" where
  "appends V ev plan s s' \<longleftrightarrow> fst s' = fst s + length plan \<and> (\<exists>new. tb_ties (snd s') = tb_ties (snd s) @ new
    \<and> map plan_of new = plan \<and> (\<forall>t\<in>set new. ti_event t = ev \<and> ti_stage t = ''pool'' \<and> ti_winner t = [])
    \<and> (distinct (tie_keys (snd s)) \<longrightarrow> distinct (tie_keys (snd s'))))"

lemma appends_refl: "appends V ev [] s s"
  by (simp add: appends_def)

lemma appends_trans: "appends V ev p s t \<Longrightarrow> appends V ev q t u \<Longrightarrow> appends V ev (p @ q) s u"
  unfolding appends_def by (elim conjE exE) (rule conjI, simp, rule_tac x = "new @ newa" in exI, auto)

lemma createTie_appends:
  assumes "createTie V ev bid a b r ti base d = (Inr x, d')" "fresh_ties V"
  shows "appends V ev [(bid, fst a, fst b, int (base + r * 2))] (n, d) (n + 1, d')"
proof -
  have "tb_ties d' = tb_ties d @ [\<lparr>ti_id = tv_tieId V d, ti_event = ev, ti_stage = ''pool'', ti_bracket = bid, ti_a = fst a,
      ti_b = fst b, ti_status = TieScheduled, ti_winner = [], ti_order = int (base + r * 2)\<rparr>]"
    using assms(1) by (auto simp: createTie_def insert_tie_def write_lines_def Let_def split: sum.splits prod.splits)
  then show ?thesis using assms(2) by (auto simp: appends_def plan_of_def fresh_ties_def) metis
qed

lemma emit_round_appends:
  assumes "emit_round V ev bid teams base r ti ps (n, d) = (None, s')" "fresh_ties V" "\<forall>(i, j)\<in>set ps. i < length teams \<and> j < length teams"
  shows "appends V ev (round_plan bid (map fst teams) base r ps) (n, d) s'"
  using assms(1,3)
proof (induction ps arbitrary: ti n d)
  case (Cons p ps)
  obtain i j where p: "p = (i, j)" by fastforce
  obtain x d1 where c: "createTie V ev bid (teams ! i) (teams ! j) r ti base d = (Inr x, d1)"
    "emit_round V ev bid teams base r (ti + 1) ps (n + 1, d1) = (None, s')"
    using Cons.prems(1) by (auto simp: p split: prod.splits sum.splits)
  have "appends V ev ([(bid, fst (teams ! i), fst (teams ! j), int (base + r * 2))] @ round_plan bid (map fst teams) base r ps) (n, d) s'"
    by (rule appends_trans [OF createTie_appends [OF c(1) assms(2)] Cons.IH [OF c(2)]]) (use Cons.prems(2) in auto)
  then show ?case using Cons.prems(2) by (simp add: round_plan_def p)
qed (simp add: round_plan_def appends_refl)

lemma emit_rounds_appends:
  assumes "emit_rounds V ev bid teams base r rs s = (None, s')" "fresh_ties V"
    and "\<forall>ps\<in>set rs. \<forall>(i, j)\<in>set ps. i < length teams \<and> j < length teams"
  shows "appends V ev (concat (map (\<lambda>(r, ps). round_plan bid (map fst teams) base r ps) (enumerate r rs))) s s'"
  using assms(1,3)
proof (induction rs arbitrary: r s)
  case (Cons ps rs)
  obtain n d where s: "s = (n, d)" by fastforce
  obtain s1 where c: "emit_round V ev bid teams base r 0 ps (n, d) = (None, s1)"
    "emit_rounds V ev bid teams base (r + 1) rs s1 = (None, s')"
    using Cons.prems(1) by (auto simp: s split: prod.splits option.splits)
  have "appends V ev (round_plan bid (map fst teams) base r ps) (n, d) s1"
    by (rule emit_round_appends [OF c(1) assms(2)]) (use Cons.prems(2) in auto)
  then show ?case
    using appends_trans Cons.IH [OF c(2)] Cons.prems(2) by (simp add: s) 
qed (simp add: appends_refl)

lemma emit_waves_appends:
  assumes "emit_waves V ev byBracket bs base s = (None, s')" "fresh_ties V"
  shows "appends V ev (wave_plan (\<lambda>b. map fst (byBracket b)) bs base) s s'"
  using assms(1)
proof (induction bs arbitrary: base s)
  case (Cons b bs)
  let ?n = "length (byBracket b)"
  show ?case
  proof (cases "?n < 2")
    case True
    then show ?thesis using Cons by (simp add: Let_def)
  next
    case False
    then obtain s1 where c: "emit_rounds V ev b (byBracket b) base 0 (roundRobinRounds ?n) s = (None, s1)"
      "emit_waves V ev byBracket bs (base + length (roundRobinRounds ?n) * 2) s1 = (None, s')"
      using Cons.prems by (auto simp: Let_def split: prod.splits option.splits)
    have "appends V ev (division_plan b (map fst (byBracket b)) base) s s1"
      unfolding division_plan_def length_map by (rule emit_rounds_appends [OF c(1) assms(2)]) (use rounds_below in blast)
    then show ?thesis using appends_trans Cons.IH [OF c(2)] False by simp
  qed
qed (simp add: appends_refl)

section \<open>What the plan is\<close>

definition plan_pair :: "tie_plan \<Rightarrow> string set" where
  "plan_pair p = (case p of (b, x, y, s) \<Rightarrow> {x, y})"

definition plan_slot :: "tie_plan \<Rightarrow> int" where
  "plan_slot p = snd (snd (snd p))"

definition clash_free :: "tie_plan list \<Rightarrow> bool" where
  "clash_free ps \<longleftrightarrow> sorted_wrt (\<lambda>p q. plan_slot p = plan_slot q \<longrightarrow> plan_pair p \<inter> plan_pair q = {}) ps"

lemma round_plan_pairs:
  assumes "\<forall>(i, j)\<in>set ps. i < length ids \<and> j < length ids"
  shows "map plan_pair (round_plan bid ids base r ps) = map (\<lambda>m. set (match_players m)) (map (named ids) ps)"
  using assms by (auto simp: round_plan_def plan_pair_def match_players_def named_def entry_id_def)

lemma division_plan_pairs:
  assumes "bye \<notin> set ids" "2 \<le> length ids"
  shows "map plan_pair (division_plan bid ids base) = map (\<lambda>m. set (match_players m)) (concat (singlesRoundRobin ids))"
proof -
  have "map plan_pair (concat (map (\<lambda>(r, ps). round_plan bid ids base r ps) (enumerate k rs)))
      = map (\<lambda>m. set (match_players m)) (concat (map (map (named ids)) rs))"
    if "\<forall>ps\<in>set rs. \<forall>(i, j)\<in>set ps. i < length ids \<and> j < length ids" for k rs
    using that by (induction rs arbitrary: k) (simp_all add: round_plan_pairs del: map_map)
  then show ?thesis
    unfolding division_plan_def rounds_are_singles [OF assms, symmetric] using rounds_below by blast
qed

lemma division_plan_slots:
  assumes "p \<in> set (division_plan bid ids base)"
  shows "fst p = bid \<and> int base \<le> plan_slot p \<and> plan_slot p < int (base + length (roundRobinRounds (length ids)) * 2)"
  using assms by (auto simp: division_plan_def round_plan_def plan_slot_def in_set_enumerate_eq)

lemma division_plan_clash_free:
  assumes "bye \<notin> set ids" "distinct ids" "2 \<le> length ids"
  shows "clash_free (division_plan bid ids base)"
  unfolding clash_free_def division_plan_def
proof (rule sorted_wrt_concat)
  let ?P = "\<lambda>p q. plan_slot p = plan_slot q \<longrightarrow> plan_pair p \<inter> plan_pair q = {}"
  let ?rs = "enumerate 0 (roundRobinRounds (length ids))"
  show "sorted_wrt ?P xs" if plan: "xs \<in> set (map (\<lambda>(r, ps). round_plan bid ids base r ps) ?rs)" for xs
  proof -
    from plan obtain r ps where xs: "xs = round_plan bid ids base r ps" "ps \<in> set (roundRobinRounds (length ids))"
      by (auto simp: in_set_enumerate_eq)
    have "map (named ids) ps \<in> set (singlesRoundRobin ids)"
      unfolding rounds_are_singles [OF assms(1,3), symmetric] using xs(2) by simp
    then have d: "distinct (concat (map match_players (map (named ids) ps)))"
      by (rule rr_round_players_distinct [OF assms(2,1)])
    have disj: "sorted_wrt (\<lambda>m m'. set (match_players m) \<inter> set (match_players m') = {}) ms"
      if "distinct (concat (map match_players ms))" for ms
      using that by (induction ms) auto
    have "sorted_wrt (\<lambda>A B. A \<inter> B = {}) (map (\<lambda>m. set (match_players m)) (map (named ids) ps))"
      using disj [OF d] by (simp only: sorted_wrt_map)
    moreover have "map plan_pair xs = map (\<lambda>m. set (match_players m)) (map (named ids) ps)"
      unfolding xs(1) by (rule round_plan_pairs) (use rounds_below [OF xs(2)] in blast)
    ultimately have "sorted_wrt (\<lambda>A B. A \<inter> B = {}) (map plan_pair xs)" by (simp only:)
    then have "sorted_wrt (\<lambda>p q. plan_pair p \<inter> plan_pair q = {}) xs" by (simp only: sorted_wrt_map)
    then show ?thesis by (rule sorted_wrt_mono_rel [rotated]) simp
  qed
  have "sorted_wrt (\<lambda>x y. fst x < fst y) ?rs" by (simp add: sorted_wrt_iff_nth_less nth_enumerate_eq)
  then show "sorted_wrt (\<lambda>xs ys. \<forall>x\<in>set xs. \<forall>y\<in>set ys. ?P x y) (map (\<lambda>(r, ps). round_plan bid ids base r ps) ?rs)"
    unfolding sorted_wrt_map by (rule sorted_wrt_mono_rel [rotated]) (auto simp: round_plan_def plan_slot_def)
qed

lemma wave_plan_mem:
  assumes "p \<in> set (wave_plan ids bs base)"
  shows "int base \<le> plan_slot p \<and> fst p \<in> set bs \<and> 2 \<le> length (ids (fst p))
    \<and> plan_pair p \<in> set (map plan_pair (division_plan (fst p) (ids (fst p)) 0))"
  using assms
proof (induction bs arbitrary: base)
  case (Cons b bs)
  have pairs: "map plan_pair (division_plan c xs base) = map plan_pair (division_plan c xs 0)" for c xs base
    by (auto simp: division_plan_def round_plan_def plan_pair_def map_concat intro!: arg_cong [of _ _ concat])
  show ?case
  proof (cases "length (ids b) < 2 \<or> p \<notin> set (division_plan b (ids b) base)")
    case True
    then show ?thesis using Cons.IH [of base] Cons.IH [of "base + length (roundRobinRounds (length (ids b))) * 2"] Cons.prems
      by (auto split: if_splits)
  next
    case False
    then have p: "fst p = b" "int base \<le> plan_slot p" using division_plan_slots [of p b "ids b" base] by auto
    have "plan_pair p \<in> set (map plan_pair (division_plan b (ids b) base))" using False by simp
    then show ?thesis using False p unfolding pairs [of b "ids b" base] by simp
  qed
qed simp

lemma wave_plan_has:
  assumes "b \<in> set bs" "2 \<le> length (ids b)" "A \<in> set (map plan_pair (division_plan b (ids b) 0))"
  shows "\<exists>p\<in>set (wave_plan ids bs base). fst p = b \<and> plan_pair p = A"
  using assms(1)
proof (induction bs arbitrary: base)
  case (Cons c bs)
  have pairs: "map plan_pair (division_plan b (ids b) base) = map plan_pair (division_plan b (ids b) 0)"
    by (auto simp: division_plan_def round_plan_def plan_pair_def map_concat intro!: arg_cong [of _ _ concat])
  show ?case
  proof (cases "b = c")
    case True
    have "A \<in> set (map plan_pair (division_plan b (ids b) base))" using assms(3) pairs by simp
    then obtain p where "p \<in> set (division_plan b (ids b) base)" "plan_pair p = A" by auto
    then show ?thesis using division_plan_slots [of p b "ids b" base] True assms(2) by auto
  next
    case False
    then show ?thesis using Cons.IH Cons.prems by (auto split: if_splits)
  qed
qed simp

lemma wave_plan_clash_free:
  assumes "\<And>b. distinct (ids b) \<and> bye \<notin> set (ids b)" "distinct bs"
  shows "clash_free (wave_plan ids bs base)"
  using assms(2)
proof (induction bs arbitrary: base)
  case (Cons b bs)
  show ?case
  proof (cases "length (ids b) < 2")
    case False
    let ?next = "base + length (roundRobinRounds (length (ids b))) * 2"
    have "plan_slot p \<noteq> plan_slot q" if "p \<in> set (division_plan b (ids b) base)" "q \<in> set (wave_plan ids bs ?next)" for p q
      using division_plan_slots [OF that(1)] wave_plan_mem [OF that(2)] by linarith
    then show ?thesis
      using False Cons.IH [of ?next] Cons.prems division_plan_clash_free [of "ids b" b base] assms(1) [of b]
      by (simp add: clash_free_def sorted_wrt_append)
  qed (use Cons in simp)
qed (simp add: clash_free_def)

lemma wave_plan_distinct:
  assumes "\<And>b. distinct (ids b) \<and> bye \<notin> set (ids b)" "distinct bs"
    and "\<And>b c. b \<noteq> c \<Longrightarrow> set (ids b) \<inter> set (ids c) = {}"
  shows "distinct (map plan_pair (wave_plan ids bs base))"
  using assms(2)
proof (induction bs arbitrary: base)
  case (Cons b bs)
  show ?case
  proof (cases "length (ids b) < 2")
    case False
    let ?next = "base + length (roundRobinRounds (length (ids b))) * 2"
    have pairs: "set (map plan_pair (division_plan c (ids c) k)) = {{x, y} | x y. x \<in> set (ids c) \<and> y \<in> set (ids c) \<and> x \<noteq> y}"
      if "2 \<le> length (ids c)" for c k
      using rr_meetings_set [of "ids c"] assms(1) [of c] division_plan_pairs [of "ids c" c k] that by (simp del: set_map)
    have "plan_pair p \<noteq> plan_pair q" if pq: "p \<in> set (division_plan b (ids b) base)" "q \<in> set (wave_plan ids bs ?next)" for p q
    proof -
      have "plan_pair p \<in> set (map plan_pair (division_plan b (ids b) base))" using pq(1) by simp
      then have p: "plan_pair p \<subseteq> set (ids b)" "plan_pair p \<noteq> {}" using pairs [of b base] False by auto
      note q = wave_plan_mem [OF pq(2)]
      then have "plan_pair q \<subseteq> set (ids (fst q))" using pairs [of "fst q" 0] by auto
      moreover have "fst q \<noteq> b" using q Cons.prems by auto
      ultimately show ?thesis using p assms(3) [of b "fst q"] by auto
    qed
    moreover have "distinct (map plan_pair (division_plan b (ids b) base))"
      using division_plan_pairs [of "ids b" b base] rr_meetings_distinct [of "ids b"] assms(1) [of b] False by simp
    ultimately show ?thesis using False Cons.IH [of ?next] Cons.prems by auto
  qed (use Cons in simp)
qed simp

section \<open>The schedule of an event\<close>

definition event_division :: "string \<Rightarrow> team_db \<Rightarrow> team_row \<Rightarrow> string" where
  "event_division ev d = division_of_team (case GetBrackets ev d of [] \<Rightarrow> [] | b # _ \<Rightarrow> dv_id b)"

definition division_teams :: "string \<Rightarrow> team_db \<Rightarrow> string \<Rightarrow> string list" where
  "division_teams ev d b = map te_id (filter (\<lambda>t. event_division ev d t = b) (event_teams ev d))"

lemma generate_appends:
  assumes run: "GenerateTeamTies V ev d = (Inr n, d')" and V: "fresh_ties V"
  shows "\<exists>bs. appends V ev (wave_plan (division_teams ev d) bs 0)
      (0, delete_ties (ti_id ` set (filter (\<lambda>t. ti_event t = ev \<and> ti_id t \<noteq> []) (tb_ties d))) d) (n, d')
    \<and> bs = map dv_id (sort_by start_before (GetBrackets ev d))
        @ tv_mapOrder V (filter (\<lambda>b. b \<notin> dv_id ` set (GetBrackets ev d)) (remdups (map (event_division ev d) (event_teams ev d))))"
proof -
  let ?teams = "ListTeams ev d"
  define fallback where "fallback = (case GetBrackets ev d of [] \<Rightarrow> [] | b # _ \<Rightarrow> dv_id b)"
  let ?bs = "map dv_id (sort_by start_before (GetBrackets ev d)) @ tv_mapOrder V (filter (\<lambda>b. b \<notin> set (map dv_id
    (sort_by start_before (GetBrackets ev d)))) (remdups (map (division_of_team fallback \<circ> fst) ?teams)))"
  have "emit_waves V ev (\<lambda>b. map (\<lambda>(t, ms). (te_id t, ms)) (filter (\<lambda>(t, ms). division_of_team fallback t = b) ?teams)) ?bs 0
      (0, delete_ties (ti_id ` set (filter (\<lambda>t. ti_event t = ev \<and> ti_id t \<noteq> []) (tb_ties d))) d) = (None, n, d')"
    using run unfolding GenerateTeamTies_def Let_def fallback_def [symmetric]
    by (simp split: if_splits option.splits sum.splits prod.splits)
  from emit_waves_appends [OF this V]
  have "appends V ev (wave_plan (\<lambda>b. map fst (map (\<lambda>(t, ms). (te_id t, ms)) (filter (\<lambda>(t, ms). division_of_team fallback t = b) ?teams))) ?bs 0)
      (0, delete_ties (ti_id ` set (filter (\<lambda>t. ti_event t = ev \<and> ti_id t \<noteq> []) (tb_ties d))) d) (n, d')" .
  moreover have "map fst (map (\<lambda>(t, ms). (te_id t, ms)) (filter (\<lambda>(t, ms). division_of_team fallback t = b) ?teams)) = division_teams ev d b" for b
    by (simp add: division_teams_def event_division_def fallback_def ListTeams_def filter_map comp_def case_prod_unfold)
  moreover have "map (division_of_team fallback \<circ> fst) ?teams = map (event_division ev d) (event_teams ev d)"
    by (simp add: ListTeams_def comp_def event_division_def fallback_def)
  moreover have "set (map dv_id (sort_by start_before (GetBrackets ev d))) = dv_id ` set (GetBrackets ev d)" by simp
  ultimately show ?thesis by auto
qed

lemma generated_ties:
  assumes run: "GenerateTeamTies V ev d = (Inr n, d')" and V: "fresh_ties V" and ids: "distinct (tie_keys d)"
  shows "filter (\<lambda>t. ti_event t \<noteq> ev) (tb_ties d') = filter (\<lambda>t. ti_event t \<noteq> ev) (tb_ties d)"
    and "distinct (tie_keys d')"
    and "\<exists>bs. map plan_of (filter (\<lambda>t. ti_event t = ev) (tb_ties d')) = wave_plan (division_teams ev d) bs 0
      \<and> n = length (filter (\<lambda>t. ti_event t = ev) (tb_ties d'))
      \<and> bs = map dv_id (sort_by start_before (GetBrackets ev d))
        @ tv_mapOrder V (filter (\<lambda>b. b \<notin> dv_id ` set (GetBrackets ev d)) (remdups (map (event_division ev d) (event_teams ev d))))"
    and "\<forall>t\<in>set (tb_ties d'). ti_event t = ev \<longrightarrow> ti_stage t = ''pool'' \<and> ti_winner t = []"
proof -
  let ?gone = "ti_id ` set (filter (\<lambda>t. ti_event t = ev \<and> ti_id t \<noteq> []) (tb_ties d))"
  let ?d1 = "delete_ties ?gone d"
  obtain bs where a: "appends V ev (wave_plan (division_teams ev d) bs 0) (0, ?d1) (n, d')"
    and bs: "bs = map dv_id (sort_by start_before (GetBrackets ev d))
        @ tv_mapOrder V (filter (\<lambda>b. b \<notin> dv_id ` set (GetBrackets ev d)) (remdups (map (event_division ev d) (event_teams ev d))))"
    using generate_appends [OF run V] by (elim exE conjE) (rule that)
  have "tb_ties ?d1 = filter (\<lambda>t. ti_event t \<noteq> ev) (tb_ties d)"
    unfolding delete_ties_of
  proof (rule filter_cong [OF HOL.refl])
    fix t assume t: "t \<in> set (tb_ties d)"
    have same: "s = t" if "s \<in> set (tb_ties d)" "ti_id s = ti_id t" for s
      using ids t that by (simp add: distinct_map inj_on_def)
    have "ti_id t \<noteq> []" using ids imageI [OF t, of ti_id] by auto
    then have "ti_id t \<in> ?gone" if "ti_event t = ev" using t that by simp
    moreover have "ti_event t = ev" if gone: "ti_id t \<in> ?gone"
    proof -
      obtain s where s: "s \<in> set (filter (\<lambda>t. ti_event t = ev \<and> ti_id t \<noteq> []) (tb_ties d))" "ti_id t = ti_id s" using gone by (rule imageE)
      from s(1) have "s \<in> set (tb_ties d)" by simp
      from same [OF this s(2) [symmetric]] show ?thesis using s(1) by simp
    qed
    ultimately show "(ti_id t \<notin> ?gone) = (ti_event t \<noteq> ev)" by blast
  qed
  moreover have "distinct (tie_keys ?d1)" using ids by (rule keys_delete)
  moreover obtain new where new: "tb_ties d' = tb_ties ?d1 @ new" "map plan_of new = wave_plan (division_teams ev d) bs 0"
    "\<forall>t\<in>set new. ti_event t = ev \<and> ti_stage t = ''pool'' \<and> ti_winner t = []"
    "distinct (tie_keys ?d1) \<longrightarrow> distinct (tie_keys d')" "n = length (wave_plan (division_teams ev d) bs 0)"
    using a unfolding appends_def fst_conv snd_conv add_0 by blast
  moreover have "filter (\<lambda>t. ti_event t \<noteq> ev) new = []" "filter (\<lambda>t. ti_event t = ev) new = new"
    using new(3) by (simp_all add: filter_empty_conv)
  ultimately show "filter (\<lambda>t. ti_event t \<noteq> ev) (tb_ties d') = filter (\<lambda>t. ti_event t \<noteq> ev) (tb_ties d)"
    "distinct (tie_keys d')" "\<forall>t\<in>set (tb_ties d'). ti_event t = ev \<longrightarrow> ti_stage t = ''pool'' \<and> ti_winner t = []"
    by auto
  have "filter (\<lambda>t. ti_event t = ev) (tb_ties d') = new"
    using \<open>tb_ties ?d1 = _\<close> new(1) \<open>filter (\<lambda>t. ti_event t = ev) new = new\<close> by simp
  then show "\<exists>bs. map plan_of (filter (\<lambda>t. ti_event t = ev) (tb_ties d')) = wave_plan (division_teams ev d) bs 0
      \<and> n = length (filter (\<lambda>t. ti_event t = ev) (tb_ties d')) \<and> bs = map dv_id (sort_by start_before (GetBrackets ev d))
        @ tv_mapOrder V (filter (\<lambda>b. b \<notin> dv_id ` set (GetBrackets ev d)) (remdups (map (event_division ev d) (event_teams ev d))))"
    using new(2,5) bs by (metis length_map)
qed


end
