(* ===== verification/Team_Lines.thy ===== *)
theory Team_Lines
  imports Team_Schedule
begin

text \<open>
  The lines of a generated schedule: every tie has its four lines, each with a legal line-up of its own team's
  players, and the two doubles that are played at the same time share nobody.
\<close>

section \<open>Legal line-ups\<close>

lemma validate_pair:
  assumes "x \<noteq> y" "roster x = Some g" "roster y = Some h"
    and "lt = ''wd'' \<and> g = ''F'' \<and> h = ''F'' \<or> lt = ''md'' \<and> g = ''M'' \<and> h = ''M'' \<or> (lt = ''mx1'' \<or> lt = ''mx2'') \<and> g = ''M'' \<and> h = ''F''"
  shows "validateLineup lt [x, y] roster = None"
  using assms by (auto simp: validateLineup_def lineGenderReq_def)

definition one_roster :: "string \<Rightarrow> team_db \<Rightarrow> bool" where
  "one_roster ev d \<longleftrightarrow> distinct (map tm_player (filter (\<lambda>m. tm_player m \<noteq> [] \<and> tm_team m \<in> te_id ` set (event_teams ev d)) (tb_members d)))"

lemma team_players_distinct:
  assumes "one_roster ev d" "i \<in> te_id ` set (event_teams ev d)"
  shows "distinct (map tm_player (filter (\<lambda>m. tm_team m = i \<and> tm_player m \<noteq> []) (tb_members d)))"
proof -
  have "filter (\<lambda>m. tm_team m = i \<and> tm_player m \<noteq> []) (tb_members d)
      = filter (\<lambda>m. tm_team m = i) (filter (\<lambda>m. tm_player m \<noteq> [] \<and> tm_team m \<in> te_id ` set (event_teams ev d)) (tb_members d))"
    using assms(2) by (auto intro!: filter_cong)
  then show ?thesis using assms(1) unfolding one_roster_def by (simp only: distinct_map_filter)
qed

lemma gender_map:
  assumes "one_roster ev d" "i \<in> te_id ` set (event_teams ev d)" "m \<in> set (tb_members d)" "tm_team m = i" "tm_player m \<noteq> []"
  shows "teamGenderMap i d (tm_player m) = Some (tm_gender m)"
proof -
  let ?ms = "filter (\<lambda>m. tm_team m = i \<and> tm_player m \<noteq> []) (tb_members d)"
  have "distinct (map fst (rev (map (\<lambda>m. (tm_player m, tm_gender m)) ?ms)))"
    using team_players_distinct [OF assms(1,2)] by (simp add: comp_def flip: rev_map)
  moreover have "(tm_player m, tm_gender m) \<in> set (rev (map (\<lambda>m. (tm_player m, tm_gender m)) ?ms))" using assms(3-5) by auto
  ultimately show ?thesis unfolding teamGenderMap_def by (rule map_of_is_SomeI)
qed

lemma nth_apart: "distinct xs \<Longrightarrow> i < length xs \<Longrightarrow> j < length xs \<Longrightarrow> i \<noteq> j \<Longrightarrow> xs ! i \<noteq> xs ! j"
  by (simp add: nth_eq_iff_index_eq)

definition legal_side :: "lineup \<Rightarrow> (pid \<rightharpoonup> string) \<Rightarrow> bool" where
  "legal_side u roster \<longleftrightarrow> validateLineup ''wd'' (lu_wd u) roster = None \<and> validateLineup ''md'' (lu_md u) roster = None
    \<and> validateLineup ''mx1'' (lu_mx1 u) roster = None \<and> validateLineup ''mx2'' (lu_mx2 u) roster = None"

definition lineup_ids :: "lineup \<Rightarrow> pid list" where
  "lineup_ids u = lu_wd u @ lu_md u @ lu_mx1 u @ lu_mx2 u"

lemma lineup_legal:
  assumes ros: "one_roster ev d" "i \<in> te_id ` set (event_teams ev d)" and run: "teamLineup (team_members i d) = Inr (men, women)"
  defines "u \<equiv> lineupSet men women"
  shows "legal_side u (teamGenderMap i d)" "[] \<notin> set (lineup_ids u)"
    and "set (lineup_ids u) \<subseteq> tm_player ` {m \<in> set (tb_members d). tm_team m = i \<and> tm_player m \<noteq> []}"
    and "distinct (lu_wd u @ lu_md u)" "distinct (lu_mx1 u @ lu_mx2 u)"
proof -
  let ?G = "\<lambda>g. of_gender g (team_members i d)"
  have mw: "men = ?G ''M''" "women = ?G ''F''" "2 \<le> length men" "2 \<le> length women"
    using run by (auto simp: teamLineup_def Let_def split: if_splits)
  have mem: "\<exists>m\<in>set (tb_members d). tm_team m = i \<and> tm_player m = p \<and> tm_gender m = g \<and> p \<noteq> []" if "p \<in> set (?G g)" for g p
    using that by (auto simp: of_gender_def team_members_def)
  have gm: "teamGenderMap i d p = Some g" if p: "p \<in> set (?G g)" for g p
  proof -
    obtain m where "m \<in> set (tb_members d)" "tm_team m = i" "tm_player m = p" "tm_gender m = g" "p \<noteq> []" using mem [OF p] by blast
    then show ?thesis using gender_map [OF ros, of m] by simp
  qed
  have dist: "distinct (?G g)" for g
  proof -
    let ?ms = "filter (\<lambda>m. tm_team m = i \<and> tm_player m \<noteq> []) (tb_members d)"
    have "mset (map tm_player (filter (\<lambda>m. tm_player m \<noteq> []) (team_members i d))) = mset (map tm_player ?ms)"
      by (simp add: team_members_def mset_filter filter_filter_mset conj_commute)
    then have "distinct (map tm_player (filter (\<lambda>m. tm_player m \<noteq> []) (team_members i d)))"
      using team_players_distinct [OF ros] mset_eq_imp_distinct_iff by blast
    then have "distinct (map tm_player (filter (\<lambda>m. tm_gender m = g) (filter (\<lambda>m. tm_player m \<noteq> []) (team_members i d))))"
      by (rule distinct_map_filter)
    then show ?thesis by (simp add: of_gender_def conj_commute)
  qed
  have cross: "x \<noteq> y" if "x \<in> set men" "y \<in> set women" for x y
    using gm [of x "''M''"] gm [of y "''F''"] that mw by auto
  then have sep: "x \<notin> set women" if "x \<in> set men" for x using that by blast
  have ix: "men ! 0 \<in> set men" "men ! 1 \<in> set men" "women ! 0 \<in> set women" "women ! 1 \<in> set women"
    using mw(3,4) by (auto intro!: nth_mem)
  have ix3: "length men \<ge> 3 \<Longrightarrow> men ! 2 \<in> set men" "length women \<ge> 3 \<Longrightarrow> women ! 2 \<in> set women" by auto
  have d: "distinct men" "distinct women" using dist mw by simp_all
  have some: "men \<noteq> []" "women \<noteq> []" using mw(3,4) by auto
  have ne: "men ! 0 \<noteq> men ! 1" "women ! 0 \<noteq> women ! 1" "length men \<ge> 3 \<Longrightarrow> men ! 2 \<noteq> men ! 0" "length women \<ge> 3 \<Longrightarrow> women ! 2 \<noteq> women ! 0"
    using mw(3,4) some nth_apart [OF d(1), of 0 1] nth_apart [OF d(1), of 2 0] nth_apart [OF d(2), of 0 1] nth_apart [OF d(2), of 2 0]
    by simp_all
  obtain m1 m2 where m: "(if length men \<ge> 3 then (men ! 2, men ! 0) else (men ! 0, men ! 1)) = (m1, m2)" by fastforce
  obtain w1 w2 where w: "(if length women \<ge> 3 then (women ! 2, women ! 0) else (women ! 0, women ! 1)) = (w1, w2)" by fastforce
  have m12: "m1 \<in> set men" "m2 \<in> set men" "m1 \<noteq> m2" using m ix ix3 ne by (auto split: if_splits)
  have w12: "w1 \<in> set women" "w2 \<in> set women" "w1 \<noteq> w2" using w ix ix3 ne by (auto split: if_splits)
  have u: "u = \<lparr>lu_wd = [women ! 0, women ! 1], lu_md = [men ! 0, men ! 1], lu_mx1 = [m1, w1], lu_mx2 = [m2, w2]\<rparr>"
    by (simp add: u_def lineupSet_def m w)
  have gM: "x \<in> set men \<Longrightarrow> teamGenderMap i d x = Some ''M''" and gF: "x \<in> set women \<Longrightarrow> teamGenderMap i d x = Some ''F''" for x
    using gm mw by simp_all
  show "legal_side u (teamGenderMap i d)"
    unfolding legal_side_def u lineup.simps using ix m12 w12 ne(1,2) cross gM gF by (intro conjI validate_pair) auto
  have sub: "set (lineup_ids u) \<subseteq> set men \<union> set women" using ix m12 w12 by (simp add: lineup_ids_def u)
  show "set (lineup_ids u) \<subseteq> tm_player ` {m \<in> set (tb_members d). tm_team m = i \<and> tm_player m \<noteq> []}"
    using sub mem mw(1,2) by blast
  then show "[] \<notin> set (lineup_ids u)" by auto
  show "distinct (lu_wd u @ lu_md u)" "distinct (lu_mx1 u @ lu_mx2 u)"
    using ix m12 w12 ne(1,2) sep by (auto simp: u)
qed

section \<open>Writing a line\<close>

definition fresh_lines :: "team_env \<Rightarrow> bool" where
  "fresh_lines V \<longleftrightarrow> (\<forall>d. tv_matchId V d \<notin> m_id ` set (db_matches d) \<and> tv_matchId V d \<notin> p_match ` set (db_parts d))"

lemma upsert_new:
  assumes "\<forall>r\<in>set rows. p_match r = i" "distinct (map p_player rows)" "\<forall>q\<in>set ps. p_match q = i \<longrightarrow> p_player q \<notin> p_player ` set rows"
  shows "fold upsert_part rows ps = ps @ rows"
  using assms
proof (induction rows arbitrary: ps)
  case (Cons r rows)
  have "upsert_part r ps = ps @ [r]" using Cons.prems by (auto simp: upsert_part_def)
  then show ?case using Cons.IH [of "ps @ [r]"] Cons.prems by auto
qed simp

lemma createTieLine_effect:
  assumes "fresh_lines V" "distinct (t1 @ t2)" "[] \<notin> set (t1 @ t2)"
  shows "createTieLine V ev bid tie lt po court t1 t2 d
    = d\<lparr>db_matches := db_matches d @ [line_row (tv_matchId V d) ev bid tie lt po court],
        db_parts := db_parts d @ line_parts (tv_matchId V d) t1 t2\<rparr>"
proof -
  have f: "filter (\<lambda>p. p \<noteq> []) t1 = t1" "filter (\<lambda>p. p \<noteq> []) t2 = t2" using assms(3) by (auto simp: filter_id_conv)
  have "fold upsert_part (line_parts (tv_matchId V d) t1 t2) (db_parts d) = db_parts d @ line_parts (tv_matchId V d) t1 t2"
  proof (rule upsert_new [where i = "tv_matchId V d"])
    have "p_match q \<noteq> tv_matchId V d" if "q \<in> set (db_parts d)" for q
      using assms(1) imageI [OF that, of p_match] unfolding fresh_lines_def by metis
    then show "\<forall>q\<in>set (db_parts d). p_match q = tv_matchId V d
        \<longrightarrow> p_player q \<notin> p_player ` set (line_parts (tv_matchId V d) t1 t2)" by blast
  qed (use assms in \<open>auto simp: line_parts_def comp_def\<close>)
  then show ?thesis by (simp add: createTieLine_def Let_def f upsert_parts_def)
qed

lemma slot_of_new:
  assumes "i \<notin> p_match ` set ps"
  shows "map p_player (filter (\<lambda>p. p_match p = i \<and> p_team p = 1) (ps @ line_parts i t1 t2)) = t1"
    and "map p_player (filter (\<lambda>p. p_match p = i \<and> p_team p = 2) (ps @ line_parts i t1 t2)) = t2"
proof -
  have "filter (\<lambda>p. p_match p = i \<and> p_team p = k) ps = []" for k using assms by (auto simp: filter_empty_conv)
  then show "map p_player (filter (\<lambda>p. p_match p = i \<and> p_team p = 1) (ps @ line_parts i t1 t2)) = t1"
    "map p_player (filter (\<lambda>p. p_match p = i \<and> p_team p = 2) (ps @ line_parts i t1 t2)) = t2"
    by (simp_all add: line_parts_def filter_map comp_def)
qed

text \<open>A line that stays as it was.\<close>

definition line_kept :: "db \<Rightarrow> db \<Rightarrow> bool" where
  "line_kept d d' \<longleftrightarrow> (\<exists>ms. db_matches d' = db_matches d @ ms \<and> (\<forall>m\<in>set ms. m_id m \<notin> m_id ` set (db_matches d)))
    \<and> (\<forall>i\<in>m_id ` set (db_matches d). \<forall>k. slotPlayers i k d' = slotPlayers i k d)"

lemma line_kept_refl: "line_kept d d"
  by (simp add: line_kept_def)

lemma line_kept_trans: "line_kept a b \<Longrightarrow> line_kept b c \<Longrightarrow> line_kept a c"
  unfolding line_kept_def by (elim conjE exE, intro conjI, rule_tac x = "ms @ msa" in exI) auto

lemma createTieLine_kept:
  assumes "fresh_lines V" "distinct (t1 @ t2)" "[] \<notin> set (t1 @ t2)"
  shows "line_kept d (createTieLine V ev bid tie lt po court t1 t2 d)"
proof -
  have "tv_matchId V d \<noteq> i" if "i \<in> m_id ` set (db_matches d)" for i using assms(1) that by (auto simp: fresh_lines_def)
  then show ?thesis
    unfolding createTieLine_effect [OF assms] line_kept_def
    by (auto simp: slotPlayers_def line_row_def line_parts_def filter_empty_conv)
qed

section \<open>The four lines of a tie\<close>

text \<open>
  The lines of a tie as they stand in the tables: men's and women's doubles in one slot, the two mixed in the next,
  every line-up legal for its own team, and nobody on both doubles or on both mixed.
\<close>

definition tie_lines_ok :: "team_db \<Rightarrow> tie_row \<Rightarrow> bool" where
  "tie_lines_ok d t \<longleftrightarrow> (let ls = filter (\<lambda>m. m_tie m = ti_id t) (db_matches (tb_db d));
      side = (\<lambda>k m. slotPlayers (m_id m) k (tb_db d)) in
    map m_line ls = [''md'', ''wd'', ''mx1'', ''mx2'']
    \<and> map m_order ls = [Some (ti_order t), Some (ti_order t), Some (ti_order t + 1), Some (ti_order t + 1)]
    \<and> list_all (\<lambda>m. validateLineup (m_line m) (side 1 m) (teamGenderMap (ti_a t) d) = None
        \<and> validateLineup (m_line m) (side 2 m) (teamGenderMap (ti_b t) d) = None) ls
    \<and> distinct (side 1 (ls ! 0) @ side 2 (ls ! 0) @ side 1 (ls ! 1) @ side 2 (ls ! 1))
    \<and> distinct (side 1 (ls ! 2) @ side 2 (ls ! 2) @ side 1 (ls ! 3) @ side 2 (ls ! 3)))"

definition keeps_lines :: "team_db \<Rightarrow> team_db \<Rightarrow> bool" where
  "keeps_lines d d' \<longleftrightarrow> tb_members d' = tb_members d \<and> tb_teams d' = tb_teams d
    \<and> (\<exists>ms. db_matches (tb_db d') = db_matches (tb_db d) @ ms \<and> (\<forall>m\<in>set ms. m_tie m \<notin> ti_id ` set (tb_ties d)))
    \<and> (\<forall>i\<in>m_id ` set (db_matches (tb_db d)). \<forall>k. slotPlayers i k (tb_db d') = slotPlayers i k (tb_db d))"

lemma keeps_tie:
  assumes "keeps_lines d d'" "tie_lines_ok d t" "t \<in> set (tb_ties d)"
  shows "tie_lines_ok d' t"
proof -
  obtain ms where ms: "db_matches (tb_db d') = db_matches (tb_db d) @ ms" "\<forall>m\<in>set ms. m_tie m \<notin> ti_id ` set (tb_ties d)"
    using assms(1) by (auto simp: keeps_lines_def)
  have "filter (\<lambda>m. m_tie m = ti_id t) ms = []" using ms(2) assms(3) by (auto simp: filter_empty_conv)
  then have ls: "filter (\<lambda>m. m_tie m = ti_id t) (db_matches (tb_db d')) = filter (\<lambda>m. m_tie m = ti_id t) (db_matches (tb_db d))"
    by (simp add: ms(1))
  let ?ls = "filter (\<lambda>m. m_tie m = ti_id t) (db_matches (tb_db d))"
  have side: "slotPlayers (m_id m) k (tb_db d') = slotPlayers (m_id m) k (tb_db d)" if "m \<in> set ?ls" for m k
    using assms(1) that by (auto simp: keeps_lines_def)
  have "map m_line ?ls = [''md'', ''wd'', ''mx1'', ''mx2'']" using assms(2) by (simp add: tie_lines_ok_def Let_def)
  from arg_cong [OF this, of length] have "length ?ls = 4" by simp
  then have "i < 4 \<Longrightarrow> ?ls ! i \<in> set ?ls" for i using nth_mem [of i ?ls] by (simp only:)
  then have "?ls ! 0 \<in> set ?ls" "?ls ! 1 \<in> set ?ls" "?ls ! 2 \<in> set ?ls" "?ls ! 3 \<in> set ?ls" by simp_all
  moreover have "teamGenderMap i d' = teamGenderMap i d" for i using assms(1) by (simp add: teamGenderMap_def keeps_lines_def)
  ultimately show ?thesis
    using assms(2) side unfolding tie_lines_ok_def Let_def ls by (simp add: list_all_iff)
qed

definition no_orphans :: "team_db \<Rightarrow> bool" where
  "no_orphans d \<longleftrightarrow> (\<forall>m\<in>set (db_matches (tb_db d)). m_tie m = [] \<or> m_tie m \<in> ti_id ` set (tb_ties d))"

text \<open>The four inserts, one after the other.\<close>

lemma write_four:
  assumes fresh: "fresh_lines V"
    and ok: "\<forall>(lt, po, c, t1, t2)\<in>set specs. distinct (t1 @ t2) \<and> [] \<notin> set (t1 @ t2)"
  shows "\<exists>is'. length is' = length specs \<and> distinct is' \<and> set is' \<inter> m_id ` set (db_matches d) = {}
    \<and> db_matches (fold (\<lambda>(lt, po, court, t1, t2). createTieLine V ev bid tie lt po court t1 t2) specs d)
        = db_matches d @ map2 (\<lambda>i (lt, po, c, t1, t2). line_row i ev bid tie lt po c) is' specs
    \<and> list_all2 (\<lambda>i (lt, po, c, t1, t2).
        slotPlayers i 1 (fold (\<lambda>(lt, po, court, t1, t2). createTieLine V ev bid tie lt po court t1 t2) specs d) = t1
        \<and> slotPlayers i 2 (fold (\<lambda>(lt, po, court, t1, t2). createTieLine V ev bid tie lt po court t1 t2) specs d) = t2) is' specs
    \<and> (\<forall>i\<in>m_id ` set (db_matches d). \<forall>k.
        slotPlayers i k (fold (\<lambda>(lt, po, court, t1, t2). createTieLine V ev bid tie lt po court t1 t2) specs d) = slotPlayers i k d)"
  using ok
proof (induction specs arbitrary: d)
  case Nil
  then show ?case by (intro exI [of _ "[]"]) simp
next
  case (Cons sp specs)
  obtain lt po c t1 t2 where sp: "sp = (lt, po, c, t1, t2)" by (cases sp)
  have t: "distinct (t1 @ t2)" "[] \<notin> set (t1 @ t2)" using Cons.prems sp by simp_all
  let ?i = "tv_matchId V d"
  let ?d = "createTieLine V ev bid tie lt po c t1 t2 d"
  let ?F = "fold (\<lambda>(lt, po, court, t1, t2). createTieLine V ev bid tie lt po court t1 t2) specs ?d"
  note eff = createTieLine_effect [OF fresh t]
  have new: "?i \<notin> m_id ` set (db_matches d)" "?i \<notin> p_match ` set (db_parts d)" using fresh by (auto simp: fresh_lines_def)
  have old: "slotPlayers i k ?d = slotPlayers i k d" if "i \<in> m_id ` set (db_matches d)" for i k
  proof -
    have "i \<noteq> ?i" using new(1) that by blast
    then show ?thesis unfolding eff by (auto simp: slotPlayers_def line_parts_def filter_empty_conv)
  qed
  have mine: "slotPlayers ?i 1 ?d = t1" "slotPlayers ?i 2 ?d = t2"
    using slot_of_new [OF new(2), of t1 t2] unfolding eff by (simp_all add: slotPlayers_def)
  obtain is' where is': "length is' = length specs" "distinct is'" "set is' \<inter> m_id ` set (db_matches ?d) = {}"
    "db_matches ?F = db_matches ?d @ map2 (\<lambda>i (lt, po, c, t1, t2). line_row i ev bid tie lt po c) is' specs"
    "list_all2 (\<lambda>i (lt, po, c, t1, t2). slotPlayers i 1 ?F = t1 \<and> slotPlayers i 2 ?F = t2) is' specs"
    "\<forall>i\<in>m_id ` set (db_matches ?d). \<forall>k. slotPlayers i k ?F = slotPlayers i k ?d"
    using Cons.IH [of ?d] Cons.prems by (metis (no_types, lifting) list.set_intros(2))
  have md: "db_matches ?d = db_matches d @ [line_row ?i ev bid tie lt po c]" by (simp add: eff)
  have id: "m_id (line_row ?i ev bid tie lt po c) = ?i" by (simp add: line_row_def)
  show ?case
  proof (intro exI [of _ "?i # is'"] conjI)
    show "distinct (?i # is')" using is'(2,3) by (simp add: md id)
    show "set (?i # is') \<inter> m_id ` set (db_matches d) = {}" using is'(3) new(1) by (auto simp: md)
    show "list_all2 (\<lambda>i (lt, po, c, t1, t2).
        slotPlayers i 1 (fold (\<lambda>(lt, po, court, t1, t2). createTieLine V ev bid tie lt po court t1 t2) (sp # specs) d) = t1
        \<and> slotPlayers i 2 (fold (\<lambda>(lt, po, court, t1, t2). createTieLine V ev bid tie lt po court t1 t2) (sp # specs) d) = t2) (?i # is') (sp # specs)"
      using is'(5,6) mine by (simp add: sp md id)
    show "\<forall>i\<in>m_id ` set (db_matches d). \<forall>k.
        slotPlayers i k (fold (\<lambda>(lt, po, court, t1, t2). createTieLine V ev bid tie lt po court t1 t2) (sp # specs) d) = slotPlayers i k d"
      using is'(6) old by (auto simp: sp md)
    show "db_matches (fold (\<lambda>(lt, po, court, t1, t2). createTieLine V ev bid tie lt po court t1 t2) (sp # specs) d)
        = db_matches d @ map2 (\<lambda>i (lt, po, c, t1, t2). line_row i ev bid tie lt po c) (?i # is') (sp # specs)"
      using is'(4) by (simp add: sp md)
  qed (use is'(1) in simp)
qed

section \<open>A tie\<close>

lemma set_line_specs:
  "(lt, po, c, t1, t2) \<in> set (line_specs cA cB sA sB u v) \<Longrightarrow> set (t1 @ t2) \<subseteq> set (lineup_ids u) \<union> set (lineup_ids v)"
  by (auto simp: line_specs_def lineup_ids_def)

lemma four_lines:
  assumes "length is' = length (line_specs cA cB sA sB u v)" "distinct is'"
    and "list_all2 (\<lambda>i (lt, po, c, t1, t2). slotPlayers i 1 d = t1 \<and> slotPlayers i 2 d = t2) is' (line_specs cA cB sA sB u v)"
    and ls: "ls = map2 (\<lambda>i (lt, po, c, t1, t2). line_row i ev bid tie lt po c) is' (line_specs cA cB sA sB u v)"
  shows "map m_line ls = [''md'', ''wd'', ''mx1'', ''mx2'']"
    and "map m_order ls = [Some sA, Some sA, Some sB, Some sB]"
    and "map (\<lambda>m. slotPlayers (m_id m) 1 d) ls = [lu_md u, lu_wd u, lu_mx1 u, lu_mx2 u]"
    and "map (\<lambda>m. slotPlayers (m_id m) 2 d) ls = [lu_md v, lu_wd v, lu_mx1 v, lu_mx2 v]"
    and "\<forall>m\<in>set ls. m_tie m = tie"
proof -
  obtain i j k l where is': "is' = [i, j, k, l]" using assms(1) by (auto simp: line_specs_def length_Suc_conv)
  show "map m_line ls = [''md'', ''wd'', ''mx1'', ''mx2'']" "map m_order ls = [Some sA, Some sA, Some sB, Some sB]"
    "\<forall>m\<in>set ls. m_tie m = tie" by (auto simp: ls is' line_specs_def line_row_def)
  show "map (\<lambda>m. slotPlayers (m_id m) 1 d) ls = [lu_md u, lu_wd u, lu_mx1 u, lu_mx2 u]"
    "map (\<lambda>m. slotPlayers (m_id m) 2 d) ls = [lu_md v, lu_wd v, lu_mx1 v, lu_mx2 v]"
    using assms(3) by (auto simp: ls is' line_specs_def line_row_def)
qed

lemma map_four:
  assumes "map f ls = [a, b, c, e]"
  shows "f (ls ! 0) = a" "f (ls ! 1) = b" "f (ls ! 2) = c" "f (ls ! 3) = e" "length ls = 4" "ls = [ls ! 0, ls ! 1, ls ! 2, ls ! 3]"
  using assms by (auto simp: map_eq_Cons_conv)

definition lines_inv :: "string \<Rightarrow> team_db \<Rightarrow> team_db \<Rightarrow> bool" where
  "lines_inv ev base d \<longleftrightarrow> tb_members d = tb_members base \<and> tb_teams d = tb_teams base \<and> no_orphans d
    \<and> (\<forall>t\<in>set (tb_ties d). ti_event t = ev \<longrightarrow> tie_lines_ok d t)"

text \<open>An entry of the schedule: a team of the event with its roster.\<close>

definition entered :: "string \<Rightarrow> team_db \<Rightarrow> string \<times> member_row list \<Rightarrow> bool" where
  "entered ev d x \<longleftrightarrow> fst x \<in> te_id ` set (event_teams ev d) \<and> snd x = team_members (fst x) d"

lemma tie_written:
  fixes a b :: "string \<times> member_row list"
  assumes V: "fresh_lines V" "fresh_ties V" and ros: "one_roster ev base" and inv: "lines_inv ev base d"
    and ent: "entered ev base a" "entered ev base b" "fst a \<noteq> fst b"
    and run: "createTie V ev bid a b r ti slot d = (x, d')"
  shows "lines_inv ev base d'"
proof (cases x)
  case (Inl e)
  then have "d' = d" using run by (auto simp: createTie_def insert_tie_def Let_def split: sum.splits prod.splits)
  then show ?thesis using inv by simp
next
  case (Inr y)
  obtain aM aW bM bW where lu: "teamLineup (snd a) = Inr (aM, aW)" "teamLineup (snd b) = Inr (bM, bW)"
    using run Inr by (auto simp: createTie_def split: sum.splits prod.splits)
  let ?u = "lineupSet aM aW" and ?v = "lineupSet bM bW" and ?s = "int (slot + r * 2)" and ?tie = "tv_tieId V d"
  define t where "t = \<lparr>ti_id = ?tie, ti_event = ev, ti_stage = ''pool'', ti_bracket = bid, ti_a = fst a, ti_b = fst b,
    ti_status = TieScheduled, ti_winner = [], ti_order = ?s\<rparr>"
  define specs where "specs = line_specs (tie_court ev ti 0 d) (tie_court ev ti 1 d) ?s (?s + 1) ?u ?v"
  let ?F = "fold (\<lambda>(lt, po, court, t1, t2). createTieLine V ev bid ?tie lt po court t1 t2) specs (tb_db d)"
  have d': "d' = d\<lparr>tb_ties := tb_ties d @ [t], tb_db := ?F\<rparr>"
    using run by (simp add: createTie_def lu insert_tie_def write_lines_def t_def specs_def Let_def)
  have team: "fst a \<in> te_id ` set (event_teams ev base)" "fst b \<in> te_id ` set (event_teams ev base)"
    "snd a = team_members (fst a) base" "snd b = team_members (fst b) base" using ent by (auto simp: entered_def)
  note A = lineup_legal [OF ros team(1) lu(1) [unfolded team(3)]] and B = lineup_legal [OF ros team(2) lu(2) [unfolded team(4)]]
  have apart: "set (lineup_ids ?u) \<inter> set (lineup_ids ?v) = {}"
  proof -
    have "p \<noteq> q" if pq: "p \<in> set (lineup_ids ?u)" "q \<in> set (lineup_ids ?v)" for p q
    proof -
      obtain m where m: "m \<in> set (tb_members base)" "tm_team m = fst a" "tm_player m = p" "p \<noteq> []"
        using subsetD [OF A(3) pq(1)] by auto
      obtain n where n: "n \<in> set (tb_members base)" "tm_team n = fst b" "tm_player n = q" "q \<noteq> []"
        using subsetD [OF B(3) pq(2)] by auto
      let ?R = "filter (\<lambda>m. tm_player m \<noteq> [] \<and> tm_team m \<in> te_id ` set (event_teams ev base)) (tb_members base)"
      have "m \<in> set ?R" "n \<in> set ?R" using m n team by auto
      moreover have "m \<noteq> n" using m(2) n(2) ent(3) by auto
      moreover have "inj_on tm_player (set ?R)" using ros unfolding one_roster_def distinct_map by (rule conjunct2)
      ultimately have "tm_player m \<noteq> tm_player n" by (simp only: inj_on_eq_iff simp_thms)
      then show ?thesis by (simp only: m(3) n(3) simp_thms)
    qed
    then show ?thesis by blast
  qed
  have specs_ok: "\<forall>(lt, po, c, t1, t2)\<in>set specs. distinct (t1 @ t2) \<and> [] \<notin> set (t1 @ t2)"
  proof clarify
    fix lt po c t1 t2 assume sp: "(lt, po, c, t1, t2) \<in> set specs"
    have "distinct (lu_wd w @ lu_md w) \<Longrightarrow> distinct (lu_mx1 w @ lu_mx2 w)
        \<Longrightarrow> distinct (lu_md w) \<and> distinct (lu_wd w) \<and> distinct (lu_mx1 w) \<and> distinct (lu_mx2 w)" for w by simp
    then have "distinct t1" "distinct t2" "set t1 \<subseteq> set (lineup_ids ?u)" "set t2 \<subseteq> set (lineup_ids ?v)"
      using sp A(4,5) B(4,5) by (auto simp: specs_def line_specs_def lineup_ids_def)
    then show "distinct (t1 @ t2) \<and> [] \<notin> set (t1 @ t2)" using apart A(2) B(2) by auto
  qed
  from write_four [where specs = specs and ev = ev and bid = bid and tie = ?tie and d = "tb_db d", OF V(1) specs_ok] obtain is' where W: "length is' = length specs" "distinct is'"
    "set is' \<inter> m_id ` set (db_matches (tb_db d)) = {}"
    "db_matches ?F = db_matches (tb_db d) @ map2 (\<lambda>i (lt, po, c, t1, t2). line_row i ev bid ?tie lt po c) is' specs"
    "list_all2 (\<lambda>i (lt, po, c, t1, t2). slotPlayers i 1 ?F = t1 \<and> slotPlayers i 2 ?F = t2) is' specs"
    "\<forall>i\<in>m_id ` set (db_matches (tb_db d)). \<forall>k. slotPlayers i k ?F = slotPlayers i k (tb_db d)"
    by (elim exE conjE) (rule that)
  define ls where "ls = map2 (\<lambda>i (lt, po, c, t1, t2). line_row i ev bid ?tie lt po c) is' specs"
  have W4: "db_matches ?F = db_matches (tb_db d) @ ls" using W(4) by (simp only: ls_def)
  note L = four_lines [OF W(1) [unfolded specs_def] W(2) W(5) [unfolded specs_def] ls_def [unfolded specs_def], folded specs_def]
  have fresh: "?tie \<noteq> []" "?tie \<notin> ti_id ` set (tb_ties d)" using V(2) by (auto simp: fresh_ties_def)
  have same: "tb_members d' = tb_members base" "tb_teams d' = tb_teams base" and orph: "no_orphans d"
    using inv by (auto simp: lines_inv_def d')
  have keep: "keeps_lines d d'"
    unfolding keeps_lines_def using W4 W(6) L(5) fresh inv by (auto simp: d' lines_inv_def intro!: exI [of _ ls])
  have "filter (\<lambda>m. m_tie m = ?tie) (db_matches (tb_db d)) = []"
    unfolding filter_empty_conv using orph fresh unfolding no_orphans_def by metis
  then have mine: "filter (\<lambda>m. m_tie m = ?tie) (db_matches ?F) = ls" using L(5) W4 by simp
  have new: "tie_lines_ok d' t"
  proof -
    have gm: "teamGenderMap (ti_a t) d' = teamGenderMap (fst a) base" "teamGenderMap (ti_b t) d' = teamGenderMap (fst b) base"
      using same by (simp_all add: teamGenderMap_def t_def)
    note side = map_four(1-4) [OF L(3)] map_four(1-4) [OF L(4)] map_four(1-4) [OF L(1)]
    have "distinct (lu_md ?u @ lu_md ?v @ lu_wd ?u @ lu_wd ?v)" "distinct (lu_mx1 ?u @ lu_mx1 ?v @ lu_mx2 ?u @ lu_mx2 ?v)"
      using A(4,5) B(4,5) apart by (auto simp: lineup_ids_def)
    moreover have "list_all (\<lambda>m. validateLineup (m_line m) (slotPlayers (m_id m) 1 ?F) (teamGenderMap (fst a) base) = None
        \<and> validateLineup (m_line m) (slotPlayers (m_id m) 2 ?F) (teamGenderMap (fst b) base) = None) ls"
      using A(1) B(1) by (subst map_four(6) [OF L(1)]) (simp add: side legal_side_def del: One_nat_def)
    ultimately show ?thesis
      using L(1,2) side mine unfolding tie_lines_ok_def Let_def gm by (simp add: d' t_def del: One_nat_def)
  qed
  have "no_orphans d'" using orph L(5) W4 by (auto simp: no_orphans_def d' t_def)
  moreover have "tie_lines_ok d' s" if "s \<in> set (tb_ties d)" "ti_event s = ev" for s
    using keeps_tie [OF keep _ that(1)] inv that by (simp add: lines_inv_def)
  ultimately show ?thesis using same new by (auto simp: lines_inv_def d')
qed

section \<open>The whole schedule\<close>

lemma rounds_apart:
  assumes "distinct ids" "bye \<notin> set ids" "ps \<in> set (roundRobinRounds (length ids))" "(i, j) \<in> set ps"
  shows "ids ! i \<noteq> ids ! j"
proof -
  have two: "2 \<le> length ids" using assms(3) by (auto simp: roundRobinRounds_def split: if_splits)
  obtain k where "k < length (roundRobinRounds (length ids))" "ps = roundRobinRounds (length ids) ! k"
    using assms(3) by (auto simp: in_set_conv_nth)
  then have "(k, ps) \<in> set (enumerate 0 (roundRobinRounds (length ids)))" by (simp add: in_set_enumerate_eq)
  then have "(''b'', ids ! i, ids ! j, int (0 + k * 2)) \<in> set (division_plan ''b'' ids 0)"
    using assms(4) by (force simp: division_plan_def round_plan_def)
  then have "plan_pair (''b'', ids ! i, ids ! j, int (0 + k * 2)) \<in> set (map plan_pair (division_plan ''b'' ids 0))"
    unfolding set_map by (rule imageI)
  moreover have "set (map plan_pair (division_plan ''b'' ids 0)) = {{x, y} | x y. x \<in> set ids \<and> y \<in> set ids \<and> x \<noteq> y}"
    using rr_meetings_set [of ids] division_plan_pairs [of ids "''b''" 0] assms(1,2) two by (simp del: set_map)
  ultimately have "{ids ! i, ids ! j} \<in> {{x, y} | x y. x \<in> set ids \<and> y \<in> set ids \<and> x \<noteq> y}"
    by (simp only: plan_pair_def prod.case)
  then show ?thesis by (auto simp: doubleton_eq_iff)
qed

lemma round_written:
  assumes "fresh_lines V" "fresh_ties V" "one_roster ev base"
    and "lines_inv ev base (snd s)" "emit_round V ev bid teams slot r ti ps s = (x, s')"
    and "\<forall>(i, j)\<in>set ps. i < length teams \<and> j < length teams \<and> fst (teams ! i) \<noteq> fst (teams ! j)"
    and "\<forall>x\<in>set teams. entered ev base x"
  shows "lines_inv ev base (snd s')"
  using assms(4-6)
proof (induction ps arbitrary: ti s)
  case Nil
  then show ?case by (cases s) auto
next
  case (Cons p ps)
  obtain i j where p: "p = (i, j)" by fastforce
  obtain n d where s: "s = (n, d)" by fastforce
  obtain y d1 where c: "createTie V ev bid (teams ! i) (teams ! j) r ti slot d = (y, d1)" by fastforce
  have inv: "lines_inv ev base d1"
    by (rule tie_written [OF assms(1-3) _ _ _ _ c]) (use Cons.prems(1,3) assms(7) in \<open>auto simp: s p\<close>)
  show ?case
  proof (cases y)
    case (Inl e)
    then show ?thesis using Cons.prems(2) c inv by (auto simp: s p)
  next
    case (Inr u)
    then show ?thesis using Cons.IH [of "(n + 1, d1)" "ti + 1"] Cons.prems(2,3) c inv by (simp add: s p)
  qed
qed

lemma rounds_written:
  assumes "fresh_lines V" "fresh_ties V" "one_roster ev base"
    and "lines_inv ev base (snd s)" "emit_rounds V ev bid teams slot r rs s = (x, s')"
    and "\<forall>ps\<in>set rs. \<forall>(i, j)\<in>set ps. i < length teams \<and> j < length teams \<and> fst (teams ! i) \<noteq> fst (teams ! j)"
    and "\<forall>x\<in>set teams. entered ev base x"
  shows "lines_inv ev base (snd s')"
  using assms(4-6)
proof (induction rs arbitrary: r s)
  case (Cons ps rs)
  obtain y s1 where c: "emit_round V ev bid teams slot r 0 ps s = (y, s1)" by (rule prod.exhaust)
  have inv: "lines_inv ev base (snd s1)"
    by (rule round_written [OF assms(1-3) Cons.prems(1) c]) (use Cons.prems(3) assms(7) in auto)
  then show ?case using Cons.IH [OF inv] Cons.prems c by (auto split: option.splits)
qed auto

lemma waves_written:
  assumes "fresh_lines V" "fresh_ties V" "one_roster ev base"
    and "lines_inv ev base (snd s)" "emit_waves V ev byBracket bs slot s = (x, s')"
    and "\<And>b. distinct (map fst (byBracket b)) \<and> bye \<notin> set (map fst (byBracket b)) \<and> (\<forall>x\<in>set (byBracket b). entered ev base x)"
  shows "lines_inv ev base (snd s')"
  using assms(4,5)
proof (induction bs arbitrary: slot s)
  case (Cons b bs)
  let ?n = "length (byBracket b)"
  show ?case
  proof (cases "?n < 2")
    case True
    then show ?thesis using Cons by (simp add: Let_def)
  next
    case False
    obtain y s1 where c: "emit_rounds V ev b (byBracket b) slot 0 (roundRobinRounds ?n) s = (y, s1)" by (rule prod.exhaust)
    have "lines_inv ev base (snd s1)"
    proof (rule rounds_written [OF assms(1-3) Cons.prems(1) c])
      show "\<forall>ps\<in>set (roundRobinRounds ?n). \<forall>(i, j)\<in>set ps. i < ?n \<and> j < ?n \<and> fst (byBracket b ! i) \<noteq> fst (byBracket b ! j)"
      proof (intro ballI, clarify)
        fix ps i j assume p: "ps \<in> set (roundRobinRounds ?n)" "(i, j) \<in> set ps"
        have "i < ?n" "j < ?n" using rounds_below [OF p] by simp_all
        then show "i < ?n \<and> j < ?n \<and> fst (byBracket b ! i) \<noteq> fst (byBracket b ! j)"
          using rounds_apart [of "map fst (byBracket b)" ps i j] assms(6) [of b] p by simp
      qed
    qed (use assms(6) in blast)
    then show ?thesis using Cons.IH [of s1] Cons.prems(2) c False by (auto simp: Let_def split: option.splits)
  qed
qed auto


end
