(* ===== verification/Team_Live.thy ===== *)
theory Team_Live
  imports Team_Lines
begin

text \<open>
  A team event in use: the step relation of its operations, the playoff over any sequence of them, and a concrete
  event with four teams on which the properties of the schedule, the standings and the playoff are run.
\<close>

section \<open>Steps\<close>

text \<open>
  The successful operations: a new schedule, the playoff, the roll-up of a tie, and whatever leaves the ties alone
  (scoring a line before its roll-up, line-ups, rosters, check-in, new teams). Removing a team, which takes its ties
  with it, is left out.
\<close>

inductive team_step :: "team_env \<Rightarrow> team_db \<Rightarrow> team_db \<Rightarrow> bool" for V :: team_env where
  schedule: "GenerateTeamTies V ev d = (Inr n, d') \<Longrightarrow> team_step V d d'"
| playoff: "GeneratePlayoff V ev d = (Inr n, d') \<Longrightarrow> team_step V d d'"
| rollup: "rollupTie V i d = (Inr (), d') \<Longrightarrow> team_step V d d'"
| tables: "tb_ties d' = tb_ties d \<Longrightarrow> team_step V d d'"

inductive_cases team_stepE: "team_step V d d'"

lemma schedule_inv:
  assumes inv: "playoff_inv ev d" and V: "fresh_ties V"
    and run: "GenerateTeamTies V e d = (Inr n, d')"
  shows "playoff_inv ev d'"
proof -
  have ids: "distinct (tie_keys d)" using inv by (simp add: playoff_inv_def)
  note G = generated_ties [OF run V ids]
  show ?thesis
  proof (cases "e = ev")
    case True
    have "filter (is_playoff ev) (tb_ties d') = []" using G(4) True by (auto simp: filter_empty_conv is_playoff_def)
    then have "playoff_ties ev d' = []" by (simp add: playoff_ties_eq)
    then show ?thesis using G(2) by (simp add: playoff_inv_def playoff_wf_def playoff_follows_def ties_of_round_def)
  next
    case False
    have only: "filter (is_playoff ev) (filter (\<lambda>t. ti_event t \<noteq> e) (tb_ties x)) = filter (is_playoff ev) (tb_ties x)" for x
      using False by (auto simp: is_playoff_def intro!: filter_cong)
    then have "playoff_ties ev d' = playoff_ties ev d" by (intro playoff_ties_cong) (simp only: G(1) flip: only)
    then show ?thesis using inv G(2) by (simp add: playoff_inv_def)
  qed
qed

lemma step_inv:
  assumes "team_step V d d'" "fresh_ties V" "playoff_inv ev d"
  shows "playoff_inv ev d'"
  using assms(1)
  by (rule team_stepE)
    (use assms schedule_inv generate_inv rollup_inv tables_only_inv in blast)+

lemma run_inv: "(team_step V)\<^sup>*\<^sup>* d d' \<Longrightarrow> fresh_ties V \<Longrightarrow> playoff_inv ev d \<Longrightarrow> playoff_inv ev d'"
  by (induction rule: rtranclp_induct) (auto intro: step_inv)

lemma fresh_playoff_inv:
  assumes "distinct (tie_keys d)" "list_all (\<lambda>t. ti_winner t = [] \<and> 1000 \<le> ti_order t) (playoff_ties ev d)"
    and "length (playoff_ties ev d) \<le> 100"
  shows "playoff_inv ev d"
proof -
  have "length (ties_of_round r (playoff_ties ev d)) \<le> 100" for r
    using assms(3) order_trans [OF length_filter_le] by (auto simp: ties_of_round_def)
  moreover have "ties_of_round r (playoff_ties ev d) = []" if "decided (ties_of_round r (playoff_ties ev d))" for r
    using that assms(2) by (auto simp: decided_def ties_of_round_def list_all_iff filter_empty_conv)
  ultimately show ?thesis using assms(1,2) by (fastforce simp: playoff_inv_def playoff_wf_def playoff_follows_def list_all_iff)
qed

section \<open>A concrete event\<close>

definition longer :: "string list \<Rightarrow> string" where
  "longer xs = replicate (Suc (fold max (map length xs) 0)) (CHR ''n'')"

lemma fold_max_le: "x \<in> set xs \<Longrightarrow> x \<le> fold max xs (m :: nat)"
  using Max.set_eq_fold [of m xs] Max_ge [of "set (m # xs)" x] by simp

lemma longer_new: "longer xs \<notin> set xs" "longer xs \<noteq> []"
proof -
  show "longer xs \<notin> set xs"
  proof
    assume "longer xs \<in> set xs"
    then have "length (longer xs) \<le> fold max (map length xs) 0" by (intro fold_max_le) auto
    then show False by (simp add: longer_def)
  qed
qed (simp add: longer_def)

definition demo_team_env :: team_env where
  "demo_team_env = \<lparr>tv_matchId = (\<lambda>d. longer (map m_id (db_matches d) @ map p_match (db_parts d))),
    tv_tieId = (\<lambda>d. longer (map ti_id (tb_ties d))), tv_teamId = (\<lambda>d. longer (map te_id (tb_teams d))),
    tv_memberId = (\<lambda>d. longer (map tm_id (tb_members d))), tv_playerId = (\<lambda>d. longer (map tm_player (tb_members d))),
    tv_mapOrder = (\<lambda>xs. xs)\<rparr>"

lemma demo_env_fresh: "fresh_ties demo_team_env" "fresh_lines demo_team_env"
proof -
  show "fresh_ties demo_team_env" using longer_new by (auto simp: fresh_ties_def demo_team_env_def simp flip: set_map)
  have "longer (map m_id ms @ map p_match ps) \<notin> set (map m_id ms @ map p_match ps)" for ms ps by (rule longer_new)
  then show "fresh_lines demo_team_env" by (auto simp: fresh_lines_def demo_team_env_def)
qed

definition demo_players :: "string \<Rightarrow> member_row list" where
  "demo_players t = map (\<lambda>(c, g). \<lparr>tm_id = t @ c, tm_team = t, tm_player = t @ c, tm_name = c, tm_gender = g, tm_checkedIn = True\<rparr>)
    [(''1'', ''M''), (''2'', ''M''), (''3'', ''F''), (''4'', ''F'')]"

definition demo_event :: "string list \<Rightarrow> tie_row list \<Rightarrow> team_db" where
  "demo_event names ties = \<lparr>tb_db = \<lparr>db_matches = [], db_parts = [], db_events = [], db_reports = [], db_rounds = [], db_brackets = []\<rparr>,
    tb_teams = map (\<lambda>t. \<lparr>te_id = t, te_event = ''e'', te_bracket = [], te_name = t\<rparr>) names,
    tb_members = concat (map demo_players names), tb_ties = ties,
    tb_courts = [\<lparr>co_event = ''e'', co_number = 1, co_id = ''c1''\<rparr>, \<lparr>co_event = ''e'', co_number = 2, co_id = ''c2''\<rparr>],
    tb_brackets = [\<lparr>dv_id = ''open'', dv_event = ''e'', dv_start = None\<rparr>], tb_numCourts = (\<lambda>_. 2)\<rparr>"

text \<open>Two teams: one tie, four lines.\<close>

definition two_teams :: team_db where
  "two_teams = demo_event [''a'', ''b''] []"

definition two_teams_drawn :: team_db where
  "two_teams_drawn = snd (GenerateTeamTies demo_team_env ''e'' two_teams)"

lemma two_teams_value:
  "case GenerateTeamTies demo_team_env ''e'' two_teams of (r, d) \<Rightarrow> r = Inr 1
    \<and> map (\<lambda>t. (ti_a t, ti_b t, ti_order t)) (filter (\<lambda>t. ti_event t = ''e'') (tb_ties d)) = [(''a'', ''b'', 0)]"
  by code_simp

lemma two_teams_run:
  "GenerateTeamTies demo_team_env ''e'' two_teams = (Inr 1, two_teams_drawn)"
  "map (\<lambda>t. (ti_a t, ti_b t, ti_order t)) (filter (\<lambda>t. ti_event t = ''e'') (tb_ties two_teams_drawn)) = [(''a'', ''b'', 0)]"
  using two_teams_value by (auto simp: two_teams_drawn_def split: prod.splits)

lemma two_teams_ok:
  "distinct (map te_id (tb_teams two_teams))" "[] \<notin> set (map te_id (tb_teams two_teams))"
  "distinct (map ti_id (tb_ties two_teams))" "[] \<notin> set (map ti_id (tb_ties two_teams))"
  "distinct (map dv_id (tb_brackets two_teams))" "one_roster ''e'' two_teams" "no_orphans two_teams"
  by code_simp+



definition pool_tie :: "string \<Rightarrow> string \<Rightarrow> string \<Rightarrow> int \<Rightarrow> string \<Rightarrow> tie_row" where
  "pool_tie i a b po w = \<lparr>ti_id = i, ti_event = ''e'', ti_stage = ''pool'', ti_bracket = ''open'', ti_a = a, ti_b = b,
    ti_status = TieCompleted, ti_winner = w, ti_order = po\<rparr>"

definition played_pool :: team_db where
  "played_pool = demo_event [''c'', ''a'', ''b'']
    [pool_tie ''1'' ''b'' ''c'' 0 ''c'', pool_tie ''2'' ''a'' ''c'' 2 ''c'', pool_tie ''3'' ''a'' ''b'' 4 ''a'']"



definition semi :: "string \<Rightarrow> string \<Rightarrow> string \<Rightarrow> int \<Rightarrow> tie_row" where
  "semi i a b po = \<lparr>ti_id = i, ti_event = ''e'', ti_stage = ''playoff'', ti_bracket = ''open'', ti_a = a, ti_b = b,
    ti_status = TieScheduled, ti_winner = [], ti_order = po\<rparr>"

definition played_line :: "string \<Rightarrow> string \<times> int \<Rightarrow> mrow" where
  "played_line i x = (line_row (i @ fst x) ''e'' ''open'' i (fst x) 0 [])\<lparr>m_status := Completed, m_winner := snd x\<rparr>"

text \<open>Two semifinals with their lines played: a beats d 3-1, c beats b 4-0.\<close>

definition semifinals :: team_db where
  "semifinals = (let d = demo_event [''a'', ''b'', ''c'', ''d''] [semi ''s1'' ''a'' ''d'' 1100, semi ''s2'' ''b'' ''c'' 1101]
    in d\<lparr>tb_db := (tb_db d)\<lparr>db_matches := map (played_line ''s1'') [(''md'', 1), (''wd'', 1), (''mx1'', 2), (''mx2'', 1)]
      @ map (played_line ''s2'') [(''md'', 2), (''wd'', 2), (''mx1'', 2), (''mx2'', 2)]\<rparr>\<rparr>)"

definition after_semis :: team_db where
  "after_semis = snd (rollupTie demo_team_env ''s2'' (snd (rollupTie demo_team_env ''s1'' semifinals)))"

lemma semis_value:
  "case rollupTie demo_team_env ''s2'' (snd (rollupTie demo_team_env ''s1'' semifinals)) of (r, d) \<Rightarrow> r = Inr ()
    \<and> map ti_winner (ties_of_round 1 (playoff_ties ''e'' d)) = [''a'', ''c''] \<and> list_all (\<lambda>t. 1 \<le> tie_round t) (playoff_ties ''e'' d)"
  by code_simp

lemma semis_run: "(team_step demo_team_env)\<^sup>*\<^sup>* semifinals after_semis"
proof -
  have one: "fst (rollupTie demo_team_env ''s1'' semifinals) = Inr ()" by code_simp
  have two: "fst (rollupTie demo_team_env ''s2'' (snd (rollupTie demo_team_env ''s1'' semifinals))) = Inr ()"
    using semis_value by (auto split: prod.splits)
  have "team_step demo_team_env semifinals (snd (rollupTie demo_team_env ''s1'' semifinals))"
    using one by (intro team_step.rollup [of _ "''s1''"]) (metis prod.collapse)
  moreover have "team_step demo_team_env (snd (rollupTie demo_team_env ''s1'' semifinals)) after_semis"
    using two unfolding after_semis_def by (intro team_step.rollup [of _ "''s2''"]) (metis prod.collapse)
  ultimately show ?thesis by (meson converse_rtranclp_into_rtranclp rtranclp.rtrancl_refl)
qed


section \<open>What the model shows of the code\<close>

text \<open>With one court both doubles of a tie are booked on it in the same slot.\<close>

lemma one_court_is_booked_twice:
  "map (\<lambda>m. (m_line m, m_order m, m_court m)) (db_matches (tb_db (snd (GenerateTeamTies demo_team_env ''e''
      (two_teams\<lparr>tb_courts := [\<lparr>co_event = ''e'', co_number = 1, co_id = ''c1''\<rparr>]\<rparr>)))))
    = [(''md'', Some 0, ''c1''), (''wd'', Some 0, ''c1''), (''mx1'', Some 1, ''c1''), (''mx2'', Some 1, ''c1'')]"
  by code_simp

text \<open>A completed decider without a winner gives the tie to team A.\<close>

lemma unattributed_decider_gives_tie_to_a:
  "map ti_winner (tb_ties (snd (rollupTie demo_team_env ''s1'' ((demo_event [] [(semi ''s1'' ''a'' ''d'' 0)\<lparr>ti_stage := ''pool''\<rparr>])\<lparr>tb_db :=
      \<lparr>db_matches = map (played_line ''s1'') [(''md'', 1), (''wd'', 1), (''mx1'', 2), (''mx2'', 2), (''dec'', 0)],
       db_parts = [], db_events = [], db_reports = [], db_rounds = [], db_brackets = []\<rparr>\<rparr>)))) = [''a'']"
  by code_simp

text \<open>Of two level teams the winner of their meeting is ahead, with fewer lines won.\<close>

lemma meeting_comes_before_lines:
  fixes a b :: team_standing
  defines "a \<equiv> \<lparr>ts_id = ''a'', ts_name = ''a'', ts_tiesWon = 1, ts_tiesLost = 1, ts_linesWon = 3, ts_linesLost = 5, ts_for = 0, ts_against = 0\<rparr>"
    and "b \<equiv> \<lparr>ts_id = ''b'', ts_name = ''b'', ts_tiesWon = 1, ts_tiesLost = 1, ts_linesWon = 7, ts_linesLost = 1, ts_for = 0, ts_against = 0\<rparr>"
  shows "team_before (\<lambda>_. 2) {(''a'', ''b'')} a b \<and> \<not> team_before (\<lambda>_. 2) {(''a'', ''b'')} b a"
  by (simp add: a_def b_def team_before_def)

text \<open>A schedule generated again deletes a tie that is under way, with the lines scored so far.\<close>

definition under_way :: team_db where
  "under_way = (demo_event [''a'', ''b''] [(semi ''s1'' ''a'' ''b'' 0)\<lparr>ti_stage := ''pool'', ti_status := TieInProgress\<rparr>])\<lparr>tb_db :=
    \<lparr>db_matches = map (played_line ''s1'') [(''md'', 1), (''wd'', 1)], db_parts = [], db_events = [], db_reports = [], db_rounds = [],
     db_brackets = []\<rparr>\<rparr>"

lemma scored_lines_are_cleared:
  "case GenerateTeamTies demo_team_env ''e'' under_way of (r, d) \<Rightarrow> r = Inr 1
    \<and> filter (\<lambda>m. m_status m = Completed) (db_matches (tb_db d)) = []"
  by code_simp

end
