(* ===== verification/Spec2Isabelle.thy ===== *)
theory Spec2Isabelle
  imports Schedule Single_Elim Consolation Compass Double_Elim Rotation Scoring Arrange Match_Life
    Score_Reports Draw_Correct Seeding Spread_Courts Ladder_Life Night_Safety Team_Live
begin

text \<open>
  A verification library for the PlanMyPickle backend, the Go server behind a pickleball tournament, league and
  open-play application. The server is a set of HTTP handlers over a PostgREST database. Its own logic is in
  \<open>src/internal/engine\<close> (pure generators of schedules, draws and court rotations) and \<open>src/internal/service\<close>
  (handlers that read tables, decide and write tables back). The library models the engine completely, and of the
  service the parts that decide who plays whom, when, on which court, what a score means and who moves where.

  How the parts fit together. The engine generates a schedule or a draw; the service writes it into the match
  tables, puts its matches on courts and time slots, and from then on every recorded score runs through one pipeline:
  validate, write the result, undo what depended on an older result, advance the winner, seed the playoff, close the
  event, start the next game on the freed court. Standings are computed from the tables on demand and feed the
  playoff draws. Team events, ladders and rotation nights are further ways to run a competition: a team tie is rolled
  up from its lines, a ladder is one ranking per division changed by challenges, a rotation night is a timed session
  of the river (winners up, losers down) whose players come from a ladder division.

  \<^bold>\<open>Shared.\<close> \<open>Pickle_Prelude\<close>: Go's slices, comparator sorts (\<open>sort.SliceStable\<close> is \<open>sort_by\<close>, an insertion sort
  proved a stable permutation; the locales \<open>strict_weak_less\<close> and \<open>strict_total_less\<close> are the contract of a comparator,
  interpreted for the comparators of the code), decimal rendering of integers.

  \<^bold>\<open>Engine.\<close> \<open>Round_Robin\<close>, \<open>Mixer\<close>, \<open>Schedule\<close>: \<open>engine/schedule.go\<close>; the circle method meets every pair once, a player
  is on court once per round, the mixer keeps games within one of each other. \<open>Single_Elim\<close>: \<open>engine/bracket.go\<close>;
  generation returns, everybody is seated once, a field of n plays n - 1 games, favourites are kept apart.
  \<open>Token_Flow\<close>, \<open>Consolation\<close>, \<open>Compass\<close>, \<open>Double_Elim\<close>: the draws for losers (\<open>consolation.go\<close>, \<open>compass.go\<close>,
  \<open>double_elim.go\<close>), on one token flow. \<open>Rotation\<close>: \<open>engine/rotation.go\<close>, one step of the river with its bench and the
  equal-court-time pass; the locale \<open>layout_mover\<close> is what a movement promises (nobody lost, layout valid), interpreted
  for both movements.

  \<^bold>\<open>Matches.\<close> \<open>Scoring\<close> (\<open>service/scoring.go\<close>) accepts exactly the scores a rally-by-rally game can end with. \<open>Match_Db\<close> holds
  the match tables and the advancement of sides; \<open>Match_Control\<close> the handlers of \<open>service.go\<close> around one match;
  \<open>Advancement\<close>, \<open>Match_Control_Props\<close> and \<open>Match_Life\<close> their properties: the draw invariant (every slot fed by a finished
  match holds exactly the side that match sends there, every slot fed by an unfinished one is empty) is kept by every
  recording, correction and forfeit; results exist exactly on completed matches (locale \<open>result_invariant\<close>).
  \<open>Score_Reports\<close>: reports by players (\<open>score_reports.go\<close>). \<open>Draw_Persist\<close>, \<open>Draw_Correct\<close>: writing draws into the tables
  with batched updates, refined to the generator's plan. \<open>Arrange\<close>, \<open>Spread_Courts\<close>: courts and slots of pool and bracket
  matches without clashes. \<open>Standings\<close>, \<open>Seeding\<close>: box scores, rankings, pools, playoff seeds.

  \<^bold>\<open>Ladders.\<close> \<open>Ladder\<close>, \<open>Ladder_Challenges\<close> (\<open>ladder.go\<close>, \<open>ladder_identity.go\<close>, \<open>ladder_challenges.go\<close>), \<open>Ladder_Life\<close>: the
  operations as one datatype, their effect on a challenge, the limits on open challenges, who can move a position, and
  that the sweep clears what is overdue.

  \<^bold>\<open>Rotation nights.\<close> \<open>Rotation_Night\<close>, \<open>Rotation_Advance\<close>, \<open>Rotation_Sweep\<close> (\<open>ladder_rotation.go\<close>,
  \<open>rotation_corrections.go\<close>, \<open>rotation_sweep.go\<close>); \<open>Night_Layout\<close>, \<open>Night_Props\<close>, \<open>Night_Life\<close>, \<open>Night_Safety\<close>: the layout of
  the next round is sound, an undecided round is held, pausing loses no time, and over all sequences of calls a night
  never contradicts itself. The invariant is that the running round is a layout the engine accepts and that the
  handovers of substituted players never lead from somebody who is playing to somebody who is playing.

  \<^bold>\<open>Team events.\<close> \<open>Team_Ties\<close>, \<open>Team_Playoff\<close> (\<open>mlp.go\<close>): teams, rosters and line-ups, the schedule of ties with their four
  lines, the standings, the playoff that grows as ties are won, the roll-up of a tie from its lines with the decider.
  \<open>Team_Props\<close>: the standings are one definite order and balance (locale \<open>tie_balance\<close>, interpreted for ties, lines and
  points). \<open>Team_Schedule\<close>: the rounds are the engine's circle method, and the schedule is a round robin per division in
  which no team has two ties at once. \<open>Team_Lines\<close>: every generated line-up is legal and nobody plays two lines of one
  slot. \<open>Team_Bracket\<close>, \<open>Team_Live\<close>: over any sequence of operations (\<open>team_step\<close>) a decided playoff round is followed by
  its winners, also after corrections; and concrete events.

  \<^bold>\<open>Conventions.\<close> A table is a list of records in the order the handlers read it, a nullable text reads as the empty
  string, a nullable number as an option or as 0 where the code reads it with \<open>asInt\<close>; a Go map read with a default is a
  total function. An error is a value of a sum or of an error datatype, and a handler returns its tables with it, so
  writes made before a later error stay written. Functions such as \<open>find_match\<close>, \<open>update_match\<close>, \<open>session_of\<close>,
  \<open>update_session\<close> stand for the database calls and have no source line of their own. Times are integers (seconds or
  milliseconds). Ratings and percentages, \<open>float64\<close> in the code, are exact rationals. \<open>strings.TrimSpace\<close> is modelled on ASCII.
  A new id is a function of the environment, assumed not to be in use. Randomness is an argument.

  \<^bold>\<open>Loops and fuel.\<close> Loops that are not structural are \<open>function\<close>s with a measure or \<open>partial_function (option)\<close>, and then
  a property or lemma says they return: \<open>GenerateBracket\<close>'s advancement, the reset cascade (bounded by the results it
  clears), the slot search of the court layout. \<open>resolve_hops\<close> carries the code's own bound, one hop per handover. The
  challenge sweep handles 200 rows per run, as the code does; its property says how many runs clear how much.

  \<^bold>\<open>Outside the repository.\<close> The stored procedures \<open>apply_ladder_result\<close>, \<open>move_ladder_entrant\<close>, \<open>resolve_ladder_challenge\<close>,
  \<open>start_rotation_session\<close>, \<open>advance_rotation_session\<close>, \<open>end_rotation_session\<close>, \<open>rotation_join_bench\<close> and \<open>pmp_standings\<close> are
  parameters (records of functions); the properties that need them assume what their callers document (\<open>rpc_laws\<close>,
  \<open>resolver_laws\<close>, \<open>night_laws\<close>) and each has a concrete instance. \<open>rotation_substitute\<close> is in \<open>src/migrations\<close> and is
  translated.

  \<^bold>\<open>Not modelled.\<close> HTTP routing and authentication, clients of Stripe, PayPal, Twilio, DUPR, email and push, rendering of
  posters, calendars and pages, token generation, and the modules that are create, read and update handlers over tables
  without an algorithm (clubs, coaching, community, vendors). Inside the modelled handlers, notices, log lines and the
  DUPR queue are left out, database calls fail only where the code treats the failure on purpose, and concurrency is the
  order of whole calls, except that an advance of a rotation night is split at its hand-over to the database. The
  manifest lists every part with its status.
\<close>

end
